(* ===== verification/VectorPrelude.thy ===== *)
theory VectorPrelude
  imports Main "HOL-Library.AList"
begin

text \<open>
  Shared vocabulary of the development: the types every component uses (instants and
  durations as integers counting microseconds, UUIDs, Python exceptions as values), generic
  reachability with the invariant rule as a locale, and the lemmas on association lists and
  on lists that the component theories share.
\<close>

section \<open>Types\<close>

text \<open>
  Python's \<^verbatim>\<open>datetime\<close> and \<^verbatim>\<open>timedelta\<close> (and PostgreSQL's
  \<^verbatim>\<open>timestamptz\<close> and \<^verbatim>\<open>interval\<close>) have microsecond resolution: both are
  integers here, counted in microseconds.
\<close>

type_synonym time = int

type_synonym duration = int

type_synonym uuid = nat

text \<open>A Python \<^verbatim>\<open>str\<close> is a sequence of Unicode code points.\<close>

type_synonym pystr = "nat list"

definition seconds :: "int \<Rightarrow> duration" where
  "seconds n = n * 1000000"

text \<open>The literal \<^verbatim>\<open>"..."\<close> of the source, for ASCII text.\<close>

definition lit :: "string \<Rightarrow> pystr" where
  "lit s = map of_char s"

text \<open>An exception that ends a computation of the source is a value.\<close>

datatype py_exc =
    ValueError
  | TypeError
  | RuntimeError
  | KeyError
  | ValidationError
  | IntegrityError

section \<open>Collections of facts\<close>

named_theorems row_simps \<open>projections of the table updates\<close>
named_theorems inv_intros \<open>one preservation lemma per operation\<close>

section \<open>Reachability and the invariant rule\<close>

inductive reach :: "('s \<Rightarrow> bool) \<Rightarrow> ('s \<Rightarrow> 's \<Rightarrow> bool) \<Rightarrow> 's \<Rightarrow> bool"
  for start :: "'s \<Rightarrow> bool" and step :: "'s \<Rightarrow> 's \<Rightarrow> bool" where
  reach_start: "start s \<Longrightarrow> reach start step s"
| reach_step: "reach start step s \<Longrightarrow> step s t \<Longrightarrow> reach start step t"

text \<open>Reachability from a given state, used for properties that later steps cannot undo.\<close>

abbreviation leads_to :: "('s \<Rightarrow> 's \<Rightarrow> bool) \<Rightarrow> 's \<Rightarrow> 's \<Rightarrow> bool" where
  "leads_to step s \<equiv> reach (\<lambda>x. x = s) step"

lemma leads_to_trans: "leads_to step s t \<Longrightarrow> leads_to step t u \<Longrightarrow> leads_to step s u"
  by (rotate_tac 1, induction rule: reach.induct) (auto intro: reach_step)

text \<open>
  The contract between a component and its invariant: the initial states satisfy it and no
  step of any client breaks it. The component theories interpret this locale on their own
  step relation.
\<close>

locale invariant_system =
  fixes start :: "'s \<Rightarrow> bool"
    and step :: "'s \<Rightarrow> 's \<Rightarrow> bool"
    and inv :: "'s \<Rightarrow> bool"
  assumes inv_start: "start s \<Longrightarrow> inv s"
    and inv_step: "step s t \<Longrightarrow> inv s \<Longrightarrow> inv t"
begin

lemma reach_inv: "reach start step s \<Longrightarrow> inv s"
  by (induction rule: reach.induct) (auto intro: inv_start inv_step)

lemma leads_to_inv: "leads_to step s t \<Longrightarrow> inv s \<Longrightarrow> inv t"
  by (induction rule: reach.induct) (auto intro: inv_step)

lemma reach_step_inv: "reach start step s \<Longrightarrow> step s t \<Longrightarrow> inv t"
  by (auto intro: reach_inv inv_step)

end

text \<open>A system with an invariant and an order that its steps respect from invariant states.\<close>

locale monotone_system = invariant_system start step inv
  for start :: "'s \<Rightarrow> bool" and step :: "'s \<Rightarrow> 's \<Rightarrow> bool" and inv :: "'s \<Rightarrow> bool" +
  fixes le :: "'s \<Rightarrow> 's \<Rightarrow> bool"
  assumes le_refl: "le s s"
    and le_trans: "le s t \<Longrightarrow> le t u \<Longrightarrow> le s u"
    and le_step: "inv s \<Longrightarrow> step s t \<Longrightarrow> le s t"
begin

lemma leads_to_le: "leads_to step s t \<Longrightarrow> inv s \<Longrightarrow> le s t"
proof (induction rule: reach.induct)
  case (reach_start u)
  then show ?case by (simp add: le_refl)
next
  case (reach_step u v)
  have "inv u" using reach_step.hyps(1) reach_step.prems by (rule leads_to_inv)
  then have "le u v" using reach_step.hyps(2) by (rule le_step)
  with reach_step show ?case by (blast intro: le_trans)
qed

end

section \<open>Association lists as tables\<close>

text \<open>
  A table of the database is an association list from the primary key to the row: what the
  queries of the source range over is the list, a lookup by key is \<^const>\<open>map_of\<close>.
\<close>

lemma map_of_AList_update [simp]:
  "map_of (AList.update k v t) = (map_of t)(k \<mapsto> v)"
  by (rule AList.update_conv')

lemma set_update_distinct:
  "distinct (map fst t) \<Longrightarrow>
   (k', v') \<in> set (AList.update k v t) \<longleftrightarrow> (if k' = k then v' = v else (k', v') \<in> set t)"
  using AList.distinct_update [of t k v] map_of_AList_update [of k v t]
  by (metis (no_types, lifting) fun_upd_apply map_of_eq_Some_iff option.inject)

lemma map_of_set_iff:
  "distinct (map fst t) \<Longrightarrow> (k, v) \<in> set t \<longleftrightarrow> map_of t k = Some v"
  by (metis map_of_eq_Some_iff)

section \<open>Lists\<close>

lemma take_while_length_le: "length (takeWhile P xs) \<le> length xs"
  by (rule length_takeWhile_le)

lemma sum_list_indicator: "(\<Sum>x\<leftarrow>xs. if P x then 1 else 0) = length (filter P xs)"
  by (induction xs) auto

end
