(* ===== verification/PyText.thy ===== *)
theory PyText
  imports VectorPrelude
begin

text \<open>
  The string operations of the Python standard library that the components use, on sequences
  of code points: \<^verbatim>\<open>str.isspace\<close>, \<^verbatim>\<open>str.strip\<close> and slicing to a
  maximal length, and the non-blank string type of the answer contract.
\<close>

text \<open>\<^verbatim>\<open>str.isspace\<close> on one character (the Unicode white space of CPython).\<close>

definition is_space :: "nat \<Rightarrow> bool" where
  "is_space c \<longleftrightarrow> (9 \<le> c \<and> c \<le> 13) \<or> (28 \<le> c \<and> c \<le> 32) \<or> c = 133 \<or> c = 160 \<or> c = 5760
     \<or> (8192 \<le> c \<and> c \<le> 8202) \<or> c = 8232 \<or> c = 8233 \<or> c = 8239 \<or> c = 8287 \<or> c = 12288"

definition lstrip :: "pystr \<Rightarrow> pystr" where
  "lstrip s = dropWhile is_space s"

definition rstrip :: "pystr \<Rightarrow> pystr" where
  "rstrip s = rev (dropWhile is_space (rev s))"

definition strip :: "pystr \<Rightarrow> pystr" where
  "strip s = rstrip (lstrip s)"

definition is_blank :: "pystr \<Rightarrow> bool" where
  "is_blank s \<longleftrightarrow> strip s = []"

lemma rstrip_Nil_iff: "rstrip s = [] \<longleftrightarrow> (\<forall>c \<in> set s. is_space c)"
  by (simp add: rstrip_def)

lemma lstrip_Nil_iff: "lstrip s = [] \<longleftrightarrow> (\<forall>c \<in> set s. is_space c)"
  by (simp add: lstrip_def)

lemma is_blank_iff: "is_blank s \<longleftrightarrow> (\<forall>c \<in> set s. is_space c)"
proof -
  have "is_blank s \<longleftrightarrow> (\<forall>c \<in> set (lstrip s). is_space c)"
    by (simp add: is_blank_def strip_def rstrip_Nil_iff)
  also have "\<dots> \<longleftrightarrow> (\<forall>c \<in> set s. is_space c)"
    by (induction s) (auto simp: lstrip_def)
  finally show ?thesis .
qed

lemma rstrip_append_space:
  assumes "\<forall>c \<in> set w. is_space c"
  shows "rstrip (s @ w) = rstrip s"
  using assms by (simp add: rstrip_def dropWhile_append)

lemma rstrip_snoc: "\<not> is_space c \<Longrightarrow> rstrip (s @ [c]) = s @ [c]"
  by (simp add: rstrip_def)

lemma strip_idem_ends:
  "strip s \<noteq> [] \<Longrightarrow> \<not> is_space (hd (strip s)) \<and> \<not> is_space (last (strip s))"
proof -
  assume ne: "strip s \<noteq> []"
  have last_ok: "\<not> is_space (last (strip s))"
    using ne unfolding strip_def rstrip_def
    by (metis hd_dropWhile last_rev rev_is_Nil_conv)
  obtain w where w: "lstrip s = strip s @ w"
    unfolding strip_def rstrip_def
    by (metis rev_append rev_rev_ident takeWhile_dropWhile_id)
  then have "hd (lstrip s) = hd (strip s)" using ne by simp
  moreover have "lstrip s \<noteq> []" using w ne by auto
  ultimately show ?thesis
    using last_ok by (metis hd_dropWhile lstrip_def)
qed

lemma strip_idem [simp]: "strip (strip s) = strip s"
proof (cases "strip s = []")
  case True
  then show ?thesis by (simp only: True) (simp add: strip_def lstrip_def rstrip_def)
next
  case False
  have h: "\<not> is_space (hd (strip s))" and l: "\<not> is_space (last (strip s))"
    using strip_idem_ends [OF False] by auto
  have "lstrip (strip s) = strip s"
    using False h by (cases "strip s") (auto simp: lstrip_def)
  moreover have "rstrip (strip s) = strip s"
    using rstrip_snoc [OF l, of "butlast (strip s)"] False by simp
  ultimately show ?thesis by (simp add: strip_def)
qed

lemma strip_fixed:
  assumes "s \<noteq> []" "\<not> is_space (hd s)" "\<not> is_space (last s)"
  shows "strip s = s"
proof -
  have "lstrip s = s" using assms by (cases s) (auto simp: lstrip_def)
  moreover have "rstrip s = s" using rstrip_snoc [OF assms(3), of "butlast s"] assms(1) by simp
  ultimately show ?thesis by (simp add: strip_def)
qed

text \<open>Slicing \<^verbatim>\<open>s[:n]\<close>.\<close>

definition clamp_chars :: "nat \<Rightarrow> pystr \<Rightarrow> pystr" where
  "clamp_chars n s = take n s"

lemma length_clamp_chars: "length (clamp_chars n s) \<le> n"
  by (simp add: clamp_chars_def)

section \<open>Constrained strings of the contracts\<close>

text \<open>
  The \<^verbatim>\<open>strip_whitespace\<close> constraint of the validation library removes the
  characters with the Unicode property White\_Space, which lacks the four information
  separators that \<^verbatim>\<open>str.strip\<close> also removes.
\<close>

definition is_white_space :: "nat \<Rightarrow> bool" where
  "is_white_space c \<longleftrightarrow> is_space c \<and> \<not> (28 \<le> c \<and> c \<le> 31)"

definition constrained_strip :: "pystr \<Rightarrow> pystr" where
  "constrained_strip s = rev (dropWhile is_white_space (rev (dropWhile is_white_space s)))"

text \<open>
  \<^verbatim>\<open>NonBlankText\<close> of \<^verbatim>\<open>agent/contract.py\<close>: a string stripped on
  construction that must not be empty afterwards.
\<close>

definition non_blank_text :: "pystr \<Rightarrow> py_exc + pystr" where
  "non_blank_text s =
     (if constrained_strip s = [] then Inl ValidationError else Inr (constrained_strip s))"

fun non_blank_texts :: "pystr list \<Rightarrow> py_exc + pystr list" where
  "non_blank_texts [] = Inr []"
| "non_blank_texts (s # ss) =
     (case non_blank_text s of
        Inl e \<Rightarrow> Inl e
      | Inr t \<Rightarrow> (case non_blank_texts ss of Inl e \<Rightarrow> Inl e | Inr ts \<Rightarrow> Inr (t # ts)))"

lemma constrained_strip_split:
  "\<exists>v w. s = v @ constrained_strip s @ w \<and> (\<forall>c \<in> set v. is_white_space c) \<and>
     (\<forall>c \<in> set w. is_white_space c)"
proof -
  let ?t = "dropWhile is_white_space s"
  have "s = takeWhile is_white_space s @ ?t" by simp
  moreover have "?t = constrained_strip s @ rev (takeWhile is_white_space (rev ?t))"
    unfolding constrained_strip_def by (metis rev_append rev_rev_ident takeWhile_dropWhile_id)
  ultimately show ?thesis
    by (metis set_takeWhileD set_rev)
qed

lemma constrained_strip_Nil_iff:
  "constrained_strip s = [] \<longleftrightarrow> (\<forall>c \<in> set s. is_white_space c)"
proof
  assume "constrained_strip s = []"
  then show "\<forall>c \<in> set s. is_white_space c"
    using constrained_strip_split [of s] by auto
next
  assume "\<forall>c \<in> set s. is_white_space c"
  then have "dropWhile is_white_space s = []" by simp
  then show "constrained_strip s = []" unfolding constrained_strip_def by (simp only:) simp
qed

lemma constrained_strip_ends:
  assumes "s \<noteq> []" "\<not> is_white_space (hd s)" "\<not> is_white_space (last s)"
  shows "constrained_strip s = s"
proof -
  have "dropWhile is_white_space s = s" using assms by (cases s) auto
  moreover have "dropWhile is_white_space (rev s) = rev s"
    using assms by (cases "rev s") (auto simp flip: hd_rev)
  ultimately show ?thesis by (simp add: constrained_strip_def)
qed

lemma constrained_strip_Nil [simp]: "constrained_strip [] = []"
  by (simp add: constrained_strip_def)

lemma constrained_strip_idem: "constrained_strip (constrained_strip s) = constrained_strip s"
proof (cases "constrained_strip s = []")
  case True
  then show ?thesis by (simp only: True constrained_strip_Nil)
next
  case False
  let ?t = "dropWhile is_white_space s"
  have last_ok: "\<not> is_white_space (last (constrained_strip s))"
    using False unfolding constrained_strip_def by (metis hd_dropWhile last_rev rev_is_Nil_conv)
  obtain w where w: "?t = constrained_strip s @ w"
    unfolding constrained_strip_def by (metis rev_append rev_rev_ident takeWhile_dropWhile_id)
  then have "?t \<noteq> []" "hd ?t = hd (constrained_strip s)" using False by auto
  then have "\<not> is_white_space (hd (constrained_strip s))" using hd_dropWhile by metis
  then show ?thesis using False last_ok by (intro constrained_strip_ends)
qed

lemma constrained_strip_strip [simp]: "constrained_strip (strip s) = strip s"
proof (cases "strip s = []")
  case True
  then show ?thesis by (simp add: constrained_strip_def)
next
  case False
  then show ?thesis
    using strip_idem_ends [OF False] by (intro constrained_strip_ends) (auto simp: is_white_space_def)
qed

lemma constrained_strip_not_Nil: "strip s \<noteq> [] \<Longrightarrow> constrained_strip s \<noteq> []"
  using is_blank_iff [of s] by (auto simp: constrained_strip_Nil_iff is_blank_def is_white_space_def)

lemma non_blank_text_ok_iff: "(\<exists>t. non_blank_text s = Inr t) \<longleftrightarrow> constrained_strip s \<noteq> []"
  by (simp add: non_blank_text_def)

lemma non_blank_texts_ok:
  "\<forall>s \<in> set ss. constrained_strip s \<noteq> [] \<Longrightarrow> non_blank_texts ss = Inr (map constrained_strip ss)"
  by (induction ss) (auto simp: non_blank_text_def)

section \<open>Decimal numbers\<close>

definition is_ascii_digit :: "nat \<Rightarrow> bool" where
  "is_ascii_digit c \<longleftrightarrow> 48 \<le> c \<and> c \<le> 57"

text \<open>\<^verbatim>\<open>str\<close> of a natural number.\<close>

function str_of_nat :: "nat \<Rightarrow> pystr" where
  "str_of_nat n = (if n < 10 then [48 + n] else str_of_nat (n div 10) @ [48 + n mod 10])"
  by pat_completeness auto
termination by (relation "measure id") auto

declare str_of_nat.simps [simp del]

definition value_of_digits :: "pystr \<Rightarrow> nat" where
  "value_of_digits s = foldl (\<lambda>a c. a * 10 + (c - 48)) 0 s"

lemma value_of_str_of_nat: "value_of_digits (str_of_nat n) = n"
proof (induction n rule: str_of_nat.induct)
  case (1 n)
  show ?case
  proof (cases "n < 10")
    case True
    then show ?thesis by (simp add: str_of_nat.simps [of n] value_of_digits_def)
  next
    case False
    then show ?thesis
      using 1 by (simp add: str_of_nat.simps [of n] value_of_digits_def)
  qed
qed

lemma str_of_nat_inj [simp]: "str_of_nat m = str_of_nat n \<longleftrightarrow> m = n"
  by (metis value_of_str_of_nat)

lemma str_of_nat_not_Nil [simp]: "str_of_nat n \<noteq> []"
  by (subst str_of_nat.simps) simp

lemma str_of_nat_digits: "list_all is_ascii_digit (str_of_nat n)"
proof (induction n rule: str_of_nat.induct)
  case (1 n)
  then show ?case
    by (cases "n < 10") (auto simp: str_of_nat.simps [of n] is_ascii_digit_def [of "48 + _"])
qed

text \<open>
  \<^verbatim>\<open>int(s)\<close> of a string: white space around it, a sign, digits with single
  underscores between them. Digits and spaces outside ASCII are not modelled.
\<close>

definition is_c_space :: "nat \<Rightarrow> bool" where
  "is_c_space c \<longleftrightarrow> (9 \<le> c \<and> c \<le> 13) \<or> c = 32"

fun underscored_digits :: "pystr \<Rightarrow> bool" where
  "underscored_digits [] = False"
| "underscored_digits [c] = is_ascii_digit c"
| "underscored_digits (c # d # s) =
     (is_ascii_digit c \<and> (if d = 95 then underscored_digits s else underscored_digits (d # s)))"

definition py_int :: "pystr \<Rightarrow> int option" where
  "py_int s =
     (let t = rev (dropWhile is_c_space (rev (dropWhile is_c_space s)));
          (negative, digits) =
            (case t of [] \<Rightarrow> (False, t)
             | c # u \<Rightarrow> if c = 45 then (True, u) else if c = 43 then (False, u) else (False, t))
      in if underscored_digits digits
         then (let n = int (value_of_digits (filter is_ascii_digit digits)) in Some (if negative then - n else n))
         else None)"

lemma underscored_plain: "d \<noteq> [] \<Longrightarrow> list_all is_ascii_digit d \<Longrightarrow> underscored_digits d"
proof (induction d rule: underscored_digits.induct)
  case (3 c d s)
  then show ?case by (auto simp: is_ascii_digit_def)
qed auto

lemma py_int_str_of_nat: "py_int (str_of_nat n) = Some (int n)"
proof -
  let ?d = "str_of_nat n"
  have dig: "list_all is_ascii_digit ?d" by (rule str_of_nat_digits)
  have "\<not> is_c_space c" if "c \<in> set ?d" for c
    using dig that by (auto simp: list_all_iff is_ascii_digit_def is_c_space_def)
  then have "dropWhile is_c_space ?d = ?d" "dropWhile is_c_space (rev ?d) = rev ?d"
    by (metis dropWhile_eq_self_iff hd_in_set, metis dropWhile_eq_self_iff hd_in_set set_rev)
  moreover obtain c u where "?d = c # u" by (cases ?d) auto
  moreover from this have "c \<noteq> 45" "c \<noteq> 43" using dig by (auto simp: is_ascii_digit_def)
  moreover have "filter is_ascii_digit ?d = ?d" using dig by (simp add: list_all_iff)
  ultimately show ?thesis
    using underscored_plain [OF str_of_nat_not_Nil dig] value_of_str_of_nat [of n]
    by (simp add: py_int_def Let_def)
qed

section \<open>UTF-8\<close>

text \<open>\<^verbatim>\<open>str.encode("utf-8")\<close>: a surrogate raises a \<^verbatim>\<open>UnicodeEncodeError\<close>, which is a
  \<^verbatim>\<open>ValueError\<close>.\<close>

fun utf8_encode :: "pystr \<Rightarrow> py_exc + nat list" where
  "utf8_encode [] = Inr []"
| "utf8_encode (c # cs) =
     (if 55296 \<le> c \<and> c \<le> 57343 then Inl ValueError
      else map_sum id (\<lambda>bs.
        (if c < 128 then [c]
         else if c < 2048 then [192 + c div 64, 128 + c mod 64]
         else if c < 65536 then [224 + c div 4096, 128 + c div 64 mod 64, 128 + c mod 64]
         else [240 + c div 262144, 128 + c div 4096 mod 64, 128 + c div 64 mod 64, 128 + c mod 64])
        @ bs) (utf8_encode cs))"

end
