(* ===== verification/AnswerContract.thy ===== *)
theory AnswerContract
  imports PyText
begin

text \<open>
  The shared contract of the agent (\<^verbatim>\<open>agent/contract.py\<close>): the plan type, the
  sources of an answer and the final result with its validation.
\<close>

datatype plan_type = Direct_answer | Search

datatype answer_source =
    InternalArticleSource (source_ref: pystr) (source_article_id: int) (source_title: pystr)
      (source_published_at: "time option")
  | ExternalUrlSource (source_ref: pystr) (source_url: pystr) (source_title: pystr)
      (source_claim: pystr) (source_published_at: "time option") (source_name: "pystr option")

datatype answer_status = Answered | Insufficient

record question_result =
  result_status :: answer_status
  result_answer :: pystr
  result_sources :: "answer_source list"
  result_missing_aspects :: "pystr list"
  result_plan_type :: plan_type

definition make_question_result ::
    "answer_status \<Rightarrow> pystr \<Rightarrow> answer_source list \<Rightarrow> pystr list \<Rightarrow> plan_type
       \<Rightarrow> py_exc + question_result" where
  "make_question_result status answer sources missing pt =
     (case non_blank_text answer of
        Inl x \<Rightarrow> Inl x
      | Inr a \<Rightarrow>
          (case non_blank_texts missing of
             Inl x \<Rightarrow> Inl x
           | Inr ms \<Rightarrow>
               if status = Answered \<and> pt = Search \<and> sources = [] then Inl ValidationError
               else if status = Answered \<and> ms \<noteq> [] then Inl ValidationError
               else if status = Insufficient \<and> ms = [] then Inl ValidationError
               else if pt = Direct_answer \<and> sources \<noteq> [] then Inl ValidationError
               else Inr \<lparr>result_status = status, result_answer = a, result_sources = sources,
                         result_missing_aspects = ms, result_plan_type = pt\<rparr>))"

end
