(* ===== verification/Planning.thy ===== *)
theory Planning
  imports AnswerContract
begin

text \<open>
  The question plan (\<^verbatim>\<open>agent/planning/contract.py\<close>): the validated plan types, the
  conversion of the model's draft into a plan with its query budget, and the planning service's
  attempt loop (\<^verbatim>\<open>agent/planning/service.py\<close>). \<^verbatim>\<open>str.casefold\<close> is the
  argument \<^term>\<open>casefold\<close> of the definitions: nothing depends on the Unicode table.
\<close>

definition MAX_ARTICLE_SEARCH_QUERIES :: nat where "MAX_ARTICLE_SEARCH_QUERIES = 3"
definition RESEARCH_TASK_LIMIT :: nat where "RESEARCH_TASK_LIMIT = 3"
definition RESEARCH_GOAL_MAX_CHARS :: nat where "RESEARCH_GOAL_MAX_CHARS = 200"

section \<open>Publication windows\<close>

datatype window_kind =
    Today
  | Yesterday
  | Last_n_days
  | This_week
  | Last_week
  | This_month
  | Calendar_month
  | Date_range
  | Unsupported_explicit_window

text \<open>A \<^verbatim>\<open>date\<close> is its proleptic Gregorian ordinal; \<^verbatim>\<open>date.max\<close> has ordinal 3652059.\<close>

definition DATE_MAX :: int where "DATE_MAX = 3652059"

record target_time_window =
  window_kind :: window_kind
  window_year :: "int option"
  window_month :: "int option"
  window_days :: "int option"
  start_date :: "int option"
  end_date_inclusive :: "int option"

definition in_range :: "int \<Rightarrow> int \<Rightarrow> int option \<Rightarrow> bool" where
  "in_range lo hi v = (case v of None \<Rightarrow> True | Some x \<Rightarrow> lo \<le> x \<and> x \<le> hi)"

definition validate_target_time_window :: "target_time_window \<Rightarrow> py_exc + target_time_window" where
  "validate_target_time_window w =
     (if \<not> (in_range 1 9999 (window_year w) \<and> in_range 1 12 (window_month w)
             \<and> in_range 1 60 (window_days w))
      then Inl ValidationError
      else if window_kind w = Calendar_month \<and> (window_year w = None \<or> window_month w = None)
      then Inl ValidationError
      else if window_kind w \<noteq> Calendar_month \<and> (window_year w \<noteq> None \<or> window_month w \<noteq> None)
      then Inl ValidationError
      else if window_kind w = Last_n_days \<and> window_days w = None then Inl ValidationError
      else if window_kind w \<noteq> Last_n_days \<and> window_days w \<noteq> None then Inl ValidationError
      else if window_kind w = Date_range then
        (case (start_date w, end_date_inclusive w) of
           (Some s, Some e) \<Rightarrow>
             if s > e \<or> e = DATE_MAX then Inl ValidationError else Inr w
         | _ \<Rightarrow> Inl ValidationError)
      else if start_date w \<noteq> None \<or> end_date_inclusive w \<noteq> None then Inl ValidationError
      else Inr w)"

section \<open>Plans\<close>

record research_task =
  research_goal :: pystr
  article_search_queries :: "pystr list"

record search_plan =
  research_tasks :: "research_task list"
  plan_time_window :: "target_time_window option"

datatype question_plan = DirectAnswerPlan | SearchPlan search_plan

text \<open>The constructors with the checks of their models.\<close>

definition make_research_task ::
    "(pystr \<Rightarrow> pystr) \<Rightarrow> pystr \<Rightarrow> pystr list \<Rightarrow> py_exc + research_task" where
  "make_research_task casefold goal queries =
     (if constrained_strip goal = [] then Inl ValidationError
      else case non_blank_texts queries of
        Inl e \<Rightarrow> Inl e
      | Inr qs \<Rightarrow>
          if qs = [] \<or> length qs > MAX_ARTICLE_SEARCH_QUERIES
             \<or> \<not> distinct (map casefold qs)
          then Inl ValidationError
          else Inr \<lparr>research_goal = constrained_strip goal, article_search_queries = qs\<rparr>)"

fun make_research_tasks ::
    "(pystr \<Rightarrow> pystr) \<Rightarrow> (pystr \<times> pystr list) list \<Rightarrow> py_exc + research_task list" where
  "make_research_tasks casefold [] = Inr []"
| "make_research_tasks casefold ((goal, queries) # ts) =
     (case make_research_task casefold goal queries of
        Inl e \<Rightarrow> Inl e
      | Inr t \<Rightarrow>
          (case make_research_tasks casefold ts of Inl e \<Rightarrow> Inl e | Inr rest \<Rightarrow> Inr (t # rest)))"

definition total_queries :: "research_task list \<Rightarrow> nat" where
  "total_queries ts = sum_list (map (\<lambda>t. length (article_search_queries t)) ts)"

definition make_search_plan ::
    "research_task list \<Rightarrow> target_time_window option \<Rightarrow> py_exc + search_plan" where
  "make_search_plan ts window =
     (if ts = [] \<or> length ts > RESEARCH_TASK_LIMIT then Inl ValidationError
      else if \<not> distinct (map research_goal ts) then Inl ValidationError
      else if total_queries ts > MAX_ARTICLE_SEARCH_QUERIES then Inl ValidationError
      else Inr \<lparr>research_tasks = ts, plan_time_window = window\<rparr>)"

section \<open>From the draft to the plan\<close>

record question_plan_draft =
  draft_plan_type :: plan_type
  draft_research_tasks :: "(pystr \<times> pystr list) list"
  draft_time_window :: "target_time_window option"

text \<open>A defect of the response is retried, a failed validation of the code's own values is not.\<close>

datatype plan_exc = AgentResponseInvalid | PlanValidation

fun clean_task_queries_loop ::
    "(pystr \<Rightarrow> pystr) \<Rightarrow> pystr list \<Rightarrow> pystr set \<Rightarrow> pystr list \<Rightarrow> pystr list" where
  "clean_task_queries_loop casefold cleaned seen [] = cleaned"
| "clean_task_queries_loop casefold cleaned seen (q # qs) =
     (let c = strip q; key = casefold c in
      if c = [] then clean_task_queries_loop casefold cleaned seen qs
      else if key \<in> seen then clean_task_queries_loop casefold cleaned seen qs
      else clean_task_queries_loop casefold (cleaned @ [c]) (insert key seen) qs)"

definition clean_task_queries :: "(pystr \<Rightarrow> pystr) \<Rightarrow> pystr list \<Rightarrow> pystr list" where
  "clean_task_queries casefold qs = clean_task_queries_loop casefold [] {} qs"

fun clean_research_tasks_loop ::
    "(pystr \<Rightarrow> pystr) \<Rightarrow> (pystr \<times> pystr list) list \<Rightarrow> pystr set \<Rightarrow> (pystr \<times> pystr list) list
       \<Rightarrow> (pystr \<times> pystr list) list" where
  "clean_research_tasks_loop casefold cleaned seen [] = cleaned"
| "clean_research_tasks_loop casefold cleaned seen ((g, qs) # ts) =
     (let goal = take RESEARCH_GOAL_MAX_CHARS (strip g) in
      if goal = [] \<or> goal \<in> seen then clean_research_tasks_loop casefold cleaned seen ts
      else
        let cleaned' = cleaned @ [(goal, clean_task_queries casefold qs)] in
        if length cleaned' \<ge> RESEARCH_TASK_LIMIT then cleaned'
        else clean_research_tasks_loop casefold cleaned' (insert goal seen) ts)"

definition clean_research_tasks ::
    "(pystr \<Rightarrow> pystr) \<Rightarrow> (pystr \<times> pystr list) list \<Rightarrow> (pystr \<times> pystr list) list" where
  "clean_research_tasks casefold ts = clean_research_tasks_loop casefold [] {} ts"

text \<open>
  \<^verbatim>\<open>_trim_query_budget\<close>: the pass over the tasks at one position, with the
  \<^verbatim>\<open>break\<close> of the exhausted budget, and the loop over the positions.
\<close>

fun trim_row :: "nat \<Rightarrow> pystr list list \<Rightarrow> pystr list list \<Rightarrow> nat \<Rightarrow> pystr list list \<times> nat" where
  "trim_row position (qs # qss) (t # ts) selected =
     (if selected \<ge> MAX_ARTICLE_SEARCH_QUERIES then (t # ts, selected)
      else
        let (t', selected') =
          (if position < length qs then (t @ [qs ! position], selected + 1) else (t, selected));
          (ts', selected'') = trim_row position qss ts selected'
        in (t' # ts', selected''))"
| "trim_row position _ ts selected = (ts, selected)"

function trim_rows ::
    "nat \<Rightarrow> nat \<Rightarrow> pystr list list \<Rightarrow> pystr list list \<Rightarrow> nat \<Rightarrow> pystr list list" where
  "trim_rows position max_task_length qss trimmed selected =
     (if position < max_task_length \<and> selected < MAX_ARTICLE_SEARCH_QUERIES then
        let (trimmed', selected') = trim_row position qss trimmed selected
        in trim_rows (position + 1) max_task_length qss trimmed' selected'
      else trimmed)"
  by pat_completeness auto
termination
  by (relation "measure (\<lambda>(p, m, _). m - p)") auto

declare trim_rows.simps [simp del]

definition max_length :: "'a list list \<Rightarrow> nat" where
  "max_length xss = fold (\<lambda>xs m. max m (length xs)) xss 0"

definition trim_query_budget ::
    "(pystr \<times> pystr list) list \<Rightarrow> (pystr \<times> pystr list) list" where
  "trim_query_budget tasks =
     (let qss = map snd tasks in
      if sum_list (map length qss) \<le> MAX_ARTICLE_SEARCH_QUERIES then tasks
      else zip (map fst tasks) (trim_rows 0 (max_length qss) qss (map (\<lambda>_. []) tasks) 0))"

definition plan_from_draft ::
    "(pystr \<Rightarrow> pystr) \<Rightarrow> question_plan_draft \<Rightarrow> plan_exc + question_plan" where
  "plan_from_draft casefold draft =
     (let cleaned = clean_research_tasks casefold (draft_research_tasks draft) in
      if draft_plan_type draft = Direct_answer then
        (if cleaned \<noteq> [] \<or> draft_time_window draft \<noteq> None then Inl AgentResponseInvalid
         else Inr DirectAnswerPlan)
      else if cleaned = [] \<or> list_ex (\<lambda>(_, qs). qs = []) cleaned then Inl AgentResponseInvalid
      else case make_research_tasks casefold (trim_query_budget cleaned) of
        Inl e \<Rightarrow> Inl PlanValidation
      | Inr ts \<Rightarrow>
          (case make_search_plan ts (draft_time_window draft) of
             Inl e \<Rightarrow> Inl PlanValidation
           | Inr p \<Rightarrow> Inr (SearchPlan p)))"

section \<open>The attempt loop of the service\<close>

text \<open>
  What one call of the model runtime gives: a parsed draft, a response that breaks the declared
  output, a classified provider failure, or the expiry of the stage's time limit.
\<close>

datatype ('d, 'c) call_outcome =
    CallDraft 'd
  | CallInvalid 'c
  | CallProviderFailed 'c
  | CallTimedOut

datatype 'c plan_result =
    PlanReady question_plan
  | PlanningError "'c option"    \<comment> \<open>\<^const>\<open>None\<close> is the time limit\<close>
  | PlanRaised py_exc

definition PLAN_MAX_ATTEMPTS :: nat where "PLAN_MAX_ATTEMPTS = 2"

text \<open>The loop over the remaining attempt numbers; the result comes with the attempts made.\<close>

fun plan_attempts ::
    "(pystr \<Rightarrow> pystr) \<Rightarrow> 'c \<Rightarrow> (nat \<Rightarrow> (question_plan_draft, 'c) call_outcome) \<Rightarrow> nat list
       \<Rightarrow> nat \<Rightarrow> 'c plan_result \<times> nat" where
  "plan_attempts casefold mismatch runtime_call [] attempt_number =
     (PlanRaised RuntimeError, attempt_number)"
| "plan_attempts casefold mismatch runtime_call (n # ns) attempt_number =
     (case runtime_call n of
        CallTimedOut \<Rightarrow> (PlanningError None, n)
      | CallProviderFailed c \<Rightarrow> (PlanningError (Some c), n)
      | CallInvalid c \<Rightarrow>
          if n < PLAN_MAX_ATTEMPTS then plan_attempts casefold mismatch runtime_call ns n
          else (PlanningError (Some c), n)
      | CallDraft d \<Rightarrow>
          (case plan_from_draft casefold d of
             Inr p \<Rightarrow> (PlanReady p, n)
           | Inl PlanValidation \<Rightarrow> (PlanRaised ValidationError, n)
           | Inl AgentResponseInvalid \<Rightarrow>
               if n < PLAN_MAX_ATTEMPTS then plan_attempts casefold mismatch runtime_call ns n
               else (PlanningError (Some mismatch), n)))"

definition plan_question ::
    "(pystr \<Rightarrow> pystr) \<Rightarrow> 'c \<Rightarrow> (nat \<Rightarrow> (question_plan_draft, 'c) call_outcome)
       \<Rightarrow> 'c plan_result \<times> nat" where
  "plan_question casefold mismatch runtime_call =
     plan_attempts casefold mismatch runtime_call [1..<PLAN_MAX_ATTEMPTS + 1] 0"


section \<open>Cleaning\<close>

definition stripped_query :: "pystr \<Rightarrow> bool" where
  "stripped_query q \<longleftrightarrow> strip q = q \<and> q \<noteq> []"

lemma stripped_query_strip: "strip q \<noteq> [] \<Longrightarrow> stripped_query (strip q)"
  by (simp add: stripped_query_def)

lemma clean_task_queries_loop_inv:
  assumes "distinct (map casefold cleaned)" "seen = casefold ` set cleaned"
    "\<forall>q \<in> set cleaned. stripped_query q"
  shows "distinct (map casefold (clean_task_queries_loop casefold cleaned seen qs)) \<and>
    (\<forall>q \<in> set (clean_task_queries_loop casefold cleaned seen qs). stripped_query q)"
  using assms
  by (induction casefold cleaned seen qs rule: clean_task_queries_loop.induct)
    (auto simp: Let_def stripped_query_strip)

lemma clean_task_queries_ok:
  "distinct (map casefold (clean_task_queries casefold qs))"
  "q \<in> set (clean_task_queries casefold qs) \<Longrightarrow> stripped_query q"
  using clean_task_queries_loop_inv [of casefold "[]" "{}" qs]
  by (auto simp: clean_task_queries_def)

lemma constrained_strip_take_strip:
  assumes "take n (strip g) \<noteq> []" shows "constrained_strip (take n (strip g)) \<noteq> []"
proof -
  have "strip g \<noteq> []" using assms by auto
  then have "\<not> is_space (hd (strip g))" by (simp add: strip_idem_ends)
  moreover have "hd (take n (strip g)) = hd (strip g)" using assms by (simp add: hd_take)
  ultimately have "hd (take n (strip g)) \<in> set (take n (strip g)) \<and> \<not> is_white_space (hd (take n (strip g)))"
    using assms hd_in_set [OF assms] by (simp add: is_white_space_def)
  then show ?thesis unfolding constrained_strip_Nil_iff by blast
qed

definition clean_task_ok :: "(pystr \<Rightarrow> pystr) \<Rightarrow> pystr \<times> pystr list \<Rightarrow> bool" where
  "clean_task_ok casefold t \<longleftrightarrow> fst t \<noteq> [] \<and> constrained_strip (fst t) \<noteq> []
     \<and> length (fst t) \<le> RESEARCH_GOAL_MAX_CHARS
     \<and> distinct (map casefold (snd t)) \<and> (\<forall>q \<in> set (snd t). stripped_query q)"

lemma clean_research_tasks_loop_inv:
  assumes "distinct (map fst cleaned)" "seen = fst ` set cleaned" "length cleaned < RESEARCH_TASK_LIMIT"
    "\<forall>t \<in> set cleaned. clean_task_ok casefold t"
  shows "distinct (map fst (clean_research_tasks_loop casefold cleaned seen ts)) \<and>
    length (clean_research_tasks_loop casefold cleaned seen ts) \<le> RESEARCH_TASK_LIMIT \<and>
    (\<forall>t \<in> set (clean_research_tasks_loop casefold cleaned seen ts). clean_task_ok casefold t)"
  using assms
proof (induction casefold cleaned seen ts rule: clean_research_tasks_loop.induct)
  case (2 casefold cleaned seen g qs ts)
  let ?goal = "take RESEARCH_GOAL_MAX_CHARS (strip g)"
  show ?case
  proof (cases "?goal = [] \<or> ?goal \<in> seen")
    case True
    then show ?thesis using 2 by (auto simp: Let_def)
  next
    case False
    have ok: "clean_task_ok casefold (?goal, clean_task_queries casefold qs)"
      using False constrained_strip_take_strip [of RESEARCH_GOAL_MAX_CHARS g] clean_task_queries_ok
      by (auto simp: clean_task_ok_def)
    show ?thesis
      using 2(2) [OF refl _ refl] 2(3-) False ok by (auto simp: Let_def)
  qed
qed (auto simp: RESEARCH_TASK_LIMIT_def)

lemma clean_research_tasks_ok:
  "distinct (map fst (clean_research_tasks casefold ts))"
  "length (clean_research_tasks casefold ts) \<le> RESEARCH_TASK_LIMIT"
  "t \<in> set (clean_research_tasks casefold ts) \<Longrightarrow> clean_task_ok casefold t"
  using clean_research_tasks_loop_inv [of "[]" "{}" casefold ts]
  by (auto simp: clean_research_tasks_def RESEARCH_TASK_LIMIT_def)

section \<open>The query budget\<close>

text \<open>Between two rows every task has kept its first \<^term>\<open>p\<close> queries.\<close>

definition kept :: "nat \<Rightarrow> pystr list list \<Rightarrow> pystr list list \<Rightarrow> bool" where
  "kept p qss ts \<longleftrightarrow> list_all2 (\<lambda>qs t. t = take p qs) qss ts"

lemma trim_row_result:
  assumes "kept p qss ts" and "selected \<le> MAX_ARTICLE_SEARCH_QUERIES"
    and "trim_row p qss ts selected = (ts', selected')"
  shows "list_all2 (\<lambda>qs t. t = take p qs \<or> t = take (Suc p) qs) qss ts'
    \<and> selected' \<le> MAX_ARTICLE_SEARCH_QUERIES
    \<and> selected' + sum_list (map length ts) = selected + sum_list (map length ts')
    \<and> (selected' < MAX_ARTICLE_SEARCH_QUERIES \<longrightarrow> kept (Suc p) qss ts')
    \<and> (selected + length qss \<le> MAX_ARTICLE_SEARCH_QUERIES \<longrightarrow> kept (Suc p) qss ts')"
  using assms
proof (induction p qss ts selected arbitrary: ts' selected' rule: trim_row.induct)
  case (1 p qs qss t ts selected)
  have t: "t = take p qs" and ts: "kept p qss ts" using 1(2) by (auto simp: kept_def)
  have all: "list_all2 (\<lambda>qs t. t = take p qs \<or> t = take (Suc p) qs) qss ts"
    using ts by (auto simp: kept_def elim: list_all2_mono)
  show ?case
  proof (cases "selected \<ge> MAX_ARTICLE_SEARCH_QUERIES")
    case True
    then show ?thesis using 1(3,4) t all by auto
  next
    case False
    define t1 s1 where "t1 = (if p < length qs then t @ [qs ! p] else t)"
      and "s1 = (if p < length qs then selected + 1 else selected)"
    have t1: "t1 = take (Suc p) qs" "s1 \<le> MAX_ARTICLE_SEARCH_QUERIES" "s1 \<le> Suc selected"
      "s1 + length t = selected + length t1"
      using t False by (auto simp: t1_def s1_def take_Suc_conv_app_nth)
    obtain ts1 s2 where r: "trim_row p qss ts s1 = (ts1, s2)" by fastforce
    have res: "ts' = t1 # ts1" "selected' = s2"
      using 1(4) False r by (auto simp: t1_def s1_def Let_def split: if_splits)
    have pair: "(if p < length qs then (t @ [qs ! p], selected + 1) else (t, selected)) = (t1, s1)"
      by (simp add: t1_def s1_def)
    note ih = 1(1) [OF False pair [symmetric] refl ts t1(2) r]
    show ?thesis using ih t1 unfolding res by (auto simp: kept_def)
  qed
qed (auto simp: kept_def)

lemma kept_all: "\<forall>qs \<in> set qss. length qs \<le> p \<Longrightarrow> kept p qss ts \<Longrightarrow> ts = qss"
  by (induction qss arbitrary: ts) (auto simp: kept_def list_all2_Cons1)

definition budgeted :: "pystr list list \<Rightarrow> pystr list list \<Rightarrow> bool" where
  "budgeted qss ts \<longleftrightarrow> list_all2 (\<lambda>qs t. \<exists>k. t = take k qs \<and> (qs \<noteq> [] \<longrightarrow> 0 < k)) qss ts
     \<and> sum_list (map length ts) \<le> MAX_ARTICLE_SEARCH_QUERIES
     \<and> (sum_list (map length ts) = MAX_ARTICLE_SEARCH_QUERIES \<or> ts = qss)"

lemma kept_budgeted:
  assumes "kept (Suc p) qss ts" "sum_list (map length ts) \<le> MAX_ARTICLE_SEARCH_QUERIES"
    "sum_list (map length ts) = MAX_ARTICLE_SEARCH_QUERIES \<or> ts = qss"
  shows "budgeted qss ts"
  using assms by (auto simp: budgeted_def kept_def elim!: list_all2_mono)

lemma trim_rows_budgeted:
  assumes "kept p qss ts" "selected = sum_list (map length ts)"
    "selected \<le> MAX_ARTICLE_SEARCH_QUERIES" "\<forall>qs \<in> set qss. length qs \<le> m"
    "0 < p \<or> (selected + length qss \<le> MAX_ARTICLE_SEARCH_QUERIES \<and> qss \<noteq> [] \<and> (\<forall>qs \<in> set qss. qs \<noteq> []))"
  shows "budgeted qss (trim_rows p m qss ts selected)"
  using assms
proof (induction p m qss ts selected rule: trim_rows.induct)
  case (1 p m qss ts selected)
  show ?case
  proof (cases "p < m \<and> selected < MAX_ARTICLE_SEARCH_QUERIES")
    case False
    have pos: "0 < p"
    proof (rule ccontr)
      assume "\<not> 0 < p"
      with 1(6) have h: "selected + length qss \<le> MAX_ARTICLE_SEARCH_QUERIES" "qss \<noteq> []"
        "\<forall>qs \<in> set qss. qs \<noteq> []" by auto
      then have "0 < length qss" by simp
      with h(1) have "selected < MAX_ARTICLE_SEARCH_QUERIES" by linarith
      moreover obtain qs where "qs \<in> set qss" using h(2) by (cases qss) auto
      then have "0 < m" using h(3) 1(5) by (metis gr0I length_0_conv not_less_eq_eq le_zero_eq)
      ultimately show False using False \<open>\<not> 0 < p\<close> by simp
    qed
    have "selected = MAX_ARTICLE_SEARCH_QUERIES \<or> ts = qss"
    proof (cases "p < m")
      case True
      then show ?thesis using False 1(4) by simp
    next
      case False
      then have "\<forall>qs \<in> set qss. length qs \<le> p" using 1(5) by fastforce
      then show ?thesis using kept_all [of qss p ts] 1(2) by simp
    qed
    then have "budgeted qss ts"
      using kept_budgeted [of "p - 1" qss ts] pos 1(2,3,4) by auto
    then show ?thesis using False by (subst trim_rows.simps) auto
  next
    case True
    obtain ts' selected' where r: "trim_row p qss ts selected = (ts', selected')" by fastforce
    note row = trim_row_result [OF 1(2,4) r]
    have sel: "selected' = sum_list (map length ts')" using row 1(3) by linarith
    have unf: "trim_rows p m qss ts selected = trim_rows (p + 1) m qss ts' selected'"
      using True r by (simp add: trim_rows.simps [of p m])
    show ?thesis
    proof (cases "kept (Suc p) qss ts'")
      case True
      then have "budgeted qss (trim_rows (p + 1) m qss ts' selected')"
        using 1(1) [OF \<open>p < m \<and> _\<close> r [symmetric] refl] sel row 1(5) by simp
      then show ?thesis using unf by simp
    next
      case False
      then have full: "selected' = MAX_ARTICLE_SEARCH_QUERIES" "0 < p"
        using row 1(6) by (auto simp: not_less le_antisym)
      then have "trim_rows (p + 1) m qss ts' selected' = ts'" by (simp add: trim_rows.simps)
      moreover have "list_all2 (\<lambda>qs t. \<exists>k. t = take k qs \<and> (qs \<noteq> [] \<longrightarrow> 0 < k)) qss ts'"
        using row full(2) by (auto elim!: list_all2_mono)
      ultimately show ?thesis using unf full(1) sel by (simp add: budgeted_def)
    qed
  qed
qed


lemma max_length_fold: "n \<le> fold (\<lambda>xs m. max m (length xs)) xss n \<and>
   (\<forall>xs \<in> set xss. length xs \<le> fold (\<lambda>xs m. max m (length xs)) xss n)"
proof (induction xss arbitrary: n)
  case (Cons ys xss)
  show ?case using Cons.IH [of "max n (length ys)"] by auto
qed simp

lemma max_length_bound: "xs \<in> set xss \<Longrightarrow> length xs \<le> max_length xss"
  using max_length_fold [of 0 xss] by (simp add: max_length_def)

definition plannable :: "(pystr \<times> pystr list) list \<Rightarrow> bool" where
  "plannable cleaned \<longleftrightarrow> cleaned \<noteq> [] \<and> (\<forall>t \<in> set cleaned. snd t \<noteq> [])"

lemma trim_query_budget_result:
  assumes "plannable cleaned" "length cleaned \<le> RESEARCH_TASK_LIMIT"
  shows "map fst (trim_query_budget cleaned) = map fst cleaned"
    and "budgeted (map snd cleaned) (map snd (trim_query_budget cleaned))"
proof -
  let ?qss = "map snd cleaned"
  have limit: "length cleaned \<le> MAX_ARTICLE_SEARCH_QUERIES"
    using assms(2) by (simp add: RESEARCH_TASK_LIMIT_def MAX_ARTICLE_SEARCH_QUERIES_def)
  have "map fst (trim_query_budget cleaned) = map fst cleaned
    \<and> budgeted ?qss (map snd (trim_query_budget cleaned))"
  proof (cases "sum_list (map length ?qss) \<le> MAX_ARTICLE_SEARCH_QUERIES")
    case True
    have "list_all2 (\<lambda>qs t. \<exists>k. t = take k qs \<and> (qs \<noteq> [] \<longrightarrow> 0 < k)) ?qss ?qss"
      by (rule list_all2_refl) (metis length_greater_0_conv take_all_iff order_refl)
    then show ?thesis using True by (simp add: trim_query_budget_def budgeted_def)
  next
    case False
    let ?ts = "trim_rows 0 (max_length ?qss) ?qss (map (\<lambda>_. []) cleaned) 0"
    have start: "kept 0 ?qss (map (\<lambda>_. []) cleaned)"
      by (simp add: kept_def list_all2_conv_all_nth)
    have "budgeted ?qss ?ts"
      by (rule trim_rows_budgeted [OF start])
        (use assms limit max_length_bound [of _ ?qss] in \<open>auto simp: plannable_def comp_def\<close>)
    moreover have "length ?ts = length cleaned"
      using calculation by (auto simp: budgeted_def dest: list_all2_lengthD)
    ultimately show ?thesis using False by (simp add: trim_query_budget_def Let_def)
  qed
  then show "map fst (trim_query_budget cleaned) = map fst cleaned"
    "budgeted ?qss (map snd (trim_query_budget cleaned))" by auto
qed

section \<open>Building the plan\<close>

lemma stripped_queries_valid:
  "\<forall>q \<in> set qs. stripped_query q \<Longrightarrow> non_blank_texts qs = Inr qs"
proof -
  assume h: "\<forall>q \<in> set qs. stripped_query q"
  then have fix_q: "\<forall>q \<in> set qs. constrained_strip q = q"
    by (metis stripped_query_def constrained_strip_strip)
  then have "non_blank_texts qs = Inr (map constrained_strip qs)"
    using h by (intro non_blank_texts_ok) (auto simp: stripped_query_def)
  then show ?thesis using fix_q by (simp add: map_idI)
qed

lemma make_research_tasks_ok:
  "\<forall>t \<in> set ts. clean_task_ok casefold t \<and> snd t \<noteq> [] \<and> length (snd t) \<le> MAX_ARTICLE_SEARCH_QUERIES \<Longrightarrow>
   make_research_tasks casefold ts = Inr (map (\<lambda>t. \<lparr>research_goal = constrained_strip (fst t),
       article_search_queries = snd t\<rparr>) ts)"
  by (induction ts)
    (auto simp: make_research_task_def clean_task_ok_def stripped_queries_valid)

lemma clean_task_ok_take:
  "clean_task_ok casefold (g, qs) \<Longrightarrow> clean_task_ok casefold (g, take k qs)"
  by (auto simp: clean_task_ok_def distinct_take simp flip: take_map dest: in_set_takeD)

lemma trimmed_tasks_ok:
  assumes "plannable cleaned" "length cleaned \<le> RESEARCH_TASK_LIMIT"
    "\<forall>t \<in> set cleaned. clean_task_ok casefold t"
    and t: "t \<in> set (trim_query_budget cleaned)"
  shows "clean_task_ok casefold t" "snd t \<noteq> []" "length (snd t) \<le> MAX_ARTICLE_SEARCH_QUERIES"
proof -
  let ?ts = "trim_query_budget cleaned"
  note res = trim_query_budget_result [OF assms(1,2)]
  have len: "length ?ts = length cleaned" using res(1) by (metis length_map)
  obtain i where i: "i < length ?ts" "t = ?ts ! i" using t by (metis in_set_conv_nth)
  obtain k where k: "snd t = take k (snd (cleaned ! i))" "snd (cleaned ! i) \<noteq> [] \<longrightarrow> 0 < k"
    using res(2) i len by (auto simp: budgeted_def list_all2_conv_all_nth)
  have "fst t = fst (cleaned ! i)" using res(1) i len by (metis nth_map)
  then have "t = (fst (cleaned ! i), take k (snd (cleaned ! i)))" using k(1) by (metis prod.collapse)
  moreover have "clean_task_ok casefold (cleaned ! i)" "snd (cleaned ! i) \<noteq> []"
    using assms(1,3) i(1) len by (auto simp: plannable_def)
  ultimately show "clean_task_ok casefold t" "snd t \<noteq> []"
    using clean_task_ok_take [of casefold "fst (cleaned ! i)" "snd (cleaned ! i)" k] k(2) by auto
  have "length (snd t) \<le> sum_list (map length (map snd ?ts))"
    using t by (intro member_le_sum_list) auto
  also have "\<dots> \<le> MAX_ARTICLE_SEARCH_QUERIES" using res(2) by (simp add: budgeted_def)
  finally show "length (snd t) \<le> MAX_ARTICLE_SEARCH_QUERIES" .
qed

definition built_tasks :: "(pystr \<times> pystr list) list \<Rightarrow> research_task list" where
  "built_tasks cleaned = map (\<lambda>t. \<lparr>research_goal = constrained_strip (fst t),
     article_search_queries = snd t\<rparr>) (trim_query_budget cleaned)"

lemma total_queries_sum:
  "total_queries ts = sum_list (map length (map article_search_queries ts))"
  by (simp add: total_queries_def comp_def)

lemma built_tasks_result:
  assumes "plannable cleaned" "length cleaned \<le> RESEARCH_TASK_LIMIT"
  shows "map research_goal (built_tasks cleaned) = map (constrained_strip \<circ> fst) cleaned"
    and "budgeted (map snd cleaned) (map article_search_queries (built_tasks cleaned))"
    and "total_queries (built_tasks cleaned) \<le> MAX_ARTICLE_SEARCH_QUERIES"
    and "length (built_tasks cleaned) = length cleaned"
proof -
  note res = trim_query_budget_result [OF assms]
  have "map constrained_strip (map fst (trim_query_budget cleaned))
      = map constrained_strip (map fst cleaned)" using res(1) by simp
  then show "map research_goal (built_tasks cleaned) = map (constrained_strip \<circ> fst) cleaned"
    by (simp add: built_tasks_def comp_def)
  show "budgeted (map snd cleaned) (map article_search_queries (built_tasks cleaned))"
    using res(2) by (simp add: built_tasks_def comp_def)
  then show "total_queries (built_tasks cleaned) \<le> MAX_ARTICLE_SEARCH_QUERIES"
    by (simp add: budgeted_def total_queries_def comp_def)
  show "length (built_tasks cleaned) = length cleaned"
    using res(1) by (metis built_tasks_def length_map)
qed

lemma plan_from_draft_search:
  assumes "draft_plan_type d = Search"
    and "cleaned = clean_research_tasks casefold (draft_research_tasks d)"
  shows "plan_from_draft casefold d =
    (if \<not> plannable cleaned then Inl AgentResponseInvalid
     else if distinct (map (constrained_strip \<circ> fst) cleaned) then
       Inr (SearchPlan \<lparr>research_tasks = built_tasks cleaned, plan_time_window = draft_time_window d\<rparr>)
     else Inl PlanValidation)"
proof (cases "plannable cleaned")
  case False
  then have "cleaned = [] \<or> list_ex (\<lambda>(_, qs). qs = []) cleaned"
    by (auto simp: plannable_def list_ex_iff)
  then show ?thesis using False assms by (auto simp: plan_from_draft_def Let_def)
next
  case True
  have limit: "length cleaned \<le> RESEARCH_TASK_LIMIT"
    and ok: "\<forall>t \<in> set cleaned. clean_task_ok casefold t"
    using clean_research_tasks_ok assms(2) by auto
  note built = built_tasks_result [OF True limit]
  have "make_research_tasks casefold (trim_query_budget cleaned) = Inr (built_tasks cleaned)"
    using make_research_tasks_ok [of "trim_query_budget cleaned" casefold]
      trimmed_tasks_ok [OF True limit ok] by (auto simp: built_tasks_def)
  moreover have "\<not> (cleaned = [] \<or> list_ex (\<lambda>(_, qs). qs = []) cleaned)"
    using True by (auto simp: plannable_def list_ex_iff)
  moreover have "built_tasks cleaned \<noteq> []"
    using built(4) True by (cases "built_tasks cleaned") (auto simp: plannable_def)
  moreover have "length (built_tasks cleaned) \<le> RESEARCH_TASK_LIMIT"
    using built(4) limit by simp
  ultimately have "plan_from_draft casefold d =
      (case make_search_plan (built_tasks cleaned) (draft_time_window d) of
         Inl e \<Rightarrow> Inl PlanValidation | Inr p \<Rightarrow> Inr (SearchPlan p))"
    using assms(1) by (simp add: plan_from_draft_def Let_def flip: assms(2))
  moreover have "make_search_plan (built_tasks cleaned) w =
      (if distinct (map (constrained_strip \<circ> fst) cleaned)
       then Inr \<lparr>research_tasks = built_tasks cleaned, plan_time_window = w\<rparr>
       else Inl ValidationError)" for w
    unfolding make_search_plan_def built(1)
    using built(3) \<open>built_tasks cleaned \<noteq> []\<close> \<open>length (built_tasks cleaned) \<le> _\<close> by simp
  ultimately show ?thesis using True by simp
qed

lemma plan_from_draft_direct:
  "draft_plan_type d = Direct_answer \<Longrightarrow>
   plan_from_draft casefold d \<noteq> Inr (SearchPlan p) \<and> plan_from_draft casefold d \<noteq> Inl PlanValidation"
  by (simp add: plan_from_draft_def Let_def)

lemma plan_task_count:
  "plan_from_draft casefold d = Inr (SearchPlan p) \<Longrightarrow> length (research_tasks p) \<le> RESEARCH_TASK_LIMIT"
  by (auto simp: plan_from_draft_def make_search_plan_def Let_def split: if_splits sum.splits)

lemma length_constrained_strip: "length (constrained_strip s) \<le> length s"
proof -
  obtain v w where "s = v @ constrained_strip s @ w" using constrained_strip_split by blast
  then show ?thesis by (metis le_add1 le_add2 length_append order_trans)
qed

lemma plan_task_shape:
  assumes "plan_from_draft casefold d = Inr (SearchPlan p)" "t \<in> set (research_tasks p)"
  shows "constrained_strip (research_goal t) \<noteq> []"
    and "length (article_search_queries t) \<le> MAX_ARTICLE_SEARCH_QUERIES"
    and "q \<in> set (article_search_queries t) \<Longrightarrow> stripped_query q"
    and "length (research_goal t) \<le> RESEARCH_GOAL_MAX_CHARS"
proof -
  let ?c = "clean_research_tasks casefold (draft_research_tasks d)"
  have search: "draft_plan_type d = Search"
    using assms(1) plan_from_draft_direct by (cases "draft_plan_type d") auto
  have pl: "plannable ?c" and p: "research_tasks p = built_tasks ?c"
    using assms(1) plan_from_draft_search [OF search refl] by (auto split: if_splits)
  have limit: "length ?c \<le> RESEARCH_TASK_LIMIT" and ok: "\<forall>t \<in> set ?c. clean_task_ok casefold t"
    using clean_research_tasks_ok by auto
  obtain u where u: "u \<in> set (trim_query_budget ?c)"
    "t = \<lparr>research_goal = constrained_strip (fst u), article_search_queries = snd u\<rparr>"
    using assms(2) p by (auto simp: built_tasks_def)
  note shape = trimmed_tasks_ok [OF pl limit ok u(1)]
  show "constrained_strip (research_goal t) \<noteq> []"
    using shape(1) u(2) by (simp add: clean_task_ok_def constrained_strip_idem)
  show "length (article_search_queries t) \<le> MAX_ARTICLE_SEARCH_QUERIES"
    using shape(3) u(2) by simp
  show "q \<in> set (article_search_queries t) \<Longrightarrow> stripped_query q"
    using shape(1) u(2) by (simp add: clean_task_ok_def)
  show "length (research_goal t) \<le> RESEARCH_GOAL_MAX_CHARS"
    using shape(1) u(2) length_constrained_strip [of "fst u"] by (simp add: clean_task_ok_def)
qed

section \<open>Properties\<close>

text \<open>
  A search plan that comes out of a draft has between one and three tasks, in the order of the
  cleaned draft, with distinct goals; each task keeps a non-empty prefix of its cleaned queries,
  so its first query survives the trimming; the run's three-query budget is never exceeded, and
  it is used up whenever something was trimmed.
\<close>

theorem plan_within_budget:
  assumes "plan_from_draft casefold d = Inr (SearchPlan p)"
  shows "research_tasks p \<noteq> [] \<and> length (research_tasks p) \<le> RESEARCH_TASK_LIMIT
    \<and> distinct (map research_goal (research_tasks p))
    \<and> list_all2 (\<lambda>c t. research_goal t = constrained_strip (fst c)
          \<and> (\<exists>k>0. snd c \<noteq> [] \<and> article_search_queries t = take k (snd c)))
        (clean_research_tasks casefold (draft_research_tasks d)) (research_tasks p)
    \<and> total_queries (research_tasks p) = min MAX_ARTICLE_SEARCH_QUERIES
        (sum_list (map (length \<circ> snd) (clean_research_tasks casefold (draft_research_tasks d))))"
proof -
  let ?c = "clean_research_tasks casefold (draft_research_tasks d)"
  have search: "draft_plan_type d = Search"
    using assms plan_from_draft_direct by (cases "draft_plan_type d") auto
  have pl: "plannable ?c" and dist: "distinct (map (constrained_strip \<circ> fst) ?c)"
    and p: "research_tasks p = built_tasks ?c"
    using assms plan_from_draft_search [OF search refl] by (auto split: if_splits)
  have limit: "length ?c \<le> RESEARCH_TASK_LIMIT" by (rule clean_research_tasks_ok)
  note built = built_tasks_result [OF pl limit]
  have each: "list_all2 (\<lambda>c t. research_goal t = constrained_strip (fst c)
      \<and> (\<exists>k>0. snd c \<noteq> [] \<and> article_search_queries t = take k (snd c))) ?c (built_tasks ?c)"
    unfolding list_all2_conv_all_nth
  proof (intro conjI allI impI)
    fix i assume i: "i < length ?c"
    show "research_goal (built_tasks ?c ! i) = constrained_strip (fst (?c ! i))"
      using built(1,4) i by (metis comp_apply length_map nth_map)
    show "\<exists>k>0. snd (?c ! i) \<noteq> [] \<and> article_search_queries (built_tasks ?c ! i) = take k (snd (?c ! i))"
      using built(2,4) i pl by (auto simp: budgeted_def list_all2_conv_all_nth plannable_def)
  qed (simp add: built(4))
  have "sum_list (map length (map snd ?c)) \<ge> total_queries (built_tasks ?c)"
  proof -
    have "list_all2 (\<lambda>c t. length (article_search_queries t) \<le> length (snd c)) ?c (built_tasks ?c)"
      using each by (auto elim!: list_all2_mono)
    then show ?thesis
      by (induction rule: list_all2_induct) (auto simp: total_queries_def)
  qed
  moreover have "total_queries (built_tasks ?c) = MAX_ARTICLE_SEARCH_QUERIES
      \<or> total_queries (built_tasks ?c) = sum_list (map length (map snd ?c))"
    using built(2) unfolding budgeted_def total_queries_sum by (elim conjE disjE) simp_all
  ultimately have total: "total_queries (built_tasks ?c)
      = min MAX_ARTICLE_SEARCH_QUERIES (sum_list (map (length \<circ> snd) ?c))"
    using built(3) unfolding map_map by linarith
  have "built_tasks ?c \<noteq> []"
    using built(4) pl by (cases "built_tasks ?c") (auto simp: plannable_def)
  moreover have "distinct (map research_goal (built_tasks ?c))" unfolding built(1) by (rule dist)
  ultimately show ?thesis using each total limit built(4) unfolding p by (intro conjI) simp_all
qed

definition sample_draft :: question_plan_draft where
  "sample_draft = \<lparr>draft_plan_type = Search,
     draft_research_tasks = [([32, 65], [[1], [32, 2], [3]]), ([66], [[4], [5]])],
     draft_time_window = None\<rparr>"

lemmas plan_eval = plan_from_draft_def clean_research_tasks_def clean_task_queries_def Let_def
  strip_def lstrip_def rstrip_def is_space_def RESEARCH_GOAL_MAX_CHARS_def RESEARCH_TASK_LIMIT_def
  MAX_ARTICLE_SEARCH_QUERIES_def trim_query_budget_def trim_rows.simps max_length_def
  make_research_task_def make_search_plan_def non_blank_text_def constrained_strip_def
  is_white_space_def total_queries_def

lemma plan_within_budget_witness:
  "\<exists>p. plan_from_draft (\<lambda>s. s) sample_draft = Inr (SearchPlan p)
     \<and> research_tasks p \<noteq> [] \<and> total_queries (research_tasks p) = 3
     \<and> map article_search_queries (research_tasks p) = [[[1], [2]], [[4]]]"
proof -
  let ?p = "\<lparr>research_tasks =
      [\<lparr>research_goal = [65], article_search_queries = [[1], [2]]\<rparr>,
       \<lparr>research_goal = [66], article_search_queries = [[4]]\<rparr>],
      plan_time_window = None\<rparr>"
  have run: "plan_from_draft (\<lambda>s. s) sample_draft = Inr (SearchPlan ?p)"
    by (simp add: sample_draft_def plan_eval)
  have "research_tasks ?p \<noteq> []" using plan_within_budget [OF run] by blast
  then show ?thesis using run by (intro exI [of _ ?p]) (simp add: total_queries_def)
qed

text \<open>
  C35. Building the plan fails with a validation error, which the service neither retries nor
  classifies, exactly when a search draft is otherwise usable but two of its goals, distinct when
  the draft was cleaned, coincide once the white space left by the cut at 200 characters is
  stripped.
\<close>

theorem plan_validation_fails_iff_goals_collide:
  "plan_from_draft casefold d = Inl PlanValidation \<longleftrightarrow>
     draft_plan_type d = Search
     \<and> plannable (clean_research_tasks casefold (draft_research_tasks d))
     \<and> distinct (map fst (clean_research_tasks casefold (draft_research_tasks d)))
     \<and> \<not> distinct (map (constrained_strip \<circ> fst)
           (clean_research_tasks casefold (draft_research_tasks d)))"
  using plan_from_draft_search [OF _ refl, of d casefold] plan_from_draft_direct [of d casefold]
    clean_research_tasks_ok(1) [of casefold "draft_research_tasks d"]
  by (cases "draft_plan_type d") (simp_all split: if_splits)

definition colliding_draft :: question_plan_draft where
  "colliding_draft = \<lparr>draft_plan_type = Search,
     draft_research_tasks =
       [(replicate 199 97 @ [32, 98], [[113]]), (replicate 199 97, [[114]])],
     draft_time_window = None\<rparr>"

lemma colliding_draft_fails: "plan_from_draft (\<lambda>s. s) colliding_draft = Inl PlanValidation"
proof -
  let ?g = "replicate 199 (97 :: nat)"
  have plain: "\<not> is_space 97" "\<not> is_space 98" "\<not> is_space 113" "\<not> is_space 114" "is_white_space 32"
    by (simp_all add: is_space_def is_white_space_def)
  then have white: "\<not> is_white_space 97" by (simp add: is_white_space_def)
  have fixed: "strip (?g @ [32, 98]) = ?g @ [32, 98]" "strip ?g = ?g"
    "strip [113] = [113]" "strip [114] = [114]"
    using plain by (simp_all add: strip_fixed)
  have cleaned: "clean_research_tasks (\<lambda>s. s) (draft_research_tasks colliding_draft)
      = [(?g @ [32], [[113]]), (?g, [[114]])]"
    by (simp add: colliding_draft_def clean_research_tasks_def clean_task_queries_def Let_def fixed
        RESEARCH_GOAL_MAX_CHARS_def RESEARCH_TASK_LIMIT_def)
  have "constrained_strip (?g @ [32]) = ?g" "constrained_strip ?g = ?g"
    using plain white by (simp_all add: constrained_strip_def)
  then show ?thesis
    by (subst plan_from_draft_search [OF _ refl]) 
      (simp_all only: cleaned, simp_all add: plannable_def colliding_draft_def)
qed

text \<open>
  The collision happens: a goal whose 200th character is a blank, next to the goal that is its
  first 199 characters. The planning service then ends with that validation error at its first
  attempt, whatever a second attempt would give.
\<close>

theorem colliding_goals_end_planning:
  "plan_question (\<lambda>s. s) mismatch (\<lambda>n. if n = 1 then CallDraft colliding_draft else later n)
     = (PlanRaised ValidationError, 1)"
  by (simp add: plan_question_def PLAN_MAX_ATTEMPTS_def upt_rec colliding_draft_fails)

end
