(* ===== verification/Citations.thy ===== *)
theory Citations
  imports PyText
begin

text \<open>
  Citation markers of an answer (\<^verbatim>\<open>agent/citation_markers.py\<close>) and the integrity
  report over them (\<^verbatim>\<open>agent/threads/citation_integrity.py\<close>). The regular expression
  \<^verbatim>\<open>\[\[([0-9]+(?:\],[ \t]*\[[0-9]+)*)\]\]\<close> is modelled by a recursive-descent
  matcher, shown below to accept exactly the strings of that expression.
\<close>

abbreviation LBRACKET :: nat where "LBRACKET \<equiv> 91"
abbreviation RBRACKET :: nat where "RBRACKET \<equiv> 93"
abbreviation COMMA :: nat where "COMMA \<equiv> 44"

text \<open>The class \<^verbatim>\<open>[ \t]\<close> that separates the refs of a group.\<close>

definition is_ref_separator_space :: "nat \<Rightarrow> bool" where
  "is_ref_separator_space c \<longleftrightarrow> c = 32 \<or> c = 9"

section \<open>The marker expression\<close>

text \<open>What follows \<^verbatim>\<open>[[\<close>: the refs of the group and the text after the match.\<close>

function match_refs :: "pystr \<Rightarrow> (pystr list \<times> pystr) option" where
  "match_refs s =
     (let d = takeWhile is_ascii_digit s; r = dropWhile is_ascii_digit s in
      if d = [] then None
      else case r of
        a # b # rest \<Rightarrow>
          if a = RBRACKET \<and> b = RBRACKET then Some ([d], rest)
          else if a = RBRACKET \<and> b = COMMA then
            (case dropWhile is_ref_separator_space rest of
               c # rest' \<Rightarrow>
                 if c = LBRACKET then map_option (\<lambda>(ds, t). (d # ds, t)) (match_refs rest')
                 else None
             | [] \<Rightarrow> None)
          else None
      | _ \<Rightarrow> None)"
  by pat_completeness auto
termination
proof (relation "measure length", goal_cases)
  case 1
  show ?case by simp
next
  case (2 s d r a x b rest c rest')
  have "length rest' < length rest"
    using 2 by (metis length_dropWhile_le length_Cons less_eq_Suc_le)
  moreover have "length rest < length s"
    using 2 by (metis length_dropWhile_le length_Cons less_eq_Suc_le Suc_leD)
  ultimately show ?case by simp
qed

declare match_refs.simps [simp del]

fun citation_match :: "pystr \<Rightarrow> (pystr list \<times> pystr) option" where
  "citation_match (a # b # s) = (if a = LBRACKET \<and> b = LBRACKET then match_refs s else None)"
| "citation_match _ = None"

text \<open>The strings of the expression after \<^verbatim>\<open>[[\<close>, as a language.\<close>

inductive group_lang :: "pystr list \<Rightarrow> pystr \<Rightarrow> bool" where
  group_last: "d \<noteq> [] \<Longrightarrow> list_all is_ascii_digit d \<Longrightarrow> group_lang [d] (d @ [RBRACKET, RBRACKET])"
| group_more: "d \<noteq> [] \<Longrightarrow> list_all is_ascii_digit d \<Longrightarrow> list_all is_ref_separator_space w \<Longrightarrow>
     group_lang ds t \<Longrightarrow> group_lang (d # ds) (d @ [RBRACKET, COMMA] @ w @ [LBRACKET] @ t)"

lemma span_digits:
  assumes "list_all is_ascii_digit d" and "\<not> is_ascii_digit c"
  shows "takeWhile is_ascii_digit (d @ c # s) = d"
    and "dropWhile is_ascii_digit (d @ c # s) = c # s"
  using assms by (induction d) auto

lemma span_separators:
  assumes "list_all is_ref_separator_space w" and "\<not> is_ref_separator_space c"
  shows "dropWhile is_ref_separator_space (w @ c # s) = c # s"
  using assms by (induction w) auto

lemma class_simps [simp]:
  "\<not> is_ascii_digit RBRACKET" "\<not> is_ascii_digit LBRACKET" "\<not> is_ascii_digit COMMA"
  "\<not> is_ref_separator_space LBRACKET" "\<not> is_ref_separator_space RBRACKET"
  by (simp_all add: is_ascii_digit_def is_ref_separator_space_def)

lemma match_refs_last:
  assumes "d \<noteq> []" "list_all is_ascii_digit d"
  shows "match_refs (d @ RBRACKET # RBRACKET # s) = Some ([d], s)"
  using assms by (subst match_refs.simps) (simp add: span_digits Let_def)

lemma match_refs_more:
  assumes "d \<noteq> []" "list_all is_ascii_digit d" "list_all is_ref_separator_space w"
  shows "match_refs (d @ RBRACKET # COMMA # w @ LBRACKET # s)
     = map_option (\<lambda>(ds, t). (d # ds, t)) (match_refs s)"
  using assms by (subst match_refs.simps) (simp add: span_digits span_separators Let_def)

lemma group_lang_match: "group_lang ds t \<Longrightarrow> match_refs (t @ s) = Some (ds, s)"
  by (induction rule: group_lang.induct) (simp_all add: match_refs_last match_refs_more)

lemma match_group_lang: "match_refs s = Some (ds, u) \<Longrightarrow> \<exists>t. s = t @ u \<and> group_lang ds t"
proof (induction s arbitrary: ds u rule: measure_induct_rule [of length])
  case (less s)
  define d where "d = takeWhile is_ascii_digit s"
  define r where "r = dropWhile is_ascii_digit s"
  have s: "s = d @ r" and digits: "list_all is_ascii_digit d"
    by (auto simp: d_def r_def list_all_iff dest: set_takeWhileD)
  note unf = less.prems [unfolded match_refs.simps [of s] Let_def, folded d_def r_def]
  from unf have ne: "d \<noteq> []" by (auto split: if_splits)
  from unf ne obtain a b rest where r: "r = a # b # rest"
    by (auto split: list.splits)
  show ?case
  proof (cases "a = RBRACKET \<and> b = RBRACKET")
    case True
    with unf ne r have "ds = [d]" "u = rest" by auto
    with True s r ne digits show ?thesis
      by (auto intro!: exI [of _ "d @ [RBRACKET, RBRACKET]"] group_last)
  next
    case False
    define w where "w = takeWhile is_ref_separator_space rest"
    from unf ne r False have ab: "a = RBRACKET" "b = COMMA" by (auto split: if_splits)
    from unf ne r ab obtain rest' ds' where
      rest: "dropWhile is_ref_separator_space rest = LBRACKET # rest'"
      and rec: "match_refs rest' = Some (ds', u)" and ds: "ds = d # ds'"
      by (auto split: list.splits if_splits)
    have w: "rest = w @ LBRACKET # rest'" "list_all is_ref_separator_space w"
      using rest takeWhile_dropWhile_id [of is_ref_separator_space rest]
      by (auto simp: w_def list_all_iff dest: set_takeWhileD)
    obtain t where t: "rest' = t @ u" "group_lang ds' t"
      using less.IH [OF _ rec] s r w(1) by auto
    have "group_lang ds (d @ [RBRACKET, COMMA] @ w @ [LBRACKET] @ t)"
      unfolding ds by (rule group_more [OF ne digits w(2) t(2)])
    then show ?thesis using s r ab w(1) t(1) by auto
  qed
qed

text \<open>The matcher accepts exactly the expression, so greediness and backtracking do not matter.\<close>

lemma match_refs_iff: "match_refs s = Some (ds, u) \<longleftrightarrow> (\<exists>t. s = t @ u \<and> group_lang ds t)"
  using group_lang_match match_group_lang by blast

lemma group_lang_digits:
  "group_lang ds t \<Longrightarrow> ds \<noteq> [] \<and> (\<forall>d \<in> set ds. d \<noteq> [] \<and> list_all is_ascii_digit d)"
  by (induction rule: group_lang.induct) auto

lemma group_lang_nonempty: "group_lang ds t \<Longrightarrow> 0 < length t"
  by (induction rule: group_lang.induct) auto

lemma match_refs_length: "match_refs s = Some (ds, u) \<Longrightarrow> length u < length s"
  using match_group_lang group_lang_nonempty by fastforce

lemma citation_match_iff:
  "citation_match s = Some (ds, u) \<longleftrightarrow>
     (\<exists>t. s = [LBRACKET, LBRACKET] @ t @ u \<and> group_lang ds t)"
  by (cases s rule: citation_match.cases) (auto simp: match_refs_iff)

lemma citation_match_length: "citation_match s = Some (ds, u) \<Longrightarrow> length u < length s"
  by (cases s rule: citation_match.cases) (auto split: if_splits dest: match_refs_length)

section \<open>Scanning a text\<close>

text \<open>\<^verbatim>\<open>_CITATION_GROUP_RE.sub("", text)\<close>.\<close>

function strip_citation_markers :: "pystr \<Rightarrow> pystr" where
  "strip_citation_markers [] = []"
| "strip_citation_markers (c # s) =
     (case citation_match (c # s) of
        Some (refs, rest) \<Rightarrow> strip_citation_markers rest
      | None \<Rightarrow> c # strip_citation_markers s)"
  by pat_completeness auto
termination
  by (relation "measure length") (auto dest: citation_match_length)

text \<open>
  The refs of \<^verbatim>\<open>_CITATION_GROUP_RE.finditer\<close>, in the order of the text; the inner
  \<^verbatim>\<open>_REF_RE.findall(match.group(1))\<close> gives the digit runs of the group, which the
  matcher already returns.
\<close>

function marker_refs :: "pystr \<Rightarrow> pystr list" where
  "marker_refs [] = []"
| "marker_refs (c # s) =
     (case citation_match (c # s) of
        Some (refs, rest) \<Rightarrow> refs @ marker_refs rest
      | None \<Rightarrow> marker_refs s)"
  by pat_completeness auto
termination
  by (relation "measure length") (auto dest: citation_match_length)

declare strip_citation_markers.simps [simp del] marker_refs.simps [simp del]

fun ordered_unique_loop :: "'a list \<Rightarrow> 'a list \<Rightarrow> 'a list" where
  "ordered_unique_loop result [] = result"
| "ordered_unique_loop result (v # vs) =
     (if v \<in> set result then ordered_unique_loop result vs
      else ordered_unique_loop (result @ [v]) vs)"

definition ordered_unique :: "'a list \<Rightarrow> 'a list" where
  "ordered_unique vs = ordered_unique_loop [] vs"

definition parse_citation_refs :: "pystr \<Rightarrow> pystr list" where
  "parse_citation_refs text = ordered_unique (marker_refs text)"

lemma strip_Nil [simp]: "strip_citation_markers [] = []"
  by (simp add: strip_citation_markers.simps)

lemma marker_refs_Nil [simp]: "marker_refs [] = []"
  by (simp add: marker_refs.simps)

lemma strip_plain:
  "c \<noteq> LBRACKET \<Longrightarrow> strip_citation_markers (c # s) = c # strip_citation_markers s"
  by (cases s) (simp_all add: strip_citation_markers.simps)

lemma strip_no_match:
  "citation_match (c # s) = None \<Longrightarrow> strip_citation_markers (c # s) = c # strip_citation_markers s"
  by (simp add: strip_citation_markers.simps)

lemma strip_match:
  "citation_match s = Some (ds, u) \<Longrightarrow> strip_citation_markers s = strip_citation_markers u"
  by (cases s) (simp_all add: strip_citation_markers.simps)

lemma marker_refs_no_match:
  "citation_match (c # s) = None \<Longrightarrow> marker_refs (c # s) = marker_refs s"
  by (simp add: marker_refs.simps)

lemma marker_refs_match:
  "citation_match s = Some (ds, u) \<Longrightarrow> marker_refs s = ds @ marker_refs u"
  by (cases s) (simp_all add: marker_refs.simps)

text \<open>The loop over the scan, as an induction rule: at a match, or past one character.\<close>

lemma scan_induct [case_names Nil match skip]:
  assumes "P []"
    and "\<And>s ds u. citation_match s = Some (ds, u) \<Longrightarrow> P u \<Longrightarrow> P s"
    and "\<And>c s. citation_match (c # s) = None \<Longrightarrow> P s \<Longrightarrow> P (c # s)"
  shows "P s"
proof (induction s rule: strip_citation_markers.induct)
  case 1
  show ?case by (rule assms(1))
next
  case (2 c s)
  show ?case
  proof (cases "citation_match (c # s)")
    case None
    then show ?thesis using 2(1) assms(3) by blast
  next
    case (Some m)
    then show ?thesis using 2(2) assms(2) by (cases m) auto
  qed
qed

section \<open>Refs\<close>

lemma ordered_unique_loop_append:
  "ordered_unique_loop r (vs @ [v]) =
     (if v \<in> set (ordered_unique_loop r vs) then ordered_unique_loop r vs
      else ordered_unique_loop r vs @ [v])"
  by (induction vs arbitrary: r) auto

lemma ordered_unique_snoc:
  "ordered_unique (vs @ [v]) =
     (if v \<in> set (ordered_unique vs) then ordered_unique vs else ordered_unique vs @ [v])"
  by (simp add: ordered_unique_def ordered_unique_loop_append)

lemma ordered_unique_Nil [simp]: "ordered_unique [] = []"
  by (simp add: ordered_unique_def)

lemma set_ordered_unique [simp]: "set (ordered_unique vs) = set vs"
  by (induction vs rule: rev_induct) (auto simp: ordered_unique_snoc)

lemma distinct_ordered_unique [simp]: "distinct (ordered_unique vs)"
  by (induction vs rule: rev_induct) (auto simp: ordered_unique_snoc)

text \<open>The order is that of first occurrence.\<close>

lemma ordered_unique_remdups: "ordered_unique vs = rev (remdups (rev vs))"
  by (induction vs rule: rev_induct) (auto simp: ordered_unique_snoc)

lemma ordered_unique_distinct: "distinct vs \<Longrightarrow> ordered_unique vs = vs"
  by (simp add: ordered_unique_remdups distinct_remdups_id)

definition has_marker :: "pystr \<Rightarrow> bool" where
  "has_marker s \<longleftrightarrow> (\<exists>p ds t q. s = p @ [LBRACKET, LBRACKET] @ t @ q \<and> group_lang ds t)"

lemma has_marker_Cons:
  "has_marker (c # s) \<longleftrightarrow> citation_match (c # s) \<noteq> None \<or> has_marker s"
proof
  assume "has_marker (c # s)"
  then obtain p ds t q where eq: "c # s = p @ [LBRACKET, LBRACKET] @ t @ q" and g: "group_lang ds t"
    unfolding has_marker_def by blast
  show "citation_match (c # s) \<noteq> None \<or> has_marker s"
  proof (cases p)
    case Nil
    with eq g have "citation_match (c # s) = Some (ds, q)"
      unfolding citation_match_iff by auto
    then show ?thesis by simp
  next
    case (Cons x p')
    with eq have "s = p' @ [LBRACKET, LBRACKET] @ t @ q" by simp
    with g show ?thesis unfolding has_marker_def by blast
  qed
next
  assume "citation_match (c # s) \<noteq> None \<or> has_marker s"
  then show "has_marker (c # s)"
  proof
    assume "citation_match (c # s) \<noteq> None"
    then obtain ds u where "citation_match (c # s) = Some (ds, u)" by auto
    then obtain t where "c # s = [LBRACKET, LBRACKET] @ t @ u" "group_lang ds t"
      unfolding citation_match_iff by blast
    then show ?thesis unfolding has_marker_def by (metis append_Nil)
  next
    assume "has_marker s"
    then show ?thesis unfolding has_marker_def by (metis append_Cons)
  qed
qed

lemma has_marker_Nil [simp]: "\<not> has_marker []"
  by (simp add: has_marker_def)

lemma has_marker_match: "citation_match s = Some (ds, u) \<Longrightarrow> has_marker s"
  by (cases s) (auto simp: has_marker_Cons)

lemma citation_match_refs:
  "citation_match s = Some (ds, u) \<Longrightarrow> ds \<noteq> [] \<and> (\<forall>d \<in> set ds. d \<noteq> [] \<and> list_all is_ascii_digit d)"
  unfolding citation_match_iff by (auto dest: group_lang_digits)

lemma no_marker_strip: "\<not> has_marker s \<Longrightarrow> strip_citation_markers s = s"
proof (induction s)
  case (Cons c s)
  then have "citation_match (c # s) = None" "\<not> has_marker s"
    using has_marker_Cons [of c s] by blast+
  with Cons show ?case by (simp add: strip_no_match)
qed simp

lemma marker_refs_empty_iff: "marker_refs s = [] \<longleftrightarrow> \<not> has_marker s"
  by (induction s rule: scan_induct)
    (auto simp: marker_refs_match marker_refs_no_match has_marker_Cons has_marker_match
      dest: citation_match_refs)

lemma marker_refs_digits:
  "d \<in> set (marker_refs s) \<Longrightarrow> d \<noteq> [] \<and> list_all is_ascii_digit d"
  by (induction s rule: scan_induct)
    (auto simp: marker_refs_match marker_refs_no_match dest: citation_match_refs)

lemma marker_refs_append_marker:
  "\<not> has_marker p \<Longrightarrow> LBRACKET \<notin> set p \<Longrightarrow> group_lang ds t \<Longrightarrow>
   marker_refs (p @ [LBRACKET, LBRACKET] @ t @ s) = ds @ marker_refs s"
proof (induction p)
  case Nil
  have "citation_match ([LBRACKET, LBRACKET] @ t @ s) = Some (ds, s)"
    using Nil.prems(3) unfolding citation_match_iff by blast
  then show ?case using marker_refs_match by fastforce
next
  case (Cons c p)
  have "citation_match (c # x) = None" for x
    using Cons.prems(2) by (cases x) auto
  then show ?case using Cons by (simp add: marker_refs_no_match has_marker_Cons)
qed

text \<open>Text around an answer that cannot belong to a marker does not change its refs.\<close>

lemma group_lang_last: "group_lang ds t \<Longrightarrow> t \<noteq> [] \<and> last t = RBRACKET"
  by (induction rule: group_lang.induct) auto

lemma citation_match_append:
  assumes "RBRACKET \<notin> set w"
  shows "citation_match (s @ w) = map_option (\<lambda>(ds, u). (ds, u @ w)) (citation_match s)"
proof (cases "citation_match (s @ w)")
  case None
  have "citation_match s = None"
  proof (rule ccontr)
    assume "citation_match s \<noteq> None"
    then obtain ds u where "citation_match s = Some (ds, u)" by auto
    then obtain t where "s = [LBRACKET, LBRACKET] @ t @ u" "group_lang ds t"
      unfolding citation_match_iff by blast
    then have "citation_match (s @ w) = Some (ds, u @ w)"
      unfolding citation_match_iff by (intro exI [of _ t]) simp
    then show False using None by simp
  qed
  then show ?thesis using None by simp
next
  case (Some m)
  obtain ds u where m: "m = (ds, u)" by fastforce
  have "citation_match (s @ w) = Some (ds, u)" using Some m by simp
  then obtain t where t: "s @ w = ([LBRACKET, LBRACKET] @ t) @ u" "group_lang ds t"
    unfolding citation_match_iff by auto
  from t(1) obtain us where "s = ([LBRACKET, LBRACKET] @ t) @ us \<and> us @ w = u
      \<or> s @ us = [LBRACKET, LBRACKET] @ t \<and> w = us @ u"
    unfolding append_eq_append_conv2 by blast
  then show ?thesis
  proof
    assume h: "s = ([LBRACKET, LBRACKET] @ t) @ us \<and> us @ w = u"
    then have "citation_match s = Some (ds, us)"
      using t(2) unfolding citation_match_iff by auto
    then show ?thesis using Some m h by simp
  next
    assume h: "s @ us = [LBRACKET, LBRACKET] @ t \<and> w = us @ u"
    show ?thesis
    proof (cases "us = []")
      case True
      then have "s = [LBRACKET, LBRACKET] @ t @ []" using h by simp
      then have "citation_match s = Some (ds, [])"
        using t(2) unfolding citation_match_iff by blast
      then show ?thesis using Some m h True by simp
    next
      case False
      have "last (s @ us) = RBRACKET" using h group_lang_last [OF t(2)] by simp
      then have "RBRACKET \<in> set us" using False by (metis last_appendR last_in_set)
      then show ?thesis using h assms by simp
    qed
  qed
qed

lemma marker_refs_append:
  assumes "RBRACKET \<notin> set w" "LBRACKET \<notin> set w" shows "marker_refs (s @ w) = marker_refs s"
proof (induction s rule: scan_induct)
  case Nil
  show ?case using assms(2)
  proof (induction w)
    case (Cons c w)
    then have "citation_match (c # w) = None" by (cases w) auto
    then show ?case using Cons by (simp add: marker_refs_no_match)
  qed simp
next
  case (match s ds u)
  then have "citation_match (s @ w) = Some (ds, u @ w)"
    using citation_match_append [OF assms(1), of s] by simp
  then show ?case using match by (simp add: marker_refs_match)
next
  case (skip c s)
  then have "citation_match (c # s @ w) = None"
    using citation_match_append [OF assms(1), of "c # s"] by simp
  then show ?case using skip by (simp add: marker_refs_no_match)
qed

lemma marker_refs_prepend:
  "LBRACKET \<notin> set v \<Longrightarrow> marker_refs (v @ s) = marker_refs s"
proof (induction v)
  case (Cons c v)
  then have "citation_match (c # v @ s) = None" by (cases "v @ s") auto
  then show ?case using Cons by (simp add: marker_refs_no_match)
qed simp

lemma marker_refs_constrained_strip: "marker_refs (constrained_strip s) = marker_refs s"
proof -
  obtain v w where s: "s = v @ constrained_strip s @ w" "\<forall>c \<in> set v. is_white_space c"
    "\<forall>c \<in> set w. is_white_space c" using constrained_strip_split by blast
  have "\<not> is_white_space LBRACKET" "\<not> is_white_space RBRACKET"
    by (simp_all add: is_white_space_def is_space_def)
  then have "LBRACKET \<notin> set v" "LBRACKET \<notin> set w" "RBRACKET \<notin> set w" using s(2,3) by blast+
  then show ?thesis using marker_refs_prepend marker_refs_append s(1) by metis
qed

section \<open>Citation integrity\<close>

record citation_integrity_report =
  marker_without_source_refs :: "pystr list"
  source_without_marker_refs :: "pystr list"

definition has_mismatch :: "citation_integrity_report \<Rightarrow> bool" where
  "has_mismatch r \<longleftrightarrow> marker_without_source_refs r \<noteq> [] \<or> source_without_marker_refs r \<noteq> []"

definition assess_citation_integrity :: "pystr \<Rightarrow> pystr list \<Rightarrow> citation_integrity_report" where
  "assess_citation_integrity answer source_refs =
     (let ms = parse_citation_refs answer; ss = ordered_unique source_refs in
      \<lparr>marker_without_source_refs = filter (\<lambda>ref. ref \<notin> set ss) ms,
       source_without_marker_refs = filter (\<lambda>ref. ref \<notin> set ms) ss\<rparr>)"

lemma no_mismatch_iff:
  "\<not> has_mismatch (assess_citation_integrity answer refs) \<longleftrightarrow>
     set (parse_citation_refs answer) = set refs"
  by (auto simp: has_mismatch_def assess_citation_integrity_def Let_def filter_empty_conv)

lemma set_parse_citation_refs [simp]: "set (parse_citation_refs s) = set (marker_refs s)"
  by (simp add: parse_citation_refs_def)

lemma distinct_parse_citation_refs [simp]: "distinct (parse_citation_refs s)"
  by (simp add: parse_citation_refs_def)

end
