(* ===== verification/Collection.thy ===== *)
theory Collection
  imports Planning Citations Complex_Main
begin

text \<open>
  Evidence collection: the search hits and the task report
  (\<^verbatim>\<open>agent/evidence_collection/contract.py\<close>), the external search with its query
  cleaning and hit pool (\<^verbatim>\<open>external_search/policy.py\<close>,
  \<^verbatim>\<open>external_search/service.py\<close>), the internal vector search
  (\<^verbatim>\<open>internal_search/service.py\<close>) and the per-task collection
  (\<^verbatim>\<open>service.py\<close>). The model runtime, the search provider, the embedding provider
  and the vector index are arguments of the definitions.
\<close>

definition EXTERNAL_TASK_QUERY_LIMIT :: nat where "EXTERNAL_TASK_QUERY_LIMIT = 3"
definition EXTERNAL_QUERY_MAX_CHARS :: nat where "EXTERNAL_QUERY_MAX_CHARS = 200"
definition EXTERNAL_SEARCH_HITS_PER_QUERY :: nat where "EXTERNAL_SEARCH_HITS_PER_QUERY = 10"
definition EXTERNAL_SEARCH_HIT_POOL_LIMIT_PER_TASK :: nat where
  "EXTERNAL_SEARCH_HIT_POOL_LIMIT_PER_TASK = 20"
definition INTERNAL_SEARCH_HITS_PER_QUERY :: nat where "INTERNAL_SEARCH_HITS_PER_QUERY = 5"
definition INTERNAL_SEARCH_HIT_POOL_LIMIT :: nat where "INTERNAL_SEARCH_HIT_POOL_LIMIT = 5"

section \<open>Hits\<close>

record internal_hit =
  ih_assessment_id :: int
  ih_curation_id :: int
  ih_title :: pystr
  ih_summary :: pystr
  ih_key_points :: "pystr list"
  ih_published_at :: "time option"
  ih_distance :: rat

record external_hit =
  eh_url :: pystr
  eh_title :: pystr
  eh_content :: "pystr option"
  eh_published_at :: "time option"
  eh_source_name :: "pystr option"

text \<open>The field constraints that the hits satisfy by construction.\<close>

definition valid_internal_hit :: "internal_hit \<Rightarrow> bool" where
  "valid_internal_hit h \<longleftrightarrow> ih_assessment_id h > 0 \<and> ih_curation_id h > 0 \<and> ih_title h \<noteq> []
     \<and> ih_summary h \<noteq> [] \<and> ih_distance h \<ge> 0"

definition valid_external_hit :: "external_hit \<Rightarrow> bool" where
  "valid_external_hit h \<longleftrightarrow> eh_url h \<noteq> [] \<and> eh_title h \<noteq> []
     \<and> (case eh_content h of None \<Rightarrow> True | Some c \<Rightarrow> length c \<le> 4000)"

section \<open>Contract\<close>

datatype internal_status = Internal_succeeded | Internal_failed

datatype external_status = External_succeeded | Query_generation_failed | Provider_failed

record task_report =
  report_task_index :: int
  report_research_goal :: pystr
  internal_collection :: internal_status
  external_collection :: external_status
  generated_queries :: "pystr list"
  provider_failed_query_count :: int
  internal_hit_count :: int
  external_hit_count :: int

definition validate_report :: "task_report \<Rightarrow> py_exc + task_report" where
  "validate_report r =
     (if report_task_index r < 0 \<or> provider_failed_query_count r < 0
         \<or> internal_hit_count r < 0 \<or> external_hit_count r < 0
         \<or> constrained_strip (report_research_goal r) = []
      then Inl ValidationError
      else if external_collection r = Query_generation_failed
         \<and> (generated_queries r \<noteq> [] \<or> provider_failed_query_count r \<noteq> 0 \<or> external_hit_count r \<noteq> 0)
      then Inl ValidationError
      else if external_collection r = Provider_failed
         \<and> (generated_queries r = []
            \<or> provider_failed_query_count r \<noteq> int (length (generated_queries r))
            \<or> external_hit_count r \<noteq> 0)
      then Inl ValidationError
      else if length (generated_queries r) > EXTERNAL_TASK_QUERY_LIMIT then Inl ValidationError
      else if list_ex (\<lambda>q. length q > EXTERNAL_QUERY_MAX_CHARS) (generated_queries r)
      then Inl ValidationError
      else Inr (r\<lparr>report_research_goal := constrained_strip (report_research_goal r)\<rparr>))"

record collected_task =
  ct_task_index :: int
  ct_research_goal :: pystr
  ct_internal_hits :: "internal_hit list"
  ct_external_hits :: "external_hit list"
  ct_executed_queries :: "pystr list"
  ct_report :: task_report

text \<open>\<^verbatim>\<open>CollectedNews.__post_init__\<close>: the tasks, or the error of its check.\<close>

definition make_collected_news :: "collected_task list \<Rightarrow> py_exc + collected_task list" where
  "make_collected_news ts =
     (if set (map ct_task_index ts) \<noteq> set (map int [0..<length ts]) then Inl ValueError
      else if list_ex (\<lambda>t. report_task_index (ct_report t) \<noteq> ct_task_index t) ts then Inl ValueError
      else Inr ts)"

definition has_hits :: "collected_task list \<Rightarrow> bool" where
  "has_hits ts \<longleftrightarrow> list_ex (\<lambda>t. ct_internal_hits t \<noteq> [] \<or> ct_external_hits t \<noteq> []) ts"

text \<open>The set comparison of the check does make every index occur once.\<close>

lemma collected_news_distinct:
  assumes "make_collected_news ts = Inr us"
  shows "us = ts" and "distinct (map ct_task_index ts)"
proof -
  show "us = ts" using assms by (auto simp: make_collected_news_def split: if_splits)
  have "set (map ct_task_index ts) = set (map int [0..<length ts])"
    using assms by (auto simp: make_collected_news_def split: if_splits)
  then have "card (set (map ct_task_index ts)) = card (int ` {0..<length ts})" by simp
  also have "\<dots> = length (map ct_task_index ts)" by (simp add: card_image)
  finally show "distinct (map ct_task_index ts)" by (rule card_distinct)
qed

section \<open>External search\<close>

fun clean_generated_queries_loop :: "pystr list \<Rightarrow> pystr list \<Rightarrow> pystr list" where
  "clean_generated_queries_loop queries [] = queries"
| "clean_generated_queries_loop queries (raw # raws) =
     (let query = take EXTERNAL_QUERY_MAX_CHARS (strip raw) in
      if query = [] \<or> query \<in> set queries then clean_generated_queries_loop queries raws
      else
        let queries' = queries @ [query] in
        if length queries' \<ge> EXTERNAL_TASK_QUERY_LIMIT then queries'
        else clean_generated_queries_loop queries' raws)"

definition clean_generated_queries :: "pystr list \<Rightarrow> pystr list" where
  "clean_generated_queries raws = clean_generated_queries_loop [] raws"

text \<open>
  \<^verbatim>\<open>build_hit_pool\<close>: the loop over the offsets and, inside it, over the queries, with the
  early return as a flag. The set of seen URLs is that of the pool.
\<close>

definition pool_visit ::
    "nat \<Rightarrow> external_hit list \<times> bool \<Rightarrow> external_hit list \<Rightarrow> external_hit list \<times> bool" where
  "pool_visit offset st hits =
     (case st of (pool, returned) \<Rightarrow>
        if returned then st
        else if offset \<ge> length hits then st
        else
          let hit = hits ! offset in
          if eh_url hit \<in> set (map eh_url pool) then st
          else (pool @ [hit], length (pool @ [hit]) \<ge> EXTERNAL_SEARCH_HIT_POOL_LIMIT_PER_TASK))"

definition build_hit_pool :: "external_hit list list \<Rightarrow> external_hit list" where
  "build_hit_pool hits_by_query =
     fst (foldl (\<lambda>st offset. foldl (pool_visit offset) st hits_by_query) ([], False)
            [0..<max_length hits_by_query])"

text \<open>One query at the provider: the hits, or its classified failure or time limit as \<^const>\<open>None\<close>.\<close>

definition search_query ::
    "(pystr \<Rightarrow> external_hit list option) \<Rightarrow> pystr \<Rightarrow> external_hit list \<times> bool" where
  "search_query gateway query =
     (case gateway query of
        None \<Rightarrow> ([], True)
      | Some hits \<Rightarrow> (take EXTERNAL_SEARCH_HITS_PER_QUERY hits, False))"

record external_execution =
  ex_generated_queries :: "pystr list"
  ex_hits :: "external_hit list"
  ex_provider_failed_query_count :: int
  ex_executed_queries :: "pystr list"

fun settle_queries ::
    "(pystr \<times> external_hit list \<times> bool) list \<Rightarrow> external_hit list list \<times> pystr list \<times> int" where
  "settle_queries [] = ([], [], 0)"
| "settle_queries ((query, hits, failed) # rs) =
     (case settle_queries rs of (hits_by_query, executed, failures) \<Rightarrow>
        if failed then ([] # hits_by_query, executed, failures + 1)
        else (hits # hits_by_query, query # executed, failures))"

definition search_queries ::
    "(pystr \<Rightarrow> external_hit list option) \<Rightarrow> pystr list \<Rightarrow> external_execution" where
  "search_queries gateway queries =
     (case settle_queries (map (\<lambda>q. (q, search_query gateway q)) queries) of
        (hits_by_query, executed, failures) \<Rightarrow>
          \<lparr>ex_generated_queries = queries, ex_hits = build_hit_pool hits_by_query,
           ex_provider_failed_query_count = failures, ex_executed_queries = executed\<rparr>)"

text \<open>
  \<^verbatim>\<open>ExternalSearchService.search\<close>: the query generation gives the model's raw queries, or
  its classified failure as \<^const>\<open>None\<close>.
\<close>

definition external_search ::
    "(pystr \<Rightarrow> pystr list option) \<Rightarrow> (pystr \<Rightarrow> external_hit list option) \<Rightarrow> pystr \<Rightarrow> external_execution" where
  "external_search generate gateway goal =
     (let queries = (case generate goal of None \<Rightarrow> [] | Some raws \<Rightarrow> clean_generated_queries raws) in
      if queries = [] then
        \<lparr>ex_generated_queries = [], ex_hits = [], ex_provider_failed_query_count = 0,
         ex_executed_queries = []\<rparr>
      else search_queries gateway queries)"

section \<open>Internal search\<close>

text \<open>A classified failure of the internal search: the exception that a collection survives.\<close>

datatype internal_failure = QueryEmbeddingFailed | ArticleSearchFailed | InternalSearchTimeout

definition validate_search_queries :: "pystr list \<Rightarrow> py_exc + pystr list" where
  "validate_search_queries qs =
     (if length qs > MAX_ARTICLE_SEARCH_QUERIES then Inl ValidationError
      else if list_ex (\<lambda>q. q = []) (map strip qs) then Inl ValidationError
      else Inr (map strip qs))"

definition keep_best ::
    "(int \<times> internal_hit) list \<Rightarrow> internal_hit \<Rightarrow> (int \<times> internal_hit) list" where
  "keep_best best hit =
     (case map_of best (ih_curation_id hit) of
        None \<Rightarrow> AList.update (ih_curation_id hit) hit best
      | Some current \<Rightarrow>
          if ih_distance hit < ih_distance current
          then AList.update (ih_curation_id hit) hit best else best)"

definition search_articles ::
    "('v \<Rightarrow> internal_failure + internal_hit list) \<Rightarrow> 'v list \<Rightarrow> internal_failure + internal_hit list" where
  "search_articles search_by_embedding embeddings =
     (case fold (\<lambda>e acc. case acc of
                   Inl f \<Rightarrow> Inl f
                 | Inr best \<Rightarrow>
                     (case search_by_embedding e of
                        Inl f \<Rightarrow> Inl f
                      | Inr hits \<Rightarrow> Inr (foldl keep_best best hits)))
             embeddings (Inr []) of
        Inl f \<Rightarrow> Inl f
      | Inr best \<Rightarrow> Inr (take INTERNAL_SEARCH_HIT_POOL_LIMIT (sort_key ih_distance (map snd best))))"

text \<open>
  The vectors of the queries: from the cache where it has them, the rest from one call of the
  embedder, which gets only the misses; the result is in the order of the queries.
\<close>

definition query_vectors ::
    "(pystr \<Rightarrow> 'v option) \<Rightarrow> (pystr list \<Rightarrow> internal_failure + (pystr \<times> 'v) list) \<Rightarrow> pystr list
       \<Rightarrow> internal_failure + 'v list" where
  "query_vectors cached embed_queries queries =
     (let hits = concat (map (\<lambda>q. case cached q of None \<Rightarrow> [] | Some v \<Rightarrow> [(q, v)]) queries);
          misses = filter (\<lambda>q. cached q = None) queries
      in case (if misses = [] then Inr [] else embed_queries misses) of
           Inl f \<Rightarrow> Inl f
         | Inr new \<Rightarrow>
             (let by_query = AList.updates (map fst new) (map snd new) hits
              in Inr (concat (map (\<lambda>q. case map_of by_query q of None \<Rightarrow> [] | Some v \<Rightarrow> [v]) queries))))"

definition internal_search ::
    "(pystr \<Rightarrow> 'v option) \<Rightarrow> (pystr list \<Rightarrow> internal_failure + (pystr \<times> 'v) list)
       \<Rightarrow> ('v \<Rightarrow> internal_failure + internal_hit list) \<Rightarrow> pystr list
       \<Rightarrow> internal_failure + internal_hit list" where
  "internal_search cached embed_queries search_by_embedding queries =
     (case query_vectors cached embed_queries queries of
        Inl f \<Rightarrow> Inl f
      | Inr vs \<Rightarrow> search_articles search_by_embedding vs)"

section \<open>Collecting one task and a run\<close>

datatype collection_event =
    InternalSearchStarted int int
  | InternalSearchCompleted int int
  | ExternalSearchQueriesGenerated int "pystr list"
  | ExternalSearchHitsFetched int int

definition collect_internal ::
    "(pystr list \<Rightarrow> internal_failure + internal_hit list) \<Rightarrow> int \<Rightarrow> research_task
       \<Rightarrow> py_exc + (internal_hit list \<times> bool \<times> collection_event list)" where
  "collect_internal search task_index task =
     (case validate_search_queries (article_search_queries task) of
        Inl e \<Rightarrow> Inl e
      | Inr queries \<Rightarrow>
          (let started = InternalSearchStarted task_index (int (length queries)) in
           case search queries of
             Inl f \<Rightarrow> Inr ([], True, [started])
           | Inr hits \<Rightarrow>
               Inr (hits, False, [started, InternalSearchCompleted task_index (int (length hits))])))"

definition collect_external ::
    "(pystr \<Rightarrow> external_execution) \<Rightarrow> int \<Rightarrow> research_task
       \<Rightarrow> py_exc + (pystr list \<times> int \<times> external_hit list \<times> external_status \<times> pystr list
                    \<times> collection_event list)" where
  "collect_external search task_index task =
     (let x = search (research_goal task); qs = ex_generated_queries x in
      if qs = [] then Inr ([], 0, [], Query_generation_failed, [], [])
      else case non_blank_texts qs of
        Inl e \<Rightarrow> Inl e
      | Inr shown \<Rightarrow>
          (let generated = ExternalSearchQueriesGenerated task_index shown in
           if ex_provider_failed_query_count x = int (length qs)
           then Inr (qs, ex_provider_failed_query_count x, [], Provider_failed, [], [generated])
           else Inr (qs, ex_provider_failed_query_count x, ex_hits x, External_succeeded,
                     ex_executed_queries x,
                     [generated, ExternalSearchHitsFetched task_index (int (length (ex_hits x)))])))"

definition collect_for_goal ::
    "(pystr list \<Rightarrow> internal_failure + internal_hit list) \<Rightarrow> (pystr \<Rightarrow> external_execution)
       \<Rightarrow> int \<Rightarrow> research_task \<Rightarrow> py_exc + collected_task" where
  "collect_for_goal internal external task_index task =
     (case collect_internal internal task_index task of
        Inl e \<Rightarrow> Inl e
      | Inr (hits, internal_failed, _) \<Rightarrow>
          (case collect_external external task_index task of
             Inl e \<Rightarrow> Inl e
           | Inr (qs, failed_count, external_hits, status, executed, _) \<Rightarrow>
               (case validate_report
                  \<lparr>report_task_index = task_index, report_research_goal = research_goal task,
                   internal_collection =
                     (if internal_failed then Internal_failed else Internal_succeeded),
                   external_collection = status, generated_queries = qs,
                   provider_failed_query_count = failed_count,
                   internal_hit_count = int (length hits),
                   external_hit_count = int (length external_hits)\<rparr> of
                  Inl e \<Rightarrow> Inl e
                | Inr report \<Rightarrow>
                    Inr \<lparr>ct_task_index = task_index, ct_research_goal = research_goal task,
                         ct_internal_hits = hits, ct_external_hits = external_hits,
                         ct_executed_queries = executed, ct_report = report\<rparr>)))"

text \<open>The tasks run concurrently; their results are gathered in the order of the plan.\<close>

fun collect_tasks ::
    "(int \<Rightarrow> pystr list \<Rightarrow> internal_failure + internal_hit list) \<Rightarrow> (int \<Rightarrow> pystr \<Rightarrow> external_execution)
       \<Rightarrow> int \<Rightarrow> research_task list \<Rightarrow> py_exc + collected_task list" where
  "collect_tasks internal external i [] = Inr []"
| "collect_tasks internal external i (t # ts) =
     (case collect_for_goal (internal i) (external i) i t of
        Inl e \<Rightarrow> Inl e
      | Inr c \<Rightarrow>
          (case collect_tasks internal external (i + 1) ts of
             Inl e \<Rightarrow> Inl e
           | Inr cs \<Rightarrow> Inr (c # cs)))"

definition collect ::
    "(int \<Rightarrow> pystr list \<Rightarrow> internal_failure + internal_hit list) \<Rightarrow> (int \<Rightarrow> pystr \<Rightarrow> external_execution)
       \<Rightarrow> search_plan \<Rightarrow> py_exc + collected_task list" where
  "collect internal external plan =
     (case collect_tasks internal external 0 (research_tasks plan) of
        Inl e \<Rightarrow> Inl e
      | Inr ts \<Rightarrow> make_collected_news ts)"


section \<open>The hit pool\<close>

text \<open>The hits by rank and then by query, and the first hit of every URL.\<close>

definition round_robin :: "'a list list \<Rightarrow> 'a list" where
  "round_robin xss =
     concat (map (\<lambda>i. map (\<lambda>xs. xs ! i) (filter (\<lambda>xs. i < length xs) xss)) [0..<max_length xss])"

definition first_by_url :: "external_hit list \<Rightarrow> external_hit list" where
  "first_by_url hits =
     foldl (\<lambda>pool h. if eh_url h \<in> set (map eh_url pool) then pool else pool @ [h]) [] hits"

definition pool_add :: "external_hit list \<times> bool \<Rightarrow> external_hit \<Rightarrow> external_hit list \<times> bool" where
  "pool_add st hit = pool_visit 0 st [hit]"

lemma pool_visit_eq:
  "pool_visit i st hits = (if i < length hits then pool_add st (hits ! i) else st)"
  by (simp add: pool_visit_def pool_add_def Let_def split: prod.splits)

lemma pool_add_pair:
  "pool_add (pool, returned) hit =
     (if returned \<or> eh_url hit \<in> set (map eh_url pool) then (pool, returned)
      else (pool @ [hit], length (pool @ [hit]) \<ge> EXTERNAL_SEARCH_HIT_POOL_LIMIT_PER_TASK))"
  by (simp add: pool_add_def pool_visit_def Let_def)

lemma pool_row_eq:
  "foldl (pool_visit i) st xss
     = foldl pool_add st (map (\<lambda>xs. xs ! i) (filter (\<lambda>xs. i < length xs) xss))"
  by (induction xss arbitrary: st) (simp_all add: pool_visit_eq)

lemma pool_rows_eq:
  "foldl (\<lambda>st i. foldl (pool_visit i) st xss) st is
     = foldl pool_add st (concat (map (\<lambda>i. map (\<lambda>xs. xs ! i) (filter (\<lambda>xs. i < length xs) xss)) is))"
  by (induction "is" arbitrary: st) (simp_all add: pool_row_eq)

lemma first_by_url_snoc:
  "first_by_url (hs @ [h]) =
     (if eh_url h \<in> set (map eh_url (first_by_url hs)) then first_by_url hs
      else first_by_url hs @ [h])"
  by (simp add: first_by_url_def)

lemma pool_add_all:
  "foldl pool_add ([], False) hs =
     (take EXTERNAL_SEARCH_HIT_POOL_LIMIT_PER_TASK (first_by_url hs),
      length (first_by_url hs) \<ge> EXTERNAL_SEARCH_HIT_POOL_LIMIT_PER_TASK)"
proof (induction hs rule: rev_induct)
  case Nil
  show ?case by (simp add: first_by_url_def EXTERNAL_SEARCH_HIT_POOL_LIMIT_PER_TASK_def)
next
  case (snoc h hs)
  show ?case
    by (cases "length (first_by_url hs) \<ge> EXTERNAL_SEARCH_HIT_POOL_LIMIT_PER_TASK")
      (simp_all add: snoc first_by_url_snoc pool_add_pair)
qed

lemma build_hit_pool_eq:
  "build_hit_pool xss = take EXTERNAL_SEARCH_HIT_POOL_LIMIT_PER_TASK (first_by_url (round_robin xss))"
  by (simp add: build_hit_pool_def pool_rows_eq pool_add_all round_robin_def)

lemma first_by_url_props:
  "distinct (map eh_url (first_by_url hs)) \<and> set (first_by_url hs) \<subseteq> set hs
     \<and> eh_url ` set (first_by_url hs) = eh_url ` set hs"
proof (induction hs rule: rev_induct)
  case (snoc h hs)
  then show ?case by (auto simp: first_by_url_snoc)
qed (simp add: first_by_url_def)

lemma set_round_robin: "set (round_robin xss) = \<Union> (set ` set xss)"
proof
  show "set (round_robin xss) \<subseteq> \<Union> (set ` set xss)"
    by (force simp: round_robin_def)
  show "\<Union> (set ` set xss) \<subseteq> set (round_robin xss)"
  proof
    fix x assume "x \<in> \<Union> (set ` set xss)"
    then obtain xs i where xs: "xs \<in> set xss" "i < length xs" "x = xs ! i"
      by (auto simp: in_set_conv_nth)
    then have "i < max_length xss" using max_length_bound [OF xs(1)] by simp
    then show "x \<in> set (round_robin xss)" using xs by (force simp: round_robin_def)
  qed
qed

text \<open>
  The pool of an external search is the round robin of the result lists (rank by rank, in the
  order of the queries), without repeated URLs, cut at twenty: its URLs are distinct, its hits
  all come from the providers, and when fewer than twenty hits come out, every URL found by any
  query is in it.
\<close>

theorem hit_pool_is_deduplicated_round_robin:
  "build_hit_pool xss = take EXTERNAL_SEARCH_HIT_POOL_LIMIT_PER_TASK (first_by_url (round_robin xss))
     \<and> distinct (map eh_url (build_hit_pool xss))
     \<and> set (build_hit_pool xss) \<subseteq> \<Union> (set ` set xss)
     \<and> length (build_hit_pool xss) =
         min EXTERNAL_SEARCH_HIT_POOL_LIMIT_PER_TASK (card (eh_url ` \<Union> (set ` set xss)))"
proof -
  note props = first_by_url_props [of "round_robin xss"]
  have "card (eh_url ` set (round_robin xss)) = length (first_by_url (round_robin xss))"
    using props distinct_card [of "map eh_url (first_by_url (round_robin xss))"] by simp
  then show ?thesis
    using props
    by (auto simp: build_hit_pool_eq set_round_robin distinct_take simp flip: take_map
        dest: in_set_takeD)
qed

section \<open>The internal search\<close>

lemma keep_best_keys:
  "distinct (map fst best) \<Longrightarrow> \<forall>(c, h) \<in> set best. ih_curation_id h = c \<Longrightarrow>
   distinct (map fst (keep_best best hit)) \<and> (\<forall>(c, h) \<in> set (keep_best best hit). ih_curation_id h = c)"
  by (auto simp: keep_best_def distinct_update set_update_distinct split: option.splits if_splits)

text \<open>Per article the closest hit so far, among the hits \<^term>\<open>seen\<close>.\<close>

definition best_of :: "internal_hit list \<Rightarrow> (int \<times> internal_hit) list \<Rightarrow> bool" where
  "best_of seen best \<longleftrightarrow> distinct (map fst best) \<and> (\<forall>(c, h) \<in> set best. ih_curation_id h = c)
     \<and> (\<forall>(c, h) \<in> set best. h \<in> set seen)
     \<and> (\<forall>x \<in> set seen. \<exists>h. map_of best (ih_curation_id x) = Some h \<and> ih_distance h \<le> ih_distance x)"

lemma best_of_keep:
  assumes "best_of seen best" shows "best_of (seen @ [hit]) (keep_best best hit)"
proof -
  have "distinct (map fst best)" "\<forall>(c, h) \<in> set best. ih_curation_id h = c"
    using assms by (auto simp: best_of_def)
  note keys = keep_best_keys [OF this, of hit] and dist = this(1)
  have "\<forall>(c, h) \<in> set (keep_best best hit). h \<in> set (seen @ [hit])"
    using assms dist
    by (auto simp: best_of_def keep_best_def set_update_distinct split: option.splits if_splits)
  moreover have "\<exists>h. map_of (keep_best best hit) (ih_curation_id x) = Some h
      \<and> ih_distance h \<le> ih_distance x" if "x \<in> set (seen @ [hit])" for x
    using that assms
    by (fastforce simp: best_of_def keep_best_def split: option.splits if_splits)
  ultimately show ?thesis using keys by (auto simp: best_of_def)
qed

lemma best_of_keep_all: "best_of seen best \<Longrightarrow> best_of (seen @ hits) (foldl keep_best best hits)"
proof (induction hits arbitrary: seen best)
  case (Cons h hits)
  then show ?case using best_of_keep [of seen best h] by fastforce
qed simp

fun found_hits :: "('v \<Rightarrow> internal_failure + internal_hit list) \<Rightarrow> 'v list \<Rightarrow> internal_hit list" where
  "found_hits search [] = []"
| "found_hits search (v # vs) = (case search v of Inl f \<Rightarrow> [] | Inr hits \<Rightarrow> hits @ found_hits search vs)"

definition article_step where
  "article_step search_by_embedding = (\<lambda>e acc. case acc of
       Inl f \<Rightarrow> Inl f
     | Inr best \<Rightarrow>
         (case search_by_embedding e of
            Inl f \<Rightarrow> Inl (f :: internal_failure)
          | Inr hits \<Rightarrow> Inr (foldl keep_best best hits)))"

lemma article_step_Inl: "fold (article_step search) vs (Inl f) = Inl f"
  by (induction vs) (auto simp: article_step_def)

lemma article_fold_best:
  "best_of seen best \<Longrightarrow> fold (article_step search) vs (Inr best) = Inr best' \<Longrightarrow>
   best_of (seen @ found_hits search vs) best'"
proof (induction vs arbitrary: seen best)
  case (Cons v vs)
  show ?case
  proof (cases "search v")
    case (Inl f)
    then show ?thesis using Cons.prems by (simp add: article_step_def [of search] )
        (simp add: article_step_Inl flip: article_step_def)
  next
    case (Inr hits)
    have "fold (article_step search) vs (Inr (foldl keep_best best hits)) = Inr best'"
      using Cons.prems(2) Inr by (simp add: article_step_def)
    then show ?thesis
      using Cons.IH [OF best_of_keep_all [OF Cons.prems(1), of hits]] Inr by simp
  qed
qed simp

text \<open>
  The articles of an internal search: at most five, in the order of their distance, every
  article once, and each with its smallest distance over all the query vectors; an article that
  was found but left out is no closer than any article returned.
\<close>

theorem internal_search_returns_closest:
  assumes "search_articles search vs = Inr hits"
  shows "length hits \<le> INTERNAL_SEARCH_HIT_POOL_LIMIT \<and> sorted (map ih_distance hits)
    \<and> distinct (map ih_curation_id hits) \<and> set hits \<subseteq> set (found_hits search vs)
    \<and> (\<forall>h \<in> set hits. \<forall>x \<in> set (found_hits search vs).
         (ih_curation_id x = ih_curation_id h \<longrightarrow> ih_distance h \<le> ih_distance x)
         \<and> (ih_curation_id x \<notin> set (map ih_curation_id hits) \<longrightarrow> ih_distance h \<le> ih_distance x))"
proof -
  obtain best where fold_eq: "fold (article_step search) vs (Inr []) = Inr best"
    and hits: "hits = take INTERNAL_SEARCH_HIT_POOL_LIMIT (sort_key ih_distance (map snd best))"
    using assms by (auto simp: search_articles_def article_step_def split: sum.splits)
  have "best_of [] []" by (simp add: best_of_def)
  then have best: "best_of (found_hits search vs) best"
    using article_fold_best [OF _ fold_eq] by fastforce
  define all where "all = sort_key ih_distance (map snd best)"
  have hits_all: "hits = take INTERNAL_SEARCH_HIT_POOL_LIMIT all" by (simp add: hits all_def)
  have keys: "map ih_curation_id (map snd best) = map fst best"
    using best by (auto simp: best_of_def)
  have srt: "sorted (map ih_distance all)" by (simp add: all_def)
  have "distinct (map ih_curation_id all)"
  proof -
    have "distinct (map ih_curation_id (map snd best))"
      unfolding keys using best by (simp add: best_of_def)
    then show ?thesis
      unfolding all_def distinct_map [of ih_curation_id] by (simp only: distinct_sort set_sort)
  qed
  moreover have "set all \<subseteq> set (found_hits search vs)"
    using best by (force simp: all_def best_of_def)
  moreover have least: "ih_distance h \<le> ih_distance x"
    if "h \<in> set all" "x \<in> set (found_hits search vs)" "ih_curation_id x = ih_curation_id h" for h x
  proof -
    have "(ih_curation_id h, h) \<in> set best" using that(1) best by (force simp: all_def best_of_def)
    then have "map_of best (ih_curation_id h) = Some h" using best by (simp add: best_of_def)
    then show ?thesis using best that(2,3) by (force simp: best_of_def)
  qed
  moreover have "ih_distance h \<le> ih_distance x"
    if h: "h \<in> set hits" and x: "x \<in> set (found_hits search vs)"
      and nx: "ih_curation_id x \<notin> set (map ih_curation_id hits)" for h x
  proof -
    obtain y where y: "map_of best (ih_curation_id x) = Some y" "ih_distance y \<le> ih_distance x"
      using best x unfolding best_of_def by blast
    then have my: "y \<in> set all" "ih_curation_id y = ih_curation_id x"
      using best by (auto simp: all_def best_of_def dest!: map_of_SomeD) force
    then have "y \<notin> set hits" using nx by (metis image_eqI set_map)
    then have "y \<in> set (drop INTERNAL_SEARCH_HIT_POOL_LIMIT all)"
      using my(1) hits_all by (metis Un_iff append_take_drop_id set_append)
    moreover have "sorted (map ih_distance (hits @ drop INTERNAL_SEARCH_HIT_POOL_LIMIT all))"
      using srt hits_all by simp
    ultimately have "ih_distance h \<le> ih_distance y"
      using h by (auto simp: sorted_append)
    then show ?thesis using y(2) by simp
  qed
  ultimately show ?thesis
    using srt hits_all
    by (auto simp: distinct_take sorted_wrt_take simp flip: take_map dest: in_set_takeD)
qed


lemma internal_search_returns_closest_witness:
  "\<exists>search vs hits. search_articles search (vs :: nat list) = Inr hits \<and> map ih_curation_id hits = [8, 7]
     \<and> sorted (map ih_distance hits)"
proof -
  let ?h = "\<lambda>c d. \<lparr>ih_assessment_id = 1, ih_curation_id = c, ih_title = [65], ih_summary = [66],
    ih_key_points = [], ih_published_at = None, ih_distance = d\<rparr>"
  let ?search = "\<lambda>v :: nat. if v = 0 then Inr [?h 7 (1/2)] else Inr [?h 8 (1/4), ?h 7 (3/4)]"
  have run: "search_articles ?search [0, 1] = Inr [?h 8 (1/4), ?h 7 (1/2)]"
    by (simp add: search_articles_def keep_best_def INTERNAL_SEARCH_HIT_POOL_LIMIT_def
        sort_key_def)
  show ?thesis
    using run internal_search_returns_closest [OF run]
    by (intro exI [of _ ?search] exI [of _ "[0, 1]"] exI [of _ "[?h 8 (1/4), ?h 7 (1/2)]"]) simp
qed

section \<open>Collecting never fails\<close>

definition search_query_text :: "pystr \<Rightarrow> bool" where
  "search_query_text q \<longleftrightarrow> q \<noteq> [] \<and> length q \<le> EXTERNAL_QUERY_MAX_CHARS \<and> constrained_strip q \<noteq> []"

lemma clean_generated_queries_loop_inv:
  assumes "distinct qs" "length qs < EXTERNAL_TASK_QUERY_LIMIT" "\<forall>q \<in> set qs. search_query_text q"
  shows "distinct (clean_generated_queries_loop qs raws)
    \<and> length (clean_generated_queries_loop qs raws) \<le> EXTERNAL_TASK_QUERY_LIMIT
    \<and> (\<forall>q \<in> set (clean_generated_queries_loop qs raws). search_query_text q)"
  using assms
proof (induction qs raws rule: clean_generated_queries_loop.induct)
  case (2 qs raw raws)
  let ?q = "take EXTERNAL_QUERY_MAX_CHARS (strip raw)"
  show ?case
  proof (cases "?q = [] \<or> ?q \<in> set qs")
    case True
    then show ?thesis using 2 by (auto simp: Let_def)
  next
    case False
    then have "search_query_text ?q"
      using constrained_strip_take_strip [of EXTERNAL_QUERY_MAX_CHARS raw]
      by (auto simp: search_query_text_def)
    then show ?thesis
      using 2(2) [OF refl _ refl] 2(3-) False by (auto simp: Let_def)
  qed
qed auto

lemma clean_generated_queries_ok:
  "distinct (clean_generated_queries raws)"
  "length (clean_generated_queries raws) \<le> EXTERNAL_TASK_QUERY_LIMIT"
  "q \<in> set (clean_generated_queries raws) \<Longrightarrow> search_query_text q"
  using clean_generated_queries_loop_inv [of "[]" raws]
  by (auto simp: clean_generated_queries_def EXTERNAL_TASK_QUERY_LIMIT_def)

text \<open>What the collection relies on in an external search, and what the service provides.\<close>

definition execution_ok :: "external_execution \<Rightarrow> bool" where
  "execution_ok x \<longleftrightarrow> length (ex_generated_queries x) \<le> EXTERNAL_TASK_QUERY_LIMIT
     \<and> (\<forall>q \<in> set (ex_generated_queries x). search_query_text q)
     \<and> 0 \<le> ex_provider_failed_query_count x
     \<and> ex_provider_failed_query_count x + int (length (ex_executed_queries x))
         = int (length (ex_generated_queries x))
     \<and> set (ex_executed_queries x) \<subseteq> set (ex_generated_queries x)"

definition recordable_queries :: "pystr list \<Rightarrow> bool" where
  "recordable_queries qs \<longleftrightarrow> length qs \<le> EXTERNAL_TASK_QUERY_LIMIT \<and> (\<forall>q \<in> set qs. search_query_text q)"

lemma settle_queries_counts:
  "settle_queries rs = (hbq, executed, failures) \<Longrightarrow>
   0 \<le> failures \<and> failures + int (length executed) = int (length rs) \<and> length hbq = length rs
   \<and> set executed \<subseteq> fst ` set rs"
  by (induction rs arbitrary: hbq executed failures rule: settle_queries.induct)
    (auto split: prod.splits if_splits)

lemma external_search_ok: "execution_ok (external_search generate gateway goal)"
proof -
  have "execution_ok (search_queries gateway (clean_generated_queries raws))" for raws
    using clean_generated_queries_ok settle_queries_counts
    by (fastforce simp: execution_ok_def search_queries_def image_image split: prod.splits)
  then show ?thesis
    by (auto simp: external_search_def Let_def execution_ok_def split: option.splits)
qed

text \<open>The interface of the collection to a search that keeps this contract.\<close>

locale external_searcher =
  fixes search :: "int \<Rightarrow> pystr \<Rightarrow> external_execution"
  assumes search_ok: "execution_ok (search i goal)"
begin

lemma collect_external_ok:
  "\<exists>qs n hits st executed evs. collect_external (search i) i task = Inr (qs, n, hits, st, executed, evs)
     \<and> 0 \<le> n \<and> length qs \<le> EXTERNAL_TASK_QUERY_LIMIT
     \<and> (\<forall>q \<in> set qs. length q \<le> EXTERNAL_QUERY_MAX_CHARS)
     \<and> (st = Query_generation_failed \<longrightarrow> qs = [] \<and> n = 0 \<and> hits = [])
     \<and> (st = Provider_failed \<longrightarrow> qs \<noteq> [] \<and> n = int (length qs) \<and> hits = [])
     \<and> recordable_queries executed \<and> set hits \<subseteq> set (ex_hits (search i (research_goal task)))"
proof -
  let ?x = "search i (research_goal task)"
  have ok: "execution_ok ?x" by (rule search_ok)
  then have texts: "non_blank_texts (ex_generated_queries ?x)
      = Inr (map constrained_strip (ex_generated_queries ?x))"
    by (intro non_blank_texts_ok) (auto simp: execution_ok_def search_query_text_def)
  have short: "\<forall>q \<in> set (ex_generated_queries ?x). length q \<le> EXTERNAL_QUERY_MAX_CHARS"
    using ok by (auto simp: execution_ok_def search_query_text_def)
  show ?thesis
    using ok texts short by (auto simp: collect_external_def Let_def execution_ok_def recordable_queries_def)
qed

lemma collect_for_goal_ok:
  assumes "constrained_strip (research_goal task) \<noteq> []" "0 \<le> i"
    "length (article_search_queries task) \<le> MAX_ARTICLE_SEARCH_QUERIES"
    "\<forall>q \<in> set (article_search_queries task). stripped_query q"
  shows "\<exists>c. collect_for_goal internal (search i) i task = Inr c \<and> ct_task_index c = i
    \<and> report_task_index (ct_report c) = i \<and> ct_research_goal c = research_goal task
    \<and> recordable_queries (ct_executed_queries c)
    \<and> set (ct_external_hits c) \<subseteq> set (ex_hits (search i (research_goal task)))
    \<and> (ct_internal_hits c = [] \<or> (\<exists>qs. internal qs = Inr (ct_internal_hits c)))"
proof -
  have "validate_search_queries (article_search_queries task)
      = Inr (map strip (article_search_queries task))"
    using assms(3,4) by (auto simp: validate_search_queries_def stripped_query_def list_ex_iff)
  then obtain hits failed evs where int_ok: "collect_internal internal i task = Inr (hits, failed, evs)"
    "hits = [] \<or> (\<exists>qs. internal qs = Inr hits)"
    by (cases "internal (map strip (article_search_queries task))") (auto simp: collect_internal_def)
  show ?thesis
    using collect_external_ok [of i task] int_ok assms(1,2)
    by (force simp: collect_for_goal_def validate_report_def list_ex_iff)
qed

lemma collect_tasks_ok:
  "0 \<le> i \<Longrightarrow> \<forall>t \<in> set ts. constrained_strip (research_goal t) \<noteq> []
      \<and> length (article_search_queries t) \<le> MAX_ARTICLE_SEARCH_QUERIES
      \<and> (\<forall>q \<in> set (article_search_queries t). stripped_query q) \<Longrightarrow>
   \<exists>cs. collect_tasks internal search i ts = Inr cs
      \<and> map ct_task_index cs = map (\<lambda>k. i + int k) [0..<length ts]
      \<and> (\<forall>c \<in> set cs. report_task_index (ct_report c) = ct_task_index c)
      \<and> map ct_research_goal cs = map research_goal ts
      \<and> (\<forall>c \<in> set cs. recordable_queries (ct_executed_queries c)
          \<and> (\<exists>k goal. set (ct_external_hits c) \<subseteq> set (ex_hits (search k goal)))
          \<and> (ct_internal_hits c = [] \<or> (\<exists>k qs. internal k qs = Inr (ct_internal_hits c))))"
proof (induction ts arbitrary: i)
  case (Cons t ts)
  obtain c where c: "collect_for_goal (internal i) (search i) i t = Inr c" "ct_task_index c = i"
    "report_task_index (ct_report c) = i" "ct_research_goal c = research_goal t"
    "recordable_queries (ct_executed_queries c)"
    "set (ct_external_hits c) \<subseteq> set (ex_hits (search i (research_goal t)))"
    "ct_internal_hits c = [] \<or> (\<exists>qs. internal i qs = Inr (ct_internal_hits c))"
    using collect_for_goal_ok [of t i "internal i"] Cons.prems by auto
  obtain cs where cs: "collect_tasks internal search (i + 1) ts = Inr cs"
    "map ct_task_index cs = map (\<lambda>k. i + 1 + int k) [0..<length ts]"
    "\<forall>c \<in> set cs. report_task_index (ct_report c) = ct_task_index c"
    "map ct_research_goal cs = map research_goal ts"
    "\<forall>c \<in> set cs. recordable_queries (ct_executed_queries c)
          \<and> (\<exists>k goal. set (ct_external_hits c) \<subseteq> set (ex_hits (search k goal)))
          \<and> (ct_internal_hits c = [] \<or> (\<exists>k qs. internal k qs = Inr (ct_internal_hits c)))"
    using Cons.IH [of "i + 1"] Cons.prems by auto
  have "map (\<lambda>k. i + int k) [0..<length (t # ts)]
      = i # map (\<lambda>k. i + 1 + int k) [0..<length ts]"
    by (simp add: upt_conv_Cons map_Suc_upt [symmetric] comp_def algebra_simps del: upt_Suc)
  then show ?case using c cs by auto
qed simp

end

text \<open>The service's external search keeps the contract, whatever model and provider do.\<close>

interpretation service_search: external_searcher "\<lambda>i. external_search (generate i) (gateway i)"
  by unfold_locales (rule external_search_ok)

lemma collected_ok:
  assumes "plan_from_draft casefold d = Inr (SearchPlan p)"
  shows "\<exists>cs. collect internal (\<lambda>i. external_search (generate i) (gateway i)) p = Inr cs
    \<and> map ct_task_index cs = map int [0..<length (research_tasks p)]
    \<and> map ct_research_goal cs = map research_goal (research_tasks p)
    \<and> (\<forall>c \<in> set cs. report_task_index (ct_report c) = ct_task_index c)
    \<and> (\<forall>c \<in> set cs. recordable_queries (ct_executed_queries c)
          \<and> (\<exists>k goal. set (ct_external_hits c) \<subseteq> set (ex_hits (external_search (generate k) (gateway k) goal)))
          \<and> (ct_internal_hits c = [] \<or> (\<exists>k qs. internal k qs = Inr (ct_internal_hits c))))"
proof -
  let ?search = "\<lambda>i. external_search (generate i) (gateway i)"
  obtain cs where cs: "collect_tasks internal ?search 0 (research_tasks p) = Inr cs"
    "map ct_task_index cs = map (\<lambda>k. 0 + int k) [0..<length (research_tasks p)]"
    "\<forall>c \<in> set cs. report_task_index (ct_report c) = ct_task_index c"
    "map ct_research_goal cs = map research_goal (research_tasks p)"
    "\<forall>c \<in> set cs. recordable_queries (ct_executed_queries c)
          \<and> (\<exists>k goal. set (ct_external_hits c) \<subseteq> set (ex_hits (?search k goal)))
          \<and> (ct_internal_hits c = [] \<or> (\<exists>k qs. internal k qs = Inr (ct_internal_hits c)))"
    using service_search.collect_tasks_ok [of 0 "research_tasks p" internal generate gateway]
      plan_task_shape [OF assms] by auto
  have "length cs = length (research_tasks p)" using cs(4) by (metis length_map)
  then have "make_collected_news cs = Inr cs"
    using cs(2,3) by (auto simp: make_collected_news_def list_ex_iff)
  then show ?thesis using cs by (simp add: collect_def)
qed



end
