(* ===== verification/EvidenceReview.thy ===== *)
theory EvidenceReview
  imports Collection
begin

text \<open>
  The evidence review: the options shown to the reviewer and their origins
  (\<^verbatim>\<open>agent/evidence_review/preparation.py\<close>), the clamped reviewer response
  (\<^verbatim>\<open>selection.py\<close>), the restoration of the selected hits with its conflict rule
  (\<^verbatim>\<open>answer_evidence.py\<close>) and the attempt loop of the service
  (\<^verbatim>\<open>service.py\<close>).
\<close>

definition OPTION_BODY_MAX_CHARS :: nat where "OPTION_BODY_MAX_CHARS = 500"
definition ANSWER_EVIDENCE_LIMIT :: nat where "ANSWER_EVIDENCE_LIMIT = 15"
definition EVIDENCE_CLAIM_MAX_CHARS :: nat where "EVIDENCE_CLAIM_MAX_CHARS = 300"
definition EVIDENCE_WHY_SELECTED_MAX_CHARS :: nat where "EVIDENCE_WHY_SELECTED_MAX_CHARS = 300"
definition MISSING_ITEM_MAX_CHARS :: nat where "MISSING_ITEM_MAX_CHARS = 200"
definition EVIDENCE_REVIEW_MISSING_LIMIT :: nat where "EVIDENCE_REVIEW_MISSING_LIMIT = 8"

section \<open>Preparation\<close>

datatype search_hit = Internal internal_hit | External external_hit

record evidence_option =
  option_index :: int
  option_title :: pystr
  option_source_name :: "pystr option"
  option_published_at :: "time option"
  option_body :: "pystr option"

record evidence_option_origin =
  origin_index :: int
  origin_task_index :: int
  origin_hit :: search_hit

record review_task_group =
  group_task_index :: int
  group_research_goal :: pystr
  group_options :: "evidence_option list"

record review_preparation =
  prep_task_groups :: "review_task_group list"
  option_origins :: "evidence_option_origin list"

fun unseen_internal :: "int set \<Rightarrow> internal_hit list \<Rightarrow> internal_hit list" where
  "unseen_internal seen [] = []"
| "unseen_internal seen (h # hs) =
     (if ih_curation_id h \<in> seen then unseen_internal seen hs
      else h # unseen_internal (insert (ih_curation_id h) seen) hs)"

fun unseen_external :: "pystr set \<Rightarrow> external_hit list \<Rightarrow> external_hit list" where
  "unseen_external seen [] = []"
| "unseen_external seen (h # hs) =
     (if eh_url h \<in> seen then unseen_external seen hs
      else h # unseen_external (insert (eh_url h) seen) hs)"

definition hits_to_show :: "collected_task \<Rightarrow> search_hit list" where
  "hits_to_show t =
     map Internal (unseen_internal {} (ct_internal_hits t))
       @ map External (unseen_external {} (ct_external_hits t))"

text \<open>\<^verbatim>\<open>"\n".join(f"- {point}" ...)\<close>\<close>

fun bullet_lines :: "pystr list \<Rightarrow> pystr" where
  "bullet_lines [] = []"
| "bullet_lines [p] = lit ''- '' @ p"
| "bullet_lines (p # ps) = lit ''- '' @ p @ [10] @ bullet_lines ps"

definition internal_option_body :: "internal_hit \<Rightarrow> pystr" where
  "internal_option_body h =
     take OPTION_BODY_MAX_CHARS
       (if ih_key_points h = [] then ih_summary h
        else ih_summary h @ [10] @ bullet_lines (ih_key_points h))"

definition to_option :: "int \<Rightarrow> search_hit \<Rightarrow> evidence_option" where
  "to_option i hit =
     (case hit of
        Internal h \<Rightarrow> \<lparr>option_index = i, option_title = ih_title h, option_source_name = None,
          option_published_at = ih_published_at h, option_body = Some (internal_option_body h)\<rparr>
      | External h \<Rightarrow> \<lparr>option_index = i, option_title = eh_title h,
          option_source_name = eh_source_name h, option_published_at = eh_published_at h,
          option_body = (case eh_content h of
              None \<Rightarrow> None
            | Some c \<Rightarrow> if c = [] then None else Some (take OPTION_BODY_MAX_CHARS c))\<rparr>)"

definition show_hit ::
    "int \<Rightarrow> evidence_option list \<times> evidence_option_origin list \<Rightarrow> search_hit
       \<Rightarrow> evidence_option list \<times> evidence_option_origin list" where
  "show_hit task_index st hit =
     (case st of (options, origins) \<Rightarrow>
        let i = int (length origins) in
        (options @ [to_option i hit],
         origins @ [\<lparr>origin_index = i, origin_task_index = task_index, origin_hit = hit\<rparr>]))"

definition show_task ::
    "review_task_group list \<times> evidence_option_origin list \<Rightarrow> collected_task
       \<Rightarrow> review_task_group list \<times> evidence_option_origin list" where
  "show_task st t =
     (case st of (groups, origins) \<Rightarrow>
        case foldl (show_hit (ct_task_index t)) ([], origins) (hits_to_show t) of
          (options, origins') \<Rightarrow>
            (groups @ [\<lparr>group_task_index = ct_task_index t,
                        group_research_goal = ct_research_goal t, group_options = options\<rparr>],
             origins'))"

definition prepare_review :: "collected_task list \<Rightarrow> review_preparation" where
  "prepare_review tasks =
     (case foldl show_task ([], []) (sort_key ct_task_index tasks) of
        (groups, origins) \<Rightarrow> \<lparr>prep_task_groups = groups, option_origins = origins\<rparr>)"

definition resolve_option_origin :: "review_preparation \<Rightarrow> int \<Rightarrow> evidence_option_origin option" where
  "resolve_option_origin p i =
     (if 0 \<le> i \<and> i < int (length (option_origins p)) then Some (option_origins p ! nat i) else None)"

section \<open>The reviewer's response\<close>

record reviewer_selection =
  sel_option_index :: int
  sel_claim :: pystr
  sel_why :: pystr

record reviewer_response =
  response_selections :: "reviewer_selection list"
  response_missing :: "pystr list"

definition valid_selection :: "reviewer_selection \<Rightarrow> bool" where
  "valid_selection s \<longleftrightarrow> 0 \<le> sel_option_index s
     \<and> 0 < length (sel_claim s) \<and> length (sel_claim s) \<le> EVIDENCE_CLAIM_MAX_CHARS
     \<and> 0 < length (sel_why s) \<and> length (sel_why s) \<le> EVIDENCE_WHY_SELECTED_MAX_CHARS"

text \<open>\<^verbatim>\<open>EvidenceReviewerResponse.from_draft\<close> and \<^verbatim>\<open>from_raw\<close>.\<close>

definition response_from_draft ::
    "reviewer_selection list \<Rightarrow> pystr list \<Rightarrow> py_exc + reviewer_response" where
  "response_from_draft selections missing =
     (let clamped = map (\<lambda>s. s\<lparr>sel_claim := take EVIDENCE_CLAIM_MAX_CHARS (sel_claim s),
            sel_why := take EVIDENCE_WHY_SELECTED_MAX_CHARS (sel_why s)\<rparr>) selections;
          missing' = map (take MISSING_ITEM_MAX_CHARS) (take EVIDENCE_REVIEW_MISSING_LIMIT missing)
      in if \<not> list_all valid_selection clamped then Inl ValidationError
         else if length clamped > ANSWER_EVIDENCE_LIMIT then Inl ValidationError
         else Inr \<lparr>response_selections = clamped, response_missing = missing'\<rparr>)"

section \<open>The restored evidence\<close>

record internal_evidence =
  ie_option_index :: int
  ie_task_index :: int
  ie_claim :: pystr
  ie_why :: pystr
  ie_assessment_id :: int
  ie_curation_id :: int
  ie_title :: pystr
  ie_summary :: pystr
  ie_key_points :: "pystr list"
  ie_published_at :: "time option"

record external_evidence =
  ee_option_index :: int
  ee_task_index :: int
  ee_claim :: pystr
  ee_why :: pystr
  ee_url :: pystr
  ee_title :: pystr
  ee_content :: "pystr option"
  ee_published_at :: "time option"
  ee_source_name :: "pystr option"

record answer_evidence =
  internal_evidence :: "internal_evidence list"
  external_evidence :: "external_evidence list"

definition internal_from_reviewed_hit ::
    "internal_hit \<Rightarrow> reviewer_selection \<Rightarrow> int \<Rightarrow> int \<Rightarrow> py_exc + internal_evidence" where
  "internal_from_reviewed_hit h s i task =
     (if i < 0 \<or> task < 0 \<or> sel_claim s = [] \<or> length (sel_claim s) > EVIDENCE_CLAIM_MAX_CHARS
         \<or> sel_why s = [] \<or> length (sel_why s) > EVIDENCE_WHY_SELECTED_MAX_CHARS
         \<or> ih_assessment_id h \<le> 0 \<or> ih_curation_id h \<le> 0 \<or> ih_title h = [] \<or> ih_summary h = []
      then Inl ValidationError
      else Inr \<lparr>ie_option_index = i, ie_task_index = task, ie_claim = sel_claim s, ie_why = sel_why s,
                ie_assessment_id = ih_assessment_id h, ie_curation_id = ih_curation_id h,
                ie_title = ih_title h, ie_summary = ih_summary h, ie_key_points = ih_key_points h,
                ie_published_at = ih_published_at h\<rparr>)"

definition external_from_reviewed_hit ::
    "external_hit \<Rightarrow> reviewer_selection \<Rightarrow> int \<Rightarrow> int \<Rightarrow> py_exc + external_evidence" where
  "external_from_reviewed_hit h s i task =
     (if i < 0 \<or> task < 0 \<or> sel_claim s = [] \<or> length (sel_claim s) > EVIDENCE_CLAIM_MAX_CHARS
         \<or> sel_why s = [] \<or> length (sel_why s) > EVIDENCE_WHY_SELECTED_MAX_CHARS
         \<or> eh_title h = []
      then Inl ValidationError
      else Inr \<lparr>ee_option_index = i, ee_task_index = task, ee_claim = sel_claim s, ee_why = sel_why s,
                ee_url = eh_url h, ee_title = eh_title h, ee_content = eh_content h,
                ee_published_at = eh_published_at h, ee_source_name = eh_source_name h\<rparr>)"

definition evidence_count :: "answer_evidence \<Rightarrow> nat" where
  "evidence_count e = length (internal_evidence e) + length (external_evidence e)"

definition evidence_task_indexes :: "answer_evidence \<Rightarrow> int set" where
  "evidence_task_indexes e = set (map ie_task_index (internal_evidence e)
     @ map ee_task_index (external_evidence e))"

definition evidence_option_indexes :: "answer_evidence \<Rightarrow> int list" where
  "evidence_option_indexes e =
     map ie_option_index (internal_evidence e) @ map ee_option_index (external_evidence e)"

definition validate_answer_evidence :: "answer_evidence \<Rightarrow> py_exc + answer_evidence" where
  "validate_answer_evidence e =
     (if evidence_count e > ANSWER_EVIDENCE_LIMIT then Inl ValidationError
      else if \<not> distinct (map (\<lambda>x. (ie_task_index x, ie_curation_id x)) (internal_evidence e))
      then Inl ValidationError
      else if \<not> distinct (map (\<lambda>x. (ee_task_index x, ee_url x)) (external_evidence e))
      then Inl ValidationError
      else if \<not> distinct (evidence_option_indexes e) then Inl ValidationError
      else Inr e)"

text \<open>
  The first loop of \<^verbatim>\<open>from_reviewer_response\<close>: the accepted selection per option, and
  the options given up because their claims contradict each other.
\<close>

definition adopt_selection ::
    "review_preparation \<Rightarrow> (int \<times> reviewer_selection) list \<times> int set \<Rightarrow> reviewer_selection
       \<Rightarrow> (int \<times> reviewer_selection) list \<times> int set" where
  "adopt_selection p st s =
     (case st of (by_index, unadopted) \<Rightarrow>
        let i = sel_option_index s in
        if resolve_option_origin p i = None then st
        else if i \<in> unadopted then st
        else case map_of by_index i of
          None \<Rightarrow> (AList.update i s by_index, unadopted)
        | Some existing \<Rightarrow>
            if sel_claim existing \<noteq> sel_claim s
            then (AList.delete i by_index, insert i unadopted)
            else st)"

text \<open>The second loop, with the break at the limit.\<close>

fun restore_evidence ::
    "review_preparation \<Rightarrow> (int \<times> reviewer_selection) list
       \<Rightarrow> internal_evidence list \<Rightarrow> external_evidence list
       \<Rightarrow> py_exc + (internal_evidence list \<times> external_evidence list)" where
  "restore_evidence p [] ints exts = Inr (ints, exts)"
| "restore_evidence p ((i, s) # rest) ints exts =
     (case resolve_option_origin p i of
        None \<Rightarrow> restore_evidence p rest ints exts
      | Some origin \<Rightarrow>
          (case origin_hit origin of
             Internal h \<Rightarrow>
               (case internal_from_reviewed_hit h s i (origin_task_index origin) of
                  Inl e \<Rightarrow> Inl e
                | Inr x \<Rightarrow>
                    if length (ints @ [x]) + length exts \<ge> ANSWER_EVIDENCE_LIMIT
                    then Inr (ints @ [x], exts)
                    else restore_evidence p rest (ints @ [x]) exts)
           | External h \<Rightarrow>
               (case external_from_reviewed_hit h s i (origin_task_index origin) of
                  Inl e \<Rightarrow> Inl e
                | Inr x \<Rightarrow>
                    if length ints + length (exts @ [x]) \<ge> ANSWER_EVIDENCE_LIMIT
                    then Inr (ints, exts @ [x])
                    else restore_evidence p rest ints (exts @ [x]))))"

definition answer_evidence_from_response ::
    "review_preparation \<Rightarrow> reviewer_response \<Rightarrow> py_exc + answer_evidence" where
  "answer_evidence_from_response p r =
     (case foldl (adopt_selection p) ([], {}) (response_selections r) of
        (by_index, _) \<Rightarrow>
          (case restore_evidence p by_index [] [] of
             Inl e \<Rightarrow> Inl e
           | Inr (ints, exts) \<Rightarrow>
               validate_answer_evidence \<lparr>internal_evidence = ints, external_evidence = exts\<rparr>))"

section \<open>The service\<close>

datatype 'c evidence_run =
    EvidenceRunCompleted answer_evidence "pystr list"
  | EvidenceRunFailed 'c

text \<open>\<^verbatim>\<open>EvidenceRunCompleted\<close> with the length limits of its fields.\<close>

definition complete_evidence_run ::
    "answer_evidence \<Rightarrow> pystr list \<Rightarrow> py_exc + 'c evidence_run" where
  "complete_evidence_run e missing =
     (if length missing > EVIDENCE_REVIEW_MISSING_LIMIT
         \<or> list_ex (\<lambda>m. length m > MISSING_ITEM_MAX_CHARS) missing
      then Inl ValidationError else Inr (EvidenceRunCompleted e missing))"

definition REVIEW_MAX_ATTEMPTS :: nat where "REVIEW_MAX_ATTEMPTS = 2"

text \<open>
  The loop over the attempts. A draft that the response type refuses is an
  \<^verbatim>\<open>EvidenceReviewError\<close> like a classified failure of the call; an exception of the
  restoration is not caught.
\<close>

fun review_attempts ::
    "review_preparation \<Rightarrow> 'c \<Rightarrow> 'c \<Rightarrow>
       (nat \<Rightarrow> (reviewer_selection list \<times> pystr list, 'c) call_outcome) \<Rightarrow> nat list
       \<Rightarrow> py_exc + ('c evidence_run)" where
  "review_attempts p mismatch timeout runtime_call [] = Inl RuntimeError"
| "review_attempts p mismatch timeout runtime_call (n # ns) =
     (let failed = (\<lambda>c. if n < REVIEW_MAX_ATTEMPTS
                        then review_attempts p mismatch timeout runtime_call ns
                        else Inr (EvidenceRunFailed c))
      in case runtime_call n of
           CallTimedOut \<Rightarrow> Inr (EvidenceRunFailed timeout)
         | CallProviderFailed c \<Rightarrow> failed c
         | CallInvalid c \<Rightarrow> failed c
         | CallDraft (selections, missing) \<Rightarrow>
             (case response_from_draft selections missing of
                Inl _ \<Rightarrow> failed mismatch
              | Inr r \<Rightarrow>
                  (case answer_evidence_from_response p r of
                     Inl e \<Rightarrow> Inl e
                   | Inr e \<Rightarrow> complete_evidence_run e (response_missing r))))"

definition review_evidence ::
    "'c \<Rightarrow> 'c \<Rightarrow> (nat \<Rightarrow> (reviewer_selection list \<times> pystr list, 'c) call_outcome)
       \<Rightarrow> collected_task list \<Rightarrow> py_exc + 'c evidence_run" where
  "review_evidence mismatch timeout runtime_call tasks =
     review_attempts (prepare_review tasks) mismatch timeout runtime_call
       [1..<REVIEW_MAX_ATTEMPTS + 1]"


section \<open>Numbering\<close>

definition hit_key :: "search_hit \<Rightarrow> int + pystr" where
  "hit_key hit = (case hit of Internal h \<Rightarrow> Inl (ih_curation_id h) | External h \<Rightarrow> Inr (eh_url h))"

definition origins_for :: "int \<Rightarrow> nat \<Rightarrow> search_hit list \<Rightarrow> evidence_option_origin list" where
  "origins_for task n hits =
     map (\<lambda>(k, h). \<lparr>origin_index = int k, origin_task_index = task, origin_hit = h\<rparr>) (enumerate n hits)"

definition shown_option :: "evidence_option_origin \<Rightarrow> evidence_option" where
  "shown_option origin = to_option (origin_index origin) (origin_hit origin)"

lemma origins_for_Cons:
  "origins_for task n (h # hs) =
     \<lparr>origin_index = int n, origin_task_index = task, origin_hit = h\<rparr> # origins_for task (Suc n) hs"
  by (simp add: origins_for_def)

lemma show_hits_eq:
  "foldl (show_hit task) (options, origins) hits =
     (options @ map shown_option (origins_for task (length origins) hits),
      origins @ origins_for task (length origins) hits)"
proof (induction hits arbitrary: options origins)
  case (Cons h hits)
  have "show_hit task (options, origins) h =
      (options @ [to_option (int (length origins)) h],
       origins @ [\<lparr>origin_index = int (length origins), origin_task_index = task, origin_hit = h\<rparr>])"
    by (simp add: show_hit_def Let_def)
  then show ?case by (simp add: Cons origins_for_Cons shown_option_def)
qed (simp add: origins_for_def)

text \<open>What holds after some tasks: the numbers are the positions, and each option is its origin's.\<close>

definition numbered :: "review_task_group list \<Rightarrow> evidence_option_origin list \<Rightarrow> bool" where
  "numbered groups origins \<longleftrightarrow> map origin_index origins = map int [0..<length origins]
     \<and> concat (map group_options groups) = map shown_option origins"

lemma map_origin_index_for: "map origin_index (origins_for task n hits) = map int [n..<n + length hits]"
proof (induction hits arbitrary: n)
  case (Cons h hits)
  have "[n..<n + length (h # hits)] = n # [Suc n..<Suc n + length hits]"
    by (simp add: upt_conv_Cons del: upt_Suc)
  then show ?case by (simp add: origins_for_Cons Cons del: upt_Suc)
qed (simp add: origins_for_def)

lemma map_pairs_origins_for:
  "map (\<lambda>x. (origin_task_index x, origin_hit x)) (origins_for task n hits) = map (Pair task) hits"
  by (induction hits arbitrary: n) (simp_all add: origins_for_Cons, simp add: origins_for_def)

lemma length_origins_for [simp]: "length (origins_for task n hits) = length hits"
  by (simp add: origins_for_def)

lemma show_tasks_result:
  assumes "foldl show_task (groups, origins) ts = (groups', origins')" and "numbered groups origins"
  shows "numbered groups' origins'
    \<and> map (\<lambda>x. (origin_task_index x, origin_hit x)) origins'
        = map (\<lambda>x. (origin_task_index x, origin_hit x)) origins
            @ concat (map (\<lambda>t. map (Pair (ct_task_index t)) (hits_to_show t)) ts)
    \<and> map group_task_index groups' = map group_task_index groups @ map ct_task_index ts"
  using assms
proof (induction ts arbitrary: groups origins)
  case (Cons t ts)
  let ?new = "origins_for (ct_task_index t) (length origins) (hits_to_show t)"
  obtain g where step: "show_task (groups, origins) t = (groups @ [g], origins @ ?new)"
    "group_options g = map shown_option ?new" "group_task_index g = ct_task_index t"
    by (simp add: show_task_def show_hits_eq)
  have num: "numbered (groups @ [g]) (origins @ ?new)"
    using Cons.prems(2) step(2)
    by (simp add: numbered_def map_origin_index_for)
      (metis le_add1 map_append upt_add_eq_append zero_le)
  have "foldl show_task (groups @ [g], origins @ ?new) ts = (groups', origins')"
    using Cons.prems(1) step(1) by simp
  from Cons.IH [OF this num] show ?case using step(3) by (simp add: map_pairs_origins_for)
qed simp

lemma prepare_review_result:
  "numbered (prep_task_groups (prepare_review tasks)) (option_origins (prepare_review tasks))"
  "map (\<lambda>x. (origin_task_index x, origin_hit x)) (option_origins (prepare_review tasks))
     = concat (map (\<lambda>t. map (Pair (ct_task_index t)) (hits_to_show t)) (sort_key ct_task_index tasks))"
  "map group_task_index (prep_task_groups (prepare_review tasks))
     = map ct_task_index (sort_key ct_task_index tasks)"
proof -
  obtain groups origins where r: "foldl show_task ([], []) (sort_key ct_task_index tasks) = (groups, origins)"
    by fastforce
  have "numbered [] []" by (simp add: numbered_def)
  note res = show_tasks_result [OF r this]
  show "numbered (prep_task_groups (prepare_review tasks)) (option_origins (prepare_review tasks))"
    "map (\<lambda>x. (origin_task_index x, origin_hit x)) (option_origins (prepare_review tasks))
       = concat (map (\<lambda>t. map (Pair (ct_task_index t)) (hits_to_show t)) (sort_key ct_task_index tasks))"
    "map group_task_index (prep_task_groups (prepare_review tasks))
       = map ct_task_index (sort_key ct_task_index tasks)"
    using res by (simp_all add: prepare_review_def r)
qed

lemma resolve_Some_iff:
  "resolve_option_origin p i = Some origin \<longleftrightarrow>
     0 \<le> i \<and> nat i < length (option_origins p) \<and> option_origins p ! nat i = origin"
  by (auto simp: resolve_option_origin_def)

text \<open>
  What the reviewer sees is numbered 0, 1, 2, ... through all task groups, in the order of the
  task indexes; a number resolves exactly when it was shown, and it resolves to the hit whose
  projection was shown under it.
\<close>

theorem shown_numbers_resolve:
  "map option_index (concat (map group_options (prep_task_groups (prepare_review tasks))))
      = map int [0..<length (option_origins (prepare_review tasks))]
   \<and> sorted (map group_task_index (prep_task_groups (prepare_review tasks)))
   \<and> (\<forall>i. resolve_option_origin (prepare_review tasks) i = None
          \<longleftrightarrow> i \<notin> set (map option_index (concat (map group_options (prep_task_groups (prepare_review tasks))))))
   \<and> (\<forall>i origin. resolve_option_origin (prepare_review tasks) i = Some origin \<longrightarrow>
        concat (map group_options (prep_task_groups (prepare_review tasks))) ! nat i
          = to_option i (origin_hit origin))"
proof -
  let ?p = "prepare_review tasks"
  let ?shown = "concat (map group_options (prep_task_groups ?p))"
  have opts: "?shown = map shown_option (option_origins ?p)"
    and idx: "map origin_index (option_origins ?p) = map int [0..<length (option_origins ?p)]"
    using prepare_review_result(1) [of tasks] by (auto simp: numbered_def)
  have oi: "option_index (shown_option x) = origin_index x" for x
    by (cases "origin_hit x") (simp_all add: shown_option_def to_option_def)
  have m: "map option_index ?shown = map int [0..<length (option_origins ?p)]"
    using idx by (simp add: opts comp_def oi)
  moreover have "sorted (map group_task_index (prep_task_groups ?p))"
    using prepare_review_result(3) [of tasks] by simp
  moreover have "resolve_option_origin ?p i = None \<longleftrightarrow> i \<notin> set (map option_index ?shown)" for i
    unfolding m by (auto simp: resolve_option_origin_def image_iff) (metis nat_0_le nat_less_iff atLeastLessThan_iff le0)
  moreover have "?shown ! nat i = to_option i (origin_hit origin)"
    if "resolve_option_origin ?p i = Some origin" for i origin
  proof -
    have i: "0 \<le> i" "nat i < length (option_origins ?p)" "option_origins ?p ! nat i = origin"
      using that by (auto simp: resolve_Some_iff)
    have "origin_index origin = i"
      using idx i by (metis add_0 length_map length_upt minus_nat.diff_0 nat_0_le nth_map nth_upt)
    then show ?thesis using i by (simp add: opts shown_option_def)
  qed
  ultimately show ?thesis by blast
qed

lemma unseen_internal_distinct:
  "distinct (map ih_curation_id (unseen_internal seen hs))
     \<and> set (map ih_curation_id (unseen_internal seen hs)) \<inter> seen = {}
     \<and> set (unseen_internal seen hs) \<subseteq> set hs"
  by (induction seen hs rule: unseen_internal.induct) auto

lemma unseen_external_distinct:
  "distinct (map eh_url (unseen_external seen hs))
     \<and> set (map eh_url (unseen_external seen hs)) \<inter> seen = {}
     \<and> set (unseen_external seen hs) \<subseteq> set hs"
  by (induction seen hs rule: unseen_external.induct) auto

lemma hits_to_show_distinct: "distinct (map hit_key (hits_to_show t))"
proof -
  have "distinct (map hit_key (map Internal (unseen_internal {} (ct_internal_hits t))))"
    using unseen_internal_distinct [of "{}" "ct_internal_hits t"]
    by (simp add: hit_key_def comp_def distinct_map inj_on_def)
  moreover have "distinct (map hit_key (map External (unseen_external {} (ct_external_hits t))))"
    using unseen_external_distinct [of "{}" "ct_external_hits t"]
    by (simp add: hit_key_def comp_def distinct_map inj_on_def)
  ultimately show ?thesis by (auto simp: hits_to_show_def hit_key_def)
qed

lemma distinct_concat_keys:
  "distinct (map f ts) \<Longrightarrow> (\<And>t. t \<in> set ts \<Longrightarrow> distinct (map g (h t))) \<Longrightarrow>
   distinct (concat (map (\<lambda>t. map (\<lambda>x. (f t, g x)) (h t)) ts))"
proof (induction ts)
  case (Cons t ts)
  have "distinct (map (\<lambda>x. (f t, g x)) (h t))"
    using Cons.prems(2) [of t] by (auto simp: distinct_map inj_on_def)
  moreover have "set (map (\<lambda>x. (f t, g x)) (h t)) \<inter>
      set (concat (map (\<lambda>t. map (\<lambda>x. (f t, g x)) (h t)) ts)) = {}"
    using Cons.prems(1) by auto
  ultimately show ?case using Cons by simp
qed simp

definition origin_key :: "evidence_option_origin \<Rightarrow> int \<times> (int + pystr)" where
  "origin_key x = (origin_task_index x, hit_key (origin_hit x))"

text \<open>Within a task no article and no URL is shown twice.\<close>

lemma origin_keys_distinct:
  assumes "distinct (map ct_task_index tasks)"
  shows "distinct (map origin_key (option_origins (prepare_review tasks)))"
proof -
  have "map origin_key (option_origins (prepare_review tasks))
      = map (\<lambda>(t, h). (t, hit_key h))
          (map (\<lambda>x. (origin_task_index x, origin_hit x)) (option_origins (prepare_review tasks)))"
    by (simp add: origin_key_def comp_def)
  also have "\<dots> = concat (map (\<lambda>t. map (\<lambda>h. (ct_task_index t, hit_key h)) (hits_to_show t))
      (sort_key ct_task_index tasks))"
    unfolding prepare_review_result(2) by (simp add: map_concat comp_def)
  also have "distinct \<dots>"
  proof (rule distinct_concat_keys)
    show "distinct (map ct_task_index (sort_key ct_task_index tasks))"
      using assms by (simp add: distinct_map)
  qed (rule hits_to_show_distinct)
  finally show ?thesis .
qed

definition valid_hit :: "search_hit \<Rightarrow> bool" where
  "valid_hit hit = (case hit of Internal h \<Rightarrow> valid_internal_hit h | External h \<Rightarrow> valid_external_hit h)"

definition valid_task :: "collected_task \<Rightarrow> bool" where
  "valid_task t \<longleftrightarrow> 0 \<le> ct_task_index t \<and> (\<forall>h \<in> set (ct_internal_hits t). valid_internal_hit h)
     \<and> (\<forall>h \<in> set (ct_external_hits t). valid_external_hit h)"

lemma origins_valid:
  assumes "\<forall>t \<in> set tasks. valid_task t" "x \<in> set (option_origins (prepare_review tasks))"
  shows "valid_hit (origin_hit x)" "0 \<le> origin_task_index x"
    "origin_task_index x \<in> set (map ct_task_index tasks)"
proof -
  have "(origin_task_index x, origin_hit x)
      \<in> set (map (\<lambda>x. (origin_task_index x, origin_hit x)) (option_origins (prepare_review tasks)))"
    using assms(2) by auto
  then obtain t where t: "t \<in> set tasks" "origin_task_index x = ct_task_index t"
    "origin_hit x \<in> set (hits_to_show t)"
    unfolding prepare_review_result(2) by auto
  then show "valid_hit (origin_hit x)" "0 \<le> origin_task_index x"
    "origin_task_index x \<in> set (map ct_task_index tasks)"
    using assms(1) unseen_internal_distinct [of "{}" "ct_internal_hits t"]
      unseen_external_distinct [of "{}" "ct_external_hits t"]
    by (auto simp: hits_to_show_def valid_hit_def valid_task_def)
qed


section \<open>Adoption and conflicts\<close>

definition consistent_claims :: "reviewer_selection list \<Rightarrow> int \<Rightarrow> bool" where
  "consistent_claims ss i \<longleftrightarrow>
     (\<forall>s \<in> set ss. \<forall>s' \<in> set ss. sel_option_index s = i \<longrightarrow> sel_option_index s' = i \<longrightarrow>
        sel_claim s = sel_claim s')"

definition adopted_ok ::
    "review_preparation \<Rightarrow> reviewer_selection list \<Rightarrow> (int \<times> reviewer_selection) list \<Rightarrow> int set \<Rightarrow> bool" where
  "adopted_ok p ss by_index unadopted \<longleftrightarrow>
     distinct (map fst by_index)
     \<and> (\<forall>(i, s) \<in> set by_index. s \<in> set ss \<and> sel_option_index s = i
           \<and> resolve_option_origin p i \<noteq> None \<and> consistent_claims ss i)
     \<and> (\<forall>i \<in> unadopted. \<not> consistent_claims ss i)
     \<and> (\<forall>s \<in> set ss. resolve_option_origin p (sel_option_index s) \<noteq> None \<longrightarrow>
           sel_option_index s \<in> fst ` set by_index \<or> sel_option_index s \<in> unadopted)"

lemma consistent_claims_snoc:
  "consistent_claims (ss @ [s]) i \<longleftrightarrow> consistent_claims ss i \<and>
     (sel_option_index s = i \<longrightarrow> (\<forall>s' \<in> set ss. sel_option_index s' = i \<longrightarrow> sel_claim s' = sel_claim s))"
  unfolding consistent_claims_def by auto

lemma consistent_claims_same:
  "consistent_claims ss i \<Longrightarrow> s \<in> set ss \<Longrightarrow> sel_option_index s = i \<Longrightarrow>
   s' \<in> set ss \<Longrightarrow> sel_option_index s' = i \<Longrightarrow> sel_claim s' = sel_claim s"
  unfolding consistent_claims_def by blast

lemma adopted_keys_distinct: "distinct (map fst by_index) \<Longrightarrow> distinct (map fst (AList.delete i by_index))"
  by (simp add: distinct_delete)

lemma set_delete_iff: "(k, v) \<in> set (AList.delete i al) \<longleftrightarrow> (k, v) \<in> set al \<and> k \<noteq> i"
  by (auto simp: AList.delete_eq)

lemma adopt_selection_ok:
  assumes ok: "adopted_ok p ss by_index unadopted"
    and run: "adopt_selection p (by_index, unadopted) s = (by_index', unadopted')"
  shows "adopted_ok p (ss @ [s]) by_index' unadopted'"
proof -
  let ?i = "sel_option_index s"
  have dist: "distinct (map fst by_index)" using ok by (simp add: adopted_ok_def)
  have bi: "t \<in> set ss \<and> sel_option_index t = i \<and> resolve_option_origin p i \<noteq> None \<and> consistent_claims ss i"
    if "(i, t) \<in> set by_index" for i t
    using ok that by (auto simp: adopted_ok_def)
  have un: "\<not> consistent_claims ss i" if "i \<in> unadopted" for i
    using ok that by (auto simp: adopted_ok_def)
  have cov: "sel_option_index t \<in> fst ` set by_index \<or> sel_option_index t \<in> unadopted"
    if "t \<in> set ss" "resolve_option_origin p (sel_option_index t) \<noteq> None" for t
    using ok that by (auto simp: adopted_ok_def)
  consider (skip) "resolve_option_origin p ?i = None" | (given_up) "resolve_option_origin p ?i \<noteq> None" "?i \<in> unadopted"
    | (fresh) "resolve_option_origin p ?i \<noteq> None" "?i \<notin> unadopted" "map_of by_index ?i = None"
    | (known) t where "resolve_option_origin p ?i \<noteq> None" "?i \<notin> unadopted" "map_of by_index ?i = Some t"
    by (cases "map_of by_index ?i") auto
  then show ?thesis
  proof cases
    case skip
    then have "by_index' = by_index" "unadopted' = unadopted"
      using run by (simp_all add: adopt_selection_def Let_def)
    moreover have "i \<noteq> ?i" if "(i, t) \<in> set by_index" for i t using bi [OF that] skip by auto
    ultimately show ?thesis
      using dist bi un cov skip unfolding adopted_ok_def consistent_claims_snoc by (auto; blast)
  next
    case given_up
    then have "by_index' = by_index" "unadopted' = unadopted"
      using run by (auto simp: adopt_selection_def Let_def)
    moreover have "i \<noteq> ?i" if "(i, t) \<in> set by_index" for i t using bi [OF that] un given_up by auto
    ultimately show ?thesis
      using dist bi un cov given_up unfolding adopted_ok_def consistent_claims_snoc by (auto; blast)
  next
    case fresh
    then have res: "by_index' = AList.update ?i s by_index" "unadopted' = unadopted"
      using run by (auto simp: adopt_selection_def Let_def)
    have new: "?i \<notin> fst ` set by_index" using fresh(3) by (simp add: map_of_eq_None_iff)
    then have none: "t \<in> set ss \<Longrightarrow> sel_option_index t \<noteq> ?i" for t
      using cov [of t] fresh(1,2) by auto
    have keys: "fst ` set by_index' = insert ?i (fst ` set by_index)"
      by (simp add: res(1) dom_update flip: dom_map_of_conv_image_fst)
    have mem: "(i, t) \<in> set by_index' \<longleftrightarrow> (if i = ?i then t = s else (i, t) \<in> set by_index)" for i t
      unfolding res(1) by (rule set_update_distinct [OF dist])
    have c: "consistent_claims (ss @ [s]) ?i"
      using none by (auto simp: consistent_claims_def)
    have "distinct (map fst by_index')" unfolding res(1) using dist by (rule distinct_update)
    moreover have "\<forall>(i, t) \<in> set by_index'. t \<in> set (ss @ [s]) \<and> sel_option_index t = i
        \<and> resolve_option_origin p i \<noteq> None \<and> consistent_claims (ss @ [s]) i"
      using bi c fresh(1) by (auto simp: mem consistent_claims_snoc split: if_splits)
    moreover have "\<forall>i \<in> unadopted'. \<not> consistent_claims (ss @ [s]) i"
      using un by (auto simp: res(2) consistent_claims_snoc)
    ultimately show ?thesis using cov keys res(2) unfolding adopted_ok_def by auto
  next
    case known
    have mem_t: "(?i, t) \<in> set by_index" using known(3) by (rule map_of_SomeD)
    note t = bi [OF mem_t]
    show ?thesis
    proof (cases "sel_claim t = sel_claim s")
      case True
      then have res: "by_index' = by_index" "unadopted' = unadopted"
        using run known by (auto simp: adopt_selection_def Let_def)
      have same: "\<forall>s' \<in> set ss. sel_option_index s' = ?i \<longrightarrow> sel_claim s' = sel_claim s"
        using consistent_claims_same [of ss ?i t] t True by simp
      have "?i \<in> fst ` set by_index" using mem_t by force
      then show ?thesis
        using dist bi un cov same unfolding adopted_ok_def consistent_claims_snoc res by auto
    next
      case False
      then have res: "by_index' = AList.delete ?i by_index" "unadopted' = insert ?i unadopted"
        using run known by (auto simp: adopt_selection_def Let_def)
      have "\<not> consistent_claims (ss @ [s]) ?i" using t False by (auto simp: consistent_claims_snoc)
      moreover have "fst ` set by_index' = fst ` set by_index - {?i}"
        unfolding res(1) by (force simp: set_delete_iff image_iff)
      moreover have "\<forall>(i, t) \<in> set by_index'. t \<in> set (ss @ [s]) \<and> sel_option_index t = i
          \<and> resolve_option_origin p i \<noteq> None \<and> consistent_claims (ss @ [s]) i"
        using bi by (auto simp: res(1) set_delete_iff consistent_claims_snoc)
      moreover have "sel_option_index u \<in> fst ` set by_index' \<or> sel_option_index u \<in> unadopted'"
        if "u \<in> set (ss @ [s])" "resolve_option_origin p (sel_option_index u) \<noteq> None" for u
        using that cov [of u] calculation(2) by (cases "u = s") (auto simp: res(2))
      moreover have "\<forall>i \<in> unadopted'. \<not> consistent_claims (ss @ [s]) i"
        using un calculation(1) by (auto simp: res(2) consistent_claims_snoc)
      ultimately show ?thesis
        using adopted_keys_distinct [OF dist, of ?i] unfolding adopted_ok_def
        by (simp add: res(1))
    qed
  qed
qed

lemma adopt_all_ok:
  "adopted_ok p ss by_index unadopted \<Longrightarrow>
   foldl (adopt_selection p) (by_index, unadopted) rest = (by_index', unadopted') \<Longrightarrow>
   adopted_ok p (ss @ rest) by_index' unadopted'"
proof (induction rest arbitrary: ss by_index unadopted)
  case (Cons s rest)
  obtain b u where step: "adopt_selection p (by_index, unadopted) s = (b, u)" by fastforce
  have "adopted_ok p (ss @ [s]) b u" using adopt_selection_ok [OF Cons.prems(1) step] .
  then show ?case using Cons.IH [of "ss @ [s]" b u] Cons.prems(2) step by simp
qed simp

lemma adopted_result:
  assumes "foldl (adopt_selection p) ([], {}) ss = (by_index, unadopted)"
  shows "distinct (map fst by_index)"
    and "fst ` set by_index = {i. i \<in> sel_option_index ` set ss
           \<and> resolve_option_origin p i \<noteq> None \<and> consistent_claims ss i}"
    and "(i, s) \<in> set by_index \<Longrightarrow> s \<in> set ss \<and> sel_option_index s = i"
    and "length by_index \<le> length ss"
proof -
  have "adopted_ok p [] [] {}" by (simp add: adopted_ok_def)
  from adopt_all_ok [OF this assms] have ok: "adopted_ok p ss by_index unadopted" by simp
  show d: "distinct (map fst by_index)" using ok by (simp add: adopted_ok_def)
  show "(i, s) \<in> set by_index \<Longrightarrow> s \<in> set ss \<and> sel_option_index s = i"
    using ok by (auto simp: adopted_ok_def)
  show keys: "fst ` set by_index = {i. i \<in> sel_option_index ` set ss
      \<and> resolve_option_origin p i \<noteq> None \<and> consistent_claims ss i}"
    using ok unfolding adopted_ok_def by (auto 0 4)
  then have "card (fst ` set by_index) \<le> card (sel_option_index ` set ss)"
    by (intro card_mono) auto
  also have "\<dots> \<le> length ss" by (metis card_image_le card_length finite_set le_trans)
  finally show "length by_index \<le> length ss"
    using distinct_card [OF d] by simp
qed


section \<open>Restoration\<close>

definition internal_of :: "review_preparation \<Rightarrow> int \<times> reviewer_selection \<Rightarrow> internal_evidence list" where
  "internal_of p item =
     (case resolve_option_origin p (fst item) of
        None \<Rightarrow> []
      | Some origin \<Rightarrow>
          (case origin_hit origin of
             Internal h \<Rightarrow>
               [\<lparr>ie_option_index = fst item, ie_task_index = origin_task_index origin,
                 ie_claim = sel_claim (snd item), ie_why = sel_why (snd item),
                 ie_assessment_id = ih_assessment_id h, ie_curation_id = ih_curation_id h,
                 ie_title = ih_title h, ie_summary = ih_summary h, ie_key_points = ih_key_points h,
                 ie_published_at = ih_published_at h\<rparr>]
           | External h \<Rightarrow> []))"

definition external_of :: "review_preparation \<Rightarrow> int \<times> reviewer_selection \<Rightarrow> external_evidence list" where
  "external_of p item =
     (case resolve_option_origin p (fst item) of
        None \<Rightarrow> []
      | Some origin \<Rightarrow>
          (case origin_hit origin of
             Internal h \<Rightarrow> []
           | External h \<Rightarrow>
               [\<lparr>ee_option_index = fst item, ee_task_index = origin_task_index origin,
                 ee_claim = sel_claim (snd item), ee_why = sel_why (snd item),
                 ee_url = eh_url h, ee_title = eh_title h, ee_content = eh_content h,
                 ee_published_at = eh_published_at h, ee_source_name = eh_source_name h\<rparr>]))"

text \<open>An item whose number was shown, with an origin and a selection that satisfy their constraints.\<close>

definition restorable :: "review_preparation \<Rightarrow> int \<times> reviewer_selection \<Rightarrow> bool" where
  "restorable p item \<longleftrightarrow> (\<exists>origin. resolve_option_origin p (fst item) = Some origin
     \<and> valid_hit (origin_hit origin) \<and> 0 \<le> origin_task_index origin) \<and> valid_selection (snd item)"

lemma restore_evidence_ok:
  "\<forall>item \<in> set items. restorable p item \<Longrightarrow>
   length ints + length exts + length items \<le> ANSWER_EVIDENCE_LIMIT \<Longrightarrow>
   restore_evidence p items ints exts =
     Inr (ints @ concat (map (internal_of p) items), exts @ concat (map (external_of p) items))"
proof (induction items arbitrary: ints exts)
  case (Cons item items)
  obtain i s where item: "item = (i, s)" by fastforce
  obtain origin where origin: "resolve_option_origin p i = Some origin" "valid_hit (origin_hit origin)"
    "0 \<le> origin_task_index origin" and sel: "valid_selection s"
    using Cons.prems(1) by (auto simp: restorable_def item)
  have i: "0 \<le> i" using origin(1) by (simp add: resolve_Some_iff)
  have rest: "\<forall>item \<in> set items. restorable p item" using Cons.prems(1) by simp
  show ?case
  proof (cases "origin_hit origin")
    case (Internal h)
    obtain x where mk: "internal_from_reviewed_hit h s i (origin_task_index origin) = Inr x"
      "internal_of p (i, s) = [x]" "external_of p (i, s) = []"
      using origin sel i Internal
      by (auto simp: internal_from_reviewed_hit_def internal_of_def external_of_def valid_selection_def
          valid_hit_def valid_internal_hit_def)
    show ?thesis
    proof (cases "length (ints @ [x]) + length exts \<ge> ANSWER_EVIDENCE_LIMIT")
      case True
      then have "length items = 0" using Cons.prems(2) unfolding length_append list.size by linarith
      then have "items = []" by simp
      then show ?thesis using True mk origin(1) Internal by (simp add: item)
    next
      case False
      then show ?thesis
        using Cons.IH [OF rest, of "ints @ [x]" exts] Cons.prems(2) mk origin(1) Internal
        by (simp add: item)
    qed
  next
    case (External h)
    obtain x where mk: "external_from_reviewed_hit h s i (origin_task_index origin) = Inr x"
      "external_of p (i, s) = [x]" "internal_of p (i, s) = []"
      using origin sel i External
      by (auto simp: external_from_reviewed_hit_def internal_of_def external_of_def valid_selection_def
          valid_hit_def valid_external_hit_def)
    show ?thesis
    proof (cases "length ints + length (exts @ [x]) \<ge> ANSWER_EVIDENCE_LIMIT")
      case True
      then have "length items = 0" using Cons.prems(2) unfolding length_append list.size by linarith
      then have "items = []" by simp
      then show ?thesis using True mk origin(1) External by (simp add: item)
    next
      case False
      then show ?thesis
        using Cons.IH [OF rest, of ints "exts @ [x]"] Cons.prems(2) mk origin(1) External
        by (simp add: item)
    qed
  qed
qed simp

lemma concat_singletons_distinct:
  assumes "distinct (map f items)" and "\<And>item. item \<in> set items \<Longrightarrow> map g (h item) = [] \<or> map g (h item) = [f item]"
  shows "distinct (map g (concat (map h items)))"
    and "set (map g (concat (map h items))) \<subseteq> f ` set items"
proof -
  have "distinct (map g (concat (map h items))) \<and> set (map g (concat (map h items))) \<subseteq> f ` set items"
    using assms
  proof (induction items)
    case (Cons item items)
    have ih: "distinct (map g (concat (map h items)))" "set (map g (concat (map h items))) \<subseteq> f ` set items"
      using Cons by auto
    have "map g (h item) = [] \<or> map g (h item) = [f item]" using Cons.prems(2) by simp
    then show ?case
    proof
      assume "map g (h item) = []"
      then show ?thesis using ih by auto
    next
      assume eq: "map g (h item) = [f item]"
      have "f item \<notin> f ` set items" using Cons.prems(1) by simp
      moreover have "map g (concat (map h (item # items))) = f item # map g (concat (map h items))"
        using eq by simp
      ultimately show ?thesis using ih by (auto simp del: concat.simps map_append)
    qed
  qed simp
  then show "distinct (map g (concat (map h items)))"
    "set (map g (concat (map h items))) \<subseteq> f ` set items" by auto
qed


definition item_key :: "review_preparation \<Rightarrow> int \<times> reviewer_selection \<Rightarrow> int \<times> (int + pystr)" where
  "item_key p item = origin_key (the (resolve_option_origin p (fst item)))"

lemma item_keys_distinct:
  assumes "distinct (map origin_key (option_origins p))" "distinct (map fst items)"
    "\<forall>item \<in> set items. resolve_option_origin p (fst item) \<noteq> None"
  shows "distinct (map (item_key p) items)"
proof -
  have "item_key p x \<noteq> item_key p y" if xy: "x \<in> set items" "y \<in> set items" "fst x \<noteq> fst y" for x y
  proof -
    obtain ox oy where o: "resolve_option_origin p (fst x) = Some ox"
      "resolve_option_origin p (fst y) = Some oy"
      using assms(3) xy by fastforce
    then have pos: "nat (fst x) < length (option_origins p)" "nat (fst y) < length (option_origins p)"
      "nat (fst x) \<noteq> nat (fst y)"
      using xy(3) by (auto simp: resolve_Some_iff)
    then have "map origin_key (option_origins p) ! nat (fst x)
        \<noteq> map origin_key (option_origins p) ! nat (fst y)"
      using assms(1) by (metis length_map nth_eq_iff_index_eq)
    then have "origin_key ox \<noteq> origin_key oy" using o pos by (simp add: resolve_Some_iff)
    then show ?thesis by (simp add: item_key_def o)
  qed
  then have "inj_on (item_key p) (set items)"
    using assms(2) unfolding inj_on_def distinct_map by metis
  then show ?thesis using assms(2) by (simp add: distinct_map)
qed

lemma internal_indexes_iff:
  "i \<in> set (map ie_option_index (concat (map (internal_of p) items))) \<longleftrightarrow>
     i \<in> fst ` set items \<and> (\<exists>origin h. resolve_option_origin p i = Some origin \<and> origin_hit origin = Internal h)"
proof (induction items)
  case (Cons item items)
  have "i \<in> set (map ie_option_index (internal_of p item)) \<longleftrightarrow> i = fst item
      \<and> (\<exists>origin h. resolve_option_origin p i = Some origin \<and> origin_hit origin = Internal h)"
    by (cases "resolve_option_origin p (fst item)";
        cases "origin_hit (the (resolve_option_origin p (fst item)))") (auto simp: internal_of_def)
  with Cons show ?case by auto
qed simp

lemma external_indexes_iff:
  "i \<in> set (map ee_option_index (concat (map (external_of p) items))) \<longleftrightarrow>
     i \<in> fst ` set items \<and> (\<exists>origin h. resolve_option_origin p i = Some origin \<and> origin_hit origin = External h)"
proof (induction items)
  case (Cons item items)
  have "i \<in> set (map ee_option_index (external_of p item)) \<longleftrightarrow> i = fst item
      \<and> (\<exists>origin h. resolve_option_origin p i = Some origin \<and> origin_hit origin = External h)"
    by (cases "resolve_option_origin p (fst item)";
        cases "origin_hit (the (resolve_option_origin p (fst item)))") (auto simp: external_of_def)
  with Cons show ?case by auto
qed simp

definition restored :: "review_preparation \<Rightarrow> (int \<times> reviewer_selection) list \<Rightarrow> answer_evidence" where
  "restored p items = \<lparr>internal_evidence = concat (map (internal_of p) items),
     external_evidence = concat (map (external_of p) items)\<rparr>"

lemma restored_valid:
  assumes keys: "distinct (map origin_key (option_origins p))" and dist: "distinct (map fst items)"
    and shown: "\<forall>item \<in> set items. resolve_option_origin p (fst item) \<noteq> None"
    and "length items \<le> ANSWER_EVIDENCE_LIMIT"
  shows "validate_answer_evidence (restored p items) = Inr (restored p items)"
    and "set (evidence_option_indexes (restored p items)) = fst ` set items"
proof -
  let ?ints = "concat (map (internal_of p) items)" and ?exts = "concat (map (external_of p) items)"
  note ik = item_keys_distinct [OF keys dist shown]
  have len: "length (internal_of p item) + length (external_of p item) \<le> 1" for item
    by (simp add: internal_of_def external_of_def split: option.splits search_hit.splits)
  have "length ?ints + length ?exts \<le> length items"
  proof (induction items)
    case (Cons item items)
    then show ?case using len [of item] by simp
  qed simp
  then have count: "evidence_count (restored p items) \<le> ANSWER_EVIDENCE_LIMIT"
    using assms(4) by (simp add: evidence_count_def restored_def)
  have "distinct (map (\<lambda>x. (ie_task_index x, Inl (ie_curation_id x) :: int + pystr)) ?ints)"
    by (rule concat_singletons_distinct(1) [OF ik])
      (auto simp: internal_of_def item_key_def origin_key_def hit_key_def
        split: option.splits search_hit.splits)
  then have ints: "distinct (map (\<lambda>x. (ie_task_index x, ie_curation_id x)) ?ints)"
    by (simp add: distinct_map inj_on_def)
  have "distinct (map (\<lambda>x. (ee_task_index x, Inr (ee_url x) :: int + pystr)) ?exts)"
    by (rule concat_singletons_distinct(1) [OF ik])
      (auto simp: external_of_def item_key_def origin_key_def hit_key_def
        split: option.splits search_hit.splits)
  then have exts: "distinct (map (\<lambda>x. (ee_task_index x, ee_url x)) ?exts)"
    by (simp add: distinct_map inj_on_def)
  have "distinct (map ie_option_index ?ints)"
    by (rule concat_singletons_distinct(1) [OF dist])
      (auto simp: internal_of_def split: option.splits search_hit.splits)
  moreover have "distinct (map ee_option_index ?exts)"
    by (rule concat_singletons_distinct(1) [OF dist])
      (auto simp: external_of_def split: option.splits search_hit.splits)
  moreover have "set (map ie_option_index ?ints) \<inter> set (map ee_option_index ?exts) = {}"
    unfolding disjoint_iff internal_indexes_iff external_indexes_iff by auto
  ultimately have idx: "distinct (evidence_option_indexes (restored p items))"
    by (simp only: evidence_option_indexes_def restored_def answer_evidence.simps distinct_append)
  show "validate_answer_evidence (restored p items) = Inr (restored p items)"
    using count ints exts idx by (simp add: validate_answer_evidence_def restored_def)
  have "i \<in> set (evidence_option_indexes (restored p items)) \<longleftrightarrow> i \<in> fst ` set items" for i
  proof -
    have "resolve_option_origin p i \<noteq> None" if "i \<in> fst ` set items" using that shown by auto
    then obtain origin where o: "i \<in> fst ` set items \<Longrightarrow> resolve_option_origin p i = Some origin" by fastforce
    show ?thesis
      unfolding evidence_option_indexes_def restored_def set_append Un_iff answer_evidence.simps
        internal_indexes_iff external_indexes_iff
      using o by (cases "origin_hit origin") auto
  qed
  then show "set (evidence_option_indexes (restored p items)) = fst ` set items" by blast
qed

definition valid_response :: "reviewer_response \<Rightarrow> bool" where
  "valid_response r \<longleftrightarrow> list_all valid_selection (response_selections r)
     \<and> length (response_selections r) \<le> ANSWER_EVIDENCE_LIMIT
     \<and> length (response_missing r) \<le> EVIDENCE_REVIEW_MISSING_LIMIT
     \<and> list_all (\<lambda>m. length m \<le> MISSING_ITEM_MAX_CHARS) (response_missing r)"

lemma response_from_draft_valid: "response_from_draft ss missing = Inr r \<Longrightarrow> valid_response r"
  by (auto simp: response_from_draft_def valid_response_def Let_def list_all_iff split: if_splits)

text \<open>The evidence of a response, item by item.\<close>

lemma answer_evidence_restored:
  assumes tasks: "\<forall>t \<in> set tasks. valid_task t" "distinct (map ct_task_index tasks)"
    and resp: "valid_response r"
  obtains by_index where
    "answer_evidence_from_response (prepare_review tasks) r = Inr (restored (prepare_review tasks) by_index)"
    "distinct (map fst by_index)"
    "fst ` set by_index = {i. i \<in> sel_option_index ` set (response_selections r)
       \<and> resolve_option_origin (prepare_review tasks) i \<noteq> None
       \<and> consistent_claims (response_selections r) i}"
    "\<forall>(i, s) \<in> set by_index. s \<in> set (response_selections r) \<and> sel_option_index s = i"
    "set (evidence_option_indexes (restored (prepare_review tasks) by_index)) = fst ` set by_index"
    "length by_index \<le> ANSWER_EVIDENCE_LIMIT"
proof -
  let ?p = "prepare_review tasks"
  obtain by_index unadopted where
    run: "foldl (adopt_selection ?p) ([], {}) (response_selections r) = (by_index, unadopted)"
    by fastforce
  note res = adopted_result [OF run]
  have limit: "length by_index \<le> ANSWER_EVIDENCE_LIMIT"
    using res(4) resp by (simp add: valid_response_def)
  have shown: "\<forall>item \<in> set by_index. resolve_option_origin ?p (fst item) \<noteq> None"
    using res(2) by auto
  have "\<forall>item \<in> set by_index. restorable ?p item"
  proof
    fix item assume it: "item \<in> set by_index"
    then obtain origin where o: "resolve_option_origin ?p (fst item) = Some origin"
      using shown by fastforce
    then have "origin \<in> set (option_origins ?p)" by (auto simp: resolve_Some_iff)
    then have "valid_hit (origin_hit origin)" "0 \<le> origin_task_index origin"
      using origins_valid tasks(1) by blast+
    moreover have "valid_selection (snd item)"
      using res(3) [of "fst item" "snd item"] it resp by (simp add: valid_response_def list_all_iff)
    ultimately show "restorable ?p item" using o by (auto simp: restorable_def)
  qed
  then have "restore_evidence ?p by_index [] [] =
      Inr (concat (map (internal_of ?p) by_index), concat (map (external_of ?p) by_index))"
    using restore_evidence_ok [of by_index ?p "[]" "[]"] limit by simp
  then have "answer_evidence_from_response ?p r = validate_answer_evidence (restored ?p by_index)"
    by (simp add: answer_evidence_from_response_def run restored_def)
  also note restored_valid(1) [OF origin_keys_distinct [OF tasks(2)] res(1) shown limit]
  finally show ?thesis
    using that res(1,2,3) limit restored_valid(2) [OF origin_keys_distinct [OF tasks(2)] res(1) shown limit]
    by blast
qed

lemma answer_evidence_checked:
  assumes "answer_evidence_from_response p r = Inr e"
  shows "evidence_count e \<le> ANSWER_EVIDENCE_LIMIT" "distinct (evidence_option_indexes e)"
proof -
  obtain e' where "validate_answer_evidence e' = Inr e"
    using assms by (auto simp: answer_evidence_from_response_def split: prod.splits sum.splits)
  then show "evidence_count e \<le> ANSWER_EVIDENCE_LIMIT" "distinct (evidence_option_indexes e)"
    by (auto simp: validate_answer_evidence_def split: if_splits)
qed

lemma restored_internal:
  assumes "x \<in> set (internal_evidence (restored p items))"
  shows "\<exists>i s origin h. (i, s) \<in> set items \<and> resolve_option_origin p i = Some origin
    \<and> origin_hit origin = Internal h \<and> ie_option_index x = i \<and> ie_assessment_id x = ih_assessment_id h
    \<and> ie_title x = ih_title h \<and> ie_task_index x = origin_task_index origin \<and> ie_claim x = sel_claim s"
proof -
  obtain i s where item: "(i, s) \<in> set items" "x \<in> set (internal_of p (i, s))"
    using assms by (auto simp: restored_def)
  then show ?thesis
    by (intro exI [of _ i] exI [of _ s])
      (cases "resolve_option_origin p i"; cases "origin_hit (the (resolve_option_origin p i))";
        auto simp: internal_of_def)
qed

lemma restored_external:
  assumes "x \<in> set (external_evidence (restored p items))"
  shows "\<exists>i s origin h. (i, s) \<in> set items \<and> resolve_option_origin p i = Some origin
    \<and> origin_hit origin = External h \<and> ee_option_index x = i \<and> ee_url x = eh_url h
    \<and> ee_title x = eh_title h \<and> ee_task_index x = origin_task_index origin \<and> ee_claim x = sel_claim s"
proof -
  obtain i s where item: "(i, s) \<in> set items" "x \<in> set (external_of p (i, s))"
    using assms by (auto simp: restored_def)
  then show ?thesis
    by (intro exI [of _ i] exI [of _ s])
      (cases "resolve_option_origin p i"; cases "origin_hit (the (resolve_option_origin p i))";
        auto simp: external_of_def)
qed


definition sample_tasks :: "collected_task list" where
  "sample_tasks =
     [\<lparr>ct_task_index = 0, ct_research_goal = [65],
       ct_internal_hits = [\<lparr>ih_assessment_id = 7, ih_curation_id = 70, ih_title = [66], ih_summary = [67],
          ih_key_points = [], ih_published_at = None, ih_distance = 1\<rparr>],
       ct_external_hits = [\<lparr>eh_url = [68], eh_title = [69], eh_content = None, eh_published_at = None,
          eh_source_name = None\<rparr>],
       ct_executed_queries = [],
       ct_report = \<lparr>report_task_index = 0, report_research_goal = [65],
          internal_collection = Internal_succeeded, external_collection = External_succeeded,
          generated_queries = [], provider_failed_query_count = 0, internal_hit_count = 1,
          external_hit_count = 1\<rparr>\<rparr>]"

definition sample_response :: reviewer_response where
  "sample_response = \<lparr>response_selections =
     [\<lparr>sel_option_index = 0, sel_claim = [97], sel_why = [98]\<rparr>,
      \<lparr>sel_option_index = 1, sel_claim = [99], sel_why = [98]\<rparr>,
      \<lparr>sel_option_index = 0, sel_claim = [100], sel_why = [98]\<rparr>,
      \<lparr>sel_option_index = 5, sel_claim = [97], sel_why = [98]\<rparr>,
      \<lparr>sel_option_index = 0, sel_claim = [97], sel_why = [98]\<rparr>],
     response_missing = []\<rparr>"

lemma sample_tasks_valid: "\<forall>t \<in> set sample_tasks. valid_task t" "distinct (map ct_task_index sample_tasks)"
  by (simp_all add: sample_tasks_def valid_task_def valid_internal_hit_def valid_external_hit_def)

lemma shown_numbers_resolve_witness:
  "\<exists>origin. resolve_option_origin (prepare_review sample_tasks) 1 = Some origin
     \<and> concat (map group_options (prep_task_groups (prepare_review sample_tasks))) ! nat 1
         = to_option 1 (origin_hit origin)"
proof -
  have "\<exists>origin. resolve_option_origin (prepare_review sample_tasks) 1 = Some origin"
    by (simp add: resolve_option_origin_def prepare_review_def sample_tasks_def show_task_def show_hit_def
        hits_to_show_def Let_def)
  then show ?thesis using shown_numbers_resolve [of sample_tasks] by blast
qed

lemma sample_response_valid: "valid_response sample_response"
  by (simp add: sample_response_def valid_response_def valid_selection_def ANSWER_EVIDENCE_LIMIT_def
      EVIDENCE_CLAIM_MAX_CHARS_def EVIDENCE_WHY_SELECTED_MAX_CHARS_def EVIDENCE_REVIEW_MISSING_LIMIT_def)


lemma valid_response_completes:
  "valid_response r \<Longrightarrow> complete_evidence_run e (response_missing r)
     = Inr (EvidenceRunCompleted e (response_missing r))"
  by (auto simp: valid_response_def complete_evidence_run_def list_all_iff list_ex_iff)

lemma review_attempts_ok:
  assumes tasks: "\<forall>t \<in> set tasks. valid_task t" "distinct (map ct_task_index tasks)"
    and "ns \<noteq> []" "\<forall>n \<in> set (butlast ns). n < REVIEW_MAX_ATTEMPTS" "last ns \<ge> REVIEW_MAX_ATTEMPTS"
  shows "\<exists>run. review_attempts (prepare_review tasks) mismatch timeout runtime_call ns = Inr run
    \<and> (\<forall>e missing. run = EvidenceRunCompleted e missing \<longrightarrow>
         evidence_count e \<le> ANSWER_EVIDENCE_LIMIT \<and> length missing \<le> EVIDENCE_REVIEW_MISSING_LIMIT
         \<and> evidence_task_indexes e \<subseteq> set (map ct_task_index tasks))"
  using assms(3-)
proof (induction ns)
  case (Cons n ns)
  let ?rev = "review_attempts (prepare_review tasks) mismatch timeout runtime_call"
  have failed: "\<exists>run. (if n < REVIEW_MAX_ATTEMPTS then ?rev ns else Inr (EvidenceRunFailed c)) = Inr run
    \<and> (\<forall>e missing. run = EvidenceRunCompleted e missing \<longrightarrow>
         evidence_count e \<le> ANSWER_EVIDENCE_LIMIT \<and> length missing \<le> EVIDENCE_REVIEW_MISSING_LIMIT
         \<and> evidence_task_indexes e \<subseteq> set (map ct_task_index tasks))" for c
    using Cons by (cases "ns = []") auto
  have draft: "\<exists>e. answer_evidence_from_response (prepare_review tasks) r = Inr e
      \<and> evidence_task_indexes e \<subseteq> set (map ct_task_index tasks)" if v: "valid_response r" for r
  proof -
    obtain by_index where
      ev: "answer_evidence_from_response (prepare_review tasks) r = Inr (restored (prepare_review tasks) by_index)"
      by (rule answer_evidence_restored [OF tasks v]) blast
    have "t \<in> set (map ct_task_index tasks)"
      if t: "t \<in> evidence_task_indexes (restored (prepare_review tasks) by_index)" for t
    proof -
      obtain i origin where "resolve_option_origin (prepare_review tasks) i = Some origin"
        "t = origin_task_index origin"
        using t restored_internal restored_external by (fastforce simp: evidence_task_indexes_def)
      then show ?thesis
        using origins_valid(3) [OF tasks(1), of origin] by (auto simp: resolve_Some_iff)
    qed
    then show ?thesis using ev by blast
  qed
  show ?case
  proof (cases "runtime_call n")
    case (CallDraft d)
    obtain ss missing where d: "d = (ss, missing)" by fastforce
    show ?thesis
    proof (cases "response_from_draft ss missing")
      case (Inl e)
      then show ?thesis using failed [of mismatch] CallDraft d by simp
    next
      case (Inr r)
      then have v: "valid_response r" by (rule response_from_draft_valid)
      obtain e where e: "answer_evidence_from_response (prepare_review tasks) r = Inr e"
        "evidence_task_indexes e \<subseteq> set (map ct_task_index tasks)" using draft [OF v] by blast
      have "length (response_missing r) \<le> EVIDENCE_REVIEW_MISSING_LIMIT"
        using v by (simp add: valid_response_def)
      then show ?thesis
        using Inr CallDraft d e answer_evidence_checked(1) [OF e(1)]
        by (simp add: valid_response_completes [OF v])
    qed
  qed (use failed in simp_all)
qed simp

text \<open>
  The review returns for every behaviour of the model: on collected tasks with distinct
  indexes and valid hits it never raises; a completed run has at most fifteen pieces of evidence,
  all of collected tasks, and at most eight missing items.
\<close>

theorem review_total:
  assumes "\<forall>t \<in> set tasks. valid_task t" "distinct (map ct_task_index tasks)"
  shows "\<exists>run. review_evidence mismatch timeout runtime_call tasks = Inr run
    \<and> (\<forall>e missing. run = EvidenceRunCompleted e missing \<longrightarrow>
         evidence_count e \<le> ANSWER_EVIDENCE_LIMIT \<and> length missing \<le> EVIDENCE_REVIEW_MISSING_LIMIT
         \<and> evidence_task_indexes e \<subseteq> set (map ct_task_index tasks))"
  unfolding review_evidence_def
  by (rule review_attempts_ok [OF assms]) (auto simp: REVIEW_MAX_ATTEMPTS_def upt_rec)

lemma review_total_witness:
  "\<exists>run. review_evidence (0 :: nat) 1 (\<lambda>n. if n = 1 then CallInvalid 2 else CallTimedOut) sample_tasks = Inr run
     \<and> run = EvidenceRunFailed 1"
  using review_total [OF sample_tasks_valid, of "0 :: nat" 1 "\<lambda>n. if n = 1 then CallInvalid 2 else CallTimedOut"]
  by (simp add: review_evidence_def REVIEW_MAX_ATTEMPTS_def upt_rec)

end
