(* ===== verification/VisibleText.thy ===== *)
theory VisibleText
  imports Citations
begin

text \<open>
  The incremental filter of the live answer draft
  (\<^verbatim>\<open>agent/answering/visible_text.py\<close>): it removes citation markers and the outer
  white space from a text that arrives in chunks. Below it is shown to produce, for every
  chunking, what \<^const>\<open>strip\<close> and \<^const>\<open>strip_citation_markers\<close> produce on the
  whole text. The draft session on top of it
  (\<^verbatim>\<open>agent/answering/live_draft.py\<close>) follows, with the calls it makes on the
  delta reporter as a list.
\<close>

section \<open>The filter\<close>

datatype marker_state = TEXT | OPEN | REF_OPEN | DIGITS | CLOSE | REF_SEPARATOR

record visible_filter =
  marker_state :: marker_state
  marker_candidate :: pystr
  pending_whitespace :: pystr
  has_visible_text :: bool
  finished :: bool

definition new_filter :: visible_filter where
  "new_filter = \<lparr>marker_state = TEXT, marker_candidate = [], pending_whitespace = [],
     has_visible_text = False, finished = False\<rparr>"

fun append_literal :: "pystr \<Rightarrow> visible_filter \<Rightarrow> pystr \<Rightarrow> visible_filter \<times> pystr" where
  "append_literal [] f visible = (f, visible)"
| "append_literal (c # text) f visible =
     (if is_space c then
        append_literal text
          (if has_visible_text f
           then f\<lparr>pending_whitespace := pending_whitespace f @ [c]\<rparr> else f) visible
      else
        append_literal text
          (f\<lparr>pending_whitespace := [], has_visible_text := True\<rparr>)
          (visible @ pending_whitespace f @ [c]))"

definition reset_marker :: "visible_filter \<Rightarrow> visible_filter" where
  "reset_marker f = f\<lparr>marker_candidate := [], marker_state := TEXT\<rparr>"

definition extend_candidate :: "nat \<Rightarrow> marker_state \<Rightarrow> visible_filter \<Rightarrow> visible_filter" where
  "extend_candidate c st f = f\<lparr>marker_candidate := marker_candidate f @ [c], marker_state := st\<rparr>"

definition flush_candidate :: "visible_filter \<Rightarrow> pystr \<Rightarrow> visible_filter \<times> pystr" where
  "flush_candidate f visible =
     (let (f', visible') = append_literal (marker_candidate f) f visible
      in (reset_marker f', visible'))"

text \<open>
  The body of the loop of \<^verbatim>\<open>append\<close> on one character: whether the index advances, the
  new state and the visible text.
\<close>

definition append_step :: "nat \<Rightarrow> visible_filter \<Rightarrow> pystr \<Rightarrow> bool \<times> visible_filter \<times> pystr" where
  "append_step c f visible =
     (case marker_state f of
        TEXT \<Rightarrow>
          if c = LBRACKET then (True, f\<lparr>marker_candidate := [c], marker_state := OPEN\<rparr>, visible)
          else (True, append_literal [c] f visible)
      | OPEN \<Rightarrow>
          if c = LBRACKET then (True, extend_candidate c REF_OPEN f, visible)
          else (False, flush_candidate f visible)
      | REF_OPEN \<Rightarrow>
          if is_ascii_digit c then (True, extend_candidate c DIGITS f, visible)
          else (let (f', visible') = append_literal (butlast (marker_candidate f)) f visible in
                (False, f'\<lparr>marker_candidate := [LBRACKET], marker_state := OPEN\<rparr>, visible'))
      | DIGITS \<Rightarrow>
          if is_ascii_digit c then (True, extend_candidate c DIGITS f, visible)
          else if c = RBRACKET then (True, extend_candidate c CLOSE f, visible)
          else (False, flush_candidate f visible)
      | CLOSE \<Rightarrow>
          if c = RBRACKET then (True, reset_marker f, visible)
          else if c = COMMA then (True, extend_candidate c REF_SEPARATOR f, visible)
          else (False, flush_candidate f visible)
      | REF_SEPARATOR \<Rightarrow>
          if is_ref_separator_space c then (True, extend_candidate c REF_SEPARATOR f, visible)
          else if c = LBRACKET then (True, extend_candidate c REF_OPEN f, visible)
          else (False, flush_candidate f visible))"

text \<open>A character that is read again is read in a lower state, so the loop ends.\<close>

fun state_rank :: "marker_state \<Rightarrow> nat" where
  "state_rank TEXT = 0"
| "state_rank OPEN = 1"
| "state_rank _ = 2"

lemma append_literal_marker [simp]:
  "marker_state (fst (append_literal cs f v)) = marker_state f"
  "marker_candidate (fst (append_literal cs f v)) = marker_candidate f"
  "finished (fst (append_literal cs f v)) = finished f"
  by (induction cs f v rule: append_literal.induct) auto

lemma append_step_rank:
  "append_step c f v = (False, f', v') \<Longrightarrow> state_rank (marker_state f') < state_rank (marker_state f)"
  by (auto simp: append_step_def flush_candidate_def reset_marker_def split: marker_state.splits
      if_splits prod.splits)

lemma append_step_rank_le: "state_rank st \<le> 2"
  by (cases st) auto

function append_loop :: "visible_filter \<Rightarrow> pystr \<Rightarrow> pystr \<Rightarrow> visible_filter \<times> pystr" where
  "append_loop f [] visible = (f, visible)"
| "append_loop f (c # text) visible =
     (case append_step c f visible of
        (advance, f', visible') \<Rightarrow> append_loop f' (if advance then text else c # text) visible')"
  by pat_completeness auto
termination
proof (relation "measure (\<lambda>(f, text, visible). 3 * length text + state_rank (marker_state f))",
    goal_cases)
  case 1
  show ?case by simp
next
  case (2 f c cs v advance p f' v')
  then show ?case
    using append_step_rank [of c f v f' v'] append_step_rank_le [of "marker_state f'"]
    by (cases advance) auto
qed

declare append_loop.simps [simp del]

definition filter_append :: "visible_filter \<Rightarrow> pystr \<Rightarrow> py_exc + (visible_filter \<times> pystr)" where
  "filter_append f text =
     (if finished f then Inl RuntimeError else Inr (append_loop f text []))"

definition filter_finish :: "visible_filter \<Rightarrow> visible_filter \<times> pystr" where
  "filter_finish f =
     (if finished f then (f, [])
      else
        let (f', visible) =
          (if marker_candidate f \<noteq> [] then flush_candidate f [] else (f, []))
        in (f'\<lparr>pending_whitespace := [], finished := True\<rparr>, visible))"


section \<open>Literal text\<close>

text \<open>
  \<^term>\<open>shown L f out\<close>: the filter has received the literal text \<^term>\<open>L\<close> and
  has made \<^term>\<open>out\<close> visible.
\<close>

definition shown :: "pystr \<Rightarrow> visible_filter \<Rightarrow> pystr \<Rightarrow> bool" where
  "shown L f out \<longleftrightarrow> out @ pending_whitespace f = lstrip L \<and> out = strip L
     \<and> (has_visible_text f \<longleftrightarrow> out \<noteq> [])"

lemma lstrip_append: "lstrip (s @ t) = (if lstrip s = [] then lstrip t else lstrip s @ t)"
  by (induction s) (auto simp: lstrip_def)

lemma shown_step:
  assumes "shown L f out"
  shows "append_literal [c] f v = (f', v') \<Longrightarrow>
    \<exists>w. v' = v @ w \<and> shown (L @ [c]) f' (out @ w)"
proof (cases "is_space c")
  case True
  assume r: "append_literal [c] f v = (f', v')"
  have strip_eq: "strip (L @ [c]) = strip L"
    using True rstrip_append_space [of "[c]" "lstrip L"]
    by (auto simp: strip_def lstrip_append) (simp add: lstrip_def rstrip_def)
  have nil: "lstrip L = []" if "out = []"
  proof (rule ccontr)
    assume "lstrip L \<noteq> []"
    then have "\<not> is_space (hd (lstrip L))" by (simp add: lstrip_def hd_dropWhile)
    moreover have "strip L = []" using that assms by (simp add: shown_def)
    ultimately show False
      using \<open>lstrip L \<noteq> []\<close> by (auto simp: strip_def rstrip_Nil_iff)
  qed
  have sp: "lstrip [c] = []" using True by (simp add: lstrip_def)
  have ne: "lstrip L \<noteq> []" if "strip L \<noteq> []"
    using that by (auto simp: strip_def rstrip_def)
  show ?thesis
    using r True assms strip_eq nil sp ne
    by (auto simp: shown_def lstrip_append split: if_splits)
next
  case False
  assume r: "append_literal [c] f v = (f', v')"
  have l: "lstrip (L @ [c]) = lstrip L @ [c]"
    using False by (simp add: lstrip_append) (simp add: lstrip_def)
  show ?thesis
    using r False assms l by (auto simp: shown_def strip_def rstrip_snoc)
qed

lemma shown_append_literal:
  "shown L f out \<Longrightarrow> append_literal xs f v = (f', v') \<Longrightarrow>
   \<exists>w. v' = v @ w \<and> shown (L @ xs) f' (out @ w)"
proof (induction xs arbitrary: L f out v)
  case (Cons c xs)
  obtain f1 v1 where one: "append_literal [c] f v = (f1, v1)" by fastforce
  then have rest: "append_literal xs f1 v1 = (f', v')"
    using Cons.prems(2) by (auto split: if_splits)
  obtain w where w: "v1 = v @ w" "shown (L @ [c]) f1 (out @ w)"
    using shown_step [OF Cons.prems(1) one] by blast
  obtain w' where "v' = v1 @ w'" "shown ((L @ [c]) @ xs) f' ((out @ w) @ w')"
    using Cons.IH [OF w(2) rest] by blast
  then show ?case using w(1) by (intro exI [of _ "w @ w'"]) simp
qed simp

lemma shown_marker [simp]:
  "shown L (reset_marker f) out = shown L f out"
  "shown L (f\<lparr>marker_candidate := m, marker_state := st\<rparr>) out = shown L f out"
  "shown L (extend_candidate c st f) out = shown L f out"
  by (simp_all add: shown_def reset_marker_def extend_candidate_def)

section \<open>Marker candidates\<close>

text \<open>
  The strings that the candidate holds after its opening \<^verbatim>\<open>[[\<close>, per state, and the
  part of them that the matcher has still to finish.
\<close>

inductive partial_group :: "marker_state \<Rightarrow> pystr \<Rightarrow> bool" where
  pg_open: "partial_group REF_OPEN []"
| pg_digit: "partial_group REF_OPEN r \<Longrightarrow> is_ascii_digit c \<Longrightarrow> partial_group DIGITS (r @ [c])"
| pg_digits: "partial_group DIGITS r \<Longrightarrow> is_ascii_digit c \<Longrightarrow> partial_group DIGITS (r @ [c])"
| pg_close: "partial_group DIGITS r \<Longrightarrow> partial_group CLOSE (r @ [RBRACKET])"
| pg_comma: "partial_group CLOSE r \<Longrightarrow> partial_group REF_SEPARATOR (r @ [COMMA])"
| pg_space: "partial_group REF_SEPARATOR r \<Longrightarrow> is_ref_separator_space c \<Longrightarrow>
     partial_group REF_SEPARATOR (r @ [c])"
| pg_reopen: "partial_group REF_SEPARATOR r \<Longrightarrow> partial_group REF_OPEN (r @ [LBRACKET])"

fun open_part :: "marker_state \<Rightarrow> pystr \<Rightarrow> bool" where
  "open_part REF_OPEN u \<longleftrightarrow> u = []"
| "open_part DIGITS u \<longleftrightarrow> u \<noteq> [] \<and> list_all is_ascii_digit u"
| "open_part CLOSE u \<longleftrightarrow> (\<exists>d. d \<noteq> [] \<and> list_all is_ascii_digit d \<and> u = d @ [RBRACKET])"
| "open_part REF_SEPARATOR u \<longleftrightarrow> (\<exists>d w. d \<noteq> [] \<and> list_all is_ascii_digit d \<and>
     list_all is_ref_separator_space w \<and> u = d @ RBRACKET # COMMA # w)"
| "open_part _ u \<longleftrightarrow> False"

definition continues :: "pystr \<Rightarrow> pystr \<Rightarrow> bool" where
  "continues r u \<longleftrightarrow>
     (\<exists>refs. \<forall>y. match_refs (r @ y) = map_option (\<lambda>(ds, t). (refs @ ds, t)) (match_refs (u @ y)))"

lemma continues_refl: "continues r r"
  unfolding continues_def by (rule exI [of _ "[]"]) (simp add: option.map_id)

lemma continues_append: "continues r u \<Longrightarrow> continues (r @ x) (u @ x)"
  unfolding continues_def by (metis append.assoc)

lemma continues_reopen:
  assumes "continues r (d @ RBRACKET # COMMA # w)" "d \<noteq> []" "list_all is_ascii_digit d"
    "list_all is_ref_separator_space w"
  shows "continues (r @ [LBRACKET]) []"
proof -
  obtain refs where h: "\<forall>y. match_refs (r @ y)
      = map_option (\<lambda>(ds, t). (refs @ ds, t)) (match_refs ((d @ RBRACKET # COMMA # w) @ y))"
    using assms(1) unfolding continues_def by blast
  have "match_refs ((r @ [LBRACKET]) @ y)
      = map_option (\<lambda>(ds, t). ((refs @ [d]) @ ds, t)) (match_refs y)" for y
    using h [rule_format, of "LBRACKET # y"] match_refs_more [OF assms(2-4), of y]
    by (simp add: option.map_comp comp_def case_prod_unfold)
  then show ?thesis unfolding continues_def by (intro exI [of _ "refs @ [d]"]) simp
qed

lemma partial_group_open_part: "partial_group st r \<Longrightarrow> \<exists>u. open_part st u \<and> continues r u"
proof (induction rule: partial_group.induct)
  case pg_open
  show ?case using continues_refl [of "[]"] by simp
next
  case (pg_digit r c)
  then show ?case using continues_append [of r "[]" "[c]"] by (auto intro!: exI [of _ "[c]"])
next
  case (pg_digits r c)
  then obtain u where "open_part DIGITS u" "continues r u" by blast
  then show ?case
    using continues_append [of r u "[c]"] pg_digits.hyps(2) by (intro exI [of _ "u @ [c]"]) auto
next
  case (pg_close r)
  then obtain u where "open_part DIGITS u" "continues r u" by blast
  then show ?case
    using continues_append [of r u "[RBRACKET]"] by (intro exI [of _ "u @ [RBRACKET]"]) auto
next
  case (pg_comma r)
  then obtain u where "open_part CLOSE u" "continues r u" by blast
  then show ?case
    using continues_append [of r u "[COMMA]"] by (intro exI [of _ "u @ [COMMA]"]) auto
next
  case (pg_space r c)
  then obtain d w where "d \<noteq> []" "list_all is_ascii_digit d" "list_all is_ref_separator_space w"
    "continues r (d @ RBRACKET # COMMA # w)" by auto
  then have "continues (r @ [c]) (d @ RBRACKET # COMMA # (w @ [c]))"
    using continues_append [of r _ "[c]"] by fastforce
  moreover have "open_part REF_SEPARATOR (d @ RBRACKET # COMMA # (w @ [c]))"
    using \<open>d \<noteq> []\<close> \<open>list_all is_ascii_digit d\<close> \<open>list_all is_ref_separator_space w\<close> pg_space.hyps(2)
    unfolding open_part.simps by (intro exI [of _ d] exI [of _ "w @ [c]"]) simp
  ultimately show ?case by blast
next
  case (pg_reopen r)
  then show ?case using continues_reopen by auto
qed


text \<open>What the matcher does with the character that a state of the filter does not accept.\<close>

lemma match_refs_fail_digit: "\<not> is_ascii_digit c \<Longrightarrow> match_refs (c # s) = None"
  by (subst match_refs.simps) simp

lemma match_refs_fail_digits:
  assumes "d \<noteq> []" "list_all is_ascii_digit d" "\<not> is_ascii_digit c" "c \<noteq> RBRACKET"
  shows "match_refs (d @ c # s) = None"
  using assms by (subst match_refs.simps) (simp add: span_digits Let_def split: list.splits)

lemma match_refs_fail_close:
  assumes "d \<noteq> []" "list_all is_ascii_digit d" "c \<noteq> RBRACKET" "c \<noteq> COMMA"
  shows "match_refs (d @ RBRACKET # c # s) = None"
  using assms by (subst match_refs.simps) (simp add: span_digits Let_def)

lemma match_refs_fail_separator:
  assumes "d \<noteq> []" "list_all is_ascii_digit d" "list_all is_ref_separator_space w"
    "\<not> is_ref_separator_space c" "c \<noteq> LBRACKET"
  shows "match_refs (d @ RBRACKET # COMMA # w @ c # s) = None"
  using assms by (subst match_refs.simps) (simp add: span_digits span_separators Let_def)

lemma match_refs_fail_end:
  "d \<noteq> [] \<Longrightarrow> list_all is_ascii_digit d \<Longrightarrow> match_refs d = None"
  "d \<noteq> [] \<Longrightarrow> list_all is_ascii_digit d \<Longrightarrow> match_refs (d @ [RBRACKET]) = None"
  "d \<noteq> [] \<Longrightarrow> list_all is_ascii_digit d \<Longrightarrow> list_all is_ref_separator_space w \<Longrightarrow>
     match_refs (d @ RBRACKET # COMMA # w) = None"
proof -
  assume "d \<noteq> []" and "list_all is_ascii_digit d"
  then have "takeWhile is_ascii_digit d = d" "dropWhile is_ascii_digit d = []"
    by (auto simp: list_all_iff takeWhile_eq_all_conv dropWhile_eq_Nil_conv)
  with \<open>d \<noteq> []\<close> show "match_refs d = None"
    by (subst match_refs.simps)
      (simp add: Let_def del: takeWhile_eq_all_conv dropWhile_eq_Nil_conv)
next
  show "d \<noteq> [] \<Longrightarrow> list_all is_ascii_digit d \<Longrightarrow> match_refs (d @ [RBRACKET]) = None"
    by (subst match_refs.simps) (simp add: span_digits Let_def)
next
  assume h: "d \<noteq> []" "list_all is_ascii_digit d" and "list_all is_ref_separator_space w"
  then have "dropWhile is_ref_separator_space w = []"
    by (simp add: list_all_iff)
  with h show "match_refs (d @ RBRACKET # COMMA # w) = None"
    by (subst match_refs.simps) (simp add: span_digits Let_def del: dropWhile_eq_Nil_conv)
qed

fun rejects :: "marker_state \<Rightarrow> nat \<Rightarrow> bool" where
  "rejects REF_OPEN c \<longleftrightarrow> \<not> is_ascii_digit c"
| "rejects DIGITS c \<longleftrightarrow> \<not> is_ascii_digit c \<and> c \<noteq> RBRACKET"
| "rejects CLOSE c \<longleftrightarrow> c \<noteq> RBRACKET \<and> c \<noteq> COMMA"
| "rejects REF_SEPARATOR c \<longleftrightarrow> \<not> is_ref_separator_space c \<and> c \<noteq> LBRACKET"
| "rejects _ c \<longleftrightarrow> False"

lemma partial_group_rejects:
  assumes "partial_group st r" and "rejects st c"
  shows "match_refs (r @ c # s) = None"
proof -
  obtain u where u: "open_part st u" "continues r u"
    using partial_group_open_part [OF assms(1)] by blast
  have "match_refs (u @ c # s) = None"
    using u(1) assms(2) match_refs_fail_digit match_refs_fail_digits match_refs_fail_close
      match_refs_fail_separator
    by (cases st) auto
  then show ?thesis using u(2) unfolding continues_def by auto
qed

lemma partial_group_incomplete:
  assumes "partial_group st r" shows "match_refs r = None"
proof -
  obtain u where u: "open_part st u" "continues r u"
    using partial_group_open_part [OF assms] by blast
  have "match_refs [] = None" by (subst match_refs.simps) simp
  then have "match_refs u = None"
    using u(1) match_refs_fail_end by (cases st) auto
  then show ?thesis using u(2) unfolding continues_def by (metis append_Nil2 map_option_is_None)
qed

lemma partial_group_accepts:
  assumes "partial_group CLOSE r"
  shows "\<exists>ds. \<forall>s. match_refs (r @ RBRACKET # s) = Some (ds, s)"
proof -
  obtain d where d: "d \<noteq> []" "list_all is_ascii_digit d" "continues r (d @ [RBRACKET])"
    using partial_group_open_part [OF assms] by auto
  obtain refs where "\<forall>y. match_refs (r @ y)
      = map_option (\<lambda>(ds, t). (refs @ ds, t)) (match_refs ((d @ [RBRACKET]) @ y))"
    using d(3) unfolding continues_def by blast
  then have "match_refs (r @ RBRACKET # s) = Some (refs @ [d], s)" for s
    using match_refs_last [OF d(1,2), of s] by simp
  then show ?thesis by blast
qed

text \<open>Text in which no marker can open.\<close>

fun no_double :: "pystr \<Rightarrow> bool" where
  "no_double (a # b # s) \<longleftrightarrow> \<not> (a = LBRACKET \<and> b = LBRACKET) \<and> no_double (b # s)"
| "no_double _ \<longleftrightarrow> True"

lemma no_double_snoc:
  "no_double (xs @ [c]) \<longleftrightarrow> no_double xs \<and> (xs = [] \<or> \<not> (last xs = LBRACKET \<and> c = LBRACKET))"
  by (induction xs rule: no_double.induct) auto

lemma strip_no_double:
  "no_double (xs @ [c]) \<Longrightarrow> strip_citation_markers (xs @ c # y) = xs @ strip_citation_markers (c # y)"
proof (induction xs rule: no_double.induct [case_names two empty single])
  case (two a b s)
  then have "citation_match (a # b # s @ c # y) = None" by auto
  with two show ?case by (simp add: strip_no_match)
next
  case (single a)
  then have "citation_match (a # c # y) = None" by auto
  then show ?case by (simp add: strip_no_match)
qed simp

lemma strip_no_double_end: "no_double xs \<Longrightarrow> strip_citation_markers xs = xs"
proof (cases xs rule: rev_cases)
  case (snoc ys c)
  assume "no_double xs"
  then have "strip_citation_markers (ys @ [c]) = ys @ strip_citation_markers [c]"
    using snoc strip_no_double [of ys c "[]"] by simp
  then show ?thesis using snoc by (simp add: strip_citation_markers.simps)
qed simp

lemma partial_group_no_double:
  "partial_group st r \<Longrightarrow> no_double (LBRACKET # r) \<and>
     (st = REF_OPEN \<longrightarrow> last (LBRACKET # r) = LBRACKET) \<and>
     (st \<noteq> REF_OPEN \<longrightarrow> r \<noteq> [] \<and> last r \<noteq> LBRACKET)"
proof (induction rule: partial_group.induct)
  case (pg_digit r c)
  then show ?case using no_double_snoc [of "LBRACKET # r" c] by (auto simp: is_ascii_digit_def)
next
  case (pg_digits r c)
  then show ?case using no_double_snoc [of "LBRACKET # r" c] by (auto simp: is_ascii_digit_def)
next
  case (pg_close r)
  then show ?case using no_double_snoc [of "LBRACKET # r" RBRACKET] by auto
next
  case (pg_comma r)
  then show ?case using no_double_snoc [of "LBRACKET # r" COMMA] by auto
next
  case (pg_space r c)
  then show ?case
    using no_double_snoc [of "LBRACKET # r" c] by (auto simp: is_ref_separator_space_def)
next
  case (pg_reopen r)
  then show ?case using no_double_snoc [of "LBRACKET # r" LBRACKET] by auto
qed simp


section \<open>The filter against the batch functions\<close>

definition candidate_ok :: "visible_filter \<Rightarrow> bool" where
  "candidate_ok f \<longleftrightarrow>
     (case marker_state f of
        TEXT \<Rightarrow> marker_candidate f = []
      | OPEN \<Rightarrow> marker_candidate f = [LBRACKET]
      | st \<Rightarrow> (\<exists>r. marker_candidate f = LBRACKET # LBRACKET # r \<and> partial_group st r))"

lemma candidate_group:
  "candidate_ok f \<Longrightarrow> marker_state f \<noteq> TEXT \<Longrightarrow> marker_state f \<noteq> OPEN \<Longrightarrow>
   \<exists>r. marker_candidate f = LBRACKET # LBRACKET # r \<and> partial_group (marker_state f) r"
  by (cases "marker_state f") (auto simp: candidate_ok_def)

text \<open>
  One step: the literal text \<^term>\<open>M\<close> leaves the candidate, in the same way in which the
  batch function keeps it.
\<close>

definition step_ok :: "visible_filter \<Rightarrow> pystr \<Rightarrow> visible_filter \<Rightarrow> pystr \<Rightarrow> pystr \<Rightarrow> bool" where
  "step_ok f v f' v' M \<longleftrightarrow> candidate_ok f' \<and> finished f' = finished f \<and>
     (\<forall>L out. shown L f out \<longrightarrow> (\<exists>w. v' = v @ w \<and> shown (L @ M) f' (out @ w)))"

lemma step_ok_extend:
  "candidate_ok (extend_candidate c st f) \<Longrightarrow> step_ok f v (extend_candidate c st f) v []"
  by (auto simp: step_ok_def) (simp_all add: extend_candidate_def)

lemma step_ok_literal:
  assumes "append_literal M f v = (f1, v')"
    and "f' = f1\<lparr>marker_candidate := m, marker_state := st\<rparr>" and "candidate_ok f'"
  shows "step_ok f v f' v' M"
  using assms shown_append_literal append_literal_marker(3) [of M f v]
  unfolding step_ok_def by fastforce

lemma step_ok_flush:
  "flush_candidate f v = (f', v') \<Longrightarrow> step_ok f v f' v' (marker_candidate f)"
  by (rule step_ok_literal [where m = "[]" and st = TEXT
        and ?f1.0 = "fst (append_literal (marker_candidate f) f v)"])
    (auto simp: flush_candidate_def reset_marker_def candidate_ok_def split: prod.splits)

lemma flush_candidate_empty:
  "flush_candidate f v = (f', v') \<Longrightarrow> marker_candidate f' = []"
  by (auto simp: flush_candidate_def reset_marker_def split: prod.splits)

lemma strip_group_rejects:
  assumes "partial_group st r" "rejects st c" "st \<noteq> REF_OPEN"
  shows "strip_citation_markers (LBRACKET # LBRACKET # r @ c # y)
    = LBRACKET # LBRACKET # r @ strip_citation_markers (c # y)"
proof -
  have "citation_match (LBRACKET # LBRACKET # r @ c # y) = None"
    using partial_group_rejects [OF assms(1,2)] by simp
  moreover have "no_double ((LBRACKET # r) @ [c])"
    using partial_group_no_double [OF assms(1)] assms(3) no_double_snoc [of "LBRACKET # r" c] by auto
  then have "strip_citation_markers ((LBRACKET # r) @ c # y)
      = (LBRACKET # r) @ strip_citation_markers (c # y)" by (rule strip_no_double)
  ultimately show ?thesis by (simp add: strip_no_match)
qed

lemma strip_group_reopens:
  assumes "partial_group REF_OPEN r" "\<not> is_ascii_digit c"
  shows "strip_citation_markers (LBRACKET # LBRACKET # r @ c # y)
    = butlast (LBRACKET # LBRACKET # r) @ strip_citation_markers (LBRACKET # c # y)"
proof -
  have none: "citation_match (LBRACKET # LBRACKET # r @ c # y) = None"
    using partial_group_rejects [OF assms(1)] assms(2) by simp
  obtain xs where xs: "LBRACKET # r = xs @ [LBRACKET]" "no_double (xs @ [LBRACKET])"
    using partial_group_no_double [OF assms(1)]
    by (metis append_butlast_last_id list.distinct(1))
  have "strip_citation_markers (LBRACKET # r @ c # y)
      = strip_citation_markers (xs @ LBRACKET # c # y)"
    using xs(1) by (metis append.assoc append_Cons append_Nil)
  also have "\<dots> = xs @ strip_citation_markers (LBRACKET # c # y)"
    using xs(2) by (rule strip_no_double)
  finally show ?thesis using none xs(1) by (simp add: strip_no_match butlast_append)
qed

lemma strip_group_accepts:
  assumes "partial_group CLOSE r"
  shows "strip_citation_markers (LBRACKET # LBRACKET # r @ RBRACKET # y) = strip_citation_markers y"
proof -
  obtain ds where "match_refs (r @ RBRACKET # y) = Some (ds, y)"
    using partial_group_accepts [OF assms] by blast
  then show ?thesis by (intro strip_match [of _ ds]) simp
qed

lemma strip_group_end:
  assumes "partial_group st r"
  shows "strip_citation_markers (LBRACKET # LBRACKET # r) = LBRACKET # LBRACKET # r"
  using partial_group_incomplete [OF assms] partial_group_no_double [OF assms]
  by (simp add: strip_no_match strip_no_double_end)

lemma candidate_end: "candidate_ok f \<Longrightarrow>
  strip_citation_markers (marker_candidate f) = marker_candidate f"
  by (auto simp: candidate_ok_def strip_group_end strip_no_double_end split: marker_state.splits)

definition step_strips :: "visible_filter \<Rightarrow> pystr \<Rightarrow> visible_filter \<Rightarrow> pystr \<Rightarrow> pystr \<Rightarrow> bool" where
  "step_strips f consumed f' rest M \<longleftrightarrow> (\<forall>y. strip_citation_markers (marker_candidate f @ consumed @ y)
     = M @ strip_citation_markers (marker_candidate f' @ rest @ y))"

text \<open>What a step has to satisfy, and the two shapes that most branches have.\<close>

definition step_good :: "nat \<Rightarrow> visible_filter \<Rightarrow> pystr \<Rightarrow> bool \<times> visible_filter \<times> pystr \<Rightarrow> bool" where
  "step_good c f v res \<longleftrightarrow> (case res of (advance, f', v') \<Rightarrow>
     \<exists>M. step_ok f v f' v' M \<and> step_strips f [c] f' (if advance then [] else [c]) M)"

lemma step_good_extend:
  assumes "marker_candidate f = LBRACKET # LBRACKET # r" "partial_group st (r @ [c])"
  shows "step_good c f v (True, extend_candidate c st f, v)"
proof -
  have "candidate_ok (extend_candidate c st f)"
    using assms by (auto simp: candidate_ok_def extend_candidate_def split: marker_state.splits
        elim: partial_group.cases)
  then have "step_ok f v (extend_candidate c st f) v []" by (rule step_ok_extend)
  moreover have "step_strips f [c] (extend_candidate c st f) [] []"
    by (simp add: step_strips_def extend_candidate_def)
  ultimately show ?thesis by (auto simp: step_good_def)
qed

lemma step_good_flush:
  assumes "marker_candidate f = LBRACKET # LBRACKET # r" "partial_group st r" "rejects st c"
    "st \<noteq> REF_OPEN"
  shows "step_good c f v (False, flush_candidate f v)"
proof -
  obtain f' v' where fl: "flush_candidate f v = (f', v')" by fastforce
  have "step_strips f [c] f' [c] (marker_candidate f)"
    using flush_candidate_empty [OF fl] strip_group_rejects [OF assms(2-4)] assms(1)
    by (simp add: step_strips_def)
  then show ?thesis using step_ok_flush [OF fl] by (auto simp: step_good_def fl)
qed

lemma step_good_reopen:
  assumes cand: "marker_candidate f = LBRACKET # LBRACKET # r" "partial_group REF_OPEN r"
    and "\<not> is_ascii_digit c"
    and lit: "append_literal (butlast (marker_candidate f)) f v = (f1, v1)"
  shows "step_good c f v (False, f1\<lparr>marker_candidate := [LBRACKET], marker_state := OPEN\<rparr>, v1)"
proof -
  let ?f' = "f1\<lparr>marker_candidate := [LBRACKET], marker_state := OPEN\<rparr>"
  have "candidate_ok ?f'" by (simp add: candidate_ok_def)
  then have "step_ok f v ?f' v1 (butlast (marker_candidate f))"
    using step_ok_literal [OF lit refl] by simp
  moreover have "step_strips f [c] ?f' [c] (butlast (marker_candidate f))"
    using strip_group_reopens [of r c] assms by (simp add: step_strips_def)
  ultimately show ?thesis by (auto simp: step_good_def)
qed

lemma step_good_accept:
  assumes "marker_candidate f = LBRACKET # LBRACKET # r" "partial_group CLOSE r"
  shows "step_good RBRACKET f v (True, reset_marker f, v)"
proof -
  have "step_ok f v (reset_marker f) v []"
    by (simp add: step_ok_def) (simp add: candidate_ok_def reset_marker_def)
  moreover have "step_strips f [RBRACKET] (reset_marker f) [] []"
    using strip_group_accepts [of r] assms by (simp add: step_strips_def reset_marker_def)
  ultimately show ?thesis by (auto simp: step_good_def)
qed

lemma step_good_group:
  assumes ok: "candidate_ok f" and st: "marker_state f \<noteq> TEXT" "marker_state f \<noteq> OPEN"
  shows "step_good c f v (append_step c f v)"
proof -
  obtain r where r: "marker_candidate f = LBRACKET # LBRACKET # r"
    and pg: "partial_group (marker_state f) r"
    using candidate_group [OF ok st] by blast
  note ext = step_good_extend [OF r] and flu = step_good_flush [OF r]
  show ?thesis
  proof (cases "marker_state f")
    case REF_OPEN
    then show ?thesis
      using pg ext [of DIGITS c v] pg_digit [of r c] step_good_reopen [OF r, of c v]
      by (auto simp: append_step_def split: prod.splits)
  next
    case DIGITS
    then show ?thesis
      using pg ext [of DIGITS c v] pg_digits [of r c] ext [of CLOSE c v] pg_close [of r]
        flu [of DIGITS c v]
      by (auto simp: append_step_def)
  next
    case CLOSE
    then show ?thesis
      using pg ext [of REF_SEPARATOR c v] pg_comma [of r] step_good_accept [OF r, of v]
        flu [of CLOSE c v]
      by (auto simp: append_step_def)
  next
    case REF_SEPARATOR
    then show ?thesis
      using pg ext [of REF_SEPARATOR c v] pg_space [of r c] ext [of REF_OPEN c v] pg_reopen [of r]
        flu [of REF_SEPARATOR c v]
      by (auto simp: append_step_def)
  qed (use st in auto)
qed

lemma step_good_text:
  assumes ok: "candidate_ok f" and st: "marker_state f = TEXT"
  shows "step_good c f v (append_step c f v)"
proof -
  have cand: "marker_candidate f = []" using ok st by (simp add: candidate_ok_def)
  show ?thesis
  proof (cases "c = LBRACKET")
    case True
    let ?f' = "f\<lparr>marker_candidate := [c], marker_state := OPEN\<rparr>"
    have "step_ok f v ?f' v []" using True by (simp add: step_ok_def) (simp add: candidate_ok_def)
    moreover have "step_strips f [c] ?f' [] []" by (simp add: step_strips_def cand)
    ultimately show ?thesis using True st by (auto simp: step_good_def append_step_def)
  next
    case False
    obtain f1 v1 where lit: "append_literal [c] f v = (f1, v1)" by fastforce
    have keep: "marker_candidate f1 = []" "marker_state f1 = TEXT"
      using append_literal_marker [of "[c]" f v] lit cand st by simp_all
    have "step_ok f v f1 v1 [c]"
      by (rule step_ok_literal [OF lit, where m = "[]" and st = TEXT]) (use keep in \<open>simp_all add: candidate_ok_def\<close>)
    moreover have "step_strips f [c] f1 [] [c]"
      by (simp add: step_strips_def cand keep strip_plain [OF False])
    ultimately show ?thesis using False st lit by (auto simp: step_good_def append_step_def)
  qed
qed

lemma step_good_open:
  assumes ok: "candidate_ok f" and st: "marker_state f = OPEN"
  shows "step_good c f v (append_step c f v)"
proof -
  have cand: "marker_candidate f = [LBRACKET]" using ok st by (simp add: candidate_ok_def)
  show ?thesis
  proof (cases "c = LBRACKET")
    case True
    let ?f' = "extend_candidate c REF_OPEN f"
    have "candidate_ok ?f'"
      using True pg_open by (simp add: candidate_ok_def extend_candidate_def cand)
    then have "step_ok f v ?f' v []" by (rule step_ok_extend)
    moreover have "step_strips f [c] ?f' [] []"
      by (simp add: step_strips_def extend_candidate_def)
    ultimately show ?thesis using True st by (auto simp: step_good_def append_step_def)
  next
    case False
    obtain f' v' where fl: "flush_candidate f v = (f', v')" by fastforce
    have "citation_match (LBRACKET # c # y) = None" for y using False by simp
    then have "step_strips f [c] f' [c] (marker_candidate f)"
      by (simp add: step_strips_def cand flush_candidate_empty [OF fl] strip_no_match)
    then show ?thesis
      using step_ok_flush [OF fl] False st fl by (auto simp: step_good_def append_step_def)
  qed
qed

lemma append_step_good: "candidate_ok f \<Longrightarrow> step_good c f v (append_step c f v)"
  using step_good_text step_good_open step_good_group by blast

text \<open>The loop over one chunk.\<close>

lemma append_loop_good:
  "candidate_ok f \<Longrightarrow> append_loop f cs v = (f', v') \<Longrightarrow>
   \<exists>M. step_ok f v f' v' M \<and> step_strips f cs f' [] M"
proof (induction f cs v arbitrary: f' v' rule: append_loop.induct)
  case (1 f v)
  then show ?case
    by (intro exI [of _ "[]"]) (auto simp: append_loop.simps step_ok_def step_strips_def)
next
  case (2 f c cs v)
  obtain advance f1 v1 where st: "append_step c f v = (advance, f1, v1)" by (metis prod_cases3)
  let ?rest = "if advance then cs else c # cs"
  have run: "append_loop f1 ?rest v1 = (f', v')"
    using 2(3) st by (simp add: append_loop.simps(2))
  obtain M1 where m1: "step_ok f v f1 v1 M1"
    "step_strips f [c] f1 (if advance then [] else [c]) M1"
    using append_step_good [OF 2(2), of c v] st by (auto simp: step_good_def)
  then obtain M2 where m2: "step_ok f1 v1 f' v' M2" "step_strips f1 ?rest f' [] M2"
    using 2(1) [OF st [symmetric] refl _ run] by (auto simp: step_ok_def)
  have "step_ok f v f' v' (M1 @ M2)"
    using m1(1) m2(1) unfolding step_ok_def by (metis append.assoc)
  moreover have "step_strips f (c # cs) f' [] (M1 @ M2)"
    unfolding step_strips_def
  proof
    fix y
    show "strip_citation_markers (marker_candidate f @ (c # cs) @ y)
      = (M1 @ M2) @ strip_citation_markers (marker_candidate f' @ [] @ y)"
      using m1(2) [unfolded step_strips_def, rule_format, of "cs @ y"]
        m2(2) [unfolded step_strips_def, rule_format, of y]
      by (cases advance) auto
  qed
  ultimately show ?case by blast
qed

text \<open>
  The state between two chunks: \<^term>\<open>received\<close> is the text appended so far,
  \<^term>\<open>out\<close> what was made visible.
\<close>

definition tracks :: "pystr \<Rightarrow> visible_filter \<Rightarrow> pystr \<Rightarrow> bool" where
  "tracks received f out \<longleftrightarrow> candidate_ok f \<and> \<not> finished f \<and>
     (\<exists>L. shown L f out \<and>
        (\<forall>y. strip_citation_markers (received @ y)
           = L @ strip_citation_markers (marker_candidate f @ y)))"

lemma tracks_new: "tracks [] new_filter []"
  by (simp add: tracks_def new_filter_def candidate_ok_def shown_def)
    (simp add: lstrip_def strip_def rstrip_def)

lemma tracks_append:
  assumes "tracks received f out"
  shows "\<exists>f' w. filter_append f cs = Inr (f', w) \<and> tracks (received @ cs) f' (out @ w)"
proof -
  obtain L where ok: "candidate_ok f" "\<not> finished f" and L: "shown L f out"
    and strips: "\<And>y. strip_citation_markers (received @ y)
      = L @ strip_citation_markers (marker_candidate f @ y)"
    using assms unfolding tracks_def by blast
  obtain f' w where run: "append_loop f cs [] = (f', w)" by fastforce
  obtain M where M: "step_ok f [] f' w M" "step_strips f cs f' [] M"
    using append_loop_good [OF ok(1) run] by blast
  have "shown (L @ M) f' (out @ w)" using M(1) L by (auto simp: step_ok_def)
  moreover have "strip_citation_markers ((received @ cs) @ y)
      = (L @ M) @ strip_citation_markers (marker_candidate f' @ y)" for y
    using strips [of "cs @ y"] M(2) by (simp add: step_strips_def)
  ultimately have "tracks (received @ cs) f' (out @ w)"
    using M(1) ok(2) unfolding tracks_def step_ok_def by blast
  then show ?thesis using run ok(2) by (simp add: filter_append_def)
qed

lemma tracks_finish:
  assumes "tracks received f out"
  shows "out @ snd (filter_finish f) = strip (strip_citation_markers received)"
    and "finished (fst (filter_finish f))"
proof -
  obtain L where ok: "candidate_ok f" "\<not> finished f" and L: "shown L f out"
    and strips: "strip_citation_markers received = L @ marker_candidate f"
    using assms candidate_end [of f] unfolding tracks_def by (metis append_Nil2)
  obtain f1 v1 where lit: "append_literal (marker_candidate f) f [] = (f1, v1)" by fastforce
  then have "shown (L @ marker_candidate f) f1 (out @ v1)"
    using shown_append_literal [OF L lit] by auto
  then show "out @ snd (filter_finish f) = strip (strip_citation_markers received)"
    using lit ok(2) L strips
    by (auto simp: filter_finish_def flush_candidate_def shown_def)
  show "finished (fst (filter_finish f))"
    using ok(2) by (simp add: filter_finish_def split: prod.splits)
qed


section \<open>The draft session\<close>

text \<open>The calls on the \<^verbatim>\<open>AnswerDeltaReporter\<close>.\<close>

datatype delta_call =
    DeltaAppend (call_generation: int) (call_text: pystr)
  | DeltaReset (call_generation: int)
  | DeltaFinish (call_generation: int)
  | DeltaAbort (call_generation: int)

record live_draft =
  draft_generation :: int
  draft_filter :: visible_filter
  draft_closed :: bool

definition new_draft :: "int \<Rightarrow> live_draft" where
  "new_draft generation =
     \<lparr>draft_generation = generation, draft_filter = new_filter, draft_closed = False\<rparr>"

definition draft_append :: "live_draft \<Rightarrow> pystr \<Rightarrow> py_exc + (live_draft \<times> delta_call list)" where
  "draft_append d text =
     (if draft_closed d then Inl RuntimeError
      else case filter_append (draft_filter d) text of
        Inl e \<Rightarrow> Inl e
      | Inr (f, visible) \<Rightarrow>
          Inr (d\<lparr>draft_filter := f\<rparr>,
               if visible \<noteq> [] then [DeltaAppend (draft_generation d) visible] else []))"

definition draft_commit :: "live_draft \<Rightarrow> py_exc + (live_draft \<times> delta_call list)" where
  "draft_commit d =
     (if draft_closed d then Inl RuntimeError
      else
        let (f, tail) = filter_finish (draft_filter d) in
        Inr (d\<lparr>draft_filter := f, draft_closed := True\<rparr>,
             (if tail \<noteq> [] then [DeltaAppend (draft_generation d) tail] else [])
               @ [DeltaFinish (draft_generation d)]))"

definition draft_abort :: "live_draft \<Rightarrow> live_draft \<times> delta_call list" where
  "draft_abort d =
     (if draft_closed d then (d, [])
      else (d\<lparr>draft_closed := True\<rparr>, [DeltaAbort (draft_generation d)]))"

text \<open>\<^verbatim>\<open>__aexit__\<close>: leaving the block aborts a draft that was not committed.\<close>

definition draft_exit :: "live_draft \<Rightarrow> live_draft \<times> delta_call list" where
  "draft_exit d = (if \<not> draft_closed d then draft_abort d else (d, []))"

text \<open>The chunks of a stream, appended one after the other.\<close>

fun draft_append_all ::
    "live_draft \<Rightarrow> pystr list \<Rightarrow> py_exc + (live_draft \<times> delta_call list)" where
  "draft_append_all d [] = Inr (d, [])"
| "draft_append_all d (c # cs) =
     (case draft_append d c of
        Inl e \<Rightarrow> Inl e
      | Inr (d', calls) \<Rightarrow>
          (case draft_append_all d' cs of
             Inl e \<Rightarrow> Inl e
           | Inr (d'', calls') \<Rightarrow> Inr (d'', calls @ calls')))"

fun appended_text :: "delta_call list \<Rightarrow> pystr" where
  "appended_text [] = []"
| "appended_text (DeltaAppend g t # cs) = t @ appended_text cs"
| "appended_text (_ # cs) = appended_text cs"

lemma appended_text_append [simp]:
  "appended_text (xs @ ys) = appended_text xs @ appended_text ys"
  by (induction xs rule: appended_text.induct) auto

definition draft_tracks :: "pystr \<Rightarrow> live_draft \<Rightarrow> delta_call list \<Rightarrow> bool" where
  "draft_tracks received d calls \<longleftrightarrow> \<not> draft_closed d \<and>
     tracks received (draft_filter d) (appended_text calls) \<and>
     list_all (\<lambda>c. c = DeltaAppend (draft_generation d) (call_text c) \<and> call_text c \<noteq> []) calls"

lemma draft_tracks_append:
  assumes "draft_tracks received d calls"
  shows "\<exists>d' cs. draft_append d c = Inr (d', cs) \<and> draft_generation d' = draft_generation d
    \<and> draft_tracks (received @ c) d' (calls @ cs)"
proof -
  obtain f' w where "filter_append (draft_filter d) c = Inr (f', w)"
    "tracks (received @ c) f' (appended_text calls @ w)"
    using assms tracks_append unfolding draft_tracks_def by blast
  then show ?thesis
    using assms by (cases "w = []") (simp_all add: draft_append_def draft_tracks_def)
qed

lemma draft_tracks_append_all:
  "draft_tracks received d calls \<Longrightarrow>
   \<exists>d' cs. draft_append_all d chunks = Inr (d', cs) \<and> draft_generation d' = draft_generation d
     \<and> draft_tracks (received @ concat chunks) d' (calls @ cs)"
proof (induction chunks arbitrary: d received calls)
  case (Cons c chunks)
  obtain d1 cs1 where one: "draft_append d c = Inr (d1, cs1)"
    "draft_generation d1 = draft_generation d" "draft_tracks (received @ c) d1 (calls @ cs1)"
    using draft_tracks_append [OF Cons.prems] by blast
  obtain d2 cs2 where "draft_append_all d1 chunks = Inr (d2, cs2)"
    "draft_generation d2 = draft_generation d1"
    "draft_tracks ((received @ c) @ concat chunks) d2 ((calls @ cs1) @ cs2)"
    using Cons.IH [OF one(3)] by blast
  then show ?case using one(1,2) by auto
qed auto

lemma draft_tracks_new: "draft_tracks [] (new_draft g) []"
  by (simp add: draft_tracks_def new_draft_def tracks_new)

text \<open>
  C26. However the model's answer is cut into chunks, appending the chunks to a new draft and
  committing it raises nothing, and what the reporter receives is: non-empty deltas of the
  draft's generation whose concatenation is the whole answer with its citation markers removed
  and its outer white space stripped, then one finish.
\<close>

theorem live_draft_shows_stripped_answer:
  "\<exists>d calls d' tail. draft_append_all (new_draft g) chunks = Inr (d, calls)
     \<and> draft_commit d = Inr (d', tail @ [DeltaFinish g]) \<and> draft_closed d'
     \<and> appended_text (calls @ tail) = strip (strip_citation_markers (concat chunks))
     \<and> list_all (\<lambda>c. c = DeltaAppend g (call_text c) \<and> call_text c \<noteq> []) (calls @ tail)"
proof -
  obtain d calls where run: "draft_append_all (new_draft g) chunks = Inr (d, calls)"
    "draft_generation d = g" "draft_tracks (concat chunks) d calls"
    using draft_tracks_append_all [OF draft_tracks_new, of g chunks]
    by (auto simp: new_draft_def)
  define tail where "tail = (if snd (filter_finish (draft_filter d)) \<noteq> []
    then [DeltaAppend g (snd (filter_finish (draft_filter d)))] else [])"
  have open_d: "\<not> draft_closed d" using run(3) by (simp add: draft_tracks_def)
  have "appended_text (calls @ tail) = strip (strip_citation_markers (concat chunks))"
    using tracks_finish(1) [of "concat chunks" "draft_filter d" "appended_text calls"] run(3)
    by (auto simp: draft_tracks_def tail_def)
  moreover have "list_all (\<lambda>c. c = DeltaAppend g (call_text c) \<and> call_text c \<noteq> []) (calls @ tail)"
    using run(2,3) by (simp add: draft_tracks_def tail_def)
  moreover have "\<exists>d'. draft_commit d = Inr (d', tail @ [DeltaFinish g]) \<and> draft_closed d'"
    using open_d run(2) by (cases "filter_finish (draft_filter d)") (simp add: draft_commit_def tail_def)
  ultimately show ?thesis using run(1) by blast
qed

end
