(* ===== verification/AnswerAssembly.thy ===== *)
theory AnswerAssembly
  imports EvidenceReview VisibleText
begin

text \<open>
  From the restored evidence to the final result: the numbered input evidence
  (\<^verbatim>\<open>answering/evidence_answer/evidence.py\<close>), the grounding check of the answer
  (\<^verbatim>\<open>validation.py\<close>), the generation loop with its live draft
  (\<^verbatim>\<open>service.py\<close> of both answer kinds) and the assembly of the result
  (\<^verbatim>\<open>answering/result_assembly.py\<close>).
\<close>

section \<open>Input evidence\<close>

record answer_input_evidence =
  input_source :: answer_source
  input_text :: pystr

definition internal_text :: "internal_evidence \<Rightarrow> pystr" where
  "internal_text e =
     (if ie_key_points e = [] then ie_claim e @ [10] @ ie_summary e
      else ie_claim e @ [10] @ ie_summary e @ [10] @ bullet_lines (ie_key_points e))"

definition external_text :: "external_evidence \<Rightarrow> pystr" where
  "external_text e =
     (case ee_content e of
        None \<Rightarrow> ee_claim e
      | Some c \<Rightarrow> if c = [] then ee_claim e else ee_claim e @ [10] @ c)"

definition make_input_evidence :: "answer_source \<Rightarrow> pystr \<Rightarrow> py_exc + answer_input_evidence" where
  "make_input_evidence source body =
     (if body = [] then Inl ValidationError
      else Inr \<lparr>input_source = source, input_text = body\<rparr>)"

definition normalize_internal_evidence ::
    "internal_evidence \<Rightarrow> pystr \<Rightarrow> py_exc + answer_input_evidence" where
  "normalize_internal_evidence e ref =
     (if ref = [] \<or> ie_assessment_id e \<le> 0 \<or> ie_title e = [] then Inl ValidationError
      else make_input_evidence
        (InternalArticleSource ref (ie_assessment_id e) (ie_title e) (ie_published_at e))
        (internal_text e))"

definition normalize_external_evidence ::
    "external_evidence \<Rightarrow> pystr \<Rightarrow> py_exc + answer_input_evidence" where
  "normalize_external_evidence e ref =
     (if ref = [] \<or> ee_title e = [] then Inl ValidationError
      else case non_blank_text (ee_claim e) of
        Inl x \<Rightarrow> Inl x
      | Inr claim \<Rightarrow>
          make_input_evidence
            (ExternalUrlSource ref (ee_url e) (ee_title e) claim (ee_published_at e) (ee_source_name e))
            (external_text e))"

fun number_evidence ::
    "('e \<Rightarrow> pystr \<Rightarrow> py_exc + answer_input_evidence) \<Rightarrow> nat \<Rightarrow> 'e list
       \<Rightarrow> py_exc + answer_input_evidence list" where
  "number_evidence project next_ref [] = Inr []"
| "number_evidence project next_ref (e # es) =
     (case project e (str_of_nat next_ref) of
        Inl x \<Rightarrow> Inl x
      | Inr i \<Rightarrow>
          (case number_evidence project (next_ref + 1) es of
             Inl x \<Rightarrow> Inl x
           | Inr rest \<Rightarrow> Inr (i # rest)))"

definition build_answer_input_evidence :: "answer_evidence \<Rightarrow> py_exc + answer_input_evidence list" where
  "build_answer_input_evidence e =
     (case number_evidence normalize_internal_evidence 1 (internal_evidence e) of
        Inl x \<Rightarrow> Inl x
      | Inr ints \<Rightarrow>
          (case number_evidence normalize_external_evidence (1 + length (internal_evidence e))
                  (external_evidence e) of
             Inl x \<Rightarrow> Inl x
           | Inr exts \<Rightarrow> Inr (ints @ exts)))"

section \<open>The grounding check\<close>

text \<open>\<^verbatim>\<open>EvidenceAnswerDraftInvalidError\<close>, or any other exception.\<close>

datatype answer_exc = DraftInvalid | AnswerRaised py_exc

record evidence_answer_draft =
  draft_answer :: pystr
  cited_refs :: "pystr list"

definition evidence_refs :: "answer_input_evidence list \<Rightarrow> pystr list" where
  "evidence_refs evidence = map (source_ref \<circ> input_source) evidence"

definition validate_draft_citations ::
    "answer_input_evidence list \<Rightarrow> evidence_answer_draft \<Rightarrow> bool" where
  "validate_draft_citations evidence draft =
     (filter (\<lambda>ref. ref \<notin> set (evidence_refs evidence)) (cited_refs draft) = [])"

definition finalize_evidence_answer_draft ::
    "pystr \<Rightarrow> answer_input_evidence list \<Rightarrow> answer_exc + evidence_answer_draft" where
  "finalize_evidence_answer_draft answer evidence =
     (if strip answer = [] then Inl DraftInvalid
      else
        let refs = parse_citation_refs answer in
        if evidence \<noteq> [] \<and> refs = [] then Inl DraftInvalid
        else case non_blank_text answer of
          Inl x \<Rightarrow> Inl (AnswerRaised x)
        | Inr a \<Rightarrow>
            (let draft = \<lparr>draft_answer = a, cited_refs = refs\<rparr> in
             if validate_draft_citations evidence draft then Inr draft else Inl DraftInvalid))"

definition finalize_direct_answer :: "pystr \<Rightarrow> answer_exc + pystr" where
  "finalize_direct_answer raw =
     (let answer = strip_citation_markers raw in
      if strip answer = [] then Inl DraftInvalid
      else case non_blank_text answer of Inl x \<Rightarrow> Inl (AnswerRaised x) | Inr a \<Rightarrow> Inr a)"

section \<open>Generating the answer\<close>

text \<open>
  How one provider stream goes: its fragments, and whether it completed, failed with a classified
  provider error (truncated output or another one), or ran into the time limit of the stage.
\<close>

datatype stream_end = StreamDone | StreamTruncated | StreamProviderFailed | StreamTimedOut

datatype attempt_failure = FailedTruncated | FailedProvider | FailedDraftInvalid | FailedTimeout
  | FailedRaised py_exc

text \<open>
  One attempt: the fragments go into a live draft of the attempt's generation; a completed stream
  is finalized and committed, everything else leaves the draft through its abort.
\<close>

definition generate_draft ::
    "(pystr \<Rightarrow> answer_exc + 'd) \<Rightarrow> int \<Rightarrow> pystr list \<Rightarrow> stream_end
       \<Rightarrow> (attempt_failure + 'd) \<times> delta_call list" where
  "generate_draft finalize attempt_number fragments outcome =
     (case draft_append_all (new_draft attempt_number) fragments of
        Inl x \<Rightarrow> (Inl (FailedRaised x), [])
      | Inr (live, calls) \<Rightarrow>
          (let aborted = (\<lambda>f. (Inl f, calls @ snd (draft_exit live))) in
           case outcome of
             StreamTruncated \<Rightarrow> aborted FailedTruncated
           | StreamProviderFailed \<Rightarrow> aborted FailedProvider
           | StreamTimedOut \<Rightarrow> aborted FailedTimeout
           | StreamDone \<Rightarrow>
               (case finalize (concat fragments) of
                  Inl DraftInvalid \<Rightarrow> aborted FailedDraftInvalid
                | Inl (AnswerRaised x) \<Rightarrow> aborted (FailedRaised x)
                | Inr draft \<Rightarrow>
                    (case draft_commit live of
                       Inl x \<Rightarrow> aborted (FailedRaised x)
                     | Inr (live', calls') \<Rightarrow> (Inr draft, calls @ calls')))))"

datatype 'd answer_outcome =
    AnswerReady nat 'd
  | AnswerFailed nat attempt_failure
  | AnswerStopped nat     \<comment> \<open>the regeneration was not authorized\<close>

definition ANSWER_MAX_ATTEMPTS :: nat where "ANSWER_MAX_ATTEMPTS = 2"

definition retriable_failure :: "attempt_failure \<Rightarrow> bool" where
  "retriable_failure f \<longleftrightarrow> f = FailedTruncated \<or> f = FailedDraftInvalid"

text \<open>
  The attempts. \<^term>\<open>authorized\<close> is what the repository answers to the request for a
  regeneration; \<^term>\<open>announce\<close> tells whether the live display is reset before it (the
  evidence answer does, the direct answer does not).
\<close>

fun answer_attempts ::
    "(pystr \<Rightarrow> answer_exc + 'd) \<Rightarrow> bool \<Rightarrow> bool \<Rightarrow> (nat \<Rightarrow> pystr list \<times> stream_end) \<Rightarrow> nat list
       \<Rightarrow> 'd answer_outcome \<times> delta_call list" where
  "answer_attempts finalize announce authorized stream [] = (AnswerStopped 0, [])"
| "answer_attempts finalize announce authorized stream (n # ns) =
     (case stream n of (fragments, outcome) \<Rightarrow>
        case generate_draft finalize (int n) fragments outcome of
          (Inr draft, calls) \<Rightarrow> (AnswerReady n draft, calls)
        | (Inl f, calls) \<Rightarrow>
            if retriable_failure f \<and> n < ANSWER_MAX_ATTEMPTS then
              (if \<not> authorized then (AnswerStopped n, calls)
               else
                 case answer_attempts finalize announce authorized stream ns of
                   (result, calls') \<Rightarrow>
                     (result, calls @ (if announce then [DeltaReset (int n + 1)] else []) @ calls'))
            else (AnswerFailed n f, calls))"

definition answer_with_evidence ::
    "answer_input_evidence list \<Rightarrow> bool \<Rightarrow> (nat \<Rightarrow> pystr list \<times> stream_end)
       \<Rightarrow> evidence_answer_draft answer_outcome \<times> delta_call list" where
  "answer_with_evidence evidence authorized stream =
     answer_attempts (\<lambda>a. finalize_evidence_answer_draft a evidence) True authorized stream
       [1..<ANSWER_MAX_ATTEMPTS + 1]"

definition answer_directly ::
    "bool \<Rightarrow> (nat \<Rightarrow> pystr list \<times> stream_end) \<Rightarrow> pystr answer_outcome \<times> delta_call list" where
  "answer_directly authorized stream =
     answer_attempts finalize_direct_answer False authorized stream [1..<ANSWER_MAX_ATTEMPTS + 1]"

section \<open>The result\<close>

text \<open>The two fixed messages of the assembly, as code points.\<close>

definition RETRIEVAL_EMPTY_MISSING :: pystr where
  "RETRIEVAL_EMPTY_MISSING = [22238, 31572, 12395, 20351, 12360, 12427, 26681, 25312, 12434, 21462,
     24471, 12391, 12365, 12414, 12379, 12435, 12391, 12375, 12383]"

definition INCOMPLETE_TASK_MISSING :: pystr where
  "INCOMPLETE_TASK_MISSING = [23436, 20102, 12391, 12365, 12394, 12363, 12387, 12383, 35519, 26619,
     12364, 12354, 12426, 12414, 12377]"

definition has_incomplete_task :: "collected_task list \<Rightarrow> 'c evidence_run \<Rightarrow> bool" where
  "has_incomplete_task tasks run =
     (case run of
        EvidenceRunFailed _ \<Rightarrow> True
      | EvidenceRunCompleted _ _ \<Rightarrow>
          list_ex (\<lambda>t. internal_hit_count (ct_report t) = 0 \<and> external_hit_count (ct_report t) = 0) tasks)"

definition missing_aspects :: "collected_task list \<Rightarrow> 'c evidence_run \<Rightarrow> bool \<Rightarrow> pystr list" where
  "missing_aspects tasks run include_retrieval_empty =
     ordered_unique
       ((if include_retrieval_empty then [RETRIEVAL_EMPTY_MISSING] else [])
        @ (if has_incomplete_task tasks run then [INCOMPLETE_TASK_MISSING] else [])
        @ (case run of EvidenceRunCompleted _ review_missing \<Rightarrow> review_missing
                     | EvidenceRunFailed _ \<Rightarrow> []))"

definition derive_evidence_status :: "answer_source list \<Rightarrow> pystr list \<Rightarrow> answer_status" where
  "derive_evidence_status sources missing =
     (if missing \<noteq> [] then Insufficient else if sources = [] then Insufficient else Answered)"

definition sources_for_citations ::
    "answer_input_evidence list \<Rightarrow> pystr list \<Rightarrow> answer_source list" where
  "sources_for_citations evidence refs =
     map input_source (filter (\<lambda>i. source_ref (input_source i) \<in> set refs) evidence)"

definition assemble_evidence_result ::
    "collected_task list \<Rightarrow> 'c evidence_run \<Rightarrow> answer_input_evidence list \<Rightarrow> evidence_answer_draft
       \<Rightarrow> answer_exc + question_result" where
  "assemble_evidence_result tasks run evidence draft =
     (if (case run of
            EvidenceRunCompleted e _ \<Rightarrow>
              \<not> evidence_task_indexes e \<subseteq> set (map ct_task_index tasks)
          | EvidenceRunFailed _ \<Rightarrow> False)
      then Inl (AnswerRaised ValueError)
      else if \<not> validate_draft_citations evidence draft then Inl DraftInvalid
      else
        let sources = sources_for_citations evidence (cited_refs draft);
            missing = missing_aspects tasks run (evidence = [])
        in case make_question_result (derive_evidence_status sources missing) (draft_answer draft)
                  sources missing Search of
             Inl x \<Rightarrow> Inl (AnswerRaised x)
           | Inr r \<Rightarrow> Inr r)"


text \<open>
  \<^verbatim>\<open>_answer_from_evidence\<close> of the runner: the input evidence of a run, none when the
  review failed.
\<close>

definition run_input_evidence :: "'c evidence_run \<Rightarrow> py_exc + answer_input_evidence list" where
  "run_input_evidence run =
     (case run of
        EvidenceRunCompleted e _ \<Rightarrow> build_answer_input_evidence e
      | EvidenceRunFailed _ \<Rightarrow> Inr [])"

definition run_review_missing :: "'c evidence_run \<Rightarrow> pystr list" where
  "run_review_missing run =
     (case run of EvidenceRunCompleted _ m \<Rightarrow> m | EvidenceRunFailed _ \<Rightarrow> [])"

section \<open>The input evidence\<close>

definition valid_evidence :: "answer_evidence \<Rightarrow> bool" where
  "valid_evidence e \<longleftrightarrow>
     (\<forall>x \<in> set (internal_evidence e). ie_assessment_id x > 0 \<and> ie_title x \<noteq> [] \<and> ie_claim x \<noteq> [])
     \<and> (\<forall>x \<in> set (external_evidence e). ee_title x \<noteq> [] \<and> ee_claim x \<noteq> [])"

lemma number_evidence_ok:
  assumes "\<forall>e \<in> set es. \<forall>ref. ref \<noteq> [] \<longrightarrow> (\<exists>i. project e ref = Inr i \<and> source_ref (input_source i) = ref)"
  shows "\<exists>items. number_evidence project n es = Inr items
    \<and> evidence_refs items = map str_of_nat [n..<n + length es]"
  using assms
proof (induction es arbitrary: n)
  case (Cons e es)
  obtain i where i: "project e (str_of_nat n) = Inr i" "source_ref (input_source i) = str_of_nat n"
    using Cons.prems by (metis list.set_intros(1) str_of_nat_not_Nil)
  obtain items where items: "number_evidence project (n + 1) es = Inr items"
    "evidence_refs items = map str_of_nat [n + 1..<n + 1 + length es]"
    using Cons.IH [of "n + 1"] Cons.prems by auto
  have "[n..<n + length (e # es)] = n # [n + 1..<n + 1 + length es]"
    by (simp add: upt_conv_Cons del: upt_Suc)
  then show ?case using i items by (simp add: evidence_refs_def del: upt_Suc)
qed (simp add: evidence_refs_def)

lemma number_evidence_fails:
  "e \<in> set es \<Longrightarrow> \<forall>ref. \<exists>x. project e ref = Inl x \<Longrightarrow> \<exists>x. number_evidence project n es = Inl x"
proof (induction es arbitrary: n)
  case (Cons a es)
  show ?case
  proof (cases "project a (str_of_nat n)")
    case (Inr i)
    then have "e \<in> set es" using Cons.prems by (metis Inl_Inr_False set_ConsD)
    then obtain x where "number_evidence project (n + 1) es = Inl x" using Cons by blast
    then show ?thesis using Inr by simp
  qed simp
qed simp

lemma normalize_internal_ok:
  "ie_assessment_id x > 0 \<Longrightarrow> ie_title x \<noteq> [] \<Longrightarrow> ref \<noteq> [] \<Longrightarrow>
   \<exists>i. normalize_internal_evidence x ref = Inr i \<and> source_ref (input_source i) = ref"
  by (auto simp: normalize_internal_evidence_def make_input_evidence_def internal_text_def)

lemma normalize_external_ok:
  "ee_title x \<noteq> [] \<Longrightarrow> ee_claim x \<noteq> [] \<Longrightarrow> constrained_strip (ee_claim x) \<noteq> [] \<Longrightarrow> ref \<noteq> [] \<Longrightarrow>
   \<exists>i. normalize_external_evidence x ref = Inr i \<and> source_ref (input_source i) = ref"
  by (auto simp: normalize_external_evidence_def make_input_evidence_def external_text_def
      non_blank_text_def split: option.splits)

lemma normalize_external_fails:
  "constrained_strip (ee_claim x) = [] \<Longrightarrow> \<exists>e. normalize_external_evidence x ref = Inl e"
  by (simp add: normalize_external_evidence_def non_blank_text_def)

lemma build_input_evidence_result:
  assumes "valid_evidence e"
  shows "\<forall>x \<in> set (external_evidence e). constrained_strip (ee_claim x) \<noteq> [] \<Longrightarrow>
      \<exists>items. build_answer_input_evidence e = Inr items
        \<and> evidence_refs items = map str_of_nat [1..<1 + evidence_count e]"
    and "x \<in> set (external_evidence e) \<Longrightarrow> constrained_strip (ee_claim x) = [] \<Longrightarrow>
      \<exists>err. build_answer_input_evidence e = Inl err"
proof -
  let ?m = "length (internal_evidence e)" and ?n = "length (external_evidence e)"
  obtain ints where ints: "number_evidence normalize_internal_evidence 1 (internal_evidence e) = Inr ints"
    "evidence_refs ints = map str_of_nat [1..<1 + ?m]"
    using number_evidence_ok [of "internal_evidence e" normalize_internal_evidence 1]
      normalize_internal_ok assms by (auto simp: valid_evidence_def)
  show "\<forall>x \<in> set (external_evidence e). constrained_strip (ee_claim x) \<noteq> [] \<Longrightarrow>
      \<exists>items. build_answer_input_evidence e = Inr items
        \<and> evidence_refs items = map str_of_nat [1..<1 + evidence_count e]"
  proof -
    assume "\<forall>x \<in> set (external_evidence e). constrained_strip (ee_claim x) \<noteq> []"
    then obtain exts where
      exts: "number_evidence normalize_external_evidence (1 + ?m) (external_evidence e) = Inr exts"
      "evidence_refs exts = map str_of_nat [1 + ?m..<1 + ?m + ?n]"
      using number_evidence_ok [of "external_evidence e" normalize_external_evidence "1 + ?m"]
        normalize_external_ok assms by (auto simp: valid_evidence_def)
    have "[1..<1 + evidence_count e] = [1..<1 + ?m] @ [1 + ?m..<1 + ?m + ?n]"
      unfolding evidence_count_def by (metis add.assoc le_add1 upt_add_eq_append)
    then show ?thesis
      using ints exts by (simp add: build_answer_input_evidence_def evidence_refs_def del: upt_Suc)
  qed
  show "x \<in> set (external_evidence e) \<Longrightarrow> constrained_strip (ee_claim x) = [] \<Longrightarrow>
      \<exists>err. build_answer_input_evidence e = Inl err"
    using number_evidence_fails [of x "external_evidence e" normalize_external_evidence "1 + ?m"]
      normalize_external_fails [of x] ints(1)
    by (auto simp: build_answer_input_evidence_def)
qed

text \<open>
  C32. The evidence handed to the answerer is numbered 1, 2, 3, ... through the internal and then
  the external items, without repetition, unless an external item carries a claim of white space
  only, which the reviewer contract accepts: then building it raises.
\<close>

theorem input_evidence_numbered:
  assumes "valid_evidence e"
  shows "(case build_answer_input_evidence e of
      Inr items \<Rightarrow> evidence_refs items = map str_of_nat [1..<1 + evidence_count e]
          \<and> distinct (evidence_refs items)
          \<and> (\<forall>x \<in> set (external_evidence e). constrained_strip (ee_claim x) \<noteq> [])
    | Inl err \<Rightarrow> \<exists>x \<in> set (external_evidence e). constrained_strip (ee_claim x) = [])"
proof (cases "\<forall>x \<in> set (external_evidence e). constrained_strip (ee_claim x) \<noteq> []")
  case True
  then obtain items where items: "build_answer_input_evidence e = Inr items"
    "evidence_refs items = map str_of_nat [1..<1 + evidence_count e]"
    using build_input_evidence_result(1) [OF assms] by blast
  have "distinct (map str_of_nat [1..<1 + evidence_count e])"
    by (simp add: distinct_map inj_on_def del: upt_Suc)
  then show ?thesis using items True by simp
next
  case False
  then show ?thesis using build_input_evidence_result(2) [OF assms] by fastforce
qed

definition sample_evidence :: answer_evidence where
  "sample_evidence = \<lparr>internal_evidence =
      [\<lparr>ie_option_index = 0, ie_task_index = 0, ie_claim = [97], ie_why = [98], ie_assessment_id = 7,
        ie_curation_id = 70, ie_title = [66], ie_summary = [67], ie_key_points = [],
        ie_published_at = None\<rparr>],
    external_evidence =
      [\<lparr>ee_option_index = 1, ee_task_index = 0, ee_claim = [99], ee_why = [98], ee_url = [68],
        ee_title = [69], ee_content = None, ee_published_at = None, ee_source_name = None\<rparr>]\<rparr>"

lemma sample_evidence_valid: "valid_evidence sample_evidence"
  by (simp add: sample_evidence_def valid_evidence_def)

lemma sample_evidence_built:
  "build_answer_input_evidence sample_evidence =
     Inr [\<lparr>input_source = InternalArticleSource [49] 7 [66] None, input_text = [97, 10, 67]\<rparr>,
          \<lparr>input_source = ExternalUrlSource [50] [68] [69] [99] None None, input_text = [99]\<rparr>]"
  by (simp add: sample_evidence_def build_answer_input_evidence_def normalize_internal_evidence_def
      normalize_external_evidence_def make_input_evidence_def internal_text_def external_text_def
      str_of_nat.simps non_blank_text_def constrained_strip_def is_white_space_def is_space_def)

lemma input_evidence_numbered_witness:
  "evidence_count sample_evidence = 2 \<and>
   (\<exists>items. build_answer_input_evidence sample_evidence = Inr items \<and> distinct (evidence_refs items))"
  using input_evidence_numbered [OF sample_evidence_valid] sample_evidence_built
  by (simp add: evidence_count_def sample_evidence_def)

section \<open>Grounding\<close>

lemma finalize_grounded:
  assumes "finalize_evidence_answer_draft answer evidence = Inr draft"
  shows "draft_answer draft = constrained_strip answer" "cited_refs draft = parse_citation_refs answer"
    and "constrained_strip answer \<noteq> []" "set (cited_refs draft) \<subseteq> set (evidence_refs evidence)"
    and "evidence \<noteq> [] \<Longrightarrow> cited_refs draft \<noteq> []"
proof -
  have ne: "strip answer \<noteq> []" and refs: "\<not> (evidence \<noteq> [] \<and> parse_citation_refs answer = [])"
    using assms by (auto simp: finalize_evidence_answer_draft_def Let_def split: if_splits)
  have nb: "non_blank_text answer = Inr (constrained_strip answer)"
    using constrained_strip_not_Nil [OF ne] by (simp add: non_blank_text_def)
  then have d: "draft = \<lparr>draft_answer = constrained_strip answer, cited_refs = parse_citation_refs answer\<rparr>"
    and v: "validate_draft_citations evidence draft"
    using assms ne refs by (auto simp: finalize_evidence_answer_draft_def Let_def split: if_splits)
  show "draft_answer draft = constrained_strip answer" "cited_refs draft = parse_citation_refs answer"
    "constrained_strip answer \<noteq> []"
    using d constrained_strip_not_Nil [OF ne] by auto
  show "set (cited_refs draft) \<subseteq> set (evidence_refs evidence)"
    using v by (auto simp: validate_draft_citations_def filter_empty_conv)
  show "evidence \<noteq> [] \<Longrightarrow> cited_refs draft \<noteq> []" using refs d by auto
qed

lemma finalize_only_draft_errors:
  "finalize_evidence_answer_draft answer evidence \<noteq> Inl (AnswerRaised x)"
  using constrained_strip_not_Nil [of answer]
  by (auto simp: finalize_evidence_answer_draft_def Let_def non_blank_text_def)

text \<open>
  Finalizing an evidence answer succeeds exactly for a non-blank answer all of whose citation
  markers name evidence that was handed over, with at least one marker when there is any
  evidence; the draft then carries the stripped answer and the refs of the answer's own markers
  in order of first occurrence. It raises nothing else than the invalid-draft error.
\<close>

theorem finalize_grounding:
  "(\<exists>draft. finalize_evidence_answer_draft answer evidence = Inr draft
       \<and> draft_answer draft = constrained_strip answer
       \<and> cited_refs draft = rev (remdups (rev (marker_refs answer))))
     \<longleftrightarrow> strip answer \<noteq> [] \<and> set (marker_refs answer) \<subseteq> set (evidence_refs evidence)
         \<and> (evidence = [] \<or> has_marker answer)"
  (is "?lhs \<longleftrightarrow> ?rhs")
proof
  assume ?lhs
  then obtain draft where d: "finalize_evidence_answer_draft answer evidence = Inr draft" by blast
  have "strip answer \<noteq> []"
    using d by (auto simp: finalize_evidence_answer_draft_def split: if_splits)
  moreover have "parse_citation_refs answer = [] \<longleftrightarrow> \<not> has_marker answer"
    by (metis marker_refs_empty_iff set_empty set_parse_citation_refs)
  ultimately show ?rhs using finalize_grounded [OF d] by auto
next
  assume r: ?rhs
  have "parse_citation_refs answer = [] \<longleftrightarrow> \<not> has_marker answer"
    by (metis marker_refs_empty_iff set_empty set_parse_citation_refs)
  then show ?lhs
    using r constrained_strip_not_Nil [of answer]
    by (auto simp: finalize_evidence_answer_draft_def Let_def non_blank_text_def
        validate_draft_citations_def filter_empty_conv parse_citation_refs_def ordered_unique_remdups)
qed


section \<open>Assembly\<close>

lemma fixed_messages_not_blank:
  "constrained_strip RETRIEVAL_EMPTY_MISSING \<noteq> []" "constrained_strip INCOMPLETE_TASK_MISSING \<noteq> []"
  by (auto simp: constrained_strip_Nil_iff RETRIEVAL_EMPTY_MISSING_def INCOMPLETE_TASK_MISSING_def
      is_white_space_def is_space_def)

lemma set_missing_aspects:
  "set (missing_aspects tasks run b) =
     (if b then {RETRIEVAL_EMPTY_MISSING} else {}) \<union>
     (if has_incomplete_task tasks run then {INCOMPLETE_TASK_MISSING} else {}) \<union>
     set (run_review_missing run)"
  by (auto simp: missing_aspects_def run_review_missing_def split: evidence_run.splits)

lemma non_blank_texts_fails:
  "m \<in> set ms \<Longrightarrow> constrained_strip m = [] \<Longrightarrow> non_blank_texts ms = Inl ValidationError"
proof (induction ms)
  case (Cons a ms)
  show ?case
  proof (cases "constrained_strip a = []")
    case False
    then have "m \<in> set ms" using Cons.prems by auto
    then show ?thesis using Cons False by (simp add: non_blank_text_def)
  qed (simp add: non_blank_text_def)
qed simp

definition tasks_cover_run :: "collected_task list \<Rightarrow> 'c evidence_run \<Rightarrow> bool" where
  "tasks_cover_run tasks run \<longleftrightarrow>
     (case run of
        EvidenceRunCompleted e _ \<Rightarrow> evidence_task_indexes e \<subseteq> set (map ct_task_index tasks)
      | EvidenceRunFailed _ \<Rightarrow> True)"

definition blank_missing :: "'c evidence_run \<Rightarrow> bool" where
  "blank_missing run \<longleftrightarrow> (\<exists>m \<in> set (run_review_missing run). constrained_strip m = [])"

lemma assemble_unfold:
  assumes cover: "tasks_cover_run tasks run"
    and fin: "finalize_evidence_answer_draft answer evidence = Inr draft"
  shows "assemble_evidence_result tasks run evidence draft =
    (let sources = sources_for_citations evidence (cited_refs draft);
         missing = missing_aspects tasks run (evidence = [])
     in if blank_missing run then Inl (AnswerRaised ValidationError)
        else Inr \<lparr>result_status = derive_evidence_status sources missing,
                  result_answer = constrained_strip answer, result_sources = sources,
                  result_missing_aspects = map constrained_strip missing, result_plan_type = Search\<rparr>)"
proof -
  note g = finalize_grounded [OF fin]
  let ?sources = "sources_for_citations evidence (cited_refs draft)"
  let ?missing = "missing_aspects tasks run (evidence = [])"
  have v: "validate_draft_citations evidence draft"
    using g(4) by (auto simp: validate_draft_citations_def filter_empty_conv)
  have nb: "non_blank_text (draft_answer draft) = Inr (constrained_strip answer)"
    using g(1,3) by (simp add: non_blank_text_def constrained_strip_idem)
  have first: "assemble_evidence_result tasks run evidence draft =
      (case make_question_result (derive_evidence_status ?sources ?missing) (draft_answer draft)
              ?sources ?missing Search of
         Inl x \<Rightarrow> Inl (AnswerRaised x) | Inr r \<Rightarrow> Inr r)"
    using cover v
    by (cases run) (simp_all add: assemble_evidence_result_def tasks_cover_run_def Let_def)
  show ?thesis
  proof (cases "blank_missing run")
    case True
    then obtain m where "m \<in> set ?missing" "constrained_strip m = []"
      by (auto simp: blank_missing_def set_missing_aspects)
    then have "non_blank_texts ?missing = Inl ValidationError" by (rule non_blank_texts_fails)
    then show ?thesis using True first nb by (simp add: make_question_result_def)
  next
    case False
    have "\<forall>m \<in> set ?missing. constrained_strip m \<noteq> []"
      using False fixed_messages_not_blank
      by (auto simp: set_missing_aspects blank_missing_def split: if_splits)
    then have ms: "non_blank_texts ?missing = Inr (map constrained_strip ?missing)"
      by (rule non_blank_texts_ok)
    have "evidence = [] \<Longrightarrow> ?missing \<noteq> []"
      using set_missing_aspects [of tasks run True] by auto
    moreover have "?sources \<noteq> []" if ev: "evidence \<noteq> []"
    proof -
      obtain ref where ref: "ref \<in> set (cited_refs draft)" using g(5) [OF ev] by (cases "cited_refs draft") auto
      then have "ref \<in> set (evidence_refs evidence)" using g(4) by blast
      then show ?thesis using ref by (auto simp: sources_for_citations_def evidence_refs_def filter_empty_conv)
    qed
    ultimately have "?missing = [] \<Longrightarrow> ?sources \<noteq> []" by blast
    then have ok: "derive_evidence_status ?sources ?missing = Answered \<and> ?sources \<noteq> [] \<and> ?missing = []
        \<or> derive_evidence_status ?sources ?missing = Insufficient \<and> ?missing \<noteq> []"
      by (simp add: derive_evidence_status_def)
    have "make_question_result (derive_evidence_status ?sources ?missing) (draft_answer draft)
        ?sources ?missing Search =
      Inr \<lparr>result_status = derive_evidence_status ?sources ?missing,
           result_answer = constrained_strip answer, result_sources = ?sources,
           result_missing_aspects = map constrained_strip ?missing, result_plan_type = Search\<rparr>"
      using ok by (elim disjE conjE) (simp_all add: make_question_result_def nb ms)
    then show ?thesis using False first by (simp add: Let_def)
  qed
qed

text \<open>
  C31. From a finalized answer the assembly never reports an invalid draft; it raises exactly when
  the reviewer reported a missing item of white space only. Otherwise its result cites exactly
  its sources: the integrity report over the stored answer finds no marker without a source and
  no source without a marker. The result counts as answered exactly when there was evidence,
  every task of a completed review had hits, and the reviewer reported nothing missing.
\<close>

theorem assembled_result_consistent:
  assumes "tasks_cover_run tasks run" "run_input_evidence run = Inr evidence"
    and "finalize_evidence_answer_draft answer evidence = Inr draft"
  shows "(case assemble_evidence_result tasks run evidence draft of
      Inl x \<Rightarrow> x = AnswerRaised ValidationError \<and> blank_missing run
    | Inr r \<Rightarrow> \<not> blank_missing run
        \<and> \<not> has_mismatch (assess_citation_integrity (result_answer r)
               (map source_ref (result_sources r)))
        \<and> set (result_sources r) \<subseteq> set (map input_source evidence)
        \<and> (result_status r = Answered \<longleftrightarrow> result_missing_aspects r = [])
        \<and> (result_status r = Answered \<longleftrightarrow>
             evidence \<noteq> [] \<and> \<not> has_incomplete_task tasks run \<and> run_review_missing run = []))"
proof -
  let ?sources = "sources_for_citations evidence (cited_refs draft)"
  let ?missing = "missing_aspects tasks run (evidence = [])"
  note g = finalize_grounded [OF assms(3)]
  have "set (map source_ref ?sources) = set (cited_refs draft)"
    using g(4) by (auto simp: sources_for_citations_def evidence_refs_def)
  moreover have "set (parse_citation_refs (constrained_strip answer)) = set (cited_refs draft)"
    using g(2) by (simp add: marker_refs_constrained_strip)
  ultimately have integrity: "\<not> has_mismatch (assess_citation_integrity (constrained_strip answer)
      (map source_ref ?sources))"
    by (simp add: no_mismatch_iff)
  have miss: "?missing = [] \<longleftrightarrow>
      evidence \<noteq> [] \<and> \<not> has_incomplete_task tasks run \<and> run_review_missing run = []"
    using set_missing_aspects [of tasks run "evidence = []"]
    by (cases "?missing") (auto split: if_splits)
  have "?sources \<noteq> []" if "?missing = []"
  proof -
    have "evidence \<noteq> []" using that miss by simp
    then have "cited_refs draft \<noteq> []" by (rule g(5))
    then show ?thesis using \<open>set (map source_ref ?sources) = set (cited_refs draft)\<close> by auto
  qed
  then have status: "derive_evidence_status ?sources ?missing = Answered \<longleftrightarrow> ?missing = []"
    by (auto simp: derive_evidence_status_def)
  have sub: "set ?sources \<subseteq> set (map input_source evidence)"
    by (auto simp: sources_for_citations_def)
  show ?thesis
    using assemble_unfold [OF assms(1,3)] integrity sub status miss
    by (simp add: Let_def)
qed

definition sample_run :: "nat evidence_run" where
  "sample_run = EvidenceRunCompleted sample_evidence []"

lemma assembled_result_consistent_witness:
  "\<exists>evidence draft r. run_input_evidence sample_run = Inr evidence \<and> evidence \<noteq> []
     \<and> finalize_evidence_answer_draft [65, 91, 91, 50, 93, 93] evidence = Inr draft
     \<and> assemble_evidence_result sample_tasks sample_run evidence draft = Inr r
     \<and> \<not> has_mismatch (assess_citation_integrity (result_answer r) (map source_ref (result_sources r)))"
proof -
  let ?ev = "[\<lparr>input_source = InternalArticleSource [49] 7 [66] None, input_text = [97, 10, 67]\<rparr>,
          \<lparr>input_source = ExternalUrlSource [50] [68] [69] [99] None None, input_text = [99]\<rparr>]"
  let ?d = "\<lparr>draft_answer = [65, 91, 91, 50, 93, 93], cited_refs = [[50]]\<rparr>"
  have ev: "run_input_evidence sample_run = Inr ?ev"
    by (simp add: run_input_evidence_def sample_run_def sample_evidence_built)
  have fin: "finalize_evidence_answer_draft [65, 91, 91, 50, 93, 93] ?ev = Inr ?d"
    by (simp add: finalize_evidence_answer_draft_def strip_def lstrip_def rstrip_def is_space_def
        parse_citation_refs_def marker_refs.simps match_refs.simps is_ascii_digit_def
        ordered_unique_remdups non_blank_text_def constrained_strip_def is_white_space_def
        validate_draft_citations_def evidence_refs_def)
  have cover: "tasks_cover_run sample_tasks sample_run"
    by (simp add: tasks_cover_run_def sample_run_def sample_evidence_def sample_tasks_def
        evidence_task_indexes_def)
  have "\<not> blank_missing sample_run"
    by (simp add: blank_missing_def run_review_missing_def sample_run_def)
  with assembled_result_consistent [OF cover ev fin] show ?thesis
    using ev fin by (cases "assemble_evidence_result sample_tasks sample_run ?ev ?d") auto
qed


section \<open>The live draft of a generation\<close>

lemma draft_append_all_tracks:
  "\<exists>d calls. draft_append_all (new_draft g) chunks = Inr (d, calls) \<and> draft_generation d = g
     \<and> draft_tracks (concat chunks) d calls"
  using draft_tracks_append_all [OF draft_tracks_new, of g chunks] by (auto simp: new_draft_def)

lemma draft_commit_result:
  assumes "draft_tracks received d calls"
  shows "\<exists>d' tail. draft_commit d = Inr (d', tail @ [DeltaFinish (draft_generation d)])
    \<and> appended_text (calls @ tail) = strip (strip_citation_markers received)
    \<and> list_all (\<lambda>c. c = DeltaAppend (draft_generation d) (call_text c) \<and> call_text c \<noteq> []) (calls @ tail)"
proof -
  define tail where "tail = (if snd (filter_finish (draft_filter d)) \<noteq> []
    then [DeltaAppend (draft_generation d) (snd (filter_finish (draft_filter d)))] else [])"
  have "appended_text (calls @ tail) = strip (strip_citation_markers received)"
    using tracks_finish(1) [of received "draft_filter d" "appended_text calls"] assms
    by (auto simp: draft_tracks_def tail_def)
  moreover have "list_all (\<lambda>c. c = DeltaAppend (draft_generation d) (call_text c) \<and> call_text c \<noteq> []) (calls @ tail)"
    using assms by (simp add: draft_tracks_def tail_def)
  moreover have "\<exists>d'. draft_commit d = Inr (d', tail @ [DeltaFinish (draft_generation d)])"
    using assms by (cases "filter_finish (draft_filter d)")
      (simp add: draft_tracks_def draft_commit_def tail_def)
  ultimately show ?thesis by blast
qed

definition of_generation :: "int \<Rightarrow> delta_call list \<Rightarrow> bool" where
  "of_generation g calls \<longleftrightarrow> list_all (\<lambda>c. c = DeltaAppend g (call_text c) \<and> call_text c \<noteq> []) calls"

text \<open>One attempt ends in a commit with the whole visible text, or in an abort.\<close>

lemma generate_draft_calls:
  assumes "generate_draft finalize g fragments outcome = (res, calls)"
  shows "(case res of
      Inr draft \<Rightarrow> finalize (concat fragments) = Inr draft \<and> outcome = StreamDone
        \<and> (\<exists>shown. calls = shown @ [DeltaFinish g] \<and> of_generation g shown
              \<and> appended_text shown = strip (strip_citation_markers (concat fragments)))
    | Inl f \<Rightarrow> (\<exists>shown. calls = shown @ [DeltaAbort g] \<and> of_generation g shown)
        \<and> (f = FailedTruncated \<longrightarrow> outcome = StreamTruncated)
        \<and> (f = FailedDraftInvalid \<longrightarrow> outcome = StreamDone \<and> finalize (concat fragments) = Inl DraftInvalid)
        \<and> (\<forall>x. f = FailedRaised x \<longrightarrow> finalize (concat fragments) = Inl (AnswerRaised x)))"
proof -
  obtain d cs where d: "draft_append_all (new_draft g) fragments = Inr (d, cs)" "draft_generation d = g"
    "draft_tracks (concat fragments) d cs" using draft_append_all_tracks by blast
  have gen: "of_generation g cs" using d(2,3) by (simp add: of_generation_def draft_tracks_def)
  have "snd (draft_exit d) = [DeltaAbort g]"
    using d(2,3) by (simp add: draft_exit_def draft_abort_def draft_tracks_def)
  then have aborted: "cs @ snd (draft_exit d) = cs @ [DeltaAbort g]" by simp
  obtain d' tail where commit: "draft_commit d = Inr (d', tail @ [DeltaFinish g])"
    "appended_text (cs @ tail) = strip (strip_citation_markers (concat fragments))"
    "of_generation g (cs @ tail)"
    using draft_commit_result [OF d(3)] d(2) by (auto simp: of_generation_def)
  show ?thesis
  proof (cases outcome)
    case StreamDone
    show ?thesis
    proof (cases "finalize (concat fragments)")
      case (Inl x)
      then show ?thesis
        using assms d(1) gen aborted StreamDone
        by (cases x) (auto simp: generate_draft_def Let_def)
    next
      case (Inr draft)
      then have "res = Inr draft" "calls = (cs @ tail) @ [DeltaFinish g]"
        using assms d(1) commit(1) StreamDone by (auto simp: generate_draft_def Let_def)
      then show ?thesis
        using commit(2,3) StreamDone Inr by (simp del: append_assoc)
    qed
  qed (use assms d(1) gen aborted in \<open>auto simp: generate_draft_def Let_def\<close>)
qed

lemma ready_answer_calls:
  assumes "answer_with_evidence evidence authorized stream = (AnswerReady n draft, calls)"
  shows "snd (stream n) = StreamDone
    \<and> finalize_evidence_answer_draft (concat (fst (stream n))) evidence = Inr draft
    \<and> (\<exists>before shown. calls = before @ shown @ [DeltaFinish (int n)] \<and> of_generation (int n) shown
         \<and> appended_text shown = strip (strip_citation_markers (concat (fst (stream n))))
         \<and> (n = 1 \<and> before = [] \<or> n = 2 \<and> authorized
             \<and> (\<exists>lost. of_generation 1 lost \<and> before = lost @ [DeltaAbort 1, DeltaReset 2])))"
proof -
  let ?fin = "\<lambda>a. finalize_evidence_answer_draft a evidence"
  obtain f1 o1 f2 o2 where st: "stream 1 = (f1, o1)" "stream 2 = (f2, o2)" by fastforce
  obtain r1 c1 where g1: "generate_draft ?fin 1 f1 o1 = (r1, c1)" by fastforce
  obtain r2 c2 where g2: "generate_draft ?fin 2 f2 o2 = (r2, c2)" by fastforce
  have attempts: "answer_attempts ?fin True authorized stream [1, 2] = (AnswerReady n draft, calls)"
  proof -
    have "[1..<ANSWER_MAX_ATTEMPTS + 1] = [1, 2 :: nat]"
      by (simp add: ANSWER_MAX_ATTEMPTS_def upt_rec)
    then show ?thesis using assms by (simp only: answer_with_evidence_def)
  qed
  show ?thesis
  proof (cases r1)
    case (Inr d1)
    then have "n = 1" "draft = d1" "calls = c1"
      using attempts st g1 by auto
    then show ?thesis using generate_draft_calls [OF g1] st Inr by auto
  next
    case (Inl f)
    then have rest: "r2 = Inr draft" "n = 2" "authorized" "calls = c1 @ [DeltaReset 2] @ c2"
      using attempts st g1 g2
      by (auto simp: ANSWER_MAX_ATTEMPTS_def split: if_splits sum.splits prod.splits)
    obtain lost where "c1 = lost @ [DeltaAbort 1]" "of_generation 1 lost"
      using generate_draft_calls [OF g1] Inl by auto
    moreover obtain live where "c2 = live @ [DeltaFinish 2]" "of_generation 2 live"
      "appended_text live = strip (strip_citation_markers (concat f2))"
      "?fin (concat f2) = Inr draft" "o2 = StreamDone"
      using generate_draft_calls [OF g2] rest(1) by auto
    ultimately have "calls = (lost @ [DeltaAbort 1, DeltaReset 2]) @ live @ [DeltaFinish (int n)]"
      "of_generation (int n) live" "of_generation 1 lost"
      "appended_text live = strip (strip_citation_markers (concat (fst (stream n))))"
      "snd (stream n) = StreamDone" "?fin (concat (fst (stream n))) = Inr draft"
      using rest st by simp_all
    then show ?thesis using rest(2,3) by blast
  qed
qed

text \<open>
  When an evidence answer is ready after attempt n, it finalizes exactly the text streamed by
  that attempt, and what the live display received ends with a complete generation n: its deltas
  concatenate to that text without citation markers and outer white space, followed by its
  finish; if n is not the first attempt, all that came before is one aborted generation and the
  reset to generation n.
\<close>

theorem ready_answer_matches_live_display:
  assumes "answer_with_evidence evidence authorized stream = (AnswerReady n draft, calls)"
  shows "snd (stream n) = StreamDone
    \<and> finalize_evidence_answer_draft (concat (fst (stream n))) evidence = Inr draft
    \<and> (\<exists>before shown. calls = before @ shown @ [DeltaFinish (int n)] \<and> of_generation (int n) shown
         \<and> appended_text shown = strip (strip_citation_markers (concat (fst (stream n))))
         \<and> (n = 1 \<and> before = [] \<or> n = 2 \<and> authorized
             \<and> (\<exists>lost. of_generation 1 lost \<and> before = lost @ [DeltaAbort 1, DeltaReset 2])))"
  using assms by (rule ready_answer_calls)

lemma ready_answer_matches_live_display_witness:
  "\<exists>draft calls. answer_with_evidence [] True (\<lambda>n. ([[65, 66]], if n = 1 then StreamTruncated else StreamDone))
     = (AnswerReady 2 draft, calls) \<and> draft_answer draft = [65, 66] \<and> calls \<noteq> []"
proof -
  let ?s = "\<lambda>n :: nat. ([[65, 66]], if n = 1 then StreamTruncated else StreamDone)"
  have run: "answer_with_evidence [] True ?s = (AnswerReady 2 \<lparr>draft_answer = [65, 66], cited_refs = []\<rparr>,
     [DeltaAppend 1 [65, 66], DeltaAbort 1, DeltaReset 2, DeltaAppend 2 [65, 66], DeltaFinish 2])"
    by (simp add: answer_with_evidence_def ANSWER_MAX_ATTEMPTS_def upt_rec generate_draft_def
        draft_append_def new_draft_def new_filter_def filter_append_def append_loop.simps
        append_step_def is_space_def draft_exit_def draft_abort_def draft_commit_def filter_finish_def
        retriable_failure_def finalize_evidence_answer_draft_def strip_def lstrip_def rstrip_def
        parse_citation_refs_def marker_refs.simps non_blank_text_def constrained_strip_def
        is_white_space_def validate_draft_citations_def)
  show ?thesis using run ready_answer_matches_live_display [OF run] by auto
qed

end
