(* ===== verification/DailyQuota.thy ===== *)
theory DailyQuota
  imports VectorPrelude
begin

text \<open>
  The daily quota of a user (\<^verbatim>\<open>agent/running/daily_quota/\<close>,
  \<^verbatim>\<open>models/agent_user_daily_quota.py\<close>): one counter per user and JST date, its
  reservation statement, the release of one reservation and the batch release of a sweep.
\<close>

definition DAILY_REQUEST_LIMIT :: int where "DAILY_REQUEST_LIMIT = 10"

text \<open>The table: its primary key is the pair of user and date (a day number).\<close>

type_synonym quota_table = "((uuid \<times> int) \<times> int) list"

text \<open>\<^verbatim>\<open>ck_agent_user_daily_quotas_used_count_range\<close>\<close>

definition quota_constraint :: "int \<Rightarrow> bool" where
  "quota_constraint used_count \<longleftrightarrow> 0 \<le> used_count \<and> used_count \<le> 10"

text \<open>The date at \<^verbatim>\<open>Asia/Tokyo\<close>: UTC+9 without daylight saving time.\<close>

definition jst_date :: "time \<Rightarrow> int" where
  "jst_date t = (t + seconds (9 * 3600)) div seconds 86400"

section \<open>Reservation\<close>

datatype quota_rejection = DailyRequestLimitExceeded (rejected_date: int)

record quota_reservation =
  reserved_date :: int
  reserved_used_count :: int

text \<open>
  The statement inserts the counter 1, or increments an existing counter below the limit; no
  returned counter means that the limit is reached. The constraint of the table and the check of
  \<^verbatim>\<open>DailyQuotaReservation\<close> follow.
\<close>

definition reserve_daily_quota ::
    "quota_table \<Rightarrow> uuid \<Rightarrow> time \<Rightarrow> (py_exc + quota_rejection) + (quota_table \<times> quota_reservation)" where
  "reserve_daily_quota tbl user observed_at =
     (let d = jst_date observed_at;
          stored = (\<lambda>n. if \<not> quota_constraint n then Inl (Inl IntegrityError)
                        else if n < 1 then Inl (Inl ValueError)
                        else Inr (AList.update (user, d) n tbl,
                                  \<lparr>reserved_date = d, reserved_used_count = n\<rparr>))
      in case map_of tbl (user, d) of
           None \<Rightarrow> stored 1
         | Some c \<Rightarrow>
             if c < DAILY_REQUEST_LIMIT then stored (c + 1)
             else Inl (Inr (DailyRequestLimitExceeded d)))"

section \<open>Release\<close>

datatype release_outcome = Released | Not_eligible | Inconsistent

definition release_daily_quota ::
    "quota_table \<Rightarrow> uuid \<Rightarrow> int option \<Rightarrow> quota_table \<times> release_outcome" where
  "release_daily_quota tbl user usage_date =
     (case usage_date of
        None \<Rightarrow> (tbl, Not_eligible)
      | Some d \<Rightarrow>
          (case map_of tbl (user, d) of
             None \<Rightarrow> (tbl, Inconsistent)
           | Some c \<Rightarrow>
               if c > 0 then (AList.update (user, d) (c - 1) tbl, Released)
               else (tbl, Inconsistent)))"

record batch_release =
  released_count :: int
  not_eligible_count :: int
  inconsistent_count :: int

text \<open>The grouping loop: the dict of the groups and the number of reservations without a date.\<close>

definition group_reservation ::
    "((uuid \<times> int) \<times> int) list \<times> int \<Rightarrow> uuid \<times> int option \<Rightarrow> ((uuid \<times> int) \<times> int) list \<times> int" where
  "group_reservation st r =
     (case st of (groups, not_eligible) \<Rightarrow>
        case r of
          (u, None) \<Rightarrow> (groups, not_eligible + 1)
        | (u, Some d) \<Rightarrow>
            (AList.update (u, d) (case map_of groups (u, d) of None \<Rightarrow> 1 | Some n \<Rightarrow> n + 1) groups,
             not_eligible))"

text \<open>The update of all groups in one statement: a group is released as a whole or not at all.\<close>

definition release_group ::
    "quota_table \<Rightarrow> quota_table \<times> (uuid \<times> int) list \<Rightarrow> (uuid \<times> int) \<times> int
       \<Rightarrow> quota_table \<times> (uuid \<times> int) list" where
  "release_group tbl st grp =
     (case st of (t, released) \<Rightarrow>
        case grp of (g, n) \<Rightarrow>
          case map_of tbl g of
            None \<Rightarrow> (t, released)
          | Some c \<Rightarrow> if c \<ge> n then (AList.update g (c - n) t, released @ [g]) else (t, released))"

definition release_groups ::
    "quota_table \<Rightarrow> ((uuid \<times> int) \<times> int) list \<Rightarrow> quota_table \<times> (uuid \<times> int) list" where
  "release_groups tbl groups = foldl (release_group tbl) (tbl, []) groups"

definition release_daily_quotas ::
    "quota_table \<Rightarrow> (uuid \<times> int option) list \<Rightarrow> quota_table \<times> batch_release" where
  "release_daily_quotas tbl reservations =
     (case foldl group_reservation ([], 0) reservations of
        (groups, not_eligible) \<Rightarrow>
          (case release_groups tbl groups of
             (tbl', released) \<Rightarrow>
               (tbl', \<lparr>released_count = sum_list (map snd (filter (\<lambda>(g, n). g \<in> set released) groups)),
                       not_eligible_count = not_eligible,
                       inconsistent_count =
                         sum_list (map snd (filter (\<lambda>(g, n). g \<notin> set released) groups))\<rparr>)))"

section \<open>The counter as an abstract function\<close>

text \<open>The used count of a user on a date: an absent row counts as zero.\<close>

definition used :: "quota_table \<Rightarrow> uuid \<times> int \<Rightarrow> int" where
  "used tbl k = (case map_of tbl k of None \<Rightarrow> 0 | Some n \<Rightarrow> n)"

definition quota_ok :: "quota_table \<Rightarrow> bool" where
  "quota_ok tbl \<longleftrightarrow> distinct (map fst tbl) \<and> (\<forall>(k, n) \<in> set tbl. quota_constraint n)"

lemma quota_ok_distinct: "quota_ok tbl \<Longrightarrow> distinct (map fst tbl)"
  by (simp add: quota_ok_def)

lemma quota_ok_range: "quota_ok tbl \<Longrightarrow> map_of tbl k = Some n \<Longrightarrow> quota_constraint n"
  by (auto simp: quota_ok_def dest!: map_of_SomeD)

lemma quota_ok_used: "quota_ok tbl \<Longrightarrow> 0 \<le> used tbl k \<and> used tbl k \<le> DAILY_REQUEST_LIMIT"
  by (auto simp: used_def quota_constraint_def DAILY_REQUEST_LIMIT_def dest: quota_ok_range
      split: option.splits)

lemma quota_ok_update: "quota_ok tbl \<Longrightarrow> quota_constraint n \<Longrightarrow> quota_ok (AList.update k n tbl)"
  by (auto simp: quota_ok_def set_update_distinct distinct_update split: if_splits)

lemma used_update: "used (AList.update k n tbl) = (used tbl)(k := n)"
  by (rule ext) (simp add: used_def)

text \<open>Each operation, as the abstract counter sees it.\<close>

lemma reserve_accepted:
  assumes "reserve_daily_quota tbl user t = Inr (tbl', r)" "quota_ok tbl"
  shows "quota_ok tbl'" "used tbl' = (used tbl)((user, jst_date t) := used tbl (user, jst_date t) + 1)"
    "reserved_date r = jst_date t" "reserved_used_count r = used tbl' (user, jst_date t)"
    "used tbl (user, jst_date t) < DAILY_REQUEST_LIMIT"
  using assms
  by (auto simp: reserve_daily_quota_def Let_def used_update quota_ok_update used_def
      DAILY_REQUEST_LIMIT_def split: if_splits option.splits)

lemma reserve_refused_iff:
  assumes "quota_ok tbl"
  shows "(\<exists>d. reserve_daily_quota tbl user t = Inl (Inr (DailyRequestLimitExceeded d))) \<longleftrightarrow>
      used tbl (user, jst_date t) = DAILY_REQUEST_LIMIT"
    and "reserve_daily_quota tbl user t \<noteq> Inl (Inl e)"
proof -
  have "quota_constraint n" if "map_of tbl (user, jst_date t) = Some n" for n
    using assms that by (rule quota_ok_range)
  then show "(\<exists>d. reserve_daily_quota tbl user t = Inl (Inr (DailyRequestLimitExceeded d))) \<longleftrightarrow>
      used tbl (user, jst_date t) = DAILY_REQUEST_LIMIT"
    "reserve_daily_quota tbl user t \<noteq> Inl (Inl e)"
    by (auto simp: reserve_daily_quota_def Let_def used_def quota_constraint_def
        DAILY_REQUEST_LIMIT_def split: option.splits)
qed

lemma release_result:
  assumes "release_daily_quota tbl user (Some d) = (tbl', outcome)" "quota_ok tbl"
  shows "quota_ok tbl'"
    and "0 < used tbl (user, d) \<Longrightarrow>
      outcome = Released \<and> used tbl' = (used tbl)((user, d) := used tbl (user, d) - 1)"
    and "used tbl (user, d) = 0 \<Longrightarrow> outcome = Inconsistent \<and> tbl' = tbl"
proof -
  have range: "quota_constraint n" if "map_of tbl (user, d) = Some n" for n
    using assms(2) that by (rule quota_ok_range)
  show "quota_ok tbl'"
    using assms range
    by (auto simp: release_daily_quota_def quota_constraint_def intro!: quota_ok_update
        split: option.splits if_splits)
  show "0 < used tbl (user, d) \<Longrightarrow>
      outcome = Released \<and> used tbl' = (used tbl)((user, d) := used tbl (user, d) - 1)"
    using assms by (auto simp: release_daily_quota_def used_update used_def split: option.splits if_splits)
  show "used tbl (user, d) = 0 \<Longrightarrow> outcome = Inconsistent \<and> tbl' = tbl"
    using assms by (auto simp: release_daily_quota_def used_def split: option.splits if_splits)
qed

section \<open>The batch release\<close>

definition reservations_of :: "(uuid \<times> int option) list \<Rightarrow> uuid \<times> int \<Rightarrow> int" where
  "reservations_of rs g = int (length (filter (\<lambda>(u, d). d = Some (snd g) \<and> u = fst g) rs))"

definition groups_of :: "((uuid \<times> int) \<times> int) list \<Rightarrow> uuid \<times> int \<Rightarrow> int" where
  "groups_of groups g = (case map_of groups g of None \<Rightarrow> 0 | Some n \<Rightarrow> n)"

lemma group_all:
  assumes "foldl group_reservation ([], 0) rs = (groups, ne)"
  shows "distinct (map fst groups) \<and> (\<forall>g. groups_of groups g = reservations_of rs g)
    \<and> (\<forall>(g, n) \<in> set groups. 0 < n) \<and> ne = int (length (filter (\<lambda>r. snd r = None) rs))"
  using assms
proof (induction rs arbitrary: groups ne rule: rev_induct)
  case Nil
  then show ?case by (auto simp: groups_of_def reservations_of_def)
next
  case (snoc r rs)
  obtain gs k where prev: "foldl group_reservation ([], 0) rs = (gs, k)" by fastforce
  note ih = snoc.IH [OF prev]
  have step: "group_reservation (gs, k) r = (groups, ne)" using snoc.prems prev by simp
  obtain u d where r: "r = (u, d)" by fastforce
  show ?case
  proof (cases d)
    case None
    then have "groups = gs" "ne = k + 1" using step r by (auto simp: group_reservation_def)
    then show ?thesis using ih r None by (simp add: reservations_of_def)
  next
    case (Some day)
    define n where "n = (case map_of gs (u, day) of None \<Rightarrow> 1 | Some n \<Rightarrow> n + 1)"
    have upd: "groups = AList.update (u, day) n gs" "ne = k"
      using step r Some by (auto simp: group_reservation_def n_def)
    have n: "n = groups_of gs (u, day) + 1" by (simp add: n_def groups_of_def split: option.splits)
    have pos: "0 < n"
    proof (cases "map_of gs (u, day)")
      case (Some m)
      then have "0 < m" using ih by (auto dest!: map_of_SomeD)
      then show ?thesis using Some by (simp add: n_def)
    qed (simp add: n_def)
    have "groups_of groups g = reservations_of (rs @ [r]) g" for g
      using ih n r Some
      by (cases g) (auto simp: upd groups_of_def reservations_of_def)
    moreover have "\<forall>(g, m) \<in> set groups. 0 < m"
      using ih pos by (auto simp: upd set_update_distinct split: if_splits)
    ultimately show ?thesis using ih upd r Some by (simp add: distinct_update)
  qed
qed

lemma release_groups_result:
  assumes "distinct (map fst groups)" "release_groups tbl groups = (tbl', released)"
  shows "used tbl' = (\<lambda>g. if g \<in> set released then used tbl g - groups_of groups g else used tbl g)
    \<and> set released = {g. \<exists>n c. map_of groups g = Some n \<and> map_of tbl g = Some c \<and> n \<le> c}"
  using assms
proof (induction groups arbitrary: tbl' released rule: rev_induct)
  case Nil
  then show ?case by (auto simp: release_groups_def)
next
  case (snoc gn groups)
  obtain g n where gn: "gn = (g, n)" by fastforce
  obtain t rel where prev: "release_groups tbl groups = (t, rel)" by fastforce
  have dist: "distinct (map fst groups)" "g \<notin> fst ` set groups" using snoc.prems(1) gn by auto
  note ih = snoc.IH [OF dist(1) prev]
  have step: "release_group tbl (t, rel) gn = (tbl', released)"
    using snoc.prems(2) prev by (simp add: release_groups_def)
  have none: "map_of groups g = None" using dist(2) by (simp add: map_of_eq_None_iff)
  then have "g \<notin> set rel" using ih by simp
  have same: "map_of (groups @ [gn]) h = (if h = g then Some n else map_of groups h)" for h
    using none gn by (auto simp: map_add_def split: option.splits)
  have go: "groups_of (groups @ [gn]) h = (if h = g then n else groups_of groups h)" for h
    by (simp only: groups_of_def same) auto
  show ?case
  proof (cases "\<exists>c. map_of tbl g = Some c \<and> n \<le> c")
    case True
    then obtain c where c: "map_of tbl g = Some c" "n \<le> c" by blast
    then have res: "tbl' = AList.update g (c - n) t" "released = rel @ [g]"
      using step gn by (auto simp: release_group_def)
    have "used tbl g = c" using c(1) by (simp add: used_def)
    have "used tbl' = (\<lambda>h. if h \<in> set released then used tbl h - groups_of (groups @ [gn]) h else used tbl h)"
    proof (rule ext)
      fix h
      have "used t h = (if h \<in> set rel then used tbl h - groups_of groups h else used tbl h)"
        using ih by simp
      then show "used tbl' h =
          (if h \<in> set released then used tbl h - groups_of (groups @ [gn]) h else used tbl h)"
        using \<open>g \<notin> set rel\<close> \<open>used tbl g = c\<close> by (simp add: res used_update go)
    qed
    moreover have "set released = {h. \<exists>m c. map_of (groups @ [gn]) h = Some m \<and> map_of tbl h = Some c \<and> m \<le> c}"
      using ih c none unfolding same res by auto
    ultimately show ?thesis by blast
  next
    case False
    then have res: "tbl' = t" "released = rel"
      using step gn by (auto simp: release_group_def split: option.splits if_splits)
    have "used tbl' = (\<lambda>h. if h \<in> set released then used tbl h - groups_of (groups @ [gn]) h else used tbl h)"
    proof (rule ext)
      fix h
      have "used t h = (if h \<in> set rel then used tbl h - groups_of groups h else used tbl h)"
        using ih by simp
      then show "used tbl' h =
          (if h \<in> set released then used tbl h - groups_of (groups @ [gn]) h else used tbl h)"
        using \<open>g \<notin> set rel\<close> by (auto simp: res go)
    qed
    moreover have "set released = {h. \<exists>m c. map_of (groups @ [gn]) h = Some m \<and> map_of tbl h = Some c \<and> m \<le> c}"
      using ih False none unfolding same res by auto
    ultimately show ?thesis by blast
  qed
qed

lemma release_groups_ok:
  "quota_ok tbl \<Longrightarrow> \<forall>(g, n) \<in> set groups. 0 < n \<Longrightarrow> quota_ok (fst (release_groups tbl groups))"
proof (induction groups rule: rev_induct)
  case Nil
  then show ?case by (simp add: release_groups_def)
next
  case (snoc gn groups)
  obtain g n where gn: "gn = (g, n)" by fastforce
  obtain t rel where prev: "release_groups tbl groups = (t, rel)" by fastforce
  have t: "quota_ok t" using snoc prev by auto
  have "quota_constraint (c - n)" if "map_of tbl g = Some c" "n \<le> c" for c
    using quota_ok_range [OF snoc.prems(1) that(1)] that(2) snoc.prems(2) gn
    by (auto simp: quota_constraint_def)
  then have "quota_ok (fst (case map_of tbl g of None \<Rightarrow> (t, rel)
      | Some c \<Rightarrow> if c \<ge> n then (AList.update g (c - n) t, rel @ [g]) else (t, rel)))"
    using t by (auto intro!: quota_ok_update split: option.splits)
  then show ?case using prev gn by (simp add: release_groups_def release_group_def)
qed

text \<open>The number of reservations with a date is the sum over the groups.\<close>

lemma sum_groups: "distinct (map fst groups) \<Longrightarrow>
  sum_list (map snd (filter (\<lambda>(g, n). P g) groups)) = (\<Sum>g \<in> {g \<in> fst ` set groups. P g}. groups_of groups g)"
proof (induction groups)
  case (Cons gn groups)
  obtain g n where gn: "gn = (g, n)" by fastforce
  let ?S = "{h \<in> fst ` set groups. P h}"
  have fin: "finite ?S" and new: "g \<notin> fst ` set groups" using Cons.prems gn by auto
  have same: "(\<Sum>h \<in> ?S. groups_of (gn # groups) h) = (\<Sum>h \<in> ?S. groups_of groups h)"
    using new gn by (intro sum.cong) (auto simp: groups_of_def)
  have "{h \<in> fst ` set (gn # groups). P h} = (if P g then insert g ?S else ?S)"
    using gn by auto
  then show ?case
    using Cons same fin new gn by (auto simp: groups_of_def)
qed simp


lemma sum_reservations:
  assumes "finite S" "\<And>u d. (u, Some d) \<in> set rs \<Longrightarrow> (u, d) \<in> S"
  shows "(\<Sum>g \<in> S. reservations_of rs g) = int (length (filter (\<lambda>r. snd r \<noteq> None) rs))"
  using assms(2)
proof (induction rs)
  case (Cons r rs)
  have ih: "(\<Sum>g \<in> S. reservations_of rs g) = int (length (filter (\<lambda>r. snd r \<noteq> None) rs))"
    using Cons by auto
  show ?case
  proof (cases "snd r")
    case None
    then have "reservations_of (r # rs) g = reservations_of rs g" for g
      by (cases r) (simp add: reservations_of_def)
    then show ?thesis using ih None by simp
  next
    case (Some d)
    have mem: "(fst r, d) \<in> S" using Cons.prems [of "fst r" d] Some by (metis list.set_intros(1) prod.collapse)
    have "reservations_of (r # rs) g = reservations_of rs g + (if g = (fst r, d) then 1 else 0)" for g
      using Some by (cases r; cases g) (auto simp: reservations_of_def)
    then have "(\<Sum>g \<in> S. reservations_of (r # rs) g)
        = (\<Sum>g \<in> S. reservations_of rs g) + (\<Sum>g \<in> S. if g = (fst r, d) then 1 else 0)"
      by (simp add: sum.distrib)
    also have "(\<Sum>g \<in> S. if g = (fst r, d) then 1 else 0) = (1 :: int)"
      using assms(1) mem by simp
    finally show ?thesis using ih Some by simp
  qed
qed (simp add: reservations_of_def)

lemma reservations_of_pos: "(u, Some d) \<in> set rs \<Longrightarrow> 0 < reservations_of rs (u, d)"
  by (auto simp: reservations_of_def filter_empty_conv length_greater_0_conv)

text \<open>When every counter covers its reservations, the batch releases all of them.\<close>

lemma batch_release_covered:
  assumes "quota_ok tbl" and "\<And>u d. (u, Some d) \<in> set rs \<Longrightarrow> reservations_of rs (u, d) \<le> used tbl (u, d)"
    and "release_daily_quotas tbl rs = (tbl', res)"
  shows "quota_ok tbl'" "used tbl' = (\<lambda>g. used tbl g - reservations_of rs g)"
    and "inconsistent_count res = 0" "released_count res = int (length (filter (\<lambda>r. snd r \<noteq> None) rs))"
    and "not_eligible_count res = int (length (filter (\<lambda>r. snd r = None) rs))"
proof -
  obtain groups ne where g: "foldl group_reservation ([], 0) rs = (groups, ne)" by fastforce
  note grp = group_all [OF g]
  then have dist: "distinct (map fst groups)" by blast
  obtain rel where r: "release_groups tbl groups = (tbl', rel)"
    using assms(3) g by (auto simp: release_daily_quotas_def split: prod.splits)
  note res' = release_groups_result [OF dist r]
  have count: "groups_of groups k = reservations_of rs k" for k using grp by blast
  have pos: "0 < n" if "map_of groups k = Some n" for k n
    using grp that by (auto dest!: map_of_SomeD)
  have keys: "k \<in> fst ` set groups \<longleftrightarrow> 0 < reservations_of rs k" for k
  proof
    assume "k \<in> fst ` set groups"
    then obtain n where "map_of groups k = Some n"
      by (metis dom_map_of_conv_image_fst domD)
    then show "0 < reservations_of rs k" using pos count [of k] by (auto simp: groups_of_def)
  next
    assume "0 < reservations_of rs k"
    then have "groups_of groups k \<noteq> 0" using count by simp
    then show "k \<in> fst ` set groups"
      by (auto simp: groups_of_def dest!: map_of_SomeD split: option.splits) force
  qed
  have rel: "set rel = fst ` set groups"
  proof -
    have "\<exists>n c. map_of groups k = Some n \<and> map_of tbl k = Some c \<and> n \<le> c" if k: "k \<in> fst ` set groups" for k
    proof -
      obtain n where n: "map_of groups k = Some n" using k by (metis dom_map_of_conv_image_fst domD)
      then have eq: "n = reservations_of rs k" "0 < n" using count [of k] pos by (auto simp: groups_of_def)
      then obtain u d where "(u, Some d) \<in> set rs" "k = (u, d)"
        by (cases k) (auto simp: reservations_of_def filter_empty_conv length_greater_0_conv)
      then have "n \<le> used tbl k" using assms(2) eq by simp
      then show ?thesis using n eq(2) by (auto simp: used_def split: option.splits)
    qed
    then have "fst ` set groups \<subseteq> set rel" using res' by blast
    moreover have "set rel \<subseteq> fst ` set groups"
    proof
      fix k assume "k \<in> set rel"
      then obtain n where "map_of groups k = Some n" using res' by blast
      then show "k \<in> fst ` set groups" by (metis map_of_SomeD fst_conv image_eqI)
    qed
    ultimately show ?thesis by blast
  qed
  have u: "used tbl' k = (if k \<in> set rel then used tbl k - groups_of groups k else used tbl k)" for k
    by (simp add: conjunct1 [OF res'])
  have "used tbl' k = used tbl k - reservations_of rs k" for k
  proof (cases "k \<in> set rel")
    case True
    then show ?thesis by (simp add: u count)
  next
    case False
    then have "\<not> 0 < reservations_of rs k" using keys rel by blast
    then have "reservations_of rs k = 0" by (simp add: reservations_of_def)
    then show ?thesis using False by (simp add: u)
  qed
  then show "used tbl' = (\<lambda>g. used tbl g - reservations_of rs g)" by (rule ext)
  have "quota_ok (fst (release_groups tbl groups))"
    using release_groups_ok [OF assms(1), of groups] grp by blast
  then show "quota_ok tbl'" by (simp add: r)
  have fields: "res = \<lparr>released_count = sum_list (map snd (filter (\<lambda>(g, n). g \<in> set rel) groups)),
      not_eligible_count = ne,
      inconsistent_count = sum_list (map snd (filter (\<lambda>(g, n). g \<notin> set rel) groups))\<rparr>"
    using assms(3) g r by (simp add: release_daily_quotas_def)
  have "filter (\<lambda>(g, n). g \<notin> set rel) groups = []"
    using rel by (auto simp: filter_empty_conv) force
  then show "inconsistent_count res = 0" using fields by simp
  have "{k \<in> fst ` set groups. k \<in> set rel} = fst ` set groups" using rel by auto
  then have "released_count res = (\<Sum>k \<in> fst ` set groups. reservations_of rs k)"
    using fields sum_groups [OF dist, of "\<lambda>k. k \<in> set rel"] count by simp
  also have "\<dots> = int (length (filter (\<lambda>r. snd r \<noteq> None) rs))"
    by (rule sum_reservations) (auto simp: keys reservations_of_pos)
  finally show "released_count res = int (length (filter (\<lambda>r. snd r \<noteq> None) rs))" .
  show "not_eligible_count res = int (length (filter (\<lambda>r. snd r = None) rs))"
    using fields grp by simp
qed

text \<open>
  A reservation is refused exactly when the user's counter of the current JST day stands at
  ten, and otherwise counts it up by one and returns it; releasing that reservation restores
  every counter. Neither ever leaves the range of the table's constraint or raises.
\<close>

theorem reserve_release_roundtrip:
  assumes "quota_ok tbl"
  shows "(case reserve_daily_quota tbl user t of
      Inl e \<Rightarrow> e = Inr (DailyRequestLimitExceeded (jst_date t))
          \<and> used tbl (user, jst_date t) = DAILY_REQUEST_LIMIT
    | Inr (tbl', r) \<Rightarrow> quota_ok tbl' \<and> used tbl (user, jst_date t) < DAILY_REQUEST_LIMIT
        \<and> reserved_used_count r = used tbl (user, jst_date t) + 1
        \<and> reserved_date r = jst_date t
        \<and> (case release_daily_quota tbl' user (Some (reserved_date r)) of
             (tbl'', outcome) \<Rightarrow> outcome = Released \<and> used tbl'' = used tbl \<and> quota_ok tbl''))"
proof (cases "reserve_daily_quota tbl user t")
  case (Inl e)
  then show ?thesis
    using reserve_refused_iff [OF assms, of user t]
    by (cases e) (auto simp: reserve_daily_quota_def Let_def split: option.splits if_splits)
next
  case (Inr p)
  obtain tbl' r where p: "p = (tbl', r)" by fastforce
  note acc = reserve_accepted [OF Inr [unfolded p] assms]
  obtain tbl'' outcome where rel: "release_daily_quota tbl' user (Some (reserved_date r)) = (tbl'', outcome)"
    by fastforce
  have "0 < used tbl' (user, reserved_date r)"
    using acc quota_ok_used [OF assms, of "(user, jst_date t)"] by simp
  note res = release_result [OF rel acc(1)]
  have "used tbl'' = used tbl"
    using res(2) [OF \<open>0 < _\<close>] acc(2,3) by (simp add: fun_eq_iff)
  then show ?thesis using Inr p acc rel res(1) res(2) [OF \<open>0 < _\<close>] by simp
qed

lemma reserve_release_roundtrip_witness:
  "\<exists>tbl' r. reserve_daily_quota [((1, 0), 9)] 1 0 = Inr (tbl', r) \<and> reserved_used_count r = 10
     \<and> release_daily_quota tbl' 1 (Some (reserved_date r)) = ([((1, 0), 9)], Released)"
proof -
  have ok: "quota_ok [((1, 0), 9)]" by (simp add: quota_ok_def quota_constraint_def)
  have run: "reserve_daily_quota [((1, 0), 9)] 1 0
      = Inr ([((1, 0), 10)], \<lparr>reserved_date = 0, reserved_used_count = 10\<rparr>)"
    by (simp add: reserve_daily_quota_def Let_def jst_date_def seconds_def DAILY_REQUEST_LIMIT_def
        quota_constraint_def)
  show ?thesis
    using run reserve_release_roundtrip [OF ok, of 1 0] by (simp add: release_daily_quota_def)
qed

end
