(* ===== verification/RunState.thy ===== *)
theory RunState
  imports DailyQuota
begin

text \<open>
  The state of a research run and the decisions on it (\<^verbatim>\<open>agent/running/types.py\<close>,
  \<^verbatim>\<open>agent/running/state.py\<close>, \<^verbatim>\<open>agent/answering/timing.py\<close>,
  \<^verbatim>\<open>agent/running/deadline/policy.py\<close>).
\<close>

datatype run_status = Queued | Running | Completed | Policy_blocked | Deadline_exceeded | Failed

datatype run_error_code = Generation_unavailable | Internal_error | Enqueue_failed | Stale | Cancelled

definition ACTIVE_STATUSES :: "run_status list" where
  "ACTIVE_STATUSES = [Queued, Running]"

definition is_finished :: "run_status \<Rightarrow> bool" where
  "is_finished s \<longleftrightarrow> s \<notin> set ACTIVE_STATUSES"

definition has_attempt_started :: "int \<Rightarrow> bool" where
  "has_attempt_started attempt_epoch \<longleftrightarrow> attempt_epoch \<ge> 1"

datatype rejection_reason =
    Run_not_found
  | Already_finished
  | Attempt_superseded
  | Run_started
  | Answer_started
  | Answer_not_started
  | Deadline_exceeded_reason

datatype run_phase = Phase_queued | Preparing | Answering | Finished

text \<open>\<^verbatim>\<open>_PHASE_RANK\<close>, a dict without an entry for the finished phase.\<close>

fun PHASE_RANK :: "run_phase \<Rightarrow> nat option" where
  "PHASE_RANK Phase_queued = Some 0"
| "PHASE_RANK Preparing = Some 1"
| "PHASE_RANK Answering = Some 2"
| "PHASE_RANK Finished = None"

definition STARTABLE_PHASES :: "run_phase list" where
  "STARTABLE_PHASES = [Phase_queued, Preparing]"

definition answer_generation_recovery_window :: duration where
  "answer_generation_recovery_window = seconds (15 + 30)"

definition deadline_for_run :: "time \<Rightarrow> time" where
  "deadline_for_run created_at = created_at + seconds 60"

record run_state =
  state_status :: run_status
  state_attempt_epoch :: int
  state_deadline_at :: time
  state_answer_started_at :: "time option"

definition phase :: "run_state \<Rightarrow> run_phase" where
  "phase s =
     (if is_finished (state_status s) then Finished
      else if state_status s = Queued then Phase_queued
      else if state_answer_started_at s = None then Preparing
      else Answering)"

definition recovery_deadline :: "run_state \<Rightarrow> time" where
  "recovery_deadline s =
     (case state_answer_started_at s of
        None \<Rightarrow> state_deadline_at s
      | Some t \<Rightarrow> t + answer_generation_recovery_window)"

text \<open>
  \<^verbatim>\<open>all(_PHASE_RANK[phase] > _PHASE_RANK[allowed] for allowed in phases)\<close> stops at the
  first false comparison; a missing key raises.
\<close>

fun outranks_all :: "run_phase \<Rightarrow> run_phase list \<Rightarrow> py_exc + bool" where
  "outranks_all p [] = Inr True"
| "outranks_all p (a # as) =
     (case (PHASE_RANK p, PHASE_RANK a) of
        (Some rp, Some ra) \<Rightarrow> if rp > ra then outranks_all p as else Inr False
      | _ \<Rightarrow> Inl KeyError)"

definition phase_rejection :: "run_phase \<Rightarrow> run_phase list \<Rightarrow> py_exc + rejection_reason" where
  "phase_rejection p phases =
     (case outranks_all p phases of
        Inl e \<Rightarrow> Inl e
      | Inr True \<Rightarrow> if p = Preparing then Inr Run_started else Inr Answer_started
      | Inr False \<Rightarrow> if p = Preparing then Inr Answer_not_started else Inl ValueError)"

definition check :: "run_state \<Rightarrow> run_phase list \<Rightarrow> time \<Rightarrow> int option \<Rightarrow> time
    \<Rightarrow> py_exc + rejection_reason option" where
  "check s phases deadline attempt_epoch now =
     (let p = phase s in
      if p = Finished then Inr (Some Already_finished)
      else if (case attempt_epoch of
                 None \<Rightarrow> False
               | Some e \<Rightarrow> \<not> (state_status s = Running \<and> state_attempt_epoch s = e))
      then Inr (Some Attempt_superseded)
      else if p \<notin> set phases then map_sum id Some (phase_rejection p phases)
      else if now \<ge> deadline then Inr (Some Deadline_exceeded_reason)
      else Inr None)"

definition check_start :: "run_state \<Rightarrow> time \<Rightarrow> py_exc + rejection_reason option" where
  "check_start s now = check s STARTABLE_PHASES (state_deadline_at s) None now"

definition check_progress :: "run_state \<Rightarrow> int \<Rightarrow> run_phase list \<Rightarrow> time
    \<Rightarrow> py_exc + rejection_reason option" where
  "check_progress s attempt_epoch phases now =
     check s phases (state_deadline_at s) (Some attempt_epoch) now"

definition check_attempt_finish :: "run_state \<Rightarrow> int \<Rightarrow> run_phase list \<Rightarrow> time
    \<Rightarrow> py_exc + rejection_reason option" where
  "check_attempt_finish s attempt_epoch phases now =
     check s phases (recovery_deadline s) (Some attempt_epoch) now"

definition check_finish :: "run_state \<Rightarrow> run_phase list \<Rightarrow> time
    \<Rightarrow> py_exc + rejection_reason option" where
  "check_finish s phases now = check s phases (recovery_deadline s) None now"

definition is_due_for_deadline_recovery :: "run_state \<Rightarrow> time \<Rightarrow> bool" where
  "is_due_for_deadline_recovery s now \<longleftrightarrow> phase s \<noteq> Finished \<and> now \<ge> recovery_deadline s"

section \<open>Outcomes of the operations\<close>

record run_finished =
  fin_status :: run_status
  fin_error_code :: "run_error_code option"
  fin_quota_release_outcome :: release_outcome
  fin_running_attempt_epoch :: "int option"

definition make_run_finished :: "run_status \<Rightarrow> run_error_code option \<Rightarrow> release_outcome \<Rightarrow> int option
    \<Rightarrow> py_exc + run_finished" where
  "make_run_finished status error_code outcome epoch =
     (let r = \<lparr>fin_status = status, fin_error_code = error_code,
               fin_quota_release_outcome = outcome, fin_running_attempt_epoch = epoch\<rparr> in
      if \<not> is_finished status then Inl ValueError
      else if (status = Failed) \<noteq> (error_code \<noteq> None) then Inl ValueError
      else case epoch of
        None \<Rightarrow> Inr r
      | Some e \<Rightarrow>
          if \<not> e \<ge> 1 then Inl ValueError
          else if outcome \<noteq> Not_eligible then Inl ValueError
          else Inr r)"

record run_rejected =
  rej_reason :: rejection_reason
  rej_observed_status :: "run_status option"

definition make_run_rejected :: "rejection_reason \<Rightarrow> run_status option \<Rightarrow> py_exc + run_rejected" where
  "make_run_rejected reason observed =
     (if reason = Deadline_exceeded_reason then Inl ValueError
      else if (reason = Run_not_found) \<noteq> (observed = None) then Inl ValueError
      else Inr \<lparr>rej_reason = reason, rej_observed_status = observed\<rparr>)"

text \<open>What an operation on a run returns to its caller.\<close>

datatype run_outcome =
    AttemptStarted int
  | AnswerGenerationStarted uuid time
  | RunFinished run_finished
  | RunRejected run_rejected
  | Continues   \<comment> \<open>\<^verbatim>\<open>None\<close> of the continuation checks\<close>

definition make_attempt_started :: "int \<Rightarrow> py_exc + run_outcome" where
  "make_attempt_started e = (if e \<ge> 1 then Inr (AttemptStarted e) else Inl ValueError)"

section \<open>Decisions\<close>

lemmas phase_simps = phase_def is_finished_def ACTIVE_STATUSES_def

lemma is_finished_iff: "is_finished s \<longleftrightarrow> s \<noteq> Queued \<and> s \<noteq> Running"
  by (simp add: is_finished_def ACTIVE_STATUSES_def)

lemma phase_finished_iff: "phase s = Finished \<longleftrightarrow> is_finished (state_status s)"
  by (simp add: phase_def is_finished_iff)

lemma phase_queued_iff: "phase s = Phase_queued \<longleftrightarrow> state_status s = Queued"
  by (simp add: phase_def is_finished_iff)

lemma phase_running_iff:
  "phase s = Preparing \<or> phase s = Answering \<longleftrightarrow> state_status s = Running"
  by (cases "state_status s") (simp_all add: phase_def is_finished_iff)

lemma phase_preparing_iff:
  "phase s = Preparing \<longleftrightarrow> state_status s = Running \<and> state_answer_started_at s = None"
  by (cases "state_status s") (simp_all add: phase_def is_finished_iff)

lemma phase_answering_iff:
  "phase s = Answering \<longleftrightarrow> state_status s = Running \<and> state_answer_started_at s \<noteq> None"
  by (cases "state_status s") (simp_all add: phase_def is_finished_iff)

text \<open>The phase sets that the operations pass, with the rejection each gives.\<close>

lemma phase_rejection_used:
  "phase_rejection Answering STARTABLE_PHASES = Inr Answer_started"
  "phase_rejection Preparing [Answering] = Inr Answer_not_started"
  "phase_rejection Answering [Preparing] = Inr Answer_started"
  "phase_rejection Preparing [Phase_queued] = Inr Run_started"
  "phase_rejection Answering [Phase_queued] = Inr Answer_started"
  by (simp_all add: phase_rejection_def STARTABLE_PHASES_def)

text \<open>
  None of the checks that the repository makes ever raises: the fall-through error of the
  phase rejection and the missing rank of the finished phase are both unreachable, for the phase
  sets that the operations use. A check passes exactly when the run is unfinished, belongs to the
  calling attempt where there is one, is in an allowed phase, and its deadline lies ahead; an
  expired deadline is reported only for a run that is otherwise acceptable.
\<close>

theorem checks_decide:
  assumes "phases = STARTABLE_PHASES \<and> epoch = None
    \<or> phases = [Phase_queued] \<and> epoch = None
    \<or> phases = [Phase_queued, Preparing, Answering] \<and> epoch = None
    \<or> (\<exists>e. phases = [Preparing, Answering] \<and> epoch = Some e)
    \<or> (\<exists>e. phases = [Preparing] \<and> epoch = Some e)
    \<or> (\<exists>e. phases = [Answering] \<and> epoch = Some e)"
  shows "\<exists>r. check s phases deadline epoch now = Inr r
    \<and> (r = None \<longleftrightarrow> phase s \<in> set phases \<and> now < deadline
         \<and> (\<forall>e. epoch = Some e \<longrightarrow> state_status s = Running \<and> state_attempt_epoch s = e))
    \<and> (r = Some Deadline_exceeded_reason \<longleftrightarrow> phase s \<in> set phases \<and> now \<ge> deadline
         \<and> (\<forall>e. epoch = Some e \<longrightarrow> state_status s = Running \<and> state_attempt_epoch s = e))
    \<and> r \<noteq> Some Run_not_found"
proof -
  have fin: "Finished \<notin> set phases" using assms by (auto simp: STARTABLE_PHASES_def)
  show ?thesis
  proof (cases "phase s")
    case Phase_queued
    then have st: "state_status s = Queued" by (simp add: phase_queued_iff)
    show ?thesis using assms
      by (elim disjE exE conjE)
        (simp_all add: check_def Let_def STARTABLE_PHASES_def Phase_queued st not_less)
  next
    case Preparing
    then have st: "state_status s = Running" by (simp add: phase_preparing_iff)
    show ?thesis using assms
      by (elim disjE exE conjE)
        (simp_all add: check_def Let_def STARTABLE_PHASES_def phase_rejection_def Preparing st not_less)
  next
    case Answering
    then have st: "state_status s = Running" by (simp add: phase_answering_iff)
    show ?thesis using assms
      by (elim disjE exE conjE)
        (simp_all add: check_def Let_def STARTABLE_PHASES_def phase_rejection_def Answering st not_less)
  next
    case Finished
    then show ?thesis using fin by (simp add: check_def)
  qed
qed

lemma checks_decide_witness:
  "\<exists>r. check \<lparr>state_status = Running, state_attempt_epoch = 2, state_deadline_at = 100,
        state_answer_started_at = Some 50\<rparr> [Preparing] 100 (Some 2) 200 = Inr r \<and> r = Some Answer_started"
  using checks_decide [of "[Preparing]" "Some 2" "\<lparr>state_status = Running, state_attempt_epoch = 2,
      state_deadline_at = 100, state_answer_started_at = Some 50\<rparr>" 100 200]
  by (simp add: check_def phase_def is_finished_iff phase_rejection_def)

end
