(* ===== verification/RunStore.thy ===== *)
theory RunStore
  imports RunState AnswerContract
begin

text \<open>
  The database of research runs: the rows and constraints of \<^verbatim>\<open>models/agent_run.py\<close>,
  \<^verbatim>\<open>agent_message.py\<close>, \<^verbatim>\<open>agent_thread.py\<close>, the creation of a run
  (\<^verbatim>\<open>agent/running/creation.py\<close>), every operation of
  \<^verbatim>\<open>agent/running/state_repository.py\<close>, the rows of an answer
  (\<^verbatim>\<open>agent/threads/result_mapper.py\<close>) and the deletion of a thread
  (\<^verbatim>\<open>agent/threads/repository.py\<close>). An operation is one transaction: it returns
  the new database with its outcome, or the exception that rolls it back.
\<close>

section \<open>Rows\<close>

datatype message_role = User_role | Assistant_role

datatype source_kind = Internal_article | External_url

record thread_row =
  thr_user_id :: uuid
  thr_title :: pystr
  thr_updated_at :: time
  thr_research_handoff :: "pystr option"

record message_row =
  msg_thread_id :: uuid
  msg_seq :: int
  msg_role :: message_role
  msg_content :: pystr
  msg_missing_aspects :: "pystr list"

record source_row =
  src_message_id :: uuid
  src_ordinal :: nat
  src_kind :: source_kind
  src_ref :: pystr
  src_article_id :: "int option"
  src_url :: "pystr option"
  src_title :: pystr
  src_source_name :: "pystr option"
  src_published_at :: "time option"
  src_evidence_claim :: "pystr option"

record run_row =
  run_thread_id :: uuid
  run_user_message_id :: uuid
  run_assistant_message_id :: "uuid option"
  run_status :: run_status
  run_error_code :: "run_error_code option"
  run_created_at :: time
  run_deadline_at :: time
  run_answer_started_at :: "time option"
  run_attempt_epoch :: int
  run_quota_usage_date :: "int option"

record run_db =
  threads :: "(uuid \<times> thread_row) list"
  messages :: "(uuid \<times> message_row) list"
  sources :: "source_row list"
  runs :: "(uuid \<times> run_row) list"
  quotas :: quota_table

section \<open>Constraints\<close>

definition thread_constraint :: "thread_row \<Rightarrow> bool" where
  "thread_constraint t \<longleftrightarrow> thr_title t \<noteq> []"

definition message_constraint :: "message_row \<Rightarrow> bool" where
  "message_constraint m \<longleftrightarrow> msg_seq m \<ge> 1 \<and> msg_content m \<noteq> []
     \<and> (msg_role m = Assistant_role \<or> msg_missing_aspects m = [])"

definition messages_constraints :: "(uuid \<times> thread_row) list \<Rightarrow> (uuid \<times> message_row) list \<Rightarrow> bool" where
  "messages_constraints ths ms \<longleftrightarrow> distinct (map fst ms)
     \<and> distinct (map (\<lambda>(i, m). (msg_thread_id m, msg_seq m)) ms)
     \<and> list_all (\<lambda>(i, m). message_constraint m \<and> msg_thread_id m \<in> fst ` set ths) ms"

text \<open>\<^verbatim>\<open>url ~* '^https?://'\<close>, for the lower-case scheme of a normalized URL and its variants.\<close>

definition ascii_lower :: "nat \<Rightarrow> nat" where
  "ascii_lower c = (if 65 \<le> c \<and> c \<le> 90 then c + 32 else c)"

definition http_scheme :: "pystr \<Rightarrow> bool" where
  "http_scheme s \<longleftrightarrow>
     map ascii_lower (take 7 s) = [104, 116, 116, 112, 58, 47, 47]
     \<or> map ascii_lower (take 8 s) = [104, 116, 116, 112, 115, 58, 47, 47]"

definition source_constraint :: "source_row \<Rightarrow> bool" where
  "source_constraint s \<longleftrightarrow> src_ordinal s \<ge> 1 \<and> src_ref s \<noteq> [] \<and> src_title s \<noteq> []
     \<and> (src_kind s = External_url \<longrightarrow>
          (case src_url s of None \<Rightarrow> False | Some u \<Rightarrow> http_scheme u \<and> length u \<le> 2048)
          \<and> src_article_id s = None
          \<and> (case src_evidence_claim s of None \<Rightarrow> False | Some c \<Rightarrow> c \<noteq> []))
     \<and> (src_kind s = Internal_article \<longrightarrow>
          src_url s = None \<and> src_source_name s = None \<and> src_evidence_claim s = None)"

definition sources_constraints :: "(uuid \<times> message_row) list \<Rightarrow> source_row list \<Rightarrow> bool" where
  "sources_constraints ms ss \<longleftrightarrow>
     distinct (map (\<lambda>s. (src_message_id s, src_ref s)) ss)
     \<and> distinct (map (\<lambda>s. (src_message_id s, src_ordinal s)) ss)
     \<and> list_all (\<lambda>s. source_constraint s \<and> src_message_id s \<in> fst ` set ms) ss"

definition run_constraint :: "run_row \<Rightarrow> bool" where
  "run_constraint r \<longleftrightarrow> run_attempt_epoch r \<ge> 0
     \<and> ((run_status r = Completed) = (run_assistant_message_id r \<noteq> None))
     \<and> ((run_status r = Failed) = (run_error_code r \<noteq> None))"

definition is_active :: "run_row \<Rightarrow> bool" where
  "is_active r \<longleftrightarrow> run_status r \<in> set ACTIVE_STATUSES"

definition message_in_thread :: "(uuid \<times> message_row) list \<Rightarrow> uuid \<Rightarrow> uuid \<Rightarrow> bool" where
  "message_in_thread ms thread_id i \<longleftrightarrow>
     (case map_of ms i of None \<Rightarrow> False | Some m \<Rightarrow> msg_thread_id m = thread_id)"

definition answer_ids :: "(uuid \<times> run_row) list \<Rightarrow> uuid list" where
  "answer_ids rs = concat (map (\<lambda>(i, r).
     case run_assistant_message_id r of None \<Rightarrow> [] | Some m \<Rightarrow> [m]) rs)"

definition runs_constraints ::
    "(uuid \<times> thread_row) list \<Rightarrow> (uuid \<times> message_row) list \<Rightarrow> (uuid \<times> run_row) list \<Rightarrow> bool" where
  "runs_constraints ths ms rs \<longleftrightarrow> distinct (map fst rs)
     \<and> distinct (map (run_user_message_id \<circ> snd) rs)
     \<and> distinct (answer_ids rs)
     \<and> distinct (map (run_thread_id \<circ> snd) (filter (is_active \<circ> snd) rs))
     \<and> list_all (\<lambda>(i, r). run_constraint r \<and> run_thread_id r \<in> fst ` set ths
           \<and> message_in_thread ms (run_thread_id r) (run_user_message_id r)
           \<and> (case run_assistant_message_id r of
                None \<Rightarrow> True
              | Some m \<Rightarrow> message_in_thread ms (run_thread_id r) m)) rs"

text \<open>Writes of the transactions: a violated constraint raises.\<close>

definition put_runs :: "run_db \<Rightarrow> (uuid \<times> run_row) list \<Rightarrow> py_exc + run_db" where
  "put_runs db rs =
     (if runs_constraints (threads db) (messages db) rs then Inr (db\<lparr>runs := rs\<rparr>)
      else Inl IntegrityError)"

definition put_messages :: "run_db \<Rightarrow> (uuid \<times> message_row) list \<Rightarrow> py_exc + run_db" where
  "put_messages db ms =
     (if messages_constraints (threads db) ms then Inr (db\<lparr>messages := ms\<rparr>)
      else Inl IntegrityError)"

definition put_sources :: "run_db \<Rightarrow> source_row list \<Rightarrow> py_exc + run_db" where
  "put_sources db ss =
     (if sources_constraints (messages db) ss then Inr (db\<lparr>sources := ss\<rparr>)
      else Inl IntegrityError)"

definition insert_thread :: "run_db \<Rightarrow> uuid \<Rightarrow> thread_row \<Rightarrow> py_exc + run_db" where
  "insert_thread db i t =
     (if i \<in> fst ` set (threads db) \<or> \<not> thread_constraint t then Inl IntegrityError
      else Inr (db\<lparr>threads := threads db @ [(i, t)]\<rparr>))"

definition change_row :: "uuid \<Rightarrow> ('r \<Rightarrow> 'r) \<Rightarrow> (uuid \<times> 'r) list \<Rightarrow> (uuid \<times> 'r) list" where
  "change_row i f rows = map (\<lambda>(j, r). if j = i then (j, f r) else (j, r)) rows"

definition update_run :: "run_db \<Rightarrow> uuid \<Rightarrow> (run_row \<Rightarrow> run_row) \<Rightarrow> py_exc + run_db" where
  "update_run db i f = put_runs db (change_row i f (runs db))"

definition update_thread :: "run_db \<Rightarrow> uuid \<Rightarrow> (thread_row \<Rightarrow> thread_row) \<Rightarrow> run_db" where
  "update_thread db i f = db\<lparr>threads := change_row i f (threads db)\<rparr>"

section \<open>Creating a run\<close>

definition has_active_run :: "run_db \<Rightarrow> uuid \<Rightarrow> bool" where
  "has_active_run db thread_id =
     list_ex (\<lambda>(i, r). run_thread_id r = thread_id \<and> is_active r) (runs db)"

definition next_message_seq :: "run_db \<Rightarrow> uuid \<Rightarrow> int" where
  "next_message_seq db thread_id =
     fold max (map (msg_seq \<circ> snd) (filter (\<lambda>(i, m). msg_thread_id m = thread_id) (messages db))) 0 + 1"

datatype create_error =
    ThreadNotFound
  | ActiveRunConflict
  | DailyLimitExceeded int
  | CreateRaised py_exc

record created_run =
  created_thread_id :: uuid
  created_run_id :: uuid
  created_deadline_at :: time
  created_usage_date :: int
  created_used_count :: int

text \<open>The thread of the run: a new one, or the user's own one without an active run.\<close>

definition resolve_thread ::
    "run_db \<Rightarrow> uuid \<Rightarrow> pystr \<Rightarrow> uuid option \<Rightarrow> uuid \<Rightarrow> time
       \<Rightarrow> create_error + (run_db \<times> uuid \<times> int)" where
  "resolve_thread db user question thread_id new_thread now =
     (case thread_id of
        None \<Rightarrow>
          (case insert_thread db new_thread
                  \<lparr>thr_user_id = user, thr_title = take 50 question, thr_updated_at = now,
                   thr_research_handoff = None\<rparr> of
             Inl e \<Rightarrow> Inl (CreateRaised e)
           | Inr db' \<Rightarrow> Inr (db', new_thread, 1))
      | Some t \<Rightarrow>
          (case map_of (threads db) t of
             None \<Rightarrow> Inl ThreadNotFound
           | Some row \<Rightarrow>
               if thr_user_id row \<noteq> user then Inl ThreadNotFound
               else if has_active_run db t then Inl ActiveRunConflict
               else Inr (db, t, next_message_seq db t)))"

definition create_user_run ::
    "run_db \<Rightarrow> uuid \<Rightarrow> pystr \<Rightarrow> uuid option \<Rightarrow> time \<Rightarrow> time \<Rightarrow> uuid \<Rightarrow> uuid \<Rightarrow> uuid
       \<Rightarrow> create_error + (run_db \<times> created_run)" where
  "create_user_run db user question thread_id quota_time now new_thread new_message new_run =
     (case resolve_thread db user question thread_id new_thread now of
        Inl e \<Rightarrow> Inl e
      | Inr (db1, t, seq) \<Rightarrow>
          (case reserve_daily_quota (quotas db1) user quota_time of
             Inl (Inl e) \<Rightarrow> Inl (CreateRaised e)
           | Inl (Inr r) \<Rightarrow> Inl (DailyLimitExceeded (rejected_date r))
           | Inr (quotas', reservation) \<Rightarrow>
               (let db2 = update_thread (db1\<lparr>quotas := quotas'\<rparr>) t (\<lambda>r. r\<lparr>thr_updated_at := now\<rparr>) in
                case put_messages db2 (messages db2 @
                       [(new_message, \<lparr>msg_thread_id = t, msg_seq = seq, msg_role = User_role,
                          msg_content = question, msg_missing_aspects = []\<rparr>)]) of
                  Inl e \<Rightarrow> Inl (CreateRaised e)
                | Inr db3 \<Rightarrow>
                    (case put_runs db3 (runs db3 @
                           [(new_run, \<lparr>run_thread_id = t, run_user_message_id = new_message,
                              run_assistant_message_id = None, run_status = Queued,
                              run_error_code = None, run_created_at = now,
                              run_deadline_at = deadline_for_run now, run_answer_started_at = None,
                              run_attempt_epoch = 0,
                              run_quota_usage_date = Some (reserved_date reservation)\<rparr>)]) of
                       Inl e \<Rightarrow> Inl (CreateRaised e)
                     | Inr db4 \<Rightarrow>
                         Inr (db4, \<lparr>created_thread_id = t, created_run_id = new_run,
                                    created_deadline_at = deadline_for_run now,
                                    created_usage_date = reserved_date reservation,
                                    created_used_count = reserved_used_count reservation\<rparr>)))))"

section \<open>The operations on a run\<close>

record locked_run =
  lk_id :: uuid
  lk_run :: run_row
  lk_user :: uuid
  lk_state :: run_state
  lk_now :: time

definition state_of_run :: "run_row \<Rightarrow> run_state" where
  "state_of_run r = \<lparr>state_status = run_status r, state_attempt_epoch = run_attempt_epoch r,
     state_deadline_at = run_deadline_at r, state_answer_started_at = run_answer_started_at r\<rparr>"

text \<open>\<^verbatim>\<open>_lock\<close>: the run joined with its thread, the owner checked where one is given.\<close>

definition lock_run :: "run_db \<Rightarrow> uuid \<Rightarrow> uuid option \<Rightarrow> time \<Rightarrow> locked_run option" where
  "lock_run db i owner now =
     (case map_of (runs db) i of
        None \<Rightarrow> None
      | Some r \<Rightarrow>
          (case map_of (threads db) (run_thread_id r) of
             None \<Rightarrow> None
           | Some t \<Rightarrow>
               if (case owner of None \<Rightarrow> False | Some u \<Rightarrow> thr_user_id t \<noteq> u) then None
               else Some \<lparr>lk_id = i, lk_run = r, lk_user = thr_user_id t,
                          lk_state = state_of_run r, lk_now = now\<rparr>))"

definition NOT_FOUND :: run_outcome where
  "NOT_FOUND = RunRejected \<lparr>rej_reason = Run_not_found, rej_observed_status = None\<rparr>"

definition finish_run ::
    "run_db \<Rightarrow> locked_run \<Rightarrow> run_status \<Rightarrow> run_error_code option \<Rightarrow> uuid option
       \<Rightarrow> py_exc + (run_db \<times> run_outcome)" where
  "finish_run db lk status error_code assistant_message_id =
     (case update_run db (lk_id lk) (\<lambda>r. r\<lparr>run_status := status,
              run_error_code := (case error_code of None \<Rightarrow> run_error_code r | Some e \<Rightarrow> Some e),
              run_assistant_message_id :=
                (case assistant_message_id of None \<Rightarrow> run_assistant_message_id r | Some m \<Rightarrow> Some m)\<rparr>) of
        Inl e \<Rightarrow> Inl e
      | Inr db1 \<Rightarrow>
          (if phase (lk_state lk) = Phase_queued then
             (case release_daily_quota (quotas db1) (lk_user lk) (run_quota_usage_date (lk_run lk)) of
                (quotas', outcome) \<Rightarrow>
                  map_sum id (\<lambda>f. (db1\<lparr>quotas := quotas'\<rparr>, RunFinished f))
                    (make_run_finished status error_code outcome None))
           else
             map_sum id (\<lambda>f. (db1, RunFinished f))
               (make_run_finished status error_code Not_eligible
                  (Some (state_attempt_epoch (lk_state lk))))))"

text \<open>
  \<^verbatim>\<open>_stop_if_rejected\<close>, with the rest of the operation as a continuation for the
  accepted case: an expired deadline finishes the run, another rejection is reported.
\<close>

definition unless_rejected ::
    "run_db \<Rightarrow> locked_run \<Rightarrow> py_exc + rejection_reason option \<Rightarrow> py_exc + (run_db \<times> run_outcome)
       \<Rightarrow> py_exc + (run_db \<times> run_outcome)" where
  "unless_rejected db lk verdict accepted =
     (case verdict of
        Inl e \<Rightarrow> Inl e
      | Inr None \<Rightarrow> accepted
      | Inr (Some reason) \<Rightarrow>
          if reason = Deadline_exceeded_reason then finish_run db lk Deadline_exceeded None None
          else map_sum id (\<lambda>r. (db, RunRejected r))
                 (make_run_rejected reason (Some (state_status (lk_state lk)))))"

definition start_attempt :: "run_db \<Rightarrow> uuid \<Rightarrow> time \<Rightarrow> py_exc + (run_db \<times> run_outcome)" where
  "start_attempt db i now =
     (case lock_run db i None now of
        None \<Rightarrow> Inr (db, NOT_FOUND)
      | Some lk \<Rightarrow>
          unless_rejected db lk (check_start (lk_state lk) (lk_now lk))
            (let epoch = run_attempt_epoch (lk_run lk) + 1 in
             case update_run db i (\<lambda>r. r\<lparr>run_status := Running, run_attempt_epoch := epoch\<rparr>) of
               Inl e \<Rightarrow> Inl e
             | Inr db' \<Rightarrow> map_sum id (\<lambda>o'. (db', o')) (make_attempt_started epoch)))"

definition check_continuation :: "run_db \<Rightarrow> uuid \<Rightarrow> int \<Rightarrow> time \<Rightarrow> py_exc + (run_db \<times> run_outcome)" where
  "check_continuation db i attempt_epoch now =
     (case lock_run db i None now of
        None \<Rightarrow> Inr (db, NOT_FOUND)
      | Some lk \<Rightarrow>
          unless_rejected db lk
            (check_progress (lk_state lk) attempt_epoch [Preparing, Answering] (lk_now lk))
            (Inr (db, Continues)))"

definition start_answer_generation :: "run_db \<Rightarrow> uuid \<Rightarrow> int \<Rightarrow> time \<Rightarrow> py_exc + (run_db \<times> run_outcome)" where
  "start_answer_generation db i attempt_epoch now =
     (case lock_run db i None now of
        None \<Rightarrow> Inr (db, NOT_FOUND)
      | Some lk \<Rightarrow>
          unless_rejected db lk
            (check_progress (lk_state lk) attempt_epoch [Preparing] (lk_now lk))
            (case update_run db i (\<lambda>r. r\<lparr>run_answer_started_at := Some (lk_now lk)\<rparr>) of
               Inl e \<Rightarrow> Inl e
             | Inr db' \<Rightarrow> Inr (db', AnswerGenerationStarted i (lk_now lk))))"

definition authorize_answer_regeneration ::
    "run_db \<Rightarrow> uuid \<Rightarrow> int \<Rightarrow> time \<Rightarrow> py_exc + (run_db \<times> run_outcome)" where
  "authorize_answer_regeneration db i attempt_epoch now =
     (case lock_run db i None now of
        None \<Rightarrow> Inr (db, NOT_FOUND)
      | Some lk \<Rightarrow>
          unless_rejected db lk
            (check_progress (lk_state lk) attempt_epoch [Answering] (lk_now lk))
            (Inr (db, Continues)))"

definition source_row_of :: "uuid \<Rightarrow> nat \<Rightarrow> answer_source \<Rightarrow> source_row" where
  "source_row_of message_id ordinal s =
     (case s of
        InternalArticleSource ref article title published \<Rightarrow>
          \<lparr>src_message_id = message_id, src_ordinal = ordinal, src_kind = Internal_article,
           src_ref = ref, src_article_id = Some article, src_url = None, src_title = title,
           src_source_name = None, src_published_at = published, src_evidence_claim = None\<rparr>
      | ExternalUrlSource ref url title claim published name \<Rightarrow>
          \<lparr>src_message_id = message_id, src_ordinal = ordinal, src_kind = External_url,
           src_ref = ref, src_article_id = None, src_url = Some url, src_title = title,
           src_source_name = name, src_published_at = published, src_evidence_claim = Some claim\<rparr>)"

definition build_source_rows :: "uuid \<Rightarrow> question_result \<Rightarrow> source_row list" where
  "build_source_rows message_id result =
     map (\<lambda>(k, s). source_row_of message_id k s) (enumerate 1 (result_sources result))"

definition complete_run ::
    "run_db \<Rightarrow> uuid \<Rightarrow> int \<Rightarrow> question_result \<Rightarrow> pystr option \<Rightarrow> uuid \<Rightarrow> time
       \<Rightarrow> py_exc + (run_db \<times> run_outcome)" where
  "complete_run db i attempt_epoch result handoff new_message now =
     (case lock_run db i None now of
        None \<Rightarrow> Inr (db, NOT_FOUND)
      | Some lk \<Rightarrow>
          unless_rejected db lk
            (check_attempt_finish (lk_state lk) attempt_epoch [Answering] (lk_now lk))
            (let t = run_thread_id (lk_run lk) in
             case put_messages db (messages db @
                    [(new_message, \<lparr>msg_thread_id = t, msg_seq = next_message_seq db t,
                       msg_role = Assistant_role, msg_content = result_answer result,
                       msg_missing_aspects = result_missing_aspects result\<rparr>)]) of
               Inl e \<Rightarrow> Inl e
             | Inr db1 \<Rightarrow>
                 (case put_sources db1 (sources db1 @ build_source_rows new_message result) of
                    Inl e \<Rightarrow> Inl e
                  | Inr db2 \<Rightarrow>
                      (case finish_run db2 lk Completed None (Some new_message) of
                         Inl e \<Rightarrow> Inl e
                       | Inr (db3, out) \<Rightarrow>
                           Inr (update_thread db3 t (\<lambda>r. r\<lparr>thr_updated_at := lk_now lk,
                                  thr_research_handoff :=
                                    (case handoff of None \<Rightarrow> thr_research_handoff r
                                                   | Some h \<Rightarrow> Some h)\<rparr>), out)))))"

definition record_failure ::
    "run_db \<Rightarrow> uuid \<Rightarrow> int \<Rightarrow> run_error_code \<Rightarrow> time \<Rightarrow> py_exc + (run_db \<times> run_outcome)" where
  "record_failure db i attempt_epoch error_code now =
     (case lock_run db i None now of
        None \<Rightarrow> Inr (db, NOT_FOUND)
      | Some lk \<Rightarrow>
          unless_rejected db lk
            (check_attempt_finish (lk_state lk) attempt_epoch [Preparing, Answering] (lk_now lk))
            (finish_run db lk Failed (Some error_code) None))"

definition record_policy_block :: "run_db \<Rightarrow> uuid \<Rightarrow> int \<Rightarrow> time \<Rightarrow> py_exc + (run_db \<times> run_outcome)" where
  "record_policy_block db i attempt_epoch now =
     (case lock_run db i None now of
        None \<Rightarrow> Inr (db, NOT_FOUND)
      | Some lk \<Rightarrow>
          unless_rejected db lk
            (check_attempt_finish (lk_state lk) attempt_epoch [Preparing, Answering] (lk_now lk))
            (finish_run db lk Policy_blocked None None))"

definition cancel_for_user :: "run_db \<Rightarrow> uuid \<Rightarrow> uuid \<Rightarrow> time \<Rightarrow> py_exc + (run_db \<times> run_outcome)" where
  "cancel_for_user db i user now =
     (case lock_run db i (Some user) now of
        None \<Rightarrow> Inr (db, NOT_FOUND)
      | Some lk \<Rightarrow>
          unless_rejected db lk
            (check_finish (lk_state lk) [Phase_queued, Preparing, Answering] (lk_now lk))
            (finish_run db lk Failed (Some Cancelled) None))"

definition record_enqueue_failure :: "run_db \<Rightarrow> uuid \<Rightarrow> time \<Rightarrow> py_exc + (run_db \<times> run_outcome)" where
  "record_enqueue_failure db i now =
     (case lock_run db i None now of
        None \<Rightarrow> Inr (db, NOT_FOUND)
      | Some lk \<Rightarrow>
          unless_rejected db lk (check_finish (lk_state lk) [Phase_queued] (lk_now lk))
            (finish_run db lk Failed (Some Enqueue_failed) None))"

section \<open>Deleting a thread\<close>

definition delete_thread :: "run_db \<Rightarrow> uuid \<Rightarrow> run_db" where
  "delete_thread db t =
     (let gone = map fst (filter (\<lambda>(i, m). msg_thread_id m = t) (messages db)) in
      db\<lparr>threads := filter (\<lambda>(i, r). i \<noteq> t) (threads db),
         messages := filter (\<lambda>(i, m). msg_thread_id m \<noteq> t) (messages db),
         sources := filter (\<lambda>s. src_message_id s \<notin> set gone) (sources db),
         runs := filter (\<lambda>(i, r). run_thread_id r \<noteq> t) (runs db)\<rparr>)"

definition delete_thread_for_user :: "run_db \<Rightarrow> uuid \<Rightarrow> uuid \<Rightarrow> run_db \<times> bool" where
  "delete_thread_for_user db t user =
     (case map_of (threads db) t of
        None \<Rightarrow> (db, False)
      | Some row \<Rightarrow> if thr_user_id row = user then (delete_thread db t, True) else (db, False))"

end
