(* ===== verification/DeadlineSweep.thy ===== *)
theory DeadlineSweep
  imports RunStore
begin

text \<open>
  The recovery of runs past their deadline
  (\<^verbatim>\<open>agent/running/deadline/deadline_exceeded.py\<close>): the query that selects and locks
  the candidates, the decision after the locks, the update, the batch release of the quotas and
  the result of the sweep.
\<close>

record recovery_candidate =
  cand_run_id :: uuid
  cand_user_id :: uuid
  cand_quota_usage_date :: "int option"
  cand_state :: run_state

record running_deadline_exceeded =
  exceeded_run_id :: uuid
  exceeded_attempt_epoch :: int

definition make_running_deadline_exceeded :: "uuid \<Rightarrow> int \<Rightarrow> py_exc + running_deadline_exceeded" where
  "make_running_deadline_exceeded i attempt_epoch =
     (if attempt_epoch < 1 then Inl ValueError
      else Inr \<lparr>exceeded_run_id = i, exceeded_attempt_epoch = attempt_epoch\<rparr>)"

record sweep_result =
  queued_terminal_count :: int
  queued_quota_released_count :: int
  queued_quota_not_eligible_count :: int
  queued_quota_inconsistent_count :: int
  running_terminal_runs :: "running_deadline_exceeded list"
  running_quota_reservation_count :: int

definition make_sweep_result :: "sweep_result \<Rightarrow> py_exc + sweep_result" where
  "make_sweep_result r =
     (if list_ex (\<lambda>n. n < 0)
           [queued_terminal_count r, queued_quota_released_count r, queued_quota_not_eligible_count r,
            queued_quota_inconsistent_count r, running_quota_reservation_count r]
      then Inl ValueError
      else if queued_quota_released_count r + queued_quota_not_eligible_count r
                + queued_quota_inconsistent_count r \<noteq> queued_terminal_count r
      then Inl ValueError
      else Inr r)"

definition empty_sweep_result :: "py_exc + sweep_result" where
  "empty_sweep_result = make_sweep_result
     \<lparr>queued_terminal_count = 0, queued_quota_released_count = 0,
      queued_quota_not_eligible_count = 0, queued_quota_inconsistent_count = 0,
      running_terminal_runs = [], running_quota_reservation_count = 0\<rparr>"

definition total_count :: "sweep_result \<Rightarrow> int" where
  "total_count r = queued_terminal_count r + int (length (running_terminal_runs r))"

text \<open>The condition of the query; a comparison with \<^verbatim>\<open>NULL\<close> does not select the row.\<close>

definition has_reached_recovery_deadline :: "run_row \<Rightarrow> time \<Rightarrow> bool" where
  "has_reached_recovery_deadline r now \<longleftrightarrow>
     run_status r = Queued \<and> run_deadline_at r \<le> now
     \<or> run_status r = Running \<and> run_answer_started_at r = None \<and> run_deadline_at r \<le> now
     \<or> run_status r = Running \<and>
         (case run_answer_started_at r of
            None \<Rightarrow> False
          | Some t \<Rightarrow> t + answer_generation_recovery_window \<le> now)"

definition lock_runs_for_deadline_recovery ::
    "run_db \<Rightarrow> uuid option \<Rightarrow> uuid option \<Rightarrow> time \<Rightarrow> recovery_candidate list" where
  "lock_runs_for_deadline_recovery db thread_id run_id clock =
     List.map_filter (\<lambda>(i, r).
         if has_reached_recovery_deadline r clock
            \<and> (case thread_id of None \<Rightarrow> True | Some t \<Rightarrow> run_thread_id r = t)
            \<and> (case run_id of None \<Rightarrow> True | Some j \<Rightarrow> i = j)
         then map_option (\<lambda>t. \<lparr>cand_run_id = i, cand_user_id = thr_user_id t,
                cand_quota_usage_date = run_quota_usage_date r, cand_state = state_of_run r\<rparr>)
              (map_of (threads db) (run_thread_id r))
         else None)
       (sort_key fst (runs db))"

definition set_deadline_exceeded :: "uuid list \<Rightarrow> (uuid \<times> run_row) list \<Rightarrow> (uuid \<times> run_row) list" where
  "set_deadline_exceeded ids rs =
     map (\<lambda>(i, r). if i \<in> set ids then (i, r\<lparr>run_status := Deadline_exceeded\<rparr>) else (i, r)) rs"

definition finalize_deadline_exceeded_runs ::
    "run_db \<Rightarrow> recovery_candidate list \<Rightarrow> time \<Rightarrow> py_exc + run_db" where
  "finalize_deadline_exceeded_runs db candidates now =
     (if list_all (\<lambda>c. is_due_for_deadline_recovery (cand_state c) now) candidates
      then put_runs db (set_deadline_exceeded (map cand_run_id candidates) (runs db))
      else Inl RuntimeError)"

definition is_queued_candidate :: "recovery_candidate \<Rightarrow> bool" where
  "is_queued_candidate c \<longleftrightarrow> state_status (cand_state c) = Queued"

fun running_terminals :: "recovery_candidate list \<Rightarrow> py_exc + running_deadline_exceeded list" where
  "running_terminals [] = Inr []"
| "running_terminals (c # cs) =
     (if state_attempt_epoch (cand_state c) > 0 then
        (case make_running_deadline_exceeded (cand_run_id c) (state_attempt_epoch (cand_state c)) of
           Inl e \<Rightarrow> Inl e
         | Inr x \<Rightarrow> map_sum id (\<lambda>xs. x # xs) (running_terminals cs))
      else running_terminals cs)"

definition build_deadline_sweep_result ::
    "recovery_candidate list \<Rightarrow> batch_release \<Rightarrow> py_exc + sweep_result" where
  "build_deadline_sweep_result candidates quota_result =
     (let running = filter (\<lambda>c. state_status (cand_state c) = Running) candidates in
      case running_terminals running of
        Inl e \<Rightarrow> Inl e
      | Inr terminals \<Rightarrow> make_sweep_result
          \<lparr>queued_terminal_count = int (length (filter is_queued_candidate candidates)),
           queued_quota_released_count = released_count quota_result,
           queued_quota_not_eligible_count = not_eligible_count quota_result,
           queued_quota_inconsistent_count = inconsistent_count quota_result,
           running_terminal_runs = terminals,
           running_quota_reservation_count =
             int (length (filter (\<lambda>c. cand_quota_usage_date c \<noteq> None) running))\<rparr>)"

definition quota_reservations_of :: "recovery_candidate list \<Rightarrow> (uuid \<times> int option) list" where
  "quota_reservations_of candidates =
     map (\<lambda>c. (cand_user_id c, cand_quota_usage_date c)) (filter is_queued_candidate candidates)"

text \<open>
  The sweep of all runs, of one thread, or of one run. The query reads the clock when it selects,
  the decision after the locks reads it again.
\<close>

definition recover_deadline_exceeded_runs ::
    "run_db \<Rightarrow> uuid option \<Rightarrow> uuid option \<Rightarrow> time \<Rightarrow> time \<Rightarrow> py_exc + (run_db \<times> sweep_result)" where
  "recover_deadline_exceeded_runs db thread_id run_id clock now =
     (let candidates = lock_runs_for_deadline_recovery db thread_id run_id clock in
      if candidates = [] then map_sum id (\<lambda>r. (db, r)) empty_sweep_result
      else case finalize_deadline_exceeded_runs db candidates now of
        Inl e \<Rightarrow> Inl e
      | Inr db1 \<Rightarrow>
          (case release_daily_quotas (quotas db1) (quota_reservations_of candidates) of
             (quotas', released) \<Rightarrow>
               map_sum id (\<lambda>r. (db1\<lparr>quotas := quotas'\<rparr>, r))
                 (build_deadline_sweep_result candidates released)))"

definition sweep_deadline_exceeded_runs :: "run_db \<Rightarrow> time \<Rightarrow> time \<Rightarrow> py_exc + (run_db \<times> sweep_result)" where
  "sweep_deadline_exceeded_runs db = recover_deadline_exceeded_runs db None None"

definition sweep_deadline_exceeded_runs_for_thread ::
    "run_db \<Rightarrow> uuid \<Rightarrow> time \<Rightarrow> time \<Rightarrow> py_exc + (run_db \<times> sweep_result)" where
  "sweep_deadline_exceeded_runs_for_thread db t = recover_deadline_exceeded_runs db (Some t) None"

definition check_agent_run_deadline ::
    "run_db \<Rightarrow> uuid \<Rightarrow> time \<Rightarrow> time \<Rightarrow> py_exc + (run_db \<times> sweep_result)" where
  "check_agent_run_deadline db i = recover_deadline_exceeded_runs db None (Some i)"

text \<open>
  \<^verbatim>\<open>deadline_check_time\<close> of \<^verbatim>\<open>scheduling.py\<close>: the deadline rounded up to a
  whole second.
\<close>

definition deadline_check_time :: "time \<Rightarrow> time" where
  "deadline_check_time deadline_at =
     (if deadline_at mod 1000000 = 0 then deadline_at
      else deadline_at - deadline_at mod 1000000 + seconds 1)"

section \<open>Candidates\<close>

text \<open>
  The prefilter of the query is the decision of the run state (for a queued run, which has not
  started answering), so a candidate selected at one instant is due at every later one.
\<close>

lemma reached_iff_due:
  assumes "run_status r = Queued \<Longrightarrow> run_answer_started_at r = None"
  shows "has_reached_recovery_deadline r now \<longleftrightarrow> is_due_for_deadline_recovery (state_of_run r) now"
  using assms
  by (cases "run_status r"; cases "run_answer_started_at r")
    (simp_all add: has_reached_recovery_deadline_def is_due_for_deadline_recovery_def state_of_run_def
      phase_finished_iff is_finished_iff recovery_deadline_def)

lemma due_mono: "is_due_for_deadline_recovery s t \<Longrightarrow> t \<le> t' \<Longrightarrow> is_due_for_deadline_recovery s t'"
  by (simp add: is_due_for_deadline_recovery_def)

lemma round_up_second: "(0 :: int) < d mod m \<Longrightarrow> (d - d mod m + m) mod m = 0"
  by (metis add_diff_cancel_right' diff_diff_add minus_mod_eq_mult_div mod_add_self2 mod_mult_self1_is_0)

lemma deadline_check_time_bounds:
  "deadline_at \<le> deadline_check_time deadline_at
   \<and> deadline_check_time deadline_at < deadline_at + seconds 1
   \<and> deadline_check_time deadline_at mod seconds 1 = 0"
proof (cases "deadline_at mod 1000000 = 0")
  case True
  then show ?thesis by (simp add: deadline_check_time_def seconds_def)
next
  case False
  have b: "deadline_at mod 1000000 < 1000000" "0 \<le> deadline_at mod 1000000" by simp_all
  have p: "0 < deadline_at mod 1000000" using b False by linarith
  have e: "deadline_check_time deadline_at = deadline_at - deadline_at mod 1000000 + 1000000"
    using False by (simp add: deadline_check_time_def seconds_def)
  show ?thesis unfolding e seconds_def using round_up_second [OF p] b p by simp
qed

end
