(* ===== verification/RunInvariants.thy ===== *)
theory RunInvariants
  imports DeadlineSweep "HOL-Library.Multiset"
begin

text \<open>
  The invariant of the run database and its preservation: every operation of
  \<^theory_text>\<open>RunStore\<close> and \<^theory_text>\<open>DeadlineSweep\<close> as one step relation, the
  invariant (constraints of the tables, life cycle of a row, coverage of the quota counters), and
  the order in which a row evolves.
\<close>

section \<open>The life cycle of a row\<close>

definition row_ok :: "run_row \<Rightarrow> bool" where
  "row_ok r \<longleftrightarrow> run_deadline_at r = deadline_for_run (run_created_at r)
     \<and> (run_status r = Queued \<longrightarrow> run_attempt_epoch r = 0 \<and> run_quota_usage_date r \<noteq> None)
     \<and> (run_status r = Running \<longrightarrow> run_attempt_epoch r \<ge> 1)
     \<and> (run_status r = Completed \<longrightarrow> run_answer_started_at r \<noteq> None)
     \<and> (\<forall>a. run_answer_started_at r = Some a \<longrightarrow> a < run_deadline_at r \<and> run_attempt_epoch r \<ge> 1)"

text \<open>How a row may differ from an earlier version of itself.\<close>

definition row_le :: "run_row \<Rightarrow> run_row \<Rightarrow> bool" where
  "row_le r r' \<longleftrightarrow> run_thread_id r' = run_thread_id r
     \<and> run_user_message_id r' = run_user_message_id r
     \<and> run_created_at r' = run_created_at r \<and> run_deadline_at r' = run_deadline_at r
     \<and> run_quota_usage_date r' = run_quota_usage_date r
     \<and> run_attempt_epoch r \<le> run_attempt_epoch r'
     \<and> (run_status r \<noteq> Queued \<longrightarrow> run_status r' \<noteq> Queued)
     \<and> (run_answer_started_at r \<noteq> None \<longrightarrow>
          run_answer_started_at r' = run_answer_started_at r \<and> run_attempt_epoch r' = run_attempt_epoch r)
     \<and> (is_finished (run_status r) \<longrightarrow> r' = r)"

lemma row_le_refl [simp]: "row_le r r"
  by (simp add: row_le_def)

lemma row_le_trans: "row_le r s \<Longrightarrow> row_le s t \<Longrightarrow> row_le r t"
  by (auto simp: row_le_def)

section \<open>Updates of one row\<close>

lemma change_row_split:
  assumes "distinct (map fst rs)" "map_of rs i = Some r"
  obtains xs ys where "rs = xs @ (i, r) # ys" "change_row i f rs = xs @ (i, f r) # ys"
    "i \<notin> fst ` set xs" "i \<notin> fst ` set ys"
proof -
  have "(i, r) \<in> set rs" using assms(2) by (rule map_of_SomeD)
  then obtain xs ys where rs: "rs = xs @ (i, r) # ys" by (meson split_list)
  have notin: "i \<notin> fst ` set xs" "i \<notin> fst ` set ys" using assms(1) rs by auto
  have same: "map (\<lambda>(j, r). if j = i then (j, f r) else (j, r)) zs = zs" if "i \<notin> fst ` set zs" for zs
    using that by (induction zs) auto
  have "change_row i f rs = xs @ (i, f r) # ys"
    using notin by (simp add: change_row_def rs same)
  then show ?thesis using that rs notin by blast
qed

lemma change_row_keys [simp]: "map fst (change_row i f rs) = map fst rs"
  by (auto simp: change_row_def)

lemma change_row_key_set [simp]: "fst ` set (change_row i f rs) = fst ` set rs"
  by (metis change_row_keys list.set_map)

lemma map_of_change_row:
  "map_of (change_row i f rs) j = (if j = i then map_option f (map_of rs i) else map_of rs j)"
  by (induction rs) (auto simp: change_row_def)

section \<open>The quota load of the queued runs\<close>

text \<open>
  The reservations that queued runs still hold: the number of queued runs of a user whose quota
  was taken on a date.
\<close>

definition weight :: "(uuid \<times> thread_row) list \<Rightarrow> uuid \<times> int \<Rightarrow> run_row \<Rightarrow> int" where
  "weight ths g r =
     (if run_status r = Queued \<and> run_quota_usage_date r = Some (snd g)
         \<and> map_option thr_user_id (map_of ths (run_thread_id r)) = Some (fst g) then 1 else 0)"

definition load :: "(uuid \<times> thread_row) list \<Rightarrow> (uuid \<times> run_row) list \<Rightarrow> uuid \<times> int \<Rightarrow> int" where
  "load ths rs g = sum_list (map (weight ths g \<circ> snd) rs)"

lemma weight_nonneg: "0 \<le> weight ths g r"
  by (simp add: weight_def)

lemma load_nonneg: "0 \<le> load ths rs g"
  unfolding load_def by (intro sum_list_nonneg) (auto simp: weight_nonneg)

lemma load_append [simp]: "load ths (rs @ rs') g = load ths rs g + load ths rs' g"
  by (simp add: load_def)

lemma load_Cons [simp]: "load ths (x # rs) g = weight ths g (snd x) + load ths rs g"
  by (simp add: load_def)

lemma load_Nil [simp]: "load ths [] g = 0"
  by (simp add: load_def)

lemma load_change_row:
  assumes "distinct (map fst rs)" "map_of rs i = Some r"
  shows "load ths (change_row i f rs) g = load ths rs g - weight ths g r + weight ths g (f r)"
proof -
  obtain xs ys where "rs = xs @ (i, r) # ys" "change_row i f rs = xs @ (i, f r) # ys"
    using change_row_split [OF assms] by metis
  then show ?thesis by simp
qed

lemma load_owner_cong:
  assumes "\<And>i r. (i, r) \<in> set rs \<Longrightarrow> map_option thr_user_id (map_of ths' (run_thread_id r))
      = map_option thr_user_id (map_of ths (run_thread_id r))"
  shows "load ths' rs g = load ths rs g"
proof -
  have "weight ths' g r = weight ths g r" if "(i, r) \<in> set rs" for i r
    by (simp only: weight_def assms [OF that])
  then show ?thesis by (auto simp: load_def intro!: arg_cong [where f = sum_list])
qed

lemma load_change_thread:
  assumes "\<And>t. thr_user_id (f t) = thr_user_id t"
  shows "load (change_row k f ths) rs g = load ths rs g"
  by (rule load_owner_cong) (simp add: map_of_change_row option.map_comp comp_def assms)

lemma weight_finished: "is_finished (run_status r) \<Longrightarrow> weight ths g r = 0"
  by (simp add: weight_def is_finished_iff)

lemma weight_running: "run_status r = Running \<Longrightarrow> weight ths g r = 0"
  by (simp add: weight_def)

section \<open>The invariant\<close>

definition tables_ok :: "run_db \<Rightarrow> bool" where
  "tables_ok db \<longleftrightarrow> distinct (map fst (threads db))
     \<and> messages_constraints (threads db) (messages db)
     \<and> sources_constraints (messages db) (sources db)
     \<and> runs_constraints (threads db) (messages db) (runs db)
     \<and> quota_ok (quotas db)"

definition rows_ok :: "run_db \<Rightarrow> bool" where
  "rows_ok db \<longleftrightarrow> (\<forall>(i, r) \<in> set (runs db). row_ok r)"

definition covered :: "run_db \<Rightarrow> bool" where
  "covered db \<longleftrightarrow> (\<forall>g. load (threads db) (runs db) g \<le> used (quotas db) g)"

definition db_ok :: "run_db \<Rightarrow> bool" where
  "db_ok db \<longleftrightarrow> tables_ok db \<and> rows_ok db \<and> covered db"

text \<open>The identifiers in use have been issued: a new row gets a fresh one.\<close>

definition keys_issued :: "run_db \<Rightarrow> uuid set \<Rightarrow> bool" where
  "keys_issued db ids \<longleftrightarrow> fst ` set (threads db) \<subseteq> ids \<and> fst ` set (messages db) \<subseteq> ids
     \<and> fst ` set (runs db) \<subseteq> ids"

definition db_le :: "run_db \<Rightarrow> uuid set \<Rightarrow> run_db \<Rightarrow> bool" where
  "db_le db ids db' \<longleftrightarrow>
     (\<forall>i \<in> ids. case map_of (runs db') i of
        None \<Rightarrow> True
      | Some r' \<Rightarrow> (\<exists>r. map_of (runs db) i = Some r \<and> row_le r r'))"

lemmas db_ok_defs = db_ok_def tables_ok_def rows_ok_def covered_def

lemma db_okD:
  assumes "db_ok db"
  shows "distinct (map fst (threads db))" "messages_constraints (threads db) (messages db)"
    "sources_constraints (messages db) (sources db)"
    "runs_constraints (threads db) (messages db) (runs db)" "quota_ok (quotas db)"
    "distinct (map fst (runs db))"
    "\<And>g. load (threads db) (runs db) g \<le> used (quotas db) g"
    "\<And>i r. map_of (runs db) i = Some r \<Longrightarrow> row_ok r"
    "\<And>i r. map_of (runs db) i = Some r \<Longrightarrow> run_constraint r"
    "\<And>i r. map_of (runs db) i = Some r \<Longrightarrow> run_thread_id r \<in> fst ` set (threads db)"
  using assms
  by (auto simp: db_ok_defs runs_constraints_def list_all_iff dest!: map_of_SomeD)

lemma db_le_refl: "db_le db ids db"
  by (auto simp: db_le_def split: option.splits)

lemma db_le_trans: "db_le a ids b \<Longrightarrow> db_le b ids' c \<Longrightarrow> ids \<subseteq> ids' \<Longrightarrow> db_le a ids c"
  unfolding db_le_def by (fastforce split: option.splits dest: row_le_trans)

section \<open>Checks\<close>

lemma phase_rejection_reasons:
  "phase_rejection p phases = Inr reason \<Longrightarrow>
   reason = Run_started \<or> reason = Answer_started \<or> reason = Answer_not_started"
  by (auto simp: phase_rejection_def split: sum.splits bool.splits if_splits)

lemma phase_rejection_verdict:
  "map_sum id Some (phase_rejection p phases) \<noteq> Inr (Some Deadline_exceeded_reason)"
  "map_sum id Some (phase_rejection p phases) \<noteq> Inr (Some Run_not_found)"
  "map_sum id Some (phase_rejection p phases) \<noteq> Inr None"
  using phase_rejection_reasons [of p phases] by (cases "phase_rejection p phases"; fastforce)+

lemma check_verdict:
  assumes "check s phases deadline epoch now = Inr verdict" "verdict = None \<or> verdict = Some Deadline_exceeded_reason"
  shows "phase s \<in> set phases \<and> phase s \<noteq> Finished \<and> (verdict = None \<longleftrightarrow> now < deadline)
    \<and> (\<forall>e. epoch = Some e \<longrightarrow> state_status s = Running \<and> state_attempt_epoch s = e)"
proof (cases "phase s = Finished")
  case True
  then show ?thesis using assms by (auto simp: check_def)
next
  case False
  then show ?thesis
    using assms phase_rejection_verdict [of "phase s" phases]
    by (cases epoch) (auto simp: check_def Let_def split: if_splits)
qed

lemmas check_None = check_verdict [where verdict = None, simplified]
lemmas check_deadline = check_verdict [where verdict = "Some Deadline_exceeded_reason", simplified]

lemma check_not_not_found: "check s phases deadline epoch now \<noteq> Inr (Some Run_not_found)"
  using phase_rejection_verdict(2) by (auto simp: check_def Let_def split: option.splits)

lemma make_run_rejected_cases:
  "make_run_rejected reason (Some st) =
     (if reason = Deadline_exceeded_reason \<or> reason = Run_not_found then Inl ValueError
      else Inr \<lparr>rej_reason = reason, rej_observed_status = Some st\<rparr>)"
  by (simp add: make_run_rejected_def)

lemma unless_rejected_cases:
  assumes "unless_rejected db lk verdict accepted = Inr (db', out)"
  obtains (accepted) "verdict = Inr None" "accepted = Inr (db', out)"
  | (deadline) "verdict = Inr (Some Deadline_exceeded_reason)"
      "finish_run db lk Deadline_exceeded None None = Inr (db', out)"
  | (rejected) reason where "verdict = Inr (Some reason)" "reason \<noteq> Deadline_exceeded_reason"
      "reason \<noteq> Run_not_found" "db' = db"
      "out = RunRejected \<lparr>rej_reason = reason, rej_observed_status = Some (state_status (lk_state lk))\<rparr>"
proof (cases verdict)
  case (Inl e)
  then show ?thesis using assms by (simp add: unless_rejected_def)
next
  case (Inr v)
  show ?thesis
  proof (cases v)
    case None
    then show ?thesis using assms Inr by (simp add: unless_rejected_def accepted)
  next
    case (Some reason)
    show ?thesis
    proof (cases "reason = Deadline_exceeded_reason")
      case True
      then show ?thesis using assms Inr Some by (simp add: unless_rejected_def deadline)
    next
      case False
      then show ?thesis using assms Inr Some rejected
        by (simp add: unless_rejected_def make_run_rejected_cases split: if_splits)
    qed
  qed
qed

lemma lock_runD:
  assumes "lock_run db i owner now = Some lk"
  shows "lk_id lk = i" "map_of (runs db) i = Some (lk_run lk)" "lk_state lk = state_of_run (lk_run lk)"
    "lk_now lk = now" "map_option thr_user_id (map_of (threads db) (run_thread_id (lk_run lk))) = Some (lk_user lk)"
    "\<And>u. owner = Some u \<Longrightarrow> u = lk_user lk"
proof -
  obtain r where r: "map_of (runs db) i = Some r"
    using assms by (cases "map_of (runs db) i") (simp_all add: lock_run_def)
  obtain t where t: "map_of (threads db) (run_thread_id r) = Some t"
    using assms r by (cases "map_of (threads db) (run_thread_id r)") (simp_all add: lock_run_def)
  have lk: "lk = \<lparr>lk_id = i, lk_run = r, lk_user = thr_user_id t, lk_state = state_of_run r, lk_now = now\<rparr>"
    and u: "\<And>u. owner = Some u \<Longrightarrow> u = thr_user_id t"
    using assms r t by (auto simp: lock_run_def split: if_splits)
  show "lk_id lk = i" "map_of (runs db) i = Some (lk_run lk)" "lk_state lk = state_of_run (lk_run lk)"
    "lk_now lk = now" "map_option thr_user_id (map_of (threads db) (run_thread_id (lk_run lk))) = Some (lk_user lk)"
    "\<And>u. owner = Some u \<Longrightarrow> u = lk_user lk"
    using r t u by (simp_all add: lk)
qed

lemma state_of_run_simps [simp]:
  "state_status (state_of_run r) = run_status r" "state_attempt_epoch (state_of_run r) = run_attempt_epoch r"
  "state_deadline_at (state_of_run r) = run_deadline_at r"
  "state_answer_started_at (state_of_run r) = run_answer_started_at r"
  by (simp_all add: state_of_run_def)

section \<open>Effects of the writes\<close>

lemma put_runsD: "put_runs db rs = Inr db' \<Longrightarrow>
    db' = db\<lparr>runs := rs\<rparr> \<and> runs_constraints (threads db) (messages db) rs"
  by (auto simp: put_runs_def split: if_splits)

lemma put_messagesD: "put_messages db ms = Inr db' \<Longrightarrow>
    db' = db\<lparr>messages := ms\<rparr> \<and> messages_constraints (threads db) ms"
  by (auto simp: put_messages_def split: if_splits)

lemma put_sourcesD: "put_sources db ss = Inr db' \<Longrightarrow>
    db' = db\<lparr>sources := ss\<rparr> \<and> sources_constraints (messages db) ss"
  by (auto simp: put_sources_def split: if_splits)

lemma rows_ok_change_row:
  assumes "rows_ok db" "\<And>r. map_of (runs db) i = Some r \<Longrightarrow> row_ok (f r)" "distinct (map fst (runs db))"
  shows "rows_ok (db\<lparr>runs := change_row i f (runs db)\<rparr>)"
proof -
  have "row_ok (f r)" if "(i, r) \<in> set (runs db)" for r
    using assms(2) [OF map_of_is_SomeI [OF assms(3) that]] .
  then show ?thesis using assms(1) by (auto simp: rows_ok_def change_row_def split: if_splits)
qed

lemma update_run_ok:
  assumes "db_ok db" "map_of (runs db) i = Some r" "update_run db i f = Inr db'"
    and "row_ok (f r)" "\<And>g. weight (threads db) g (f r) \<le> weight (threads db) g r"
  shows "db_ok db'" "db' = db\<lparr>runs := change_row i f (runs db)\<rparr>"
proof -
  have put: "db' = db\<lparr>runs := change_row i f (runs db)\<rparr>"
    "runs_constraints (threads db) (messages db) (change_row i f (runs db))"
    using put_runsD assms(3) unfolding update_run_def by blast+
  have "load (threads db) (change_row i f (runs db)) g \<le> used (quotas db) g" for g
    using load_change_row [OF db_okD(6) [OF assms(1)] assms(2), of "threads db" f g] assms(5) [of g]
      db_okD(7) [OF assms(1), of g] by linarith
  moreover have "rows_ok (db\<lparr>runs := change_row i f (runs db)\<rparr>)"
    using assms by (intro rows_ok_change_row) (auto simp: db_ok_def db_okD(6))
  ultimately show "db_ok db'" using put db_okD [OF assms(1)]
    by (simp add: db_ok_def tables_ok_def covered_def)
  show "db' = db\<lparr>runs := change_row i f (runs db)\<rparr>" by (rule put(1))
qed

lemma message_in_thread_append:
  "message_in_thread ms t i \<Longrightarrow> message_in_thread (ms @ ms') t i"
  by (auto simp: message_in_thread_def map_add_def split: option.splits)

lemma runs_constraints_more_messages:
  "runs_constraints ths ms rs \<Longrightarrow> runs_constraints ths (ms @ ms') rs"
  unfolding runs_constraints_def list_all_iff
  by (fastforce intro: message_in_thread_append split: option.splits)

lemma sources_constraints_mono:
  "sources_constraints ms ss \<Longrightarrow> fst ` set ms \<subseteq> fst ` set ms' \<Longrightarrow> sources_constraints ms' ss"
  by (auto simp: sources_constraints_def list_all_iff)

lemma put_messages_ok:
  assumes "db_ok db" "put_messages db (messages db @ ms) = Inr db'"
  shows "db_ok db'" "db' = db\<lparr>messages := messages db @ ms\<rparr>"
proof -
  note put = put_messagesD [OF assms(2)]
  then show "db' = db\<lparr>messages := messages db @ ms\<rparr>" by simp
  have "sources_constraints (messages db @ ms) (sources db)"
    by (rule sources_constraints_mono [OF db_okD(3) [OF assms(1)]]) auto
  moreover have "runs_constraints (threads db) (messages db @ ms) (runs db)"
    using runs_constraints_more_messages db_okD(4) [OF assms(1)] by blast
  ultimately show "db_ok db'" using put assms(1)
    by (simp add: db_ok_def tables_ok_def covered_def rows_ok_def)
qed

lemma put_sources_ok:
  assumes "db_ok db" "put_sources db ss = Inr db'"
  shows "db_ok db'" "db' = db\<lparr>sources := ss\<rparr>"
  using assms put_sourcesD [OF assms(2)] by (simp_all add: db_ok_def tables_ok_def covered_def rows_ok_def)

section \<open>Finishing a run\<close>

abbreviation finished_row ::
    "run_status \<Rightarrow> run_error_code option \<Rightarrow> uuid option \<Rightarrow> run_row \<Rightarrow> run_row" where
  "finished_row status error_code m r \<equiv> r\<lparr>run_status := status,
     run_error_code := (case error_code of None \<Rightarrow> run_error_code r | Some e \<Rightarrow> Some e),
     run_assistant_message_id := (case m of None \<Rightarrow> run_assistant_message_id r | Some x \<Rightarrow> Some x)\<rparr>"

text \<open>The run that an operation locked, as a row of the database.\<close>

definition locked :: "run_db \<Rightarrow> locked_run \<Rightarrow> bool" where
  "locked db lk \<longleftrightarrow> map_of (runs db) (lk_id lk) = Some (lk_run lk)
     \<and> lk_state lk = state_of_run (lk_run lk)
     \<and> map_option thr_user_id (map_of (threads db) (run_thread_id (lk_run lk))) = Some (lk_user lk)"

lemma lock_run_locked: "lock_run db i owner now = Some lk \<Longrightarrow> locked db lk"
  unfolding locked_def using lock_runD [of db i owner now lk] by simp

lemma queued_phase: "phase (state_of_run r) = Phase_queued \<longleftrightarrow> run_status r = Queued"
  by (simp add: phase_queued_iff)

definition finish_summary :: "locked_run \<Rightarrow> run_status \<Rightarrow> run_error_code option \<Rightarrow> run_finished" where
  "finish_summary lk status error_code =
     \<lparr>fin_status = status, fin_error_code = error_code,
      fin_quota_release_outcome =
        (if run_status (lk_run lk) = Queued then Released else Not_eligible),
      fin_running_attempt_epoch =
        (if run_status (lk_run lk) = Queued then None else Some (run_attempt_epoch (lk_run lk)))\<rparr>"

text \<open>
  A finish of a queued run gives its quota back, a finish of a started one keeps it: the counters
  stay above the load of the queued runs, and the release is never inconsistent.
\<close>

lemma finish_release:
  assumes "db_ok db" "locked db lk" "run_status (lk_run lk) = Queued"
    and "db1 = db\<lparr>runs := change_row (lk_id lk) f (runs db)\<rparr>" "db_ok db1"
    and "\<And>g. weight (threads db) g (f (lk_run lk)) = 0"
    and "release_daily_quota (quotas db1) (lk_user lk) (run_quota_usage_date (lk_run lk)) = (q, rel)"
  shows "rel = Released" "db_ok (db1\<lparr>quotas := q\<rparr>)"
proof -
  have row: "map_of (runs db) (lk_id lk) = Some (lk_run lk)" using assms(2) by (simp add: locked_def)
  have "row_ok (lk_run lk)" using db_okD(8) [OF assms(1) row] .
  then obtain d where d: "run_quota_usage_date (lk_run lk) = Some d"
    using assms(3) by (auto simp: row_ok_def)
  have w: "weight (threads db) g (lk_run lk) = (if g = (lk_user lk, d) then 1 else 0)" for g
    using assms(2,3) d by (cases g) (auto simp: weight_def locked_def)
  have l: "load (threads db) (runs db1) g = load (threads db) (runs db) g - (if g = (lk_user lk, d) then 1 else 0)" for g
    using load_change_row [OF db_okD(6) [OF assms(1)] row, of "threads db" f g] assms(4,6) w by simp
  have cover: "load (threads db) (runs db) g \<le> used (quotas db) g" for g by (rule db_okD(7) [OF assms(1)])
  have u: "0 < used (quotas db) (lk_user lk, d)"
    using cover [of "(lk_user lk, d)"] l [of "(lk_user lk, d)"] load_nonneg [of "threads db" "runs db1" "(lk_user lk, d)"]
    by simp
  have q: "quotas db1 = quotas db" using assms(4) by simp
  have rel': "release_daily_quota (quotas db) (lk_user lk) (Some d) = (q, rel)" using assms(7) q d by simp
  note res = release_result [OF rel' db_okD(5) [OF assms(1)]]
  show "rel = Released" using res(2) [OF u] by blast
  have "load (threads db) (runs db1) g \<le> used q g" for g
    using res(2) [OF u] l [of g] cover [of g] by (cases "g = (lk_user lk, d)") auto
  then show "db_ok (db1\<lparr>quotas := q\<rparr>)"
    using assms(4,5) res(1) by (simp add: db_ok_def tables_ok_def rows_ok_def covered_def)
qed

lemma finish_run_result:
  assumes "db_ok db" "locked db lk" "\<not> is_finished (run_status (lk_run lk))" "is_finished status"
    and "status = Completed \<Longrightarrow> run_answer_started_at (lk_run lk) \<noteq> None"
    and "finish_run db lk status error_code m = Inr (db', out)"
  shows "db_ok db'" "runs db' = change_row (lk_id lk) (finished_row status error_code m) (runs db)"
    "threads db' = threads db" "messages db' = messages db" "sources db' = sources db"
    "out = RunFinished (finish_summary lk status error_code)"
proof -
  let ?f = "finished_row status error_code m"
  have row: "map_of (runs db) (lk_id lk) = Some (lk_run lk)" and st: "lk_state lk = state_of_run (lk_run lk)"
    using assms(2) by (simp_all add: locked_def)
  obtain db1 where up: "update_run db (lk_id lk) ?f = Inr db1"
    using assms(6) by (cases "update_run db (lk_id lk) ?f") (simp_all add: finish_run_def)
  have ok: "row_ok (?f (lk_run lk))"
    using db_okD(8) [OF assms(1) row] assms(3-5) by (auto simp: row_ok_def is_finished_iff)
  have w0: "weight (threads db) g (?f (lk_run lk)) = 0" for g using assms(4) by (simp add: weight_finished)
  have db1: "db_ok db1" "db1 = db\<lparr>runs := change_row (lk_id lk) ?f (runs db)\<rparr>"
    using update_run_ok [OF assms(1) row up ok] by (simp_all add: w0 weight_nonneg)
  show "db_ok db'" "runs db' = change_row (lk_id lk) ?f (runs db)"
    "threads db' = threads db" "messages db' = messages db" "sources db' = sources db"
    "out = RunFinished (finish_summary lk status error_code)"
  proof -
    have "db_ok db' \<and> (\<exists>q. db' = db1\<lparr>quotas := q\<rparr>) \<and> out = RunFinished (finish_summary lk status error_code)"
    proof (cases "run_status (lk_run lk) = Queued")
      case True
      obtain q rel where r: "release_daily_quota (quotas db1) (lk_user lk) (run_quota_usage_date (lk_run lk)) = (q, rel)"
        by fastforce
      note fr = finish_release [OF assms(1,2) True db1(2,1) w0 r]
      show ?thesis using assms(6) up r fr True
        by (auto simp: finish_run_def st queued_phase make_run_finished_def finish_summary_def Let_def
            split: if_splits)
    next
      case False
      then have "db' = db1 \<and> out = RunFinished (finish_summary lk status error_code)"
        using assms(6) up
        by (auto simp: finish_run_def st queued_phase make_run_finished_def finish_summary_def Let_def
            split: if_splits)
      moreover have "db1 = db1\<lparr>quotas := quotas db1\<rparr>" by simp
      ultimately show ?thesis using db1(1) by metis
    qed
    then show "db_ok db'" "runs db' = change_row (lk_id lk) ?f (runs db)"
      "threads db' = threads db" "messages db' = messages db" "sources db' = sources db"
      "out = RunFinished (finish_summary lk status error_code)"
      using db1(2) by auto
  qed
qed

lemma finished_row_le: "\<not> is_finished (run_status r) \<Longrightarrow> is_finished status \<Longrightarrow>
    row_le r (finished_row status error_code m r)"
  by (auto simp: row_le_def is_finished_iff)

section \<open>The operations on one run\<close>

text \<open>The operations of the repository as a data type, so that a schedule is a list of them.\<close>

datatype run_operation =
    StartAttempt
  | CheckContinuation int
  | StartAnswerGeneration int
  | AuthorizeAnswerRegeneration int
  | CompleteRun int question_result "pystr option" uuid
  | RecordFailure int run_error_code
  | RecordPolicyBlock int
  | CancelForUser uuid
  | RecordEnqueueFailure

fun perform :: "run_db \<Rightarrow> uuid \<Rightarrow> run_operation \<Rightarrow> time \<Rightarrow> py_exc + (run_db \<times> run_outcome)" where
  "perform db i StartAttempt now = start_attempt db i now"
| "perform db i (CheckContinuation e) now = check_continuation db i e now"
| "perform db i (StartAnswerGeneration e) now = start_answer_generation db i e now"
| "perform db i (AuthorizeAnswerRegeneration e) now = authorize_answer_regeneration db i e now"
| "perform db i (CompleteRun e result handoff m) now = complete_run db i e result handoff m now"
| "perform db i (RecordFailure e code) now = record_failure db i e code now"
| "perform db i (RecordPolicyBlock e) now = record_policy_block db i e now"
| "perform db i (CancelForUser u) now = cancel_for_user db i u now"
| "perform db i RecordEnqueueFailure now = record_enqueue_failure db i now"

text \<open>The attempt an operation belongs to, where it belongs to one, and the message it adds.\<close>

fun operation_epoch :: "run_operation \<Rightarrow> int option" where
  "operation_epoch StartAttempt = None"
| "operation_epoch (CheckContinuation e) = Some e"
| "operation_epoch (StartAnswerGeneration e) = Some e"
| "operation_epoch (AuthorizeAnswerRegeneration e) = Some e"
| "operation_epoch (CompleteRun e result handoff m) = Some e"
| "operation_epoch (RecordFailure e code) = Some e"
| "operation_epoch (RecordPolicyBlock e) = Some e"
| "operation_epoch (CancelForUser u) = None"
| "operation_epoch RecordEnqueueFailure = None"

fun new_messages :: "run_operation \<Rightarrow> uuid list" where
  "new_messages (CompleteRun e result handoff m) = [m]"
| "new_messages _ = []"

definition run_effect :: "run_db \<Rightarrow> uuid \<Rightarrow> uuid list \<Rightarrow> run_db \<Rightarrow> bool" where
  "run_effect db i new db' \<longleftrightarrow> db_ok db'
     \<and> (\<exists>f. runs db' = change_row i f (runs db) \<and> (\<forall>r. map_of (runs db) i = Some r \<longrightarrow> row_le r (f r)))
     \<and> fst ` set (threads db') = fst ` set (threads db)
     \<and> fst ` set (messages db') \<subseteq> fst ` set (messages db) \<union> set new"

lemma run_effect_refl: "db_ok db \<Longrightarrow> run_effect db i new db"
proof -
  assume "db_ok db"
  moreover have "change_row i id (runs db) = runs db"
    unfolding change_row_def by (rule map_idI) auto
  ultimately show ?thesis by (auto simp: run_effect_def intro!: exI [of _ id])
qed

lemma finish_run_effect:
  assumes "db_ok db" "locked db lk" "\<not> is_finished (run_status (lk_run lk))" "is_finished status"
    and "status = Completed \<Longrightarrow> run_answer_started_at (lk_run lk) \<noteq> None"
    and "finish_run db lk status error_code m = Inr (db', out)"
  shows "run_effect db (lk_id lk) new db'"
  using finish_run_result [OF assms] assms(2) finished_row_le [OF assms(3,4)]
  by (auto simp: run_effect_def locked_def)

lemma guarded_effect:
  assumes "db_ok db" "lock_run db i owner now = Some lk"
    and "unless_rejected db lk (check (lk_state lk) phases deadline epoch n) acc = Inr (db', out)"
    and "\<lbrakk>check (lk_state lk) phases deadline epoch n = Inr None; acc = Inr (db', out);
          \<not> is_finished (run_status (lk_run lk)); phase (lk_state lk) \<in> set phases\<rbrakk> \<Longrightarrow> run_effect db i new db'"
  shows "run_effect db i new db'"
  using assms(3)
proof (cases rule: unless_rejected_cases)
  case accepted
  then have "phase (lk_state lk) \<noteq> Finished" "phase (lk_state lk) \<in> set phases"
    using check_None by blast+
  then show ?thesis using assms(4) accepted lock_runD(3) [OF assms(2)] by (simp add: phase_finished_iff)
next
  case deadline
  then have "phase (lk_state lk) \<noteq> Finished" using check_deadline by blast
  then have "\<not> is_finished (run_status (lk_run lk))"
    using lock_runD(3) [OF assms(2)] by (simp add: phase_finished_iff)
  then show ?thesis
    using finish_run_effect [OF assms(1) lock_run_locked [OF assms(2)] _ _ _ deadline(2)]
      lock_runD(1) [OF assms(2)] by (simp add: is_finished_iff)
next
  case (rejected reason)
  then show ?thesis using run_effect_refl [OF assms(1)] by simp
qed

lemma update_thread_ok:
  assumes "db_ok db" "\<And>t. thr_user_id (f t) = thr_user_id t"
  shows "db_ok (update_thread db k f)"
  using assms(1) load_change_thread [of f k "threads db" "runs db", OF assms(2)]
  by (simp add: db_ok_def tables_ok_def rows_ok_def covered_def update_thread_def
      messages_constraints_def runs_constraints_def)

lemma update_run_effect:
  assumes "db_ok db" "locked db lk" "update_run db (lk_id lk) f = Inr db'"
    and "row_ok (f (lk_run lk))" "row_le (lk_run lk) (f (lk_run lk))"
    and "\<And>g. weight (threads db) g (f (lk_run lk)) \<le> weight (threads db) g (lk_run lk)"
  shows "run_effect db (lk_id lk) new db'"
  using update_run_ok [OF assms(1) _ assms(3,4,6)] assms(2,5) by (auto simp: run_effect_def locked_def)

lemma start_attempt_effect:
  assumes "db_ok db" "start_attempt db i now = Inr (db', out)"
  shows "run_effect db i new db'"
proof (cases "lock_run db i None now")
  case None
  then show ?thesis using assms run_effect_refl by (simp add: start_attempt_def)
next
  case (Some lk)
  note lock = lock_runD [OF Some]
  have ok: "row_ok (lk_run lk)" using db_okD(8) [OF assms(1) lock(2)] .
  have "unless_rejected db lk (check (lk_state lk) STARTABLE_PHASES (state_deadline_at (lk_state lk)) None (lk_now lk))
      (let epoch = run_attempt_epoch (lk_run lk) + 1 in
             case update_run db i (\<lambda>r. r\<lparr>run_status := Running, run_attempt_epoch := epoch\<rparr>) of
               Inl e \<Rightarrow> Inl e
             | Inr db' \<Rightarrow> map_sum id (\<lambda>o'. (db', o')) (make_attempt_started epoch)) = Inr (db', out)"
    using assms(2) Some by (simp add: start_attempt_def check_start_def)
  then show ?thesis
  proof (rule guarded_effect [OF assms(1) Some])
    let ?f = "\<lambda>r. r\<lparr>run_status := Running, run_attempt_epoch := run_attempt_epoch (lk_run lk) + 1\<rparr>"
    assume acc: "(let epoch = run_attempt_epoch (lk_run lk) + 1 in
             case update_run db i (\<lambda>r. r\<lparr>run_status := Running, run_attempt_epoch := epoch\<rparr>) of
               Inl e \<Rightarrow> Inl e
             | Inr db' \<Rightarrow> map_sum id (\<lambda>o'. (db', o')) (make_attempt_started epoch)) = Inr (db', out)"
      and p: "phase (lk_state lk) \<in> set STARTABLE_PHASES" and nf: "\<not> is_finished (run_status (lk_run lk))"
    have up: "update_run db (lk_id lk) ?f = Inr db'"
      using acc by (cases "update_run db i ?f")
        (auto simp: Let_def lock(1) make_attempt_started_def split: if_splits)
    have no_answer: "run_answer_started_at (lk_run lk) = None"
      using p ok nf by (auto simp: STARTABLE_PHASES_def lock(3) phase_preparing_iff queued_phase row_ok_def)
    have epoch: "0 \<le> run_attempt_epoch (lk_run lk)"
      using db_okD(9) [OF assms(1) lock(2)] by (simp add: run_constraint_def)
    have "run_effect db (lk_id lk) new db'"
      by (rule update_run_effect [OF assms(1) lock_run_locked [OF Some] up])
        (use ok nf no_answer epoch in \<open>auto simp: row_ok_def row_le_def is_finished_iff weight_running weight_nonneg\<close>)
    then show "run_effect db i new db'" by (simp add: lock(1))
  qed
qed

lemma check_continuation_effect:
  assumes "db_ok db" "check_continuation db i e now = Inr (db', out)"
  shows "run_effect db i new db'"
proof (cases "lock_run db i None now")
  case None
  then show ?thesis using assms run_effect_refl by (simp add: check_continuation_def)
next
  case (Some lk)
  have "unless_rejected db lk (check (lk_state lk) [Preparing, Answering] (state_deadline_at (lk_state lk)) (Some e)
      (lk_now lk)) (Inr (db, Continues)) = Inr (db', out)"
    using assms(2) Some by (simp add: check_continuation_def check_progress_def)
  then show ?thesis
    by (rule guarded_effect [OF assms(1) Some]) (use run_effect_refl [OF assms(1)] in auto)
qed

lemma authorize_answer_regeneration_effect:
  assumes "db_ok db" "authorize_answer_regeneration db i e now = Inr (db', out)"
  shows "run_effect db i new db'"
proof (cases "lock_run db i None now")
  case None
  then show ?thesis using assms run_effect_refl by (simp add: authorize_answer_regeneration_def)
next
  case (Some lk)
  have "unless_rejected db lk (check (lk_state lk) [Answering] (state_deadline_at (lk_state lk)) (Some e)
      (lk_now lk)) (Inr (db, Continues)) = Inr (db', out)"
    using assms(2) Some by (simp add: authorize_answer_regeneration_def check_progress_def)
  then show ?thesis
    by (rule guarded_effect [OF assms(1) Some]) (use run_effect_refl [OF assms(1)] in auto)
qed

lemma start_answer_generation_effect:
  assumes "db_ok db" "start_answer_generation db i e now = Inr (db', out)"
  shows "run_effect db i new db'"
proof (cases "lock_run db i None now")
  case None
  then show ?thesis using assms run_effect_refl by (simp add: start_answer_generation_def)
next
  case (Some lk)
  note lock = lock_runD [OF Some]
  have ok: "row_ok (lk_run lk)" using db_okD(8) [OF assms(1) lock(2)] .
  let ?f = "\<lambda>r. r\<lparr>run_answer_started_at := Some (lk_now lk)\<rparr>"
  have "unless_rejected db lk (check (lk_state lk) [Preparing] (state_deadline_at (lk_state lk)) (Some e) (lk_now lk))
      (case update_run db i ?f of Inl e \<Rightarrow> Inl e
       | Inr db' \<Rightarrow> Inr (db', AnswerGenerationStarted i (lk_now lk))) = Inr (db', out)"
    using assms(2) Some by (simp add: start_answer_generation_def check_progress_def)
  then show ?thesis
  proof (rule guarded_effect [OF assms(1) Some])
    assume acc: "(case update_run db i ?f of Inl e \<Rightarrow> Inl e
        | Inr db' \<Rightarrow> Inr (db', AnswerGenerationStarted i (lk_now lk))) = Inr (db', out)"
      and p: "phase (lk_state lk) \<in> set [Preparing]"
      and chk: "check (lk_state lk) [Preparing] (state_deadline_at (lk_state lk)) (Some e) (lk_now lk) = Inr None"
    have up: "update_run db (lk_id lk) ?f = Inr db'"
      using acc by (cases "update_run db i ?f") (auto simp: lock(1))
    have st: "run_status (lk_run lk) = Running" "run_answer_started_at (lk_run lk) = None"
      using p by (simp_all add: lock(3) phase_preparing_iff)
    have dl: "lk_now lk < run_deadline_at (lk_run lk)" using check_None [OF chk] by (simp add: lock(3))
    have "run_effect db (lk_id lk) new db'"
      by (rule update_run_effect [OF assms(1) lock_run_locked [OF Some] up])
        (use ok st dl in \<open>auto simp: row_ok_def row_le_def is_finished_iff weight_running weight_nonneg\<close>)
    then show "run_effect db i new db'" by (simp add: lock(1))
  qed
qed

lemma complete_run_effect:
  assumes "db_ok db" "complete_run db i e result handoff m now = Inr (db', out)"
  shows "run_effect db i [m] db'"
proof (cases "lock_run db i None now")
  case None
  then show ?thesis using assms run_effect_refl by (simp add: complete_run_def)
next
  case (Some lk)
  note lock = lock_runD [OF Some]
  let ?acc = "let t = run_thread_id (lk_run lk) in
             case put_messages db (messages db @
                    [(m, \<lparr>msg_thread_id = t, msg_seq = next_message_seq db t,
                       msg_role = Assistant_role, msg_content = result_answer result,
                       msg_missing_aspects = result_missing_aspects result\<rparr>)]) of
               Inl e \<Rightarrow> Inl e
             | Inr db1 \<Rightarrow>
                 (case put_sources db1 (sources db1 @ build_source_rows m result) of
                    Inl e \<Rightarrow> Inl e
                  | Inr db2 \<Rightarrow>
                      (case finish_run db2 lk Completed None (Some m) of
                         Inl e \<Rightarrow> Inl e
                       | Inr (db3, out) \<Rightarrow>
                           Inr (update_thread db3 t (\<lambda>r. r\<lparr>thr_updated_at := lk_now lk,
                                  thr_research_handoff :=
                                    (case handoff of None \<Rightarrow> thr_research_handoff r
                                                   | Some h \<Rightarrow> Some h)\<rparr>), out)))"
  have "unless_rejected db lk (check (lk_state lk) [Answering] (recovery_deadline (lk_state lk)) (Some e) (lk_now lk))
      ?acc = Inr (db', out)"
    using assms(2) Some by (simp add: complete_run_def check_attempt_finish_def)
  then show ?thesis
  proof (rule guarded_effect [OF assms(1) Some])
    assume acc: "?acc = Inr (db', out)" and p: "phase (lk_state lk) \<in> set [Answering]"
      and nf: "\<not> is_finished (run_status (lk_run lk))"
    obtain db1 where m1: "put_messages db (messages db @
                    [(m, \<lparr>msg_thread_id = run_thread_id (lk_run lk), msg_seq = next_message_seq db (run_thread_id (lk_run lk)),
                       msg_role = Assistant_role, msg_content = result_answer result,
                       msg_missing_aspects = result_missing_aspects result\<rparr>)]) = Inr db1"
      using acc by (auto simp: Let_def split: sum.splits)
    obtain db2 where m2: "put_sources db1 (sources db1 @ build_source_rows m result) = Inr db2"
      using acc m1 by (auto simp: Let_def split: sum.splits)
    obtain db3 where m3: "finish_run db2 lk Completed None (Some m) = Inr (db3, out)"
      and m4: "db' = update_thread db3 (run_thread_id (lk_run lk)) (\<lambda>r. r\<lparr>thr_updated_at := lk_now lk,
                                  thr_research_handoff :=
                                    (case handoff of None \<Rightarrow> thr_research_handoff r
                                                   | Some h \<Rightarrow> Some h)\<rparr>)"
      using acc m1 m2 by (auto simp: Let_def split: sum.splits)
    note p1 = put_messages_ok [OF assms(1) m1] and p2 = put_sources_ok [OF put_messages_ok(1) [OF assms(1) m1] m2]
    have lk2: "locked db2 lk" using lock_run_locked [OF Some] p1(2) p2(2) by (simp add: locked_def)
    have answered: "run_answer_started_at (lk_run lk) \<noteq> None"
      using p by (simp add: lock(3) phase_answering_iff)
    note fr = finish_run_result [OF p2(1) lk2 nf _ answered m3]
    have "db_ok db'" unfolding m4 by (rule update_thread_ok) (use fr(1) in \<open>auto simp: is_finished_iff\<close>)
    then show "run_effect db i [m] db'"
      using fr(2-5) p1(2) p2(2) lock(1,2) finished_row_le [OF nf, where status = Completed and m = "Some m" and error_code = None]
      by (auto simp: run_effect_def m4 update_thread_def is_finished_iff)
  qed
qed

text \<open>The operations that only finish the run.\<close>

lemma finishing_effect:
  assumes "db_ok db" "lock_run db i owner now = Some lk"
    and "unless_rejected db lk (check (lk_state lk) phases deadline epoch n) (finish_run db lk status code None)
      = Inr (db', out)"
    and "is_finished status" "status \<noteq> Completed"
  shows "run_effect db i new db'"
  using assms(3)
proof (rule guarded_effect [OF assms(1,2)])
  assume "finish_run db lk status code None = Inr (db', out)" and "\<not> is_finished (run_status (lk_run lk))"
  then have "run_effect db (lk_id lk) new db'"
    using finish_run_effect [OF assms(1) lock_run_locked [OF assms(2)]] assms(4,5) by blast
  then show "run_effect db i new db'" by (simp add: lock_runD(1) [OF assms(2)])
qed

lemma finishing_case:
  assumes "db_ok db"
    and "(case lock_run db i owner now of None \<Rightarrow> Inr (db, NOT_FOUND)
      | Some lk \<Rightarrow> unless_rejected db lk
          (check (lk_state lk) phases (recovery_deadline (lk_state lk)) epoch (lk_now lk))
          (finish_run db lk status code None)) = Inr (db', out)"
    and "is_finished status" "status \<noteq> Completed"
  shows "run_effect db i new db'"
proof (cases "lock_run db i owner now")
  case None
  then show ?thesis using assms(2) run_effect_refl [OF assms(1)] by simp
next
  case (Some lk)
  then show ?thesis using assms(2) finishing_effect [OF assms(1) Some _ assms(3,4)] by simp
qed

lemma finishing_operations_effect:
  assumes "db_ok db"
  shows "record_failure db i e code now = Inr (db', out) \<Longrightarrow> run_effect db i new db'"
    and "record_policy_block db i e now = Inr (db', out) \<Longrightarrow> run_effect db i new db'"
    and "cancel_for_user db i u now = Inr (db', out) \<Longrightarrow> run_effect db i new db'"
    and "record_enqueue_failure db i now = Inr (db', out) \<Longrightarrow> run_effect db i new db'"
  unfolding record_failure_def record_policy_block_def cancel_for_user_def record_enqueue_failure_def
    check_attempt_finish_def check_finish_def
  by (erule finishing_case [OF assms]; simp add: is_finished_iff)+

lemma perform_effect:
  assumes "db_ok db" "perform db i op now = Inr (db', out)"
  shows "run_effect db i (new_messages op) db'"
  using assms(2)
  by (cases op) (auto intro: start_attempt_effect [OF assms(1)] check_continuation_effect [OF assms(1)]
      start_answer_generation_effect [OF assms(1)] authorize_answer_regeneration_effect [OF assms(1)]
      complete_run_effect [OF assms(1)] finishing_operations_effect [OF assms(1)])

section \<open>Creation\<close>

lemma insert_thread_ok:
  assumes "db_ok db" "insert_thread db t row = Inr db'"
  shows "db_ok db'" "db' = db\<lparr>threads := threads db @ [(t, row)]\<rparr>" "t \<notin> fst ` set (threads db)"
proof -
  show new: "db' = db\<lparr>threads := threads db @ [(t, row)]\<rparr>" and fresh: "t \<notin> fst ` set (threads db)"
    using assms(2) by (auto simp: insert_thread_def split: if_splits)
  have sub: "fst ` set (threads db) \<subseteq> fst ` set (threads db')" using new by auto
  have same: "map_of (threads db') k = map_of (threads db) k" if "k \<in> fst ` set (threads db)" for k
    using that fresh new by (auto simp: map_add_def split: option.splits)
  have run_thread: "run_thread_id r \<in> fst ` set (threads db)" if "(i, r) \<in> set (runs db)" for i r
    using db_okD(10) [OF assms(1) map_of_is_SomeI [OF db_okD(6) [OF assms(1)] that]] .
  have "load (threads db') (runs db) g = load (threads db) (runs db) g" for g
    by (rule load_owner_cong) (simp add: same run_thread)
  moreover have "messages_constraints (threads db') (messages db)"
    using db_okD(2) [OF assms(1)] sub by (auto simp: messages_constraints_def list_all_iff)
  moreover have "runs_constraints (threads db') (messages db) (runs db)"
    using db_okD(4) [OF assms(1)] sub unfolding runs_constraints_def list_all_iff by fast
  ultimately show "db_ok db'"
    using assms(1) new fresh by (simp add: db_ok_def tables_ok_def rows_ok_def covered_def)
qed

lemma resolve_thread_ok:
  assumes "db_ok db" "resolve_thread db user q tid nt now = Inr (db1, t, n)"
  shows "db_ok db1" "map_option thr_user_id (map_of (threads db1) t) = Some user"
    "messages db1 = messages db" "runs db1 = runs db" "quotas db1 = quotas db"
    "fst ` set (threads db1) \<subseteq> insert nt (fst ` set (threads db))"
proof -
  have "db_ok db1 \<and> map_option thr_user_id (map_of (threads db1) t) = Some user
    \<and> messages db1 = messages db \<and> runs db1 = runs db \<and> quotas db1 = quotas db
    \<and> fst ` set (threads db1) \<subseteq> insert nt (fst ` set (threads db))"
  proof (cases tid)
    case None
    let ?row = "\<lparr>thr_user_id = user, thr_title = take 50 q, thr_updated_at = now, thr_research_handoff = None\<rparr>"
    have ins: "insert_thread db nt ?row = Inr db1" and t: "t = nt"
      using assms(2) None by (auto simp: resolve_thread_def split: sum.splits)
    note ok = insert_thread_ok [OF assms(1) ins]
    have "map_of (threads db1) nt = Some ?row"
      using ok(2,3) by (simp add: map_add_def map_of_eq_None_iff [THEN iffD2])
    then show ?thesis using ok(1,2) t by auto
  next
    case (Some k)
    obtain row where "map_of (threads db) k = Some row" "thr_user_id row = user" "db1 = db" "t = k"
      using assms(2) Some by (auto simp: resolve_thread_def split: option.splits if_splits)
    then show ?thesis using assms(1) by auto
  qed
  then show "db_ok db1" "map_option thr_user_id (map_of (threads db1) t) = Some user"
    "messages db1 = messages db" "runs db1 = runs db" "quotas db1 = quotas db"
    "fst ` set (threads db1) \<subseteq> insert nt (fst ` set (threads db))" by blast+
qed

text \<open>The row of a new run.\<close>

abbreviation queued_row :: "uuid \<Rightarrow> uuid \<Rightarrow> time \<Rightarrow> int \<Rightarrow> run_row" where
  "queued_row t m now d \<equiv> \<lparr>run_thread_id = t, run_user_message_id = m,
     run_assistant_message_id = None, run_status = Queued, run_error_code = None,
     run_created_at = now, run_deadline_at = deadline_for_run now, run_answer_started_at = None,
     run_attempt_epoch = 0, run_quota_usage_date = Some d\<rparr>"

lemma row_ok_queued: "row_ok (queued_row t m now d)"
  by (simp add: row_ok_def)

lemma create_user_run_ok:
  assumes "db_ok db" "create_user_run db user q tid qt now nt nm nr = Inr (db', c)"
  shows "db_ok db'"
    "runs db' = runs db @ [(nr, queued_row (created_thread_id c) nm now (jst_date qt))]"
    "fst ` set (threads db') \<subseteq> insert nt (fst ` set (threads db))"
    "fst ` set (messages db') = insert nm (fst ` set (messages db))"
    "used (quotas db') = (used (quotas db))((user, jst_date qt) := used (quotas db) (user, jst_date qt) + 1)"
    "c = \<lparr>created_thread_id = created_thread_id c, created_run_id = nr,
      created_deadline_at = deadline_for_run now, created_usage_date = jst_date qt,
      created_used_count = used (quotas db') (user, jst_date qt)\<rparr>"
    "map_option thr_user_id (map_of (threads db') (created_thread_id c)) = Some user"
proof -
  obtain db1 t n where r1: "resolve_thread db user q tid nt now = Inr (db1, t, n)"
    using assms(2) by (auto simp: create_user_run_def split: sum.splits)
  obtain q' resv where r2: "reserve_daily_quota (quotas db1) user qt = Inr (q', resv)"
    using assms(2) r1 by (auto simp: create_user_run_def split: sum.splits)
  let ?th = "\<lambda>r. r\<lparr>thr_updated_at := now\<rparr>"
  let ?db2 = "update_thread (db1\<lparr>quotas := q'\<rparr>) t ?th"
  let ?msg = "\<lparr>msg_thread_id = t, msg_seq = n, msg_role = User_role, msg_content = q, msg_missing_aspects = []\<rparr>"
  obtain db3 where r3: "put_messages ?db2 (messages ?db2 @ [(nm, ?msg)]) = Inr db3"
    using assms(2) r1 r2 by (auto simp: create_user_run_def Let_def split: sum.splits)
  let ?row = "queued_row t nm now (reserved_date resv)"
  have r4: "put_runs db3 (runs db3 @ [(nr, ?row)]) = Inr db'"
    and c: "c = \<lparr>created_thread_id = t, created_run_id = nr, created_deadline_at = deadline_for_run now,
        created_usage_date = reserved_date resv, created_used_count = reserved_used_count resv\<rparr>"
    using assms(2) r1 r2 r3 by (auto simp: create_user_run_def Let_def split: sum.splits)
  note a = resolve_thread_ok [OF assms(1) r1]
  note res = reserve_accepted [OF r2 db_okD(5) [OF a(1)]]
  have "db_ok (db1\<lparr>quotas := q'\<rparr>)"
    using a(1) res(1) db_okD(7) [OF a(1)]
    by (auto simp: db_ok_def tables_ok_def rows_ok_def covered_def res(2) intro: add_increasing2)
  then have ok2: "db_ok ?db2" by (rule update_thread_ok) simp
  note p3 = put_messages_ok [OF ok2 r3]
  note p4 = put_runsD [OF r4]
  have owner: "map_option thr_user_id (map_of (threads db3) t) = Some user"
    using a(2) by (simp add: p3(2) update_thread_def map_of_change_row option.map_comp comp_def)
  have l: "load (threads db3) (runs db3) g = load (threads db1) (runs db1) g" for g
    by (simp add: p3(2) update_thread_def load_change_thread)
  have w: "weight (threads db3) g ?row = (if g = (user, jst_date qt) then 1 else 0)" for g
    using owner by (cases g) (auto simp: weight_def res(3))
  have cov: "load (threads db') (runs db') g \<le> used (quotas db') g" for g
    using db_okD(7) [OF a(1), of g] l [of g] w [of g] p4 p3(2)
    by (cases "g = (user, jst_date qt)") (auto simp: update_thread_def res(2))
  have rows: "rows_ok db'"
    using p3(1) p4 row_ok_queued by (auto simp: db_ok_def rows_ok_def)
  show "db_ok db'" using p3(1) p4 cov rows by (simp add: db_ok_def tables_ok_def covered_def)
  show "runs db' = runs db @ [(nr, queued_row (created_thread_id c) nm now (jst_date qt))]"
    using p4 p3(2) a(4) res(3) c by (simp add: update_thread_def)
  show "fst ` set (threads db') \<subseteq> insert nt (fst ` set (threads db))"
    using p4 p3(2) a(6) by (simp add: update_thread_def)
  show "fst ` set (messages db') = insert nm (fst ` set (messages db))"
    using p4 p3(2) a(3) by (simp add: update_thread_def)
  show "used (quotas db') = (used (quotas db))((user, jst_date qt) := used (quotas db) (user, jst_date qt) + 1)"
    using p4 p3(2) a(5) res(2) by (simp add: update_thread_def)
  show "c = \<lparr>created_thread_id = created_thread_id c, created_run_id = nr,
      created_deadline_at = deadline_for_run now, created_usage_date = jst_date qt,
      created_used_count = used (quotas db') (user, jst_date qt)\<rparr>"
    using p4 p3(2) a(5) res c by (simp add: update_thread_def)
  show "map_option thr_user_id (map_of (threads db') (created_thread_id c)) = Some user"
    using owner p4 c by simp
qed

section \<open>Deleting a thread\<close>

lemma map_of_filter_value:
  "distinct (map fst xs) \<Longrightarrow> map_of (filter (\<lambda>(i, m). P m) xs) i =
     (case map_of xs i of None \<Rightarrow> None | Some m \<Rightarrow> if P m then Some m else None)"
proof (induction xs)
  case (Cons x xs)
  have "map_of xs (fst x) = None" using Cons.prems by (simp add: map_of_eq_None_iff)
  then show ?case using Cons by (cases x) (auto split: option.splits)
qed simp

lemma map_of_filter_key:
  "map_of (filter (\<lambda>(i, r). P i) xs) k = (if P k then map_of xs k else None)"
  by (induction xs) auto

lemma load_filter_le: "load ths (filter P rs) g \<le> load ths rs g"
  by (induction rs) (auto simp: weight_nonneg add_increasing)

lemma distinct_map_filterI: "distinct (map f xs) \<Longrightarrow> distinct (map f (filter P xs))"
  by (rule distinct_map_filter)

lemma answer_ids_filter: "distinct (answer_ids rs) \<Longrightarrow> distinct (answer_ids (filter P rs))"
proof (induction rs)
  case (Cons x rs)
  have "set (answer_ids (filter P rs)) \<subseteq> set (answer_ids rs)" by (auto simp: answer_ids_def)
  then show ?case using Cons by (cases x) (auto simp: answer_ids_def split: option.splits)
qed (simp add: answer_ids_def)

lemma message_in_thread_filter:
  assumes "distinct (map fst ms)" "message_in_thread ms k i" "k \<noteq> t"
  shows "message_in_thread (filter (\<lambda>(i, m). msg_thread_id m \<noteq> t) ms) k i"
proof -
  obtain m where "map_of ms i = Some m" "msg_thread_id m = k"
    using assms(2) by (cases "map_of ms i") (auto simp: message_in_thread_def)
  then show ?thesis using assms(1,3) by (simp add: message_in_thread_def map_of_filter_value)
qed

lemma delete_thread_ok:
  assumes "db_ok db"
  shows "db_ok (delete_thread db t)"
proof -
  let ?ths = "filter (\<lambda>(i, r). i \<noteq> t) (threads db)"
  let ?ms = "filter (\<lambda>(i, m). msg_thread_id m \<noteq> t) (messages db)"
  let ?rs = "filter (\<lambda>(i, r). run_thread_id r \<noteq> t) (runs db)"
  note d = db_okD [OF assms]
  have keys: "k \<in> fst ` set ?ths" if "k \<in> fst ` set (threads db)" "k \<noteq> t" for k
    using that by force
  have dist_ms: "distinct (map fst (messages db))" using d(2) by (simp add: messages_constraints_def)
  have ms: "messages_constraints ?ths ?ms"
    using d(2) keys unfolding messages_constraints_def list_all_iff
    by (fastforce intro: distinct_map_filterI)
  have kept: "src_message_id s \<in> fst ` set ?ms"
    if s: "s \<in> set (sources db)" "src_message_id s \<notin> fst ` set (filter (\<lambda>(i, m). msg_thread_id m = t) (messages db))" for s
  proof -
    obtain m where m: "(src_message_id s, m) \<in> set (messages db)"
      using d(3) s(1) by (force simp: sources_constraints_def list_all_iff)
    then have "msg_thread_id m \<noteq> t" using s(2) by force
    then show ?thesis using m by force
  qed
  have ss: "sources_constraints ?ms (sources (delete_thread db t))"
    using d(3) kept unfolding sources_constraints_def list_all_iff delete_thread_def Let_def
    by (auto intro: distinct_map_filterI)
  have row: "run_constraint r \<and> run_thread_id r \<in> fst ` set ?ths
      \<and> message_in_thread ?ms (run_thread_id r) (run_user_message_id r)
      \<and> (case run_assistant_message_id r of None \<Rightarrow> True | Some m \<Rightarrow> message_in_thread ?ms (run_thread_id r) m)"
    if r: "(i, r) \<in> set (runs db)" "run_thread_id r \<noteq> t" for i r
  proof -
    have old: "run_constraint r" "run_thread_id r \<in> fst ` set (threads db)"
      "message_in_thread (messages db) (run_thread_id r) (run_user_message_id r)"
      "case run_assistant_message_id r of None \<Rightarrow> True | Some m \<Rightarrow> message_in_thread (messages db) (run_thread_id r) m"
      using d(4) r(1) by (auto simp: runs_constraints_def list_all_iff)
    show ?thesis
      using old(1) keys [OF old(2) r(2)] message_in_thread_filter [OF dist_ms old(3) r(2)] old(4)
        message_in_thread_filter [OF dist_ms _ r(2)]
      by (cases "run_assistant_message_id r") simp_all
  qed
  have rs: "runs_constraints ?ths ?ms ?rs"
  proof -
    have "filter (is_active \<circ> snd) ?rs = filter (\<lambda>(i, r). run_thread_id r \<noteq> t) (filter (is_active \<circ> snd) (runs db))"
      by (simp add: conj_commute)
    then have "distinct (map (run_thread_id \<circ> snd) (filter (is_active \<circ> snd) ?rs))"
      using d(4) by (simp add: runs_constraints_def distinct_map_filterI del: filter_filter)
    moreover have "distinct (map fst ?rs)" "distinct (map (run_user_message_id \<circ> snd) ?rs)" "distinct (answer_ids ?rs)"
      using d(4) by (simp_all add: runs_constraints_def distinct_map_filterI answer_ids_filter)
    moreover have "list_all (\<lambda>(i, r). run_constraint r \<and> run_thread_id r \<in> fst ` set ?ths
           \<and> message_in_thread ?ms (run_thread_id r) (run_user_message_id r)
           \<and> (case run_assistant_message_id r of
                None \<Rightarrow> True | Some m \<Rightarrow> message_in_thread ?ms (run_thread_id r) m)) ?rs"
      unfolding list_all_iff using row by fastforce
    ultimately show ?thesis unfolding runs_constraints_def by blast
  qed
  have "load ?ths ?rs g = load (threads db) ?rs g" for g
    by (rule load_owner_cong) (simp add: map_of_filter_key)
  then have "load ?ths ?rs g \<le> used (quotas db) g" for g
    using load_filter_le [of "threads db" "\<lambda>(i, r). run_thread_id r \<noteq> t" "runs db" g] d(7) [of g] by simp
  then show ?thesis using ms ss rs d(1,5) assms
    by (auto simp: db_ok_def tables_ok_def rows_ok_def covered_def delete_thread_def Let_def
        intro: distinct_map_filterI)
qed

section \<open>The sweep\<close>

definition selects :: "uuid option \<Rightarrow> uuid option \<Rightarrow> time \<Rightarrow> uuid \<Rightarrow> run_row \<Rightarrow> bool" where
  "selects thread_id run_id clock i r \<longleftrightarrow> has_reached_recovery_deadline r clock
     \<and> (thread_id = None \<or> thread_id = Some (run_thread_id r)) \<and> (run_id = None \<or> run_id = Some i)"

definition sweep_rows :: "(uuid \<Rightarrow> run_row \<Rightarrow> bool) \<Rightarrow> (uuid \<times> run_row) list \<Rightarrow> (uuid \<times> run_row) list" where
  "sweep_rows sel rs =
     map (\<lambda>(i, r). (i, if sel i r then r\<lparr>run_status := Deadline_exceeded\<rparr> else r)) rs"

definition candidate_of :: "(uuid \<times> thread_row) list \<Rightarrow> uuid \<Rightarrow> run_row \<Rightarrow> recovery_candidate option" where
  "candidate_of ths i r = map_option (\<lambda>t. \<lparr>cand_run_id = i, cand_user_id = thr_user_id t,
     cand_quota_usage_date = run_quota_usage_date r, cand_state = state_of_run r\<rparr>) (map_of ths (run_thread_id r))"

lemma map_filter_map_filter:
  "List.map_filter f xs = map (the \<circ> f) (filter (\<lambda>x. f x \<noteq> None) xs)"
  by (simp add: List.map_filter_def)

lemma selects_active: "selects t j clock i r \<Longrightarrow> is_active r"
  by (auto simp: selects_def has_reached_recovery_deadline_def is_active_def ACTIVE_STATUSES_def)

lemma candidates_alt:
  "lock_runs_for_deadline_recovery db thread_id run_id clock =
   List.map_filter (\<lambda>(i, r). if selects thread_id run_id clock i r then candidate_of (threads db) i r else None)
     (sort_key fst (runs db))"
proof -
  have "(case thread_id of None \<Rightarrow> True | Some t \<Rightarrow> k = t) \<longleftrightarrow> thread_id = None \<or> thread_id = Some k"
    "(case run_id of None \<Rightarrow> True | Some t \<Rightarrow> k = t) \<longleftrightarrow> run_id = None \<or> run_id = Some k" for k
    by (auto split: option.splits)
  then show ?thesis
    by (simp add: lock_runs_for_deadline_recovery_def selects_def candidate_of_def conj_assoc cong: if_cong)
qed

lemma candidate_of_Some: "t \<in> fst ` set ths \<Longrightarrow> run_thread_id r = t \<Longrightarrow> \<exists>c. candidate_of ths i r = Some c"
  by (auto simp: candidate_of_def) (metis map_of_eq_None_iff option.exhaust fst_conv image_eqI)

lemma candidate_of_fields: "candidate_of ths i r = Some c \<Longrightarrow>
    cand_run_id c = i \<and> cand_state c = state_of_run r \<and> cand_quota_usage_date c = run_quota_usage_date r
    \<and> map_option thr_user_id (map_of ths (run_thread_id r)) = Some (cand_user_id c)"
  by (auto simp: candidate_of_def)

lemma run_threads: "db_ok db \<Longrightarrow> (i, r) \<in> set (runs db) \<Longrightarrow> run_thread_id r \<in> fst ` set (threads db)"
  using db_okD(10) [OF _ map_of_is_SomeI [OF db_okD(6)]] by blast

lemma candidates_member:
  assumes "db_ok db" "c \<in> set (lock_runs_for_deadline_recovery db tid rid clock)"
  obtains i r where "(i, r) \<in> set (runs db)" "selects tid rid clock i r" "candidate_of (threads db) i r = Some c"
  using assms(2) by (auto simp: candidates_alt map_filter_map_filter that split: if_splits)

lemma candidates_ids:
  assumes "db_ok db"
  shows "i \<in> set (map cand_run_id (lock_runs_for_deadline_recovery db tid rid clock))
     \<longleftrightarrow> (\<exists>r. (i, r) \<in> set (runs db) \<and> selects tid rid clock i r)"
proof
  assume "i \<in> set (map cand_run_id (lock_runs_for_deadline_recovery db tid rid clock))"
  then obtain c where c: "c \<in> set (lock_runs_for_deadline_recovery db tid rid clock)" "i = cand_run_id c" by auto
  show "\<exists>r. (i, r) \<in> set (runs db) \<and> selects tid rid clock i r"
    by (rule candidates_member [OF assms c(1)]) (use c(2) candidate_of_fields in blast)
next
  assume "\<exists>r. (i, r) \<in> set (runs db) \<and> selects tid rid clock i r"
  then obtain r where r: "(i, r) \<in> set (runs db)" "selects tid rid clock i r" by blast
  obtain c where c: "candidate_of (threads db) i r = Some c"
    using candidate_of_Some [OF run_threads [OF assms r(1)] refl] by blast
  then have "c \<in> set (lock_runs_for_deadline_recovery db tid rid clock)"
    using r by (auto simp: candidates_alt map_filter_map_filter intro!: image_eqI [of _ _ "(i, r)"])
  then show "i \<in> set (map cand_run_id (lock_runs_for_deadline_recovery db tid rid clock))"
    using candidate_of_fields [OF c] by auto
qed

lemma set_deadline_exceeded_sweep:
  assumes "db_ok db"
  shows "set_deadline_exceeded (map cand_run_id (lock_runs_for_deadline_recovery db tid rid clock)) (runs db)
    = sweep_rows (selects tid rid clock) (runs db)"
proof -
  have "i \<in> set (map cand_run_id (lock_runs_for_deadline_recovery db tid rid clock)) \<longleftrightarrow> selects tid rid clock i r"
    if "(i, r) \<in> set (runs db)" for i r
    unfolding candidates_ids [OF assms] using that db_okD(6) [OF assms]
    by (metis map_of_is_SomeI option.inject)
  then show ?thesis unfolding set_deadline_exceeded_def sweep_rows_def by (auto intro!: map_cong)
qed

lemma reservations_of_Nil [simp]: "reservations_of [] g = 0"
  by (simp add: reservations_of_def)

lemma reservations_of_Cons [simp]:
  "reservations_of (x # xs) g = (if snd x = Some (snd g) \<and> fst x = fst g then 1 else 0) + reservations_of xs g"
  by (cases x) (auto simp: reservations_of_def)

lemma quota_reservations_Nil [simp]: "quota_reservations_of [] = []"
  by (simp add: quota_reservations_of_def)

lemma quota_reservations_Cons [simp]:
  "quota_reservations_of (c # cs) = (if is_queued_candidate c then [(cand_user_id c, cand_quota_usage_date c)] else [])
     @ quota_reservations_of cs"
  by (simp add: quota_reservations_of_def)

lemma candidates_load:
  assumes "\<And>i r. (i, r) \<in> set xs \<Longrightarrow> run_thread_id r \<in> fst ` set ths"
  shows "reservations_of (quota_reservations_of
      (List.map_filter (\<lambda>(i, r). if sel i r then candidate_of ths i r else None) xs)) g
    = sum_list (map (\<lambda>(i, r). if sel i r then weight ths g r else 0) xs)"
  using assms
proof (induction xs)
  case (Cons x xs)
  obtain i r where x: "x = (i, r)" by fastforce
  obtain c where c: "candidate_of ths i r = Some c"
    using candidate_of_Some Cons.prems x by (metis list.set_intros(1))
  then show ?case
    using Cons x candidate_of_fields [OF c]
    by (auto simp: List.map_filter_simps is_queued_candidate_def weight_def)
qed (simp add: List.map_filter_simps)

lemma sum_list_sort_key: "sum_list (map f (sort_key k xs)) = (sum_list (map f xs) :: int)"
  by (metis mset_map mset_sort sum_mset_sum_list)

lemma load_sweep_rows:
  "load ths (sweep_rows sel rs) g = load ths rs g
    - sum_list (map (\<lambda>(i, r). if sel i r then weight ths g r else 0) rs)"
proof (induction rs)
  case (Cons x rs)
  have "weight ths g (r\<lparr>run_status := Deadline_exceeded\<rparr>) = 0" for r by (simp add: weight_def)
  then show ?case using Cons by (cases x) (simp add: sweep_rows_def)
qed (simp add: sweep_rows_def)

lemma map_snd_sweep:
  "(\<And>r. h (r\<lparr>run_status := Deadline_exceeded\<rparr>) = h r) \<Longrightarrow>
   map (h \<circ> snd) (sweep_rows sel rs) = map (h \<circ> snd) rs"
  by (auto simp: sweep_rows_def)

lemma sweep_rows_keys [simp]: "map fst (sweep_rows sel rs) = map fst rs"
  by (auto simp: sweep_rows_def)

lemma sweep_rows_Cons [simp]: "sweep_rows sel ((i, r) # rs) =
    (i, if sel i r then r\<lparr>run_status := Deadline_exceeded\<rparr> else r) # sweep_rows sel rs"
  by (simp add: sweep_rows_def)

lemma sweep_rows_Nil [simp]: "sweep_rows sel [] = []"
  by (simp add: sweep_rows_def)

lemma map_of_sweep_rows:
  "map_of (sweep_rows sel rs) i =
     map_option (\<lambda>r. if sel i r then r\<lparr>run_status := Deadline_exceeded\<rparr> else r) (map_of rs i)"
  by (induction rs) auto

lemma answer_ids_sweep: "answer_ids (sweep_rows sel rs) = answer_ids rs"
  by (induction rs) (auto simp: answer_ids_def)

lemma active_threads_sweep:
  assumes "distinct (map (run_thread_id \<circ> snd) (filter (is_active \<circ> snd) rs))"
  shows "distinct (map (run_thread_id \<circ> snd) (filter (is_active \<circ> snd) (sweep_rows sel rs)))"
    and "run_thread_id ` snd ` set (filter (is_active \<circ> snd) (sweep_rows sel rs))
      \<subseteq> run_thread_id ` snd ` set (filter (is_active \<circ> snd) rs)"
proof -
  have "distinct (map (run_thread_id \<circ> snd) (filter (is_active \<circ> snd) (sweep_rows sel rs)))
    \<and> run_thread_id ` snd ` set (filter (is_active \<circ> snd) (sweep_rows sel rs))
      \<subseteq> run_thread_id ` snd ` set (filter (is_active \<circ> snd) rs)"
    using assms
  proof (induction rs)
    case (Cons x rs)
    obtain i r where x: "x = (i, r)" by fastforce
    have inactive: "\<not> is_active (r\<lparr>run_status := Deadline_exceeded\<rparr>)"
      by (simp add: is_active_def ACTIVE_STATUSES_def)
    have ih: "distinct (map (run_thread_id \<circ> snd) (filter (is_active \<circ> snd) (sweep_rows sel rs)))"
      "run_thread_id ` snd ` set (filter (is_active \<circ> snd) (sweep_rows sel rs))
      \<subseteq> run_thread_id ` snd ` set (filter (is_active \<circ> snd) rs)"
      using Cons by (auto simp: comp_def split: if_splits)
    show ?case
    proof (cases "sel i r \<or> \<not> is_active r")
      case True
      then show ?thesis using ih inactive by (auto simp: x comp_def)
    next
      case False
      have "run_thread_id r \<notin> run_thread_id ` snd ` set (filter (is_active \<circ> snd) rs)"
        using Cons.prems False by (force simp: x)
      then have "run_thread_id r \<notin> run_thread_id ` snd ` set (filter (is_active \<circ> snd) (sweep_rows sel rs))"
        using ih(2) by blast
      then have new: "run_thread_id r \<notin> set (map (run_thread_id \<circ> snd) (filter (is_active \<circ> snd) (sweep_rows sel rs)))"
        by (simp only: list.set_map image_comp not_False_eq_True)
      have eq: "filter (is_active \<circ> snd) (sweep_rows sel (x # rs)) = (i, r) # filter (is_active \<circ> snd) (sweep_rows sel rs)"
        "filter (is_active \<circ> snd) (x # rs) = (i, r) # filter (is_active \<circ> snd) rs"
        using False by (simp_all add: x)
      show ?thesis unfolding eq list.map distinct.simps list.set image_insert
        using new ih by (intro conjI insert_mono) (simp_all add: comp_def)
    qed
  qed simp
  then show "distinct (map (run_thread_id \<circ> snd) (filter (is_active \<circ> snd) (sweep_rows sel rs)))"
    "run_thread_id ` snd ` set (filter (is_active \<circ> snd) (sweep_rows sel rs))
      \<subseteq> run_thread_id ` snd ` set (filter (is_active \<circ> snd) rs)" by blast+
qed

lemma list_all_sweep:
  assumes "list_all P rs" "\<And>i r. P (i, r) \<Longrightarrow> P (i, if sel i r then r\<lparr>run_status := Deadline_exceeded\<rparr> else r)"
  shows "list_all P (sweep_rows sel rs)"
  using assms(1)
proof (induction rs)
  case (Cons x rs)
  obtain i r where x: "x = (i, r)" by fastforce
  have "P (i, r)" using Cons.prems x by simp
  from assms(2) [OF this] show ?case using Cons x by simp
qed simp

lemma swept_constraint:
  "run_constraint r \<Longrightarrow> is_active r \<Longrightarrow> run_constraint (r\<lparr>run_status := Deadline_exceeded\<rparr>)"
  by (auto simp: run_constraint_def is_active_def ACTIVE_STATUSES_def)

lemma runs_constraints_sweep:
  assumes "runs_constraints ths ms rs" "\<And>i r. sel i r \<Longrightarrow> is_active r"
  shows "runs_constraints ths ms (sweep_rows sel rs)"
proof -
  have "list_all (\<lambda>(i, r). run_constraint r \<and> run_thread_id r \<in> fst ` set ths
           \<and> message_in_thread ms (run_thread_id r) (run_user_message_id r)
           \<and> (case run_assistant_message_id r of
                None \<Rightarrow> True | Some m \<Rightarrow> message_in_thread ms (run_thread_id r) m)) (sweep_rows sel rs)"
    (is "list_all ?P _")
  proof -
    have old: "list_all ?P rs" using assms(1) unfolding runs_constraints_def by blast
    have "?P (i, if sel i r then r\<lparr>run_status := Deadline_exceeded\<rparr> else r)" if "?P (i, r)" for i r
      using that swept_constraint [of r] assms(2) [of i r] by (cases "sel i r"; cases "run_assistant_message_id r") simp_all
    with old show ?thesis by (rule list_all_sweep)
  qed
  then show ?thesis
    using assms(1) by (simp add: runs_constraints_def map_snd_sweep answer_ids_sweep active_threads_sweep)
qed

lemma rows_ok_sweep: "rows_ok db \<Longrightarrow> (\<And>i r. sel i r \<Longrightarrow> is_active r) \<Longrightarrow>
    rows_ok (db\<lparr>runs := sweep_rows sel (runs db)\<rparr>)"
proof -
  assume ok: "rows_ok db" and act: "\<And>i r. sel i r \<Longrightarrow> is_active r"
  have "row_ok (if sel i r then r\<lparr>run_status := Deadline_exceeded\<rparr> else r)" if "(i, r) \<in> set (runs db)" for i r
  proof -
    have "row_ok r" using ok that by (auto simp: rows_ok_def)
    then show ?thesis by (auto simp: row_ok_def)
  qed
  then show ?thesis by (auto simp: rows_ok_def sweep_rows_def)
qed

lemma candidate_sums:
  assumes "db_ok db"
  shows "load (threads db) (sweep_rows (selects tid rid clock) (runs db)) g = load (threads db) (runs db) g
    - reservations_of (quota_reservations_of (lock_runs_for_deadline_recovery db tid rid clock)) g"
proof -
  have "reservations_of (quota_reservations_of (lock_runs_for_deadline_recovery db tid rid clock)) g
    = sum_list (map (\<lambda>(i, r). if selects tid rid clock i r then weight (threads db) g r else 0) (sort_key fst (runs db)))"
    unfolding candidates_alt by (rule candidates_load) (use run_threads [OF assms] in auto)
  then show ?thesis by (simp add: load_sweep_rows sum_list_sort_key)
qed

lemma running_terminals_value:
  "\<forall>c \<in> set cs. state_attempt_epoch (cand_state c) \<ge> 1 \<Longrightarrow>
   running_terminals cs = Inr (map (\<lambda>c. \<lparr>exceeded_run_id = cand_run_id c,
      exceeded_attempt_epoch = state_attempt_epoch (cand_state c)\<rparr>) cs)"
  by (induction cs) (auto simp: make_running_deadline_exceeded_def)

text \<open>What a sweep of the candidates reports.\<close>

definition sweep_summary :: "recovery_candidate list \<Rightarrow> sweep_result" where
  "sweep_summary cs =
     (let queued = int (length (filter is_queued_candidate cs));
          running = filter (\<lambda>c. state_status (cand_state c) = Running) cs in
      \<lparr>queued_terminal_count = queued, queued_quota_released_count = queued,
       queued_quota_not_eligible_count = 0, queued_quota_inconsistent_count = 0,
       running_terminal_runs = map (\<lambda>c. \<lparr>exceeded_run_id = cand_run_id c,
         exceeded_attempt_epoch = state_attempt_epoch (cand_state c)\<rparr>) running,
       running_quota_reservation_count =
         int (length (filter (\<lambda>c. cand_quota_usage_date c \<noteq> None) running))\<rparr>)"

lemma candidate_row_ok:
  assumes "db_ok db" "c \<in> set (lock_runs_for_deadline_recovery db tid rid clock)"
  shows "is_queued_candidate c \<Longrightarrow> cand_quota_usage_date c \<noteq> None"
    "state_status (cand_state c) = Running \<Longrightarrow> state_attempt_epoch (cand_state c) \<ge> 1"
    "is_due_for_deadline_recovery (cand_state c) clock"
proof -
  obtain i r where r: "(i, r) \<in> set (runs db)" "selects tid rid clock i r" "candidate_of (threads db) i r = Some c"
    using candidates_member [OF assms] by metis
  have ok: "row_ok r" using db_okD(8) [OF assms(1) map_of_is_SomeI [OF db_okD(6) [OF assms(1)] r(1)]] .
  then have q: "run_status r = Queued \<Longrightarrow> run_answer_started_at r = None"
    unfolding row_ok_def by (metis not_one_le_zero option.exhaust)
  show "is_queued_candidate c \<Longrightarrow> cand_quota_usage_date c \<noteq> None"
    "state_status (cand_state c) = Running \<Longrightarrow> state_attempt_epoch (cand_state c) \<ge> 1"
    "is_due_for_deadline_recovery (cand_state c) clock"
    using ok r(2) candidate_of_fields [OF r(3)] reached_iff_due [OF q]
    by (auto simp: row_ok_def is_queued_candidate_def selects_def)
qed

lemma recover_total:
  assumes "db_ok db"
    and "list_all (\<lambda>c. is_due_for_deadline_recovery (cand_state c) now) (lock_runs_for_deadline_recovery db tid rid clock)"
  shows "\<exists>q. recover_deadline_exceeded_runs db tid rid clock now
      = Inr (db\<lparr>runs := sweep_rows (selects tid rid clock) (runs db), quotas := q\<rparr>,
          sweep_summary (lock_runs_for_deadline_recovery db tid rid clock))
    \<and> db_ok (db\<lparr>runs := sweep_rows (selects tid rid clock) (runs db), quotas := q\<rparr>)"
proof -
  let ?cs = "lock_runs_for_deadline_recovery db tid rid clock"
  let ?sel = "selects tid rid clock"
  show ?thesis
  proof (cases "?cs = []")
    case True
    have "sweep_rows ?sel (runs db) = runs db"
      using set_deadline_exceeded_sweep [OF assms(1), of tid rid clock] True
      by (simp add: set_deadline_exceeded_def)
    moreover have "db\<lparr>runs := runs db, quotas := quotas db\<rparr> = db" by simp
    ultimately show ?thesis using assms(1) True
      by (intro exI [of _ "quotas db"])
        (simp add: recover_deadline_exceeded_runs_def empty_sweep_result_def make_sweep_result_def
          sweep_summary_def)
  next
    case False
    let ?db1 = "db\<lparr>runs := sweep_rows ?sel (runs db)\<rparr>"
    have put: "put_runs db (set_deadline_exceeded (map cand_run_id ?cs) (runs db)) = Inr ?db1"
      using runs_constraints_sweep [OF db_okD(4) [OF assms(1)], where sel = ?sel] selects_active
      unfolding set_deadline_exceeded_sweep [OF assms(1)] put_runs_def by fastforce
    obtain q br where rel: "release_daily_quotas (quotas ?db1) (quota_reservations_of ?cs) = (q, br)" by fastforce
    then have rel': "release_daily_quotas (quotas db) (quota_reservations_of ?cs) = (q, br)" by simp
    note sums = candidate_sums [OF assms(1), of tid rid clock]
    have cover: "reservations_of (quota_reservations_of ?cs) g \<le> used (quotas db) g" for g
      using sums [of g] load_nonneg [of "threads db" "sweep_rows ?sel (runs db)" g] db_okD(7) [OF assms(1), of g]
      by linarith
    note batch = batch_release_covered [OF db_okD(5) [OF assms(1)] cover rel']
    have dates: "filter (\<lambda>r. snd r \<noteq> None) (quota_reservations_of ?cs) = quota_reservations_of ?cs"
      "filter (\<lambda>r. snd r = None) (quota_reservations_of ?cs) = []"
      using candidate_row_ok(1) [OF assms(1), of _ tid rid clock]
      by (auto simp: quota_reservations_of_def filter_id_conv filter_empty_conv)
    have len: "length (quota_reservations_of ?cs) = length (filter is_queued_candidate ?cs)"
      by (simp add: quota_reservations_of_def)
    have "running_terminals (filter (\<lambda>c. state_status (cand_state c) = Running) ?cs)
        = Inr (running_terminal_runs (sweep_summary ?cs))"
      using candidate_row_ok(2) [OF assms(1), of _ tid rid clock]
      by (subst running_terminals_value) (auto simp: sweep_summary_def Let_def)
    then have built: "build_deadline_sweep_result ?cs br = Inr (sweep_summary ?cs)"
      using batch(3-5) unfolding dates len
      by (simp add: build_deadline_sweep_result_def make_sweep_result_def sweep_summary_def Let_def)
    have fin: "finalize_deadline_exceeded_runs db ?cs now = Inr ?db1"
      unfolding finalize_deadline_exceeded_runs_def using assms(2) put by simp
    have res: "recover_deadline_exceeded_runs db tid rid clock now = Inr (?db1\<lparr>quotas := q\<rparr>, sweep_summary ?cs)"
      unfolding recover_deadline_exceeded_runs_def Let_def
      by (simp only: False if_False fin sum.case rel prod.case built) simp
    have cov: "covered (?db1\<lparr>quotas := q\<rparr>)"
    proof -
      have "load (threads db) (sweep_rows ?sel (runs db)) g \<le> used q g" for g
        using sums [of g] db_okD(7) [OF assms(1), of g] batch(2) by simp
      then show ?thesis by (simp add: covered_def)
    qed
    have "rows_ok ?db1"
      using assms(1) selects_active by (intro rows_ok_sweep) (auto simp: db_ok_def)
    then have rows: "rows_ok (?db1\<lparr>quotas := q\<rparr>)" by (simp add: rows_ok_def)
    have "runs_constraints (threads db) (messages db) (sweep_rows ?sel (runs db))"
      by (rule runs_constraints_sweep [OF db_okD(4) [OF assms(1)] selects_active])
    then have "tables_ok (?db1\<lparr>quotas := q\<rparr>)"
      using db_okD(1-3) [OF assms(1)] batch(1) by (simp add: tables_ok_def)
    then show ?thesis using res cov rows by (auto simp: db_ok_def)
  qed
qed

lemma recover_result:
  assumes "db_ok db" "recover_deadline_exceeded_runs db tid rid clock now = Inr (db', res)"
  shows "db_ok db'" "runs db' = sweep_rows (selects tid rid clock) (runs db)"
    "threads db' = threads db" "messages db' = messages db" "sources db' = sources db"
    "res = sweep_summary (lock_runs_for_deadline_recovery db tid rid clock)"
proof -
  have "list_all (\<lambda>c. is_due_for_deadline_recovery (cand_state c) now)
      (lock_runs_for_deadline_recovery db tid rid clock)"
    using assms(2)
    by (cases "lock_runs_for_deadline_recovery db tid rid clock = []")
      (auto simp: recover_deadline_exceeded_runs_def finalize_deadline_exceeded_runs_def Let_def
        split: if_splits)
  from recover_total [OF assms(1) this] obtain q where
    "db' = db\<lparr>runs := sweep_rows (selects tid rid clock) (runs db), quotas := q\<rparr>" "db_ok db'"
    "res = sweep_summary (lock_runs_for_deadline_recovery db tid rid clock)"
    using assms(2) by auto
  then show "db_ok db'" "runs db' = sweep_rows (selects tid rid clock) (runs db)"
    "threads db' = threads db" "messages db' = messages db" "sources db' = sources db"
    "res = sweep_summary (lock_runs_for_deadline_recovery db tid rid clock)" by simp_all
qed

lemma running_candidates:
  assumes "db_ok db"
  shows "cand_run_id ` {c \<in> set (lock_runs_for_deadline_recovery db tid rid clock). state_status (cand_state c) = Running}
    = {i. \<exists>x. map_of (runs db) i = Some x \<and> run_status x = Running \<and> selects tid rid clock i x}"
proof (intro set_eqI iffI)
  fix i assume "i \<in> cand_run_id ` {c \<in> set (lock_runs_for_deadline_recovery db tid rid clock).
    state_status (cand_state c) = Running}"
  then obtain c where c: "c \<in> set (lock_runs_for_deadline_recovery db tid rid clock)" "i = cand_run_id c"
    "state_status (cand_state c) = Running" by auto
  obtain j r where r: "(j, r) \<in> set (runs db)" "selects tid rid clock j r" "candidate_of (threads db) j r = Some c"
    using candidates_member [OF assms c(1)] by metis
  then show "i \<in> {i. \<exists>x. map_of (runs db) i = Some x \<and> run_status x = Running \<and> selects tid rid clock i x}"
    using candidate_of_fields [OF r(3)] c(2,3) map_of_is_SomeI [OF db_okD(6) [OF assms] r(1)] by auto
next
  fix i assume "i \<in> {i. \<exists>x. map_of (runs db) i = Some x \<and> run_status x = Running \<and> selects tid rid clock i x}"
  then obtain r where r: "map_of (runs db) i = Some r" "run_status r = Running" "selects tid rid clock i r" by blast
  then have "i \<in> set (map cand_run_id (lock_runs_for_deadline_recovery db tid rid clock))"
    unfolding candidates_ids [OF assms] using map_of_SomeD by fast
  then obtain c where c: "c \<in> set (lock_runs_for_deadline_recovery db tid rid clock)" "i = cand_run_id c" by auto
  obtain j r' where r': "(j, r') \<in> set (runs db)" "candidate_of (threads db) j r' = Some c"
    using candidates_member [OF assms c(1)] by metis
  then have "r' = r" using candidate_of_fields [OF r'(2)] c(2) r(1) map_of_is_SomeI [OF db_okD(6) [OF assms] r'(1)]
    by simp
  then show "i \<in> cand_run_id ` {c \<in> set (lock_runs_for_deadline_recovery db tid rid clock).
      state_status (cand_state c) = Running}"
    using c r(2) candidate_of_fields [OF r'(2)] by auto
qed

end
