(* ===== verification/RunSystem.thy ===== *)
theory RunSystem
  imports RunInvariants
begin

text \<open>
  The run database as a transition system: every transaction of the API, of the worker and of the
  deadline sweeps is one step, in any order and at any time, with fresh identifiers for new rows.
  The invariant and the order of \<^theory_text>\<open>RunInvariants\<close> discharge the laws of the
  system locales, and the properties of runs rest on their facts.
\<close>

section \<open>Steps\<close>

type_synonym run_system = "run_db \<times> uuid set"

definition empty_db :: run_db where
  "empty_db = \<lparr>threads = [], messages = [], sources = [], runs = [], quotas = []\<rparr>"

definition run_start :: "run_system \<Rightarrow> bool" where
  "run_start s \<longleftrightarrow> s = (empty_db, {})"

inductive run_step :: "run_system \<Rightarrow> run_system \<Rightarrow> bool" where
  step_create: "create_user_run db user q tid qt now nt nm nr = Inr (db', c) \<Longrightarrow>
    nt \<notin> ids \<Longrightarrow> nm \<notin> ids \<Longrightarrow> nr \<notin> ids \<Longrightarrow> run_step (db, ids) (db', ids \<union> {nt, nm, nr})"
| step_perform: "perform db i op now = Inr (db', out) \<Longrightarrow> set (new_messages op) \<inter> ids = {} \<Longrightarrow>
    run_step (db, ids) (db', ids \<union> set (new_messages op))"
| step_sweep: "recover_deadline_exceeded_runs db tid rid clock now = Inr (db', res) \<Longrightarrow>
    run_step (db, ids) (db', ids)"
| step_delete: "delete_thread_for_user db t user = (db', deleted) \<Longrightarrow> run_step (db, ids) (db', ids)"

definition run_inv :: "run_system \<Rightarrow> bool" where
  "run_inv s \<longleftrightarrow> db_ok (fst s) \<and> keys_issued (fst s) (snd s)"

definition run_le :: "run_system \<Rightarrow> run_system \<Rightarrow> bool" where
  "run_le s t \<longleftrightarrow> snd s \<subseteq> snd t \<and> db_le (fst s) (snd s) (fst t)"

section \<open>The invariant\<close>

lemma db_ok_empty: "db_ok empty_db"
  by (simp add: db_ok_def tables_ok_def rows_ok_def covered_def empty_db_def messages_constraints_def
      sources_constraints_def runs_constraints_def answer_ids_def quota_ok_def used_def)

lemma run_effect_le: "run_effect db i new db' \<Longrightarrow> db_le db ids db'"
  unfolding db_le_def
proof
  fix j assume eff: "run_effect db i new db'"
  then obtain f where f: "runs db' = change_row i f (runs db)"
    "\<forall>r. map_of (runs db) i = Some r \<longrightarrow> row_le r (f r)"
    unfolding run_effect_def by blast
  then show "case map_of (runs db') j of None \<Rightarrow> True
      | Some r' \<Rightarrow> \<exists>r. map_of (runs db) j = Some r \<and> row_le r r'"
    by (cases "map_of (runs db) j") (auto simp: map_of_change_row)
qed

lemma run_effect_keys:
  "run_effect db i new db' \<Longrightarrow> keys_issued db ids \<Longrightarrow> keys_issued db' (ids \<union> set new)"
proof -
  assume eff: "run_effect db i new db'" and keys: "keys_issued db ids"
  then have "fst ` set (runs db') = fst ` set (runs db)" unfolding run_effect_def
    by (metis change_row_key_set)
  moreover have "fst ` set (messages db') \<subseteq> ids \<union> set new"
    using eff keys unfolding run_effect_def keys_issued_def by (meson Un_mono order.trans subset_refl)
  moreover have "fst ` set (threads db') = fst ` set (threads db)" using eff unfolding run_effect_def by simp
  ultimately show ?thesis using keys by (simp add: keys_issued_def le_supI1)
qed

lemma sweep_row_le: "is_active r \<Longrightarrow> row_le r (r\<lparr>run_status := Deadline_exceeded\<rparr>)"
  by (auto simp: row_le_def is_active_def is_finished_def)

lemma sweep_le: "recover_deadline_exceeded_runs db tid rid clock now = Inr (db', res) \<Longrightarrow> db_ok db \<Longrightarrow>
    db_le db ids db'"
  using recover_result(2) [of db tid rid clock now db' res] sweep_row_le selects_active
  by (force simp: db_le_def map_of_sweep_rows split: option.splits)

lemma delete_thread_cases:
  assumes "delete_thread_for_user db t user = (db', deleted)"
  shows "db' = db \<or> db' = delete_thread db t"
  using assms by (auto simp: delete_thread_for_user_def split: option.splits if_splits)

lemma map_of_deleted:
  "db_ok db \<Longrightarrow> map_of (runs (delete_thread db t)) i =
     (case map_of (runs db) i of None \<Rightarrow> None | Some r \<Rightarrow> if run_thread_id r \<noteq> t then Some r else None)"
  by (simp add: delete_thread_def Let_def map_of_filter_value [OF db_okD(6)])

lemma delete_le: "db_ok db \<Longrightarrow> db_le db ids (delete_thread db t)"
  by (auto simp: db_le_def map_of_deleted split: option.splits)

lemma delete_keys: "keys_issued db ids \<Longrightarrow> keys_issued (delete_thread db t) ids"
  by (auto simp: keys_issued_def delete_thread_def Let_def)

lemma run_step_effect:
  assumes "run_step s t" "run_inv s"
  shows "run_inv t \<and> run_le s t"
proof -
  obtain db ids where s: "s = (db, ids)" by fastforce
  have ok: "db_ok db" and keys: "keys_issued db ids" using assms(2) by (simp_all add: run_inv_def s)
  show ?thesis
    using assms(1)
  proof (cases rule: run_step.cases)
    case (step_create db0 user q tid qt now nt nm nr db' c ids0)
    then have eq: "db0 = db" "ids0 = ids" by (simp_all add: s)
    note created = create_user_run_ok [OF ok step_create(3) [unfolded eq]]
    have "map_of (runs db') j = map_of (runs db) j" if "j \<in> ids" for j
      using that step_create(6) keys eq
      by (auto simp: created(2) map_add_def keys_issued_def split: option.splits)
    then have "db_le db ids db'" by (auto simp: db_le_def split: option.splits)
    moreover have "keys_issued db' (ids \<union> {nt, nm, nr})"
      unfolding keys_issued_def created(2,4)
      using keys subset_trans [OF created(3), of "ids \<union> {nt, nm, nr}"]
      by (simp add: keys_issued_def subset_insertI2)
    ultimately show ?thesis using created(1) step_create(2) by (auto simp: s eq run_inv_def run_le_def)
  next
    case (step_perform db0 i op now db' out ids0)
    then have eq: "db0 = db" "ids0 = ids" by (simp_all add: s)
    note effect = perform_effect [OF ok step_perform(3) [unfolded eq]]
    then have "db_ok db'" by (simp add: run_effect_def)
    then show ?thesis
      using step_perform(2) run_effect_le [OF effect] run_effect_keys [OF effect keys]
      by (simp add: s eq run_inv_def run_le_def)
  next
    case (step_sweep db0 tid rid clock now db' res ids0)
    then have eq: "db0 = db" "ids0 = ids" by (simp_all add: s)
    note sweep = step_sweep(3) [unfolded eq]
    note swept = recover_result [OF ok sweep]
    have "fst ` set (runs db') = fst ` set (runs db)"
      unfolding swept(2) by (metis list.set_map sweep_rows_keys)
    then show ?thesis
      using step_sweep(2) sweep_le [OF sweep ok] swept keys
      by (auto simp: s eq run_inv_def run_le_def keys_issued_def)
  next
    case (step_delete db0 t user db' deleted ids0)
    then have eq: "db0 = db" "ids0 = ids" by (simp_all add: s)
    show ?thesis
      using delete_thread_cases [OF step_delete(3) [unfolded eq]] step_delete(2) ok keys delete_thread_ok
        delete_le delete_keys
      by (auto simp: s eq run_inv_def run_le_def db_le_refl)
  qed
qed

interpretation run_sys: monotone_system run_start run_step run_inv run_le
proof
  show "run_start s \<Longrightarrow> run_inv s" for s
    using db_ok_empty by (simp add: run_start_def run_inv_def keys_issued_def) (simp add: empty_db_def)
  show "run_step s t \<Longrightarrow> run_inv s \<Longrightarrow> run_inv t" for s t
    using run_step_effect by blast
  show "run_le s s" for s
    by (simp add: run_le_def db_le_refl)
  show "run_le s t \<Longrightarrow> run_le t u \<Longrightarrow> run_le s u" for s t u
    unfolding run_le_def using db_le_trans by blast
  show "run_inv s \<Longrightarrow> run_step s t \<Longrightarrow> run_le s t" for s t
    using run_step_effect by blast
qed

end
