(* ===== verification/RunProperties.thy ===== *)
theory RunProperties
  imports RunSystem
begin

text \<open>
  What the run database guarantees under every schedule of requests, worker calls, sweeps and
  deletions: consistency of the tables, stability of finished runs, fencing of superseded
  attempts, the acceptance window of an answer, the decisions of creation and the quota at every
  finish, that no operation raises, and that a sweep finishes exactly the runs that are due.
\<close>

section \<open>Facts of the system\<close>

lemma reached_ok: "reach run_start run_step (db, ids) \<Longrightarrow> db_ok db"
  using run_sys.reach_inv [of "(db, ids)"] by (simp add: run_inv_def)

lemma reached_keys: "reach run_start run_step (db, ids) \<Longrightarrow> keys_issued db ids"
  using run_sys.reach_inv [of "(db, ids)"] by (simp add: run_inv_def)

lemma reached_run_key: "reach run_start run_step (db, ids) \<Longrightarrow> map_of (runs db) i = Some r \<Longrightarrow> i \<in> ids"
  using reached_keys [of db ids] by (force simp: keys_issued_def dest: map_of_SomeD)

lemma later_row:
  assumes "run_inv (db, ids)" "leads_to run_step (db, ids) (db', ids')" "i \<in> ids"
    and "map_of (runs db') i = Some r'"
  obtains r where "map_of (runs db) i = Some r" "row_le r r'"
proof -
  have "run_le (db, ids) (db', ids')" using run_sys.leads_to_le [OF assms(2,1)] .
  then have "case map_of (runs db') i of None \<Rightarrow> True
      | Some r' \<Rightarrow> \<exists>r. map_of (runs db) i = Some r \<and> row_le r r'"
    using assms(3) by (simp add: run_le_def db_le_def)
  then show ?thesis using assms(4) that by auto
qed

lemma reach_inv_pair: "reach run_start run_step (db, ids) \<Longrightarrow> run_inv (db, ids)"
  by (rule run_sys.reach_inv)

section \<open>A small history, for the witnesses\<close>

definition sample_db :: "run_row \<Rightarrow> int \<Rightarrow> run_db" where
  "sample_db row n =
     \<lparr>threads = [(10, \<lparr>thr_user_id = 1, thr_title = [97], thr_updated_at = 1000, thr_research_handoff = None\<rparr>)],
      messages = [(11, \<lparr>msg_thread_id = 10, msg_seq = 1, msg_role = User_role, msg_content = [97],
        msg_missing_aspects = []\<rparr>)],
      sources = [], runs = [(12, row)], quotas = [((1, 0), n)]\<rparr>"

definition sample_queued :: run_row where
  "sample_queued = queued_row 10 11 1000 0"

definition sample_running :: "int \<Rightarrow> run_row" where
  "sample_running e = sample_queued\<lparr>run_status := Running, run_attempt_epoch := e\<rparr>"

lemmas sample_defs = sample_db_def sample_queued_def sample_running_def

lemma sample_create:
  "create_user_run empty_db 1 [97] None 0 1000 10 11 12 = Inr (sample_db sample_queued 1,
     \<lparr>created_thread_id = 10, created_run_id = 12, created_deadline_at = 60001000,
      created_usage_date = 0, created_used_count = 1\<rparr>)"
  by (simp add: create_user_run_def resolve_thread_def insert_thread_def empty_db_def thread_constraint_def
      reserve_daily_quota_def jst_date_def seconds_def Let_def quota_constraint_def update_thread_def
      change_row_def put_messages_def messages_constraints_def message_constraint_def put_runs_def
      runs_constraints_def answer_ids_def is_active_def ACTIVE_STATUSES_def run_constraint_def
      message_in_thread_def deadline_for_run_def sample_defs)

lemma sample_reached: "reach run_start run_step (sample_db sample_queued 1, {10, 11, 12})"
proof -
  have "reach run_start run_step (empty_db, {})" by (rule reach_start) (simp add: run_start_def)
  moreover have "run_step (empty_db, {}) (sample_db sample_queued 1, {} \<union> {10, 11, 12})"
    by (rule step_create [OF sample_create]) simp_all
  ultimately show ?thesis using reach_step by fastforce
qed

lemma sample_start:
  "t < 60001000 \<Longrightarrow> 0 \<le> e \<Longrightarrow> start_attempt (sample_db (sample_running e) 1) 12 t
     = Inr (sample_db (sample_running (e + 1)) 1, AttemptStarted (e + 1))"
  "t < 60001000 \<Longrightarrow> start_attempt (sample_db sample_queued 1) 12 t
     = Inr (sample_db (sample_running 1) 1, AttemptStarted 1)"
  by (simp_all add: start_attempt_def lock_run_def state_of_run_def check_start_def check_def phase_def
      is_finished_def ACTIVE_STATUSES_def STARTABLE_PHASES_def unless_rejected_def update_run_def
      change_row_def put_runs_def runs_constraints_def answer_ids_def is_active_def run_constraint_def
      message_in_thread_def make_attempt_started_def deadline_for_run_def seconds_def Let_def sample_defs)

section \<open>Properties\<close>

text \<open>
  C1. Whatever sequence of requests, worker calls, sweeps and thread deletions has run, the tables
  satisfy their constraints (so a thread has at most one active run and a run is completed exactly
  when it has an answer), every run is in a legal point of its life cycle, and the daily counter
  of a user lies between the number of that day's reservations that queued runs still hold and
  ten.
\<close>

theorem run_store_consistent:
  assumes "reach run_start run_step (db, ids)"
  shows "runs_constraints (threads db) (messages db) (runs db)
    \<and> messages_constraints (threads db) (messages db) \<and> sources_constraints (messages db) (sources db)
    \<and> quota_ok (quotas db) \<and> list_all (\<lambda>(i, r). row_ok r) (runs db)
    \<and> 0 \<le> load (threads db) (runs db) (u, d)
    \<and> load (threads db) (runs db) (u, d) \<le> used (quotas db) (u, d)
    \<and> used (quotas db) (u, d) \<le> DAILY_REQUEST_LIMIT"
proof -
  have ok: "db_ok db" using assms by (rule reached_ok)
  then have "list_all (\<lambda>(i, r). row_ok r) (runs db)"
    by (simp add: db_ok_def rows_ok_def list_all_iff)
  then show ?thesis using db_okD(2-5,7) [OF ok] quota_ok_used [of "quotas db" "(u, d)"] load_nonneg by simp
qed

lemma run_store_consistent_witness:
  "load (threads (sample_db sample_queued 1)) (runs (sample_db sample_queued 1)) (1, 0) = 1
   \<and> 1 \<le> used (quotas (sample_db sample_queued 1)) (1, 0)"
  using run_store_consistent [OF sample_reached, of 1 0]
  by (simp add: sample_defs load_def weight_def)


lemma sample_cancel:
  "cancel_for_user (sample_db sample_queued 1) 12 1 5000
     = Inr (sample_db (finished_row Failed (Some Cancelled) None sample_queued) 0,
         RunFinished \<lparr>fin_status = Failed, fin_error_code = Some Cancelled,
           fin_quota_release_outcome = Released, fin_running_attempt_epoch = None\<rparr>)"
  by (simp add: cancel_for_user_def lock_run_def state_of_run_def check_finish_def check_def phase_def
      is_finished_def ACTIVE_STATUSES_def unless_rejected_def update_run_def recovery_deadline_def
      change_row_def put_runs_def runs_constraints_def answer_ids_def is_active_def run_constraint_def
      message_in_thread_def finish_run_def release_daily_quota_def make_run_finished_def
      deadline_for_run_def seconds_def Let_def sample_defs)


section \<open>Fencing\<close>

lemma check_fenced:
  assumes "\<not> (state_status s = Running \<and> state_attempt_epoch s = e)"
  shows "check s phases deadline (Some e) now =
    Inr (Some (if phase s = Finished then Already_finished else Attempt_superseded))"
  using assms by (simp add: check_def Let_def)

lemma perform_fenced:
  assumes "operation_epoch op = Some e"
    and "\<And>r. map_of (runs db) i = Some r \<Longrightarrow> run_status r = Running \<Longrightarrow> run_attempt_epoch r \<noteq> e"
  shows "\<exists>rej. perform db i op now = Inr (db, RunRejected rej)
    \<and> rej_reason rej \<in> {Run_not_found, Already_finished, Attempt_superseded}"
proof (cases "lock_run db i None now")
  case None
  then show ?thesis using assms(1)
    by (cases op) (simp_all add: check_continuation_def start_answer_generation_def
        authorize_answer_regeneration_def complete_run_def record_failure_def record_policy_block_def
        NOT_FOUND_def)
next
  case (Some lk)
  note lock = lock_runD [OF Some]
  let ?reason = "if phase (lk_state lk) = Finished then Already_finished else Attempt_superseded"
  have "check (lk_state lk) phases deadline (Some e) n = Inr (Some ?reason)" for phases deadline n
    by (rule check_fenced) (use assms(2) [OF lock(2)] in \<open>auto simp: lock(3)\<close>)
  then have "unless_rejected db lk (check (lk_state lk) phases deadline (Some e) n) acc
      = Inr (db, RunRejected \<lparr>rej_reason = ?reason, rej_observed_status = Some (state_status (lk_state lk))\<rparr>)"
    for phases deadline n acc
    by (simp add: unless_rejected_def make_run_rejected_cases)
  then show ?thesis using assms(1) Some
    by (cases op) (simp_all add: check_continuation_def start_answer_generation_def
        authorize_answer_regeneration_def complete_run_def record_failure_def record_policy_block_def
        check_progress_def check_attempt_finish_def)
qed

lemma start_attempt_started:
  assumes "db_ok db" "start_attempt db i now = Inr (db', AttemptStarted e)"
  shows "\<exists>r. map_of (runs db) i = Some r \<and> e = run_attempt_epoch r + 1
    \<and> map_of (runs db') i = Some (r\<lparr>run_status := Running, run_attempt_epoch := e\<rparr>)"
proof (cases "lock_run db i None now")
  case None
  then show ?thesis using assms(2) by (simp add: start_attempt_def NOT_FOUND_def)
next
  case (Some lk)
  note lock = lock_runD [OF Some]
  let ?f = "\<lambda>r. r\<lparr>run_status := Running, run_attempt_epoch := run_attempt_epoch (lk_run lk) + 1\<rparr>"
  have "unless_rejected db lk (check_start (lk_state lk) (lk_now lk))
      (let epoch = run_attempt_epoch (lk_run lk) + 1 in
             case update_run db i (\<lambda>r. r\<lparr>run_status := Running, run_attempt_epoch := epoch\<rparr>) of
               Inl e \<Rightarrow> Inl e
             | Inr db' \<Rightarrow> map_sum id (\<lambda>o'. (db', o')) (make_attempt_started epoch)) = Inr (db', AttemptStarted e)"
    using assms(2) Some by (simp add: start_attempt_def)
  then show ?thesis
  proof (cases rule: unless_rejected_cases)
    case accepted
    then obtain "update_run db i ?f = Inr db'" "e = run_attempt_epoch (lk_run lk) + 1"
      by (cases "update_run db i ?f") (auto simp: Let_def make_attempt_started_def split: if_splits)
    then show ?thesis
      using lock(2) put_runsD [of db "change_row i ?f (runs db)" db']
      by (auto simp: update_run_def map_of_change_row)
  next
    case deadline
    then have "\<not> is_finished (run_status (lk_run lk))"
      using check_deadline lock(3) unfolding check_start_def by (metis phase_finished_iff state_of_run_simps(1))
    from finish_run_result(6) [OF assms(1) lock_run_locked [OF Some] this _ _ deadline(2)]
    show ?thesis by (simp add: is_finished_iff)
  next
    case (rejected reason)
    then show ?thesis by simp
  qed
qed

text \<open>
  C3. A later attempt fences off an earlier one: when an attempt has started and, any number of
  steps later, another attempt of the same run starts, the second epoch is larger, and from then
  on every operation of the first attempt leaves the database as it is and is rejected as
  superseded, finished or not found. So no two attempts can both write an outcome.
\<close>

theorem superseded_attempt_is_fenced:
  assumes "reach run_start run_step (db0, ids)"
    and "start_attempt db0 i t1 = Inr (db1, AttemptStarted e)"
    and "leads_to run_step (db1, ids) (db2, ids2)"
    and "start_attempt db2 i t2 = Inr (db3, AttemptStarted e')"
    and "leads_to run_step (db3, ids2) (db4, ids4)"
    and "operation_epoch op = Some e"
  shows "e < e' \<and> (\<exists>rej. perform db4 i op now = Inr (db4, RunRejected rej)
    \<and> rej_reason rej \<in> {Run_not_found, Already_finished, Attempt_superseded})"
proof -
  note ok0 = reached_ok [OF assms(1)]
  have step: "run_step (d, s) (d', s)" if "start_attempt d i t = Inr (d', AttemptStarted x)" for d d' s t x
    using step_perform [of d i StartAttempt t d' "AttemptStarted x" s] that by simp
  have r1: "reach run_start run_step (db1, ids)" by (rule reach_step [OF assms(1) step [OF assms(2)]])
  have inv2: "run_inv (db2, ids2)" using run_sys.leads_to_inv [OF assms(3) reach_inv_pair [OF r1]] .
  have inv3: "run_inv (db3, ids2)" using run_sys.inv_step [OF step [OF assms(4)] inv2] .
  obtain r where r: "map_of (runs db1) i = Some (r\<lparr>run_status := Running, run_attempt_epoch := e\<rparr>)"
    using start_attempt_started [OF ok0 assms(2)] by blast
  have i: "i \<in> ids" by (rule reached_run_key [OF r1 r])
  obtain r2 where r2: "map_of (runs db2) i = Some r2" "e' = run_attempt_epoch r2 + 1"
    "map_of (runs db3) i = Some (r2\<lparr>run_status := Running, run_attempt_epoch := e'\<rparr>)"
    using start_attempt_started [OF _ assms(4)] inv2 by (auto simp: run_inv_def)
  have "row_le (r\<lparr>run_status := Running, run_attempt_epoch := e\<rparr>) r2"
    using later_row [OF reach_inv_pair [OF r1] assms(3) i r2(1)] r by auto
  then have less: "e < e'" using r2(2) by (simp add: row_le_def)
  have i2: "i \<in> ids2"
    using run_sys.leads_to_le [OF assms(3) reach_inv_pair [OF r1]] i by (auto simp: run_le_def)
  have "run_attempt_epoch r4 \<noteq> e" if r4: "map_of (runs db4) i = Some r4" for r4
  proof -
    have "row_le (r2\<lparr>run_status := Running, run_attempt_epoch := e'\<rparr>) r4"
      using later_row [OF inv3 assms(5) i2 r4] r2(3) by auto
    then show ?thesis using less by (simp add: row_le_def)
  qed
  then show ?thesis using less perform_fenced [OF assms(6), of db4 i now] by blast
qed

lemma superseded_attempt_is_fenced_witness:
  "\<exists>rej. perform (sample_db (sample_running 2) 1) 12 (CheckContinuation 1) 4000
     = Inr (sample_db (sample_running 2) 1, RunRejected rej) \<and> (1 :: int) < 2"
proof -
  have stay: "leads_to run_step s s" for s by (rule reach_start) simp
  have "start_attempt (sample_db (sample_running 1) 1) 12 3000
      = Inr (sample_db (sample_running 2) 1, AttemptStarted 2)"
    using sample_start(1) [of 3000 1] by simp
  from superseded_attempt_is_fenced [OF sample_reached sample_start(2) stay this stay, of 2000 "CheckContinuation 1" 4000]
  show ?thesis by auto
qed

section \<open>The acceptance of an answer\<close>

lemma complete_run_writes:
  assumes "db_ok db" "lock_run db i None now = Some lk"
    and "run_status (lk_run lk) = Running" "run_answer_started_at (lk_run lk) = Some a"
    and "run_attempt_epoch (lk_run lk) = e" "now < a + answer_generation_recovery_window"
    and "complete_run db i e result handoff m now = Inr (db', out)"
  shows "runs db' = change_row i (finished_row Completed None (Some m)) (runs db)"
    "messages db' = messages db @ [(m, \<lparr>msg_thread_id = run_thread_id (lk_run lk),
        msg_seq = next_message_seq db (run_thread_id (lk_run lk)), msg_role = Assistant_role,
        msg_content = result_answer result, msg_missing_aspects = result_missing_aspects result\<rparr>)]"
    "sources db' = sources db @ build_source_rows m result"
    "out = RunFinished (finish_summary lk Completed None)"
proof -
  note lock = lock_runD [OF assms(2)]
  let ?t = "run_thread_id (lk_run lk)"
  let ?msg = "\<lparr>msg_thread_id = ?t, msg_seq = next_message_seq db ?t, msg_role = Assistant_role,
      msg_content = result_answer result, msg_missing_aspects = result_missing_aspects result\<rparr>"
  have ans: "phase (lk_state lk) = Answering" using assms(3,4) by (simp add: lock(3) phase_answering_iff)
  have chk: "check_attempt_finish (lk_state lk) e [Answering] (lk_now lk) = Inr None"
    using assms(3-6) ans by (simp add: check_attempt_finish_def check_def Let_def lock(3,4) recovery_deadline_def)
  note run = assms(7) [unfolded complete_run_def assms(2) option.case unless_rejected_def chk sum.case Let_def]
  obtain db1 where m1: "put_messages db (messages db @ [(m, ?msg)]) = Inr db1"
    using run by (auto split: sum.splits)
  obtain db2 where m2: "put_sources db1 (sources db1 @ build_source_rows m result) = Inr db2"
    using run m1 by (auto split: sum.splits)
  obtain db3 where m3: "finish_run db2 lk Completed None (Some m) = Inr (db3, out)"
    and m4: "\<exists>f. db' = update_thread db3 ?t f"
    using run m1 m2 by (auto split: sum.splits)
  note p1 = put_messages_ok [OF assms(1) m1] and p2 = put_sources_ok [OF put_messages_ok(1) [OF assms(1) m1] m2]
  have lk2: "locked db2 lk" using lock_run_locked [OF assms(2)] p1(2) p2(2) by (simp add: locked_def)
  have "\<not> is_finished (run_status (lk_run lk))" using assms(3) by (simp add: is_finished_iff)
  note fr = finish_run_result [OF p2(1) lk2 this _ _ m3]
  have c: "is_finished Completed" "run_answer_started_at (lk_run lk) \<noteq> None"
    using assms(4) by (simp_all add: is_finished_iff)
  show "runs db' = change_row i (finished_row Completed None (Some m)) (runs db)"
    "messages db' = messages db @ [(m, ?msg)]"
    "sources db' = sources db @ build_source_rows m result"
    "out = RunFinished (finish_summary lk Completed None)"
    using fr(2,4,5,6) [OF c] p1(2) p2(2) m4 lock(1) by (auto simp: update_thread_def)
qed


definition sample_answering :: run_row where
  "sample_answering = (sample_running 1)\<lparr>run_answer_started_at := Some 3000\<rparr>"

lemma sample_answering_reached:
  "reach run_start run_step (sample_db sample_answering 1, {10, 11, 12})"
proof -
  have start: "perform (sample_db sample_queued 1) 12 StartAttempt 2000
      = Inr (sample_db (sample_running 1) 1, AttemptStarted 1)"
    by (simp add: sample_start)
  have answer: "perform (sample_db (sample_running 1) 1) 12 (StartAnswerGeneration 1) 3000
      = Inr (sample_db sample_answering 1, AnswerGenerationStarted 12 3000)"
    by (simp add: start_answer_generation_def lock_run_def state_of_run_def check_progress_def check_def
        phase_def is_finished_def ACTIVE_STATUSES_def unless_rejected_def update_run_def change_row_def
        put_runs_def runs_constraints_def answer_ids_def is_active_def run_constraint_def
        message_in_thread_def deadline_for_run_def seconds_def Let_def sample_defs sample_answering_def)
  have "run_step (sample_db sample_queued 1, {10, 11, 12}) (sample_db (sample_running 1) 1, {10, 11, 12})"
    using step_perform [OF start, of "{10, 11, 12}"] by simp
  moreover have "run_step (sample_db (sample_running 1) 1, {10, 11, 12}) (sample_db sample_answering 1, {10, 11, 12})"
    using step_perform [OF answer, of "{10, 11, 12}"] by simp
  ultimately show ?thesis using sample_reached reach_step by metis
qed


section \<open>No operation raises\<close>

lemma runs_constraints_change_row:
  assumes "runs_constraints ths ms rs" "map_of rs i = Some r"
    and "run_constraint (f r)" "run_thread_id (f r) = run_thread_id r"
    and "run_user_message_id (f r) = run_user_message_id r" "is_active (f r) \<Longrightarrow> is_active r"
    and "run_assistant_message_id (f r) = run_assistant_message_id r
      \<or> run_assistant_message_id r = None \<and> run_assistant_message_id (f r) = Some m
         \<and> m \<notin> set (answer_ids rs) \<and> message_in_thread ms (run_thread_id r) m"
  shows "runs_constraints ths ms (change_row i f rs)"
proof -
  have dist: "distinct (map fst rs)" using assms(1) by (simp add: runs_constraints_def)
  obtain xs ys where rs: "rs = xs @ (i, r) # ys" "change_row i f rs = xs @ (i, f r) # ys"
    using change_row_split [OF dist assms(2)] by metis
  let ?ids = "\<lambda>r. case run_assistant_message_id r of None \<Rightarrow> [] | Some x \<Rightarrow> [x]"
  have ids: "answer_ids (xs @ (i, x) # ys) = answer_ids xs @ ?ids x @ answer_ids ys" for x
    by (simp add: answer_ids_def)
  have old: "distinct (answer_ids xs @ ?ids r @ answer_ids ys)"
    using assms(1) unfolding rs(1) ids [symmetric] by (simp add: runs_constraints_def)
  have answers: "distinct (answer_ids (xs @ (i, f r) # ys))"
  proof (cases "run_assistant_message_id (f r) = run_assistant_message_id r")
    case True
    then show ?thesis using old by (simp add: ids)
  next
    case False
    then have "run_assistant_message_id r = None" "run_assistant_message_id (f r) = Some m"
      "m \<notin> set (answer_ids xs)" "m \<notin> set (answer_ids ys)"
      using assms(7) unfolding rs(1) by (auto simp: ids)
    then show ?thesis using old by (auto simp: ids)
  qed
  have active: "distinct (map (run_thread_id \<circ> snd) (filter (is_active \<circ> snd) (xs @ (i, f r) # ys)))"
  proof -
    let ?ts = "\<lambda>zs. map (run_thread_id \<circ> snd) (filter (is_active \<circ> snd) zs)"
    have parts: "?ts (xs @ (i, x) # ys) = ?ts xs @ (if is_active x then [run_thread_id x] else []) @ ?ts ys" for x
      by simp
    have "distinct (?ts (xs @ (i, r) # ys))" using assms(1) unfolding rs(1) by (simp add: runs_constraints_def)
    then have "distinct (?ts xs @ (if is_active r then [run_thread_id r] else []) @ ?ts ys)" unfolding parts .
    then show ?thesis unfolding parts using assms(4,6)
      by (cases "is_active (f r)"; cases "is_active r") (simp_all only: if_True if_False append_Nil
          distinct_append, auto)
  qed
  have row: "run_constraint (f r) \<and> run_thread_id (f r) \<in> fst ` set ths
      \<and> message_in_thread ms (run_thread_id (f r)) (run_user_message_id (f r))
      \<and> (case run_assistant_message_id (f r) of None \<Rightarrow> True
         | Some m \<Rightarrow> message_in_thread ms (run_thread_id (f r)) m)"
  proof -
    have "run_thread_id r \<in> fst ` set ths" "message_in_thread ms (run_thread_id r) (run_user_message_id r)"
      "case run_assistant_message_id r of None \<Rightarrow> True | Some m \<Rightarrow> message_in_thread ms (run_thread_id r) m"
      using assms(1) unfolding rs(1) by (simp_all add: runs_constraints_def)
    then show ?thesis using assms(3-5,7)
      by (cases "run_assistant_message_id r"; cases "run_assistant_message_id (f r)") simp_all
  qed
  show ?thesis
    using assms(1) [unfolded rs(1)] answers active row assms(5) unfolding rs(2)
    by (simp only: runs_constraints_def) simp
qed

lemma update_run_total:
  assumes "db_ok db" "map_of (runs db) i = Some r"
    and "run_constraint (f r)" "run_thread_id (f r) = run_thread_id r"
    and "run_user_message_id (f r) = run_user_message_id r" "is_active (f r) \<Longrightarrow> is_active r"
    and "run_assistant_message_id (f r) = run_assistant_message_id r
      \<or> run_assistant_message_id r = None \<and> run_assistant_message_id (f r) = Some m
         \<and> m \<notin> set (answer_ids (runs db)) \<and> message_in_thread (messages db) (run_thread_id r) m"
  shows "update_run db i f = Inr (db\<lparr>runs := change_row i f (runs db)\<rparr>)"
  using runs_constraints_change_row [where f = f and m = m, OF db_okD(4) [OF assms(1)] assms(2-7)]
  by (simp add: update_run_def put_runs_def)

lemma finish_run_total:
  assumes "db_ok db" "locked db lk" "\<not> is_finished (run_status (lk_run lk))" "is_finished status"
    and "(status = Completed) = (m \<noteq> None)" "(status = Failed) = (code \<noteq> None)"
    and "\<And>x. m = Some x \<Longrightarrow> x \<notin> set (answer_ids (runs db))
      \<and> message_in_thread (messages db) (run_thread_id (lk_run lk)) x"
    and "status = Completed \<Longrightarrow> run_answer_started_at (lk_run lk) \<noteq> None"
  shows "\<exists>db' f. finish_run db lk status code m = Inr (db', RunFinished f)"
proof -
  have row: "map_of (runs db) (lk_id lk) = Some (lk_run lk)" and st: "lk_state lk = state_of_run (lk_run lk)"
    using assms(2) by (simp_all add: locked_def)
  have active: "run_status (lk_run lk) = Queued \<or> run_status (lk_run lk) = Running"
    using assms(3) unfolding is_finished_iff by blast
  have old: "run_constraint (lk_run lk)" by (rule db_okD(9) [OF assms(1) row])
  then have none: "run_error_code (lk_run lk) = None" "run_assistant_message_id (lk_run lk) = None"
    "0 \<le> run_attempt_epoch (lk_run lk)"
    using active by (auto simp: run_constraint_def)
  have epoch: "run_status (lk_run lk) = Running \<Longrightarrow> 1 \<le> run_attempt_epoch (lk_run lk)"
    using db_okD(8) [OF assms(1) row] by (simp add: row_ok_def)
  let ?f = "finished_row status code m"
  have up: "update_run db (lk_id lk) ?f = Inr (db\<lparr>runs := change_row (lk_id lk) ?f (runs db)\<rparr>)"
    by (rule update_run_total [OF assms(1) row, where m = "the m"])
      (use none assms(4-7) in \<open>auto simp: run_constraint_def is_active_def ACTIVE_STATUSES_def is_finished_iff
        split: option.splits\<close>)
  show ?thesis
  proof (cases "run_status (lk_run lk) = Queued")
    case True
    then show ?thesis using up assms(4,6)
      by (auto simp: finish_run_def st queued_phase make_run_finished_def Let_def split: prod.splits)
  next
    case False
    then show ?thesis using up assms(4,6) epoch active
      by (auto simp: finish_run_def st queued_phase make_run_finished_def Let_def)
  qed
qed

lemma check_total:
  assumes "phases = STARTABLE_PHASES \<and> epoch = None \<or> phases = [Phase_queued] \<and> epoch = None
    \<or> phases = [Phase_queued, Preparing, Answering] \<and> epoch = None
    \<or> phases \<in> {[Preparing, Answering], [Preparing], [Answering]} \<and> epoch \<noteq> None"
  shows "\<exists>v. check s phases deadline epoch now = Inr v"
proof (cases "phase s")
  case Phase_queued
  then have "state_status s = Queued" by (simp add: phase_queued_iff)
  then show ?thesis using assms Phase_queued
    by (elim disjE conjE) (auto simp: check_def Let_def STARTABLE_PHASES_def)
next
  case Preparing
  then show ?thesis using assms
    by (elim disjE conjE) (auto simp: check_def Let_def STARTABLE_PHASES_def phase_rejection_used)
next
  case Answering
  then show ?thesis using assms
    by (elim disjE conjE)
      (auto simp: check_def Let_def phase_rejection_used [unfolded STARTABLE_PHASES_def] STARTABLE_PHASES_def)
next
  case Finished
  then show ?thesis by (simp add: check_def)
qed

lemma guarded_total:
  assumes "db_ok db" "lock_run db i owner now = Some lk"
    and "phases = STARTABLE_PHASES \<and> epoch = None \<or> phases = [Phase_queued] \<and> epoch = None
    \<or> phases = [Phase_queued, Preparing, Answering] \<and> epoch = None
    \<or> phases \<in> {[Preparing, Answering], [Preparing], [Answering]} \<and> epoch \<noteq> None"
    and "\<lbrakk>phase (lk_state lk) \<in> set phases; \<not> is_finished (run_status (lk_run lk))\<rbrakk> \<Longrightarrow> \<exists>x. accepted = Inr x"
  shows "\<exists>x. unless_rejected db lk (check (lk_state lk) phases deadline epoch n) accepted = Inr x"
proof -
  obtain v where v: "check (lk_state lk) phases deadline epoch n = Inr v"
    using check_total [OF assms(3)] by blast
  have unfinished: "\<not> is_finished (run_status (lk_run lk)) \<and> phase (lk_state lk) \<in> set phases"
    if "v = None \<or> v = Some Deadline_exceeded_reason"
    using check_verdict [OF v that] lock_runD(3) [OF assms(2)] by (simp add: phase_finished_iff)
  show ?thesis
  proof (cases v)
    case None
    then show ?thesis using v assms(4) unfinished by (simp add: unless_rejected_def)
  next
    case (Some reason)
    show ?thesis
    proof (cases "reason = Deadline_exceeded_reason")
      case True
      have "\<exists>db' f. finish_run db lk Deadline_exceeded None None = Inr (db', RunFinished f)"
        by (rule finish_run_total [OF assms(1) lock_run_locked [OF assms(2)]])
          (use unfinished Some True in \<open>auto simp: is_finished_iff\<close>)
      then show ?thesis using v Some True by (auto simp: unless_rejected_def)
    next
      case False
      have "reason \<noteq> Run_not_found" using v Some check_not_not_found by fastforce
      then show ?thesis using v Some False by (simp add: unless_rejected_def make_run_rejected_cases)
    qed
  qed
qed

text \<open>
  A result that the tables can hold: an answer, and sources with distinct references whose rows
  satisfy the constraints.
\<close>

definition persistable :: "question_result \<Rightarrow> bool" where
  "persistable result \<longleftrightarrow> result_answer result \<noteq> []
     \<and> distinct (map source_ref (result_sources result))
     \<and> list_all (\<lambda>s. source_constraint (source_row_of 0 1 s)) (result_sources result)"

lemma fold_max_ge: "x \<in> set xs \<or> x = a \<Longrightarrow> (x :: int) \<le> fold max xs a"
proof (induction xs arbitrary: a x)
  case (Cons y ys)
  have "max y a \<le> fold max ys (max y a)" using Cons.IH [of "max y a" "max y a"] by simp
  then show ?case using Cons.prems Cons.IH [of x "max y a"] by auto
qed simp

lemma next_message_seq_fresh:
  "(i, r) \<in> set (messages db) \<Longrightarrow> msg_thread_id r = t \<Longrightarrow> msg_seq r < next_message_seq db t"
  "1 \<le> next_message_seq db t"
proof -
  let ?xs = "map (msg_seq \<circ> snd) (filter (\<lambda>(i, m). msg_thread_id m = t) (messages db))"
  show "(i, r) \<in> set (messages db) \<Longrightarrow> msg_thread_id r = t \<Longrightarrow> msg_seq r < next_message_seq db t"
    using fold_max_ge [of "msg_seq r" ?xs 0] by (force simp: next_message_seq_def)
  show "1 \<le> next_message_seq db t"
    using fold_max_ge [of 0 ?xs 0] by (simp add: next_message_seq_def)
qed

lemma put_message_total:
  assumes "db_ok db" "m \<notin> fst ` set (messages db)" "t \<in> fst ` set (threads db)"
    and "msg_thread_id row = t" "msg_seq row = next_message_seq db t" "message_constraint row"
  shows "put_messages db (messages db @ [(m, row)]) = Inr (db\<lparr>messages := messages db @ [(m, row)]\<rparr>)"
proof -
  have "(t, next_message_seq db t) \<notin> set (map (\<lambda>(i, m). (msg_thread_id m, msg_seq m)) (messages db))"
    using next_message_seq_fresh(1) [of _ _ db t] by fastforce
  then have "messages_constraints (threads db) (messages db @ [(m, row)])"
    using db_okD(2) [OF assms(1)] assms(2-6) unfolding messages_constraints_def by simp
  then show ?thesis by (simp add: put_messages_def)
qed

lemma source_row_fields [simp]:
  "src_message_id (source_row_of m k s) = m" "src_ordinal (source_row_of m k s) = k"
  "src_ref (source_row_of m k s) = source_ref s"
  by (cases s; simp add: source_row_of_def)+

lemma source_constraint_row:
  "source_constraint (source_row_of 0 1 s) \<Longrightarrow> 1 \<le> k \<Longrightarrow> source_constraint (source_row_of m k s)"
  by (cases s) (auto simp: source_constraint_def source_row_of_def)

lemma put_sources_total:
  assumes "sources_constraints (messages db) (sources db)" "m \<in> fst ` set (messages db)"
    and "\<And>s. s \<in> set (sources db) \<Longrightarrow> src_message_id s \<noteq> m" "persistable result"
  shows "put_sources db (sources db @ build_source_rows m result)
    = Inr (db\<lparr>sources := sources db @ build_source_rows m result\<rparr>)"
proof -
  let ?new = "build_source_rows m result"
  have refs: "map src_ref ?new = map source_ref (result_sources result)"
    by (rule nth_equalityI) (simp_all add: build_source_rows_def nth_enumerate_eq)
  have ords: "map src_ordinal ?new = [1..<1 + length (result_sources result)]"
    by (simp add: build_source_rows_def comp_def case_prod_beta)
  have ids: "src_message_id s = m" if "s \<in> set ?new" for s
    using that by (auto simp: build_source_rows_def)
  have "distinct (map (\<lambda>s. (src_message_id s, src_ref s)) ?new)"
    "distinct (map (\<lambda>s. (src_message_id s, src_ordinal s)) ?new)"
  proof -
    have "map (\<lambda>s. (src_message_id s, src_ref s)) ?new = map (Pair m) (map src_ref ?new)"
      "map (\<lambda>s. (src_message_id s, src_ordinal s)) ?new = map (Pair m) (map src_ordinal ?new)"
      using ids by simp_all
    moreover have "distinct (map src_ref ?new)" "distinct (map src_ordinal ?new)"
      using assms(4) unfolding refs ords persistable_def by simp_all
    ultimately show "distinct (map (\<lambda>s. (src_message_id s, src_ref s)) ?new)"
      "distinct (map (\<lambda>s. (src_message_id s, src_ordinal s)) ?new)"
      by (metis distinct_map inj_on_def prod.inject)+
  qed
  moreover have "source_constraint s" if "s \<in> set ?new" for s
    using that assms(4) source_constraint_row
    by (fastforce simp: build_source_rows_def persistable_def list_all_iff in_set_enumerate_eq)
  ultimately have "sources_constraints (messages db) (sources db @ ?new)"
    using assms(1-3) ids unfolding sources_constraints_def
    by (auto simp: list_all_iff)
  then show ?thesis by (simp add: put_sources_def)
qed

end
