(* ===== verification/RunGuarantees.thy ===== *)
theory RunGuarantees
  imports RunProperties
begin

text \<open>
  Totality and quota accounting of the run database: which errors the operations, the creation and
  the sweep can end with, and what each finish does to the daily counter.
\<close>

section \<open>Operations\<close>

lemma used_message_ids:
  assumes "db_ok db" "x \<in> set (answer_ids (runs db))"
  shows "x \<in> fst ` set (messages db)"
proof -
  obtain i r where r: "(i, r) \<in> set (runs db)" "run_assistant_message_id r = Some x"
    using assms(2) by (auto simp: answer_ids_def split: option.splits)
  have "case run_assistant_message_id r of None \<Rightarrow> True
      | Some m \<Rightarrow> message_in_thread (messages db) (run_thread_id r) m"
    using db_okD(4) [OF assms(1)] r(1) by (auto simp: runs_constraints_def list_all_iff)
  then have "message_in_thread (messages db) (run_thread_id r) x" using r(2) by simp
  then show ?thesis by (force simp: message_in_thread_def split: option.splits dest: map_of_SomeD)
qed

lemma complete_run_total:
  assumes "db_ok db" "m \<notin> fst ` set (messages db)" "persistable result"
  shows "\<exists>x. complete_run db i e result handoff m now = Inr x"
proof (cases "lock_run db i None now")
  case None
  then show ?thesis by (simp add: complete_run_def)
next
  case (Some lk)
  note lock = lock_runD [OF Some]
  let ?t = "run_thread_id (lk_run lk)"
  let ?row = "\<lparr>msg_thread_id = ?t, msg_seq = next_message_seq db ?t, msg_role = Assistant_role,
      msg_content = result_answer result, msg_missing_aspects = result_missing_aspects result\<rparr>"
  let ?db1 = "db\<lparr>messages := messages db @ [(m, ?row)]\<rparr>"
  let ?db2 = "?db1\<lparr>sources := sources db @ build_source_rows m result\<rparr>"
  show ?thesis
    unfolding complete_run_def Some option.case check_attempt_finish_def
  proof (rule guarded_total [OF assms(1) Some])
    assume p: "phase (lk_state lk) \<in> set [Answering]" and nf: "\<not> is_finished (run_status (lk_run lk))"
    have m1: "put_messages db (messages db @ [(m, ?row)]) = Inr ?db1"
      by (rule put_message_total [OF assms(1,2) db_okD(10) [OF assms(1) lock(2)]])
        (use assms(3) next_message_seq_fresh(2) in \<open>simp_all add: message_constraint_def persistable_def\<close>)
    note p1 = put_messages_ok [OF assms(1) m1]
    have old: "src_message_id s \<noteq> m" if "s \<in> set (sources ?db1)" for s
      using db_okD(3) [OF assms(1)] that assms(2) by (auto simp: sources_constraints_def list_all_iff)
    have m2: "put_sources ?db1 (sources ?db1 @ build_source_rows m result) = Inr ?db2"
      using put_sources_total [OF db_okD(3) [OF p1(1)] _ old assms(3)] by simp
    note p2 = put_sources_ok [OF p1(1) m2]
    have lk2: "locked ?db2 lk" using lock_run_locked [OF Some] by (simp add: locked_def)
    have "map_of (messages db) m = None" using assms(2) by (simp add: map_of_eq_None_iff)
    then have "message_in_thread (messages ?db2) ?t m" by (simp add: message_in_thread_def map_add_def)
    moreover have "m \<notin> set (answer_ids (runs ?db2))" using used_message_ids [OF assms(1)] assms(2) by auto
    moreover have "run_answer_started_at (lk_run lk) \<noteq> None"
      using p by (simp add: lock(3) phase_answering_iff)
    ultimately obtain db3 f where m3: "finish_run ?db2 lk Completed None (Some m) = Inr (db3, RunFinished f)"
      using finish_run_total [OF p2(1) lk2 nf, of Completed "Some m" None] by (auto simp: is_finished_iff)
    show "\<exists>x. (let t = ?t in
             case put_messages db (messages db @
                    [(m, \<lparr>msg_thread_id = t, msg_seq = next_message_seq db t,
                       msg_role = Assistant_role, msg_content = result_answer result,
                       msg_missing_aspects = result_missing_aspects result\<rparr>)]) of
               Inl e \<Rightarrow> Inl e
             | Inr db1 \<Rightarrow>
                 (case put_sources db1 (sources db1 @ build_source_rows m result) of
                    Inl e \<Rightarrow> Inl e
                  | Inr db2 \<Rightarrow>
                      (case finish_run db2 lk Completed None (Some m) of
                         Inl e \<Rightarrow> Inl e
                       | Inr (db3, out) \<Rightarrow>
                           Inr (update_thread db3 t (\<lambda>r. r\<lparr>thr_updated_at := lk_now lk,
                                  thr_research_handoff :=
                                    (case handoff of None \<Rightarrow> thr_research_handoff r
                                                   | Some h \<Rightarrow> Some h)\<rparr>), out)))) = Inr x"
      using m1 m2 m3 by (simp add: Let_def)
  qed simp
qed

lemma finishing_case_total:
  assumes "db_ok db" "is_finished status" "status \<noteq> Completed" "(status = Failed) = (code \<noteq> None)"
    and "phases = [Phase_queued] \<and> epoch = None
      \<or> phases = [Phase_queued, Preparing, Answering] \<and> epoch = None
      \<or> phases = [Preparing, Answering] \<and> epoch \<noteq> None"
  shows "\<exists>x. (case lock_run db i owner now of None \<Rightarrow> Inr (db, NOT_FOUND)
      | Some lk \<Rightarrow> unless_rejected db lk
          (check (lk_state lk) phases (recovery_deadline (lk_state lk)) epoch (lk_now lk))
          (finish_run db lk status code None)) = Inr x"
proof (cases "lock_run db i owner now")
  case (Some lk)
  have "\<exists>x. unless_rejected db lk (check (lk_state lk) phases (recovery_deadline (lk_state lk)) epoch (lk_now lk))
          (finish_run db lk status code None) = Inr x"
  proof (rule guarded_total [OF assms(1) Some])
    assume nf: "\<not> is_finished (run_status (lk_run lk))"
    show "\<exists>x. finish_run db lk status code None = Inr x"
      using finish_run_total [OF assms(1) lock_run_locked [OF Some] nf assms(2), of None code] assms(3,4)
      by auto
  qed (use assms(5) in auto)
  then show ?thesis by (simp add: Some)
qed simp

lemma start_attempt_total:
  assumes "db_ok db"
  shows "\<exists>x. start_attempt db i now = Inr x"
proof (cases "lock_run db i None now")
  case None
  then show ?thesis by (simp add: start_attempt_def)
next
  case (Some lk)
  note lock = lock_runD [OF Some]
  let ?f = "\<lambda>r. r\<lparr>run_status := Running, run_attempt_epoch := run_attempt_epoch (lk_run lk) + 1\<rparr>"
  show ?thesis
    unfolding start_attempt_def Some option.case check_start_def
  proof (rule guarded_total [OF assms Some])
    assume nf: "\<not> is_finished (run_status (lk_run lk))"
    have c: "run_constraint (lk_run lk)" by (rule db_okD(9) [OF assms lock(2)])
    have up: "update_run db i ?f = Inr (db\<lparr>runs := change_row i ?f (runs db)\<rparr>)"
      by (rule update_run_total [OF assms lock(2), where m = 0])
        (use nf c in \<open>auto simp: run_constraint_def is_active_def ACTIVE_STATUSES_def is_finished_iff\<close>)
    show "\<exists>x. (let epoch = run_attempt_epoch (lk_run lk) + 1 in
             case update_run db i (\<lambda>r. r\<lparr>run_status := Running, run_attempt_epoch := epoch\<rparr>) of
               Inl e \<Rightarrow> Inl e
             | Inr db' \<Rightarrow> map_sum id (\<lambda>o'. (db', o')) (make_attempt_started epoch)) = Inr x"
      using up c by (simp add: Let_def make_attempt_started_def run_constraint_def)
  qed simp
qed

lemma start_answer_generation_total:
  assumes "db_ok db"
  shows "\<exists>x. start_answer_generation db i e now = Inr x"
proof (cases "lock_run db i None now")
  case None
  then show ?thesis by (simp add: start_answer_generation_def)
next
  case (Some lk)
  note lock = lock_runD [OF Some]
  let ?f = "\<lambda>r. r\<lparr>run_answer_started_at := Some (lk_now lk)\<rparr>"
  show ?thesis
    unfolding start_answer_generation_def Some option.case check_progress_def
  proof (rule guarded_total [OF assms Some])
    have "run_constraint (lk_run lk)" by (rule db_okD(9) [OF assms lock(2)])
    then have "update_run db i ?f = Inr (db\<lparr>runs := change_row i ?f (runs db)\<rparr>)"
      by (intro update_run_total [OF assms lock(2), where m = 0])
        (auto simp: run_constraint_def is_active_def)
    then show "\<exists>x. (case update_run db i ?f of Inl e \<Rightarrow> Inl e
        | Inr db' \<Rightarrow> Inr (db', AnswerGenerationStarted i (lk_now lk))) = Inr x" by simp
  qed simp
qed

lemma check_operations_total:
  assumes "db_ok db"
  shows "\<exists>x. check_continuation db i e now = Inr x" "\<exists>x. authorize_answer_regeneration db i e now = Inr x"
proof -
  have "\<exists>x. (case lock_run db i None now of None \<Rightarrow> Inr (db, NOT_FOUND)
      | Some lk \<Rightarrow> unless_rejected db lk
          (check (lk_state lk) phases (state_deadline_at (lk_state lk)) (Some e) (lk_now lk))
          (Inr (db, Continues))) = Inr x" if "phases \<in> {[Preparing, Answering], [Answering]}" for phases
  proof (cases "lock_run db i None now")
    case (Some lk)
    have "\<exists>x. unless_rejected db lk
          (check (lk_state lk) phases (state_deadline_at (lk_state lk)) (Some e) (lk_now lk))
          (Inr (db, Continues)) = Inr x"
      by (rule guarded_total [OF assms Some]) (use that in auto)
    then show ?thesis by (simp add: Some del: split_paired_Ex)
  qed simp
  then show "\<exists>x. check_continuation db i e now = Inr x" "\<exists>x. authorize_answer_regeneration db i e now = Inr x"
    unfolding check_continuation_def authorize_answer_regeneration_def check_progress_def by blast+
qed

lemma perform_total:
  assumes "db_ok db"
    and "\<And>e result handoff m. op = CompleteRun e result handoff m \<Longrightarrow>
      persistable result \<and> m \<notin> fst ` set (messages db)"
  shows "\<exists>x. perform db i op now = Inr x"
proof -
  note fin = finishing_case_total [OF assms(1)]
  have finishing: "\<exists>x. record_failure db i e code now = Inr x" "\<exists>x. record_policy_block db i e now = Inr x"
    "\<exists>x. cancel_for_user db i u now = Inr x" "\<exists>x. record_enqueue_failure db i now = Inr x" for e code u
    unfolding record_failure_def record_policy_block_def cancel_for_user_def record_enqueue_failure_def
      check_attempt_finish_def check_finish_def
    by (rule fin; simp add: is_finished_iff)+
  show ?thesis
    using assms(2)
    by (cases op) (simp_all add: finishing start_attempt_total [OF assms(1)]
        start_answer_generation_total [OF assms(1)] check_operations_total [OF assms(1)]
        complete_run_total [OF assms(1)] del: split_paired_Ex)
qed



section \<open>The quota of a finished run\<close>

lemma finish_run_quotas:
  assumes "finish_run db lk status code m = Inr (db', out)"
  shows "quotas db' = (if phase (lk_state lk) = Phase_queued
    then fst (release_daily_quota (quotas db) (lk_user lk) (run_quota_usage_date (lk_run lk))) else quotas db)"
proof -
  obtain db1 where up: "update_run db (lk_id lk) (finished_row status code m) = Inr db1"
    using assms by (cases "update_run db (lk_id lk) (finished_row status code m)") (simp_all add: finish_run_def)
  then have "quotas db1 = quotas db" using put_runsD unfolding update_run_def by fastforce
  then show ?thesis using assms up
    by (cases "release_daily_quota (quotas db) (lk_user lk) (run_quota_usage_date (lk_run lk))")
      (auto simp: finish_run_def map_sum_def split: if_splits sum.splits)
qed

lemma finish_settles:
  assumes "db_ok db" "locked db lk" "\<not> is_finished (run_status (lk_run lk))" "is_finished status"
    and "status = Completed \<Longrightarrow> run_answer_started_at (lk_run lk) \<noteq> None"
    and "finish_run db lk status code m = Inr (db', out)"
  shows "out = RunFinished (finish_summary lk status code)"
    "run_status (lk_run lk) = Queued \<Longrightarrow> \<exists>d. run_quota_usage_date (lk_run lk) = Some d
      \<and> used (quotas db') = (used (quotas db))((lk_user lk, d) := used (quotas db) (lk_user lk, d) - 1)"
    "run_status (lk_run lk) \<noteq> Queued \<Longrightarrow> quotas db' = quotas db"
proof -
  note res = finish_run_result [OF assms]
  show "out = RunFinished (finish_summary lk status code)" by (rule res(6))
  have row: "map_of (runs db) (lk_id lk) = Some (lk_run lk)" and st: "lk_state lk = state_of_run (lk_run lk)"
    using assms(2) by (simp_all add: locked_def)
  note q = finish_run_quotas [OF assms(6), unfolded st queued_phase]
  show "run_status (lk_run lk) \<noteq> Queued \<Longrightarrow> quotas db' = quotas db" using q by simp
  assume queued: "run_status (lk_run lk) = Queued"
  obtain d where d: "run_quota_usage_date (lk_run lk) = Some d"
    using db_okD(8) [OF assms(1) row] queued by (auto simp: row_ok_def)
  let ?g = "(lk_user lk, d)"
  have w: "weight (threads db) ?g (lk_run lk) = 1" using assms(2) queued d by (simp add: weight_def locked_def)
  have "weight (threads db) ?g (finished_row status code m (lk_run lk)) = 0" using assms(4) by (simp add: weight_finished)
  then have "1 \<le> load (threads db) (runs db) ?g"
    using load_change_row [OF db_okD(6) [OF assms(1)] row, of "threads db" "finished_row status code m" ?g] w
      load_nonneg [of "threads db" "change_row (lk_id lk) (finished_row status code m) (runs db)" ?g] by simp
  then have pos: "0 < used (quotas db) ?g" using db_okD(7) [OF assms(1), of ?g] by simp
  obtain q' rel where r: "release_daily_quota (quotas db) (lk_user lk) (Some d) = (q', rel)" by fastforce
  show "\<exists>d. run_quota_usage_date (lk_run lk) = Some d
      \<and> used (quotas db') = (used (quotas db))((lk_user lk, d) := used (quotas db) (lk_user lk, d) - 1)"
    using release_result(2) [OF r db_okD(5) [OF assms(1)] pos] q queued d r by simp
qed

text \<open>What an operation that finishes a run did to the counters.\<close>

definition settled :: "run_db \<Rightarrow> locked_run \<Rightarrow> run_db \<Rightarrow> run_finished \<Rightarrow> bool" where
  "settled db lk db' f \<longleftrightarrow> (\<exists>status code. f = finish_summary lk status code)
     \<and> (if run_status (lk_run lk) = Queued
        then \<exists>d. run_quota_usage_date (lk_run lk) = Some d
          \<and> used (quotas db') = (used (quotas db))((lk_user lk, d) := used (quotas db) (lk_user lk, d) - 1)
        else quotas db' = quotas db)"

lemma guarded_settled:
  assumes "db_ok db" "lock_run db i owner now = Some lk"
    and "unless_rejected db lk (check (lk_state lk) phases deadline epoch n) acc = Inr (db', RunFinished f)"
    and "\<lbrakk>acc = Inr (db', RunFinished f); \<not> is_finished (run_status (lk_run lk));
          phase (lk_state lk) \<in> set phases\<rbrakk> \<Longrightarrow> settled db lk db' f"
  shows "settled db lk db' f \<and> \<not> is_finished (run_status (lk_run lk))"
  using assms(3)
proof (cases rule: unless_rejected_cases)
  case accepted
  then have "phase (lk_state lk) \<noteq> Finished" "phase (lk_state lk) \<in> set phases"
    using check_None by blast+
  then show ?thesis using assms(4) accepted lock_runD(3) [OF assms(2)] by (simp add: phase_finished_iff)
next
  case deadline
  then have "phase (lk_state lk) \<noteq> Finished" using check_deadline by blast
  then have nf: "\<not> is_finished (run_status (lk_run lk))"
    using lock_runD(3) [OF assms(2)] by (simp add: phase_finished_iff)
  show ?thesis
    using finish_settles [OF assms(1) lock_run_locked [OF assms(2)] nf _ _ deadline(2)] nf
    by (auto simp: settled_def is_finished_iff)
next
  case (rejected reason)
  then show ?thesis by simp
qed

lemma finishing_case_settled:
  assumes "db_ok db"
    and "(case lock_run db i owner now of None \<Rightarrow> Inr (db, NOT_FOUND)
      | Some lk \<Rightarrow> unless_rejected db lk (check (lk_state lk) phases (deadline lk) epoch (lk_now lk)) (acc lk))
        = Inr (db', RunFinished f)"
    and "\<And>lk. \<lbrakk>lock_run db i owner now = Some lk; acc lk = Inr (db', RunFinished f);
          \<not> is_finished (run_status (lk_run lk)); phase (lk_state lk) \<in> set phases\<rbrakk> \<Longrightarrow> settled db lk db' f"
  shows "\<exists>lk. lk_id lk = i \<and> locked db lk \<and> settled db lk db' f \<and> \<not> is_finished (run_status (lk_run lk))"
proof (cases "lock_run db i owner now")
  case None
  then show ?thesis using assms(2) by (simp add: NOT_FOUND_def)
next
  case (Some lk)
  then show ?thesis
    using guarded_settled [OF assms(1) Some, of phases "deadline lk" epoch "lk_now lk" "acc lk" db' f]
      assms(2,3) lock_run_locked [OF Some] lock_runD(1) [OF Some] by auto
qed

lemma finish_settled:
  assumes "db_ok db" "lock_run db i owner now = Some lk" "\<not> is_finished (run_status (lk_run lk))"
    and "is_finished status" "status \<noteq> Completed" "finish_run db lk status code None = Inr (db', RunFinished f)"
  shows "settled db lk db' f"
  using finish_settles [OF assms(1) lock_run_locked [OF assms(2)] assms(3,4) _ assms(6)] assms(5)
  by (auto simp: settled_def)

lemma complete_accepted_settled:
  assumes "db_ok db" "lock_run db i None now = Some lk" "\<not> is_finished (run_status (lk_run lk))"
    and "phase (lk_state lk) \<in> set [Answering]"
    and "(let t = run_thread_id (lk_run lk) in
             case put_messages db (messages db @
                    [(m, \<lparr>msg_thread_id = t, msg_seq = next_message_seq db t,
                       msg_role = Assistant_role, msg_content = result_answer result,
                       msg_missing_aspects = result_missing_aspects result\<rparr>)]) of
               Inl e \<Rightarrow> Inl e
             | Inr db1 \<Rightarrow>
                 (case put_sources db1 (sources db1 @ build_source_rows m result) of
                    Inl e \<Rightarrow> Inl e
                  | Inr db2 \<Rightarrow>
                      (case finish_run db2 lk Completed None (Some m) of
                         Inl e \<Rightarrow> Inl e
                       | Inr (db3, out) \<Rightarrow>
                           Inr (update_thread db3 t (\<lambda>r. r\<lparr>thr_updated_at := lk_now lk,
                                  thr_research_handoff :=
                                    (case handoff of None \<Rightarrow> thr_research_handoff r
                                                   | Some h \<Rightarrow> Some h)\<rparr>), out)))) = Inr (db', RunFinished f)"
  shows "settled db lk db' f"
proof -
  obtain db1 db2 db3 ms g where m1: "put_messages db (messages db @ ms) = Inr db1"
    and m2: "put_sources db1 (sources db1 @ build_source_rows m result) = Inr db2"
    and m3: "finish_run db2 lk Completed None (Some m) = Inr (db3, RunFinished f)"
    and m4: "db' = update_thread db3 (run_thread_id (lk_run lk)) g"
    using assms(5) by (auto simp: Let_def split: sum.splits)
  note p1 = put_messages_ok [OF assms(1) m1] and p2 = put_sources_ok [OF put_messages_ok(1) [OF assms(1) m1] m2]
  have lk2: "locked db2 lk" using lock_run_locked [OF assms(2)] p1(2) p2(2) by (simp add: locked_def)
  have answered: "run_answer_started_at (lk_run lk) \<noteq> None"
    using assms(4) lock_runD(3) [OF assms(2)] by (simp add: phase_answering_iff)
  have "quotas db2 = quotas db" "quotas db' = quotas db3"
    using p1(2) p2(2) m4 by (simp_all add: update_thread_def)
  then show ?thesis
    using finish_settles [OF p2(1) lk2 assms(3) _ _ m3] answered
    by (auto simp: settled_def is_finished_iff)
qed

lemma complete_settled:
  assumes "db_ok db" "complete_run db i e result handoff m now = Inr (db', RunFinished f)"
  shows "\<exists>lk. lk_id lk = i \<and> locked db lk \<and> settled db lk db' f \<and> \<not> is_finished (run_status (lk_run lk))"
  by (rule finishing_case_settled [OF assms(1) assms(2) [unfolded complete_run_def check_attempt_finish_def]])
    (use complete_accepted_settled [OF assms(1)] in blast)

lemma perform_settled:
  assumes "db_ok db" "perform db i op now = Inr (db', RunFinished f)"
  shows "\<exists>lk. lk_id lk = i \<and> locked db lk \<and> settled db lk db' f \<and> \<not> is_finished (run_status (lk_run lk))"
proof -
  note fin = finishing_case_settled [OF assms(1)] and settles = finish_settled [OF assms(1)]
  show ?thesis
  proof (cases op)
    case StartAttempt
    show ?thesis
      by (rule fin [OF assms(2) [unfolded StartAttempt perform.simps start_attempt_def check_start_def]])
        (auto simp: Let_def make_attempt_started_def split: sum.splits if_splits)
  next
    case (CheckContinuation e)
    show ?thesis
      by (rule fin [OF assms(2) [unfolded CheckContinuation perform.simps check_continuation_def check_progress_def]])
        auto
  next
    case (StartAnswerGeneration e)
    show ?thesis
      by (rule fin [OF assms(2) [unfolded StartAnswerGeneration perform.simps start_answer_generation_def check_progress_def]])
        (auto split: sum.splits)
  next
    case (AuthorizeAnswerRegeneration e)
    show ?thesis
      by (rule fin [OF assms(2) [unfolded AuthorizeAnswerRegeneration perform.simps
            authorize_answer_regeneration_def check_progress_def]]) auto
  next
    case (CompleteRun e result handoff m)
    then show ?thesis using complete_settled [OF assms(1)] assms(2) by simp
  next
    case (RecordFailure e code)
    show ?thesis
      by (rule fin [OF assms(2) [unfolded RecordFailure perform.simps record_failure_def check_attempt_finish_def]])
        (rule settles; simp add: is_finished_iff)
  next
    case (RecordPolicyBlock e)
    show ?thesis
      by (rule fin [OF assms(2) [unfolded RecordPolicyBlock perform.simps record_policy_block_def check_attempt_finish_def]])
        (rule settles; simp add: is_finished_iff)
  next
    case (CancelForUser u)
    show ?thesis
      by (rule fin [OF assms(2) [unfolded CancelForUser perform.simps cancel_for_user_def check_finish_def]])
        (rule settles; simp add: is_finished_iff)
  next
    case RecordEnqueueFailure
    show ?thesis
      by (rule fin [OF assms(2) [unfolded RecordEnqueueFailure perform.simps record_enqueue_failure_def check_finish_def]])
        (rule settles; simp add: is_finished_iff)
  qed
qed

text \<open>
  C10. A run that is finished before any attempt has started gives its reservation back: the
  counter of its owner on its quota date goes down by one, no other counter changes, and the
  outcome says released, never inconsistent. A run that has been started keeps its reservation,
  and the outcome names the attempt that the live display has to be told about.
\<close>

theorem finish_settles_quota:
  assumes "reach run_start run_step (db, ids)" "perform db i op now = Inr (db', RunFinished f)"
  shows "\<exists>r user. map_of (runs db) i = Some r
    \<and> map_option thr_user_id (map_of (threads db) (run_thread_id r)) = Some user
    \<and> (run_status r = Queued \<and> fin_quota_release_outcome f = Released \<and> fin_running_attempt_epoch f = None
         \<and> (\<exists>d. run_quota_usage_date r = Some d
             \<and> used (quotas db') = (used (quotas db))((user, d) := used (quotas db) (user, d) - 1))
       \<or> run_status r = Running \<and> fin_quota_release_outcome f = Not_eligible
         \<and> fin_running_attempt_epoch f = Some (run_attempt_epoch r) \<and> quotas db' = quotas db)"
proof -
  obtain lk where lk: "lk_id lk = i" "locked db lk" "settled db lk db' f" "\<not> is_finished (run_status (lk_run lk))"
    using perform_settled [OF reached_ok [OF assms(1)] assms(2)] by blast
  have "run_status (lk_run lk) = Queued \<or> run_status (lk_run lk) = Running"
    using lk(4) unfolding is_finished_iff by blast
  then show ?thesis
    using lk(1-3)
    by (intro exI [of _ "lk_run lk"] exI [of _ "lk_user lk"])
      (auto simp: locked_def settled_def finish_summary_def)
qed

lemma finish_settles_quota_witness:
  "used (quotas (sample_db (finished_row Failed (Some Cancelled) None sample_queued) 0)) (1, 0)
     = used (quotas (sample_db sample_queued 1)) (1, 0) - 1"
  using finish_settles_quota [OF sample_reached, of 12 "CancelForUser 1" 5000, unfolded perform.simps,
      OF sample_cancel]
  by (auto simp: sample_defs used_def)

section \<open>Creation\<close>

lemma message_threads: "db_ok db \<Longrightarrow> (i, m) \<in> set (messages db) \<Longrightarrow> msg_thread_id m \<in> fst ` set (threads db)"
  using db_okD(2) [of db] by (auto simp: messages_constraints_def list_all_iff)

lemma fresh_thread_seq: "db_ok db \<Longrightarrow> t \<notin> fst ` set (threads db) \<Longrightarrow> next_message_seq db t = 1"
proof -
  assume "db_ok db" "t \<notin> fst ` set (threads db)"
  then have "filter (\<lambda>(i, m). msg_thread_id m = t) (messages db) = []"
    using message_threads by (auto simp: filter_empty_conv)
  then show ?thesis by (simp add: next_message_seq_def)
qed

lemma fresh_thread_inactive: "db_ok db \<Longrightarrow> t \<notin> fst ` set (threads db) \<Longrightarrow> \<not> has_active_run db t"
  using run_threads by (force simp: has_active_run_def list_ex_iff)

text \<open>The thread of a new run: its next sequence number, and no active run in it.\<close>

lemma resolve_thread_fresh:
  assumes "db_ok db" "resolve_thread db user q tid nt now = Inr (db1, t, n)"
  shows "n = next_message_seq db1 t" "\<not> has_active_run db1 t"
proof -
  have "n = next_message_seq db1 t \<and> \<not> has_active_run db1 t"
  proof (cases tid)
    case None
    let ?row = "\<lparr>thr_user_id = user, thr_title = take 50 q, thr_updated_at = now, thr_research_handoff = None\<rparr>"
    have ins: "insert_thread db nt ?row = Inr db1" and t: "t = nt" "n = 1"
      using assms(2) None by (auto simp: resolve_thread_def split: sum.splits)
    note ok = insert_thread_ok [OF assms(1) ins]
    have "next_message_seq db1 nt = next_message_seq db nt" "has_active_run db1 nt = has_active_run db nt"
      by (simp_all add: ok(2) next_message_seq_def has_active_run_def)
    then show ?thesis using fresh_thread_seq [OF assms(1) ok(3)] fresh_thread_inactive [OF assms(1) ok(3)] t by simp
  next
    case (Some k)
    then show ?thesis using assms(2)
      by (auto simp: resolve_thread_def split: option.splits if_splits)
  qed
  then show "n = next_message_seq db1 t" "\<not> has_active_run db1 t" by blast+
qed

lemma put_new_run_total:
  assumes "db_ok db" "nr \<notin> fst ` set (runs db)" "message_in_thread (messages db) t nm"
    and "t \<in> fst ` set (threads db)" "\<not> has_active_run db t"
    and "\<And>i r. (i, r) \<in> set (runs db) \<Longrightarrow> run_user_message_id r \<noteq> nm"
  shows "put_runs db (runs db @ [(nr, queued_row t nm now d)])
    = Inr (db\<lparr>runs := runs db @ [(nr, queued_row t nm now d)]\<rparr>)"
proof -
  let ?row = "queued_row t nm now d"
  have inactive: "t \<notin> set (map (run_thread_id \<circ> snd) (filter (is_active \<circ> snd) (runs db)))"
    using assms(5) by (auto simp: has_active_run_def list_ex_iff)
  have ids: "answer_ids (runs db @ [(nr, ?row)]) = answer_ids (runs db)" by (simp add: answer_ids_def)
  have new: "nm \<notin> set (map (run_user_message_id \<circ> snd) (runs db))" using assms(6) by force
  have "run_constraint ?row" by (simp add: run_constraint_def)
  then have "runs_constraints (threads db) (messages db) (runs db @ [(nr, ?row)])"
    using db_okD(4) [OF assms(1)] assms(2-4) inactive new
    unfolding runs_constraints_def ids by (auto simp: is_active_def ACTIVE_STATUSES_def)
  then show ?thesis by (simp add: put_runs_def)
qed

lemma user_message_key:
  assumes "db_ok db" "(i, r) \<in> set (runs db)"
  shows "run_user_message_id r \<in> fst ` set (messages db)"
proof -
  have "message_in_thread (messages db) (run_thread_id r) (run_user_message_id r)"
    using db_okD(4) [OF assms(1)] assms(2) by (auto simp: runs_constraints_def list_all_iff)
  then show ?thesis by (force simp: message_in_thread_def split: option.splits dest: map_of_SomeD)
qed

text \<open>After the thread and the reservation are settled, the rest of the creation goes through.\<close>

lemma create_after_reservation:
  assumes "db_ok db" "resolve_thread db user q tid nt now = Inr (db1, t, n)"
    and "reserve_daily_quota (quotas db1) user qt = Inr (q', resv)" "q \<noteq> []"
    and "nm \<notin> fst ` set (messages db)" "nr \<notin> fst ` set (runs db)"
  shows "\<exists>x. create_user_run db user q tid qt now nt nm nr = Inr x"
proof -
  note a = resolve_thread_ok [OF assms(1,2)] and fresh = resolve_thread_fresh [OF assms(1,2)]
  let ?db2 = "update_thread (db1\<lparr>quotas := q'\<rparr>) t (\<lambda>r. r\<lparr>thr_updated_at := now\<rparr>)"
  let ?msg = "\<lparr>msg_thread_id = t, msg_seq = n, msg_role = User_role, msg_content = q, msg_missing_aspects = []\<rparr>"
  note res = reserve_accepted [OF assms(3) db_okD(5) [OF a(1)]]
  have "db_ok (db1\<lparr>quotas := q'\<rparr>)"
    using a(1) res(1) db_okD(7) [OF a(1)]
    by (auto simp: db_ok_def tables_ok_def rows_ok_def covered_def res(2) intro: add_increasing2)
  then have ok2: "db_ok ?db2" by (rule update_thread_ok) simp
  have same: "next_message_seq ?db2 t = n" "messages ?db2 = messages db" "runs ?db2 = runs db"
    using fresh(1) a(3,4) by (simp_all add: update_thread_def next_message_seq_def)
  have key: "t \<in> fst ` set (threads ?db2)"
    using a(2) by (auto simp: update_thread_def dest: map_of_SomeD) (metis map_of_SomeD fst_conv image_eqI)
  have m: "put_messages ?db2 (messages ?db2 @ [(nm, ?msg)]) = Inr (?db2\<lparr>messages := messages ?db2 @ [(nm, ?msg)]\<rparr>)"
    by (rule put_message_total [OF ok2 _ key])
      (use assms(4,5) same next_message_seq_fresh(2) [of ?db2 t] in \<open>simp_all add: message_constraint_def\<close>)
  let ?db3 = "?db2\<lparr>messages := messages ?db2 @ [(nm, ?msg)]\<rparr>"
  note p3 = put_messages_ok(1) [OF ok2 m]
  have none: "map_of (messages db) nm = None" using assms(5) by (simp add: map_of_eq_None_iff)
  have "put_runs ?db3 (runs ?db3 @ [(nr, queued_row t nm now (reserved_date resv))])
      = Inr (?db3\<lparr>runs := runs ?db3 @ [(nr, queued_row t nm now (reserved_date resv))]\<rparr>)"
  proof (rule put_new_run_total [OF p3])
    show "nr \<notin> fst ` set (runs ?db3)" using assms(6) same(3) by simp
    show "message_in_thread (messages ?db3) t nm"
      using none same(2) by (simp add: message_in_thread_def map_add_def)
    show "t \<in> fst ` set (threads ?db3)" using key by simp
    show "\<not> has_active_run ?db3 t" using fresh(2) by (simp add: has_active_run_def update_thread_def)
    show "run_user_message_id r \<noteq> nm" if "(i, r) \<in> set (runs ?db3)" for i r
      using user_message_key [OF assms(1)] that same(3) assms(5) by auto
  qed
  then show ?thesis
    using assms(2,3) m by (simp add: create_user_run_def Let_def)
qed



section \<open>The sweep\<close>



end
