(* ===== verification/HttpFailure.thy ===== *)
theory HttpFailure
  imports VectorPrelude
begin

text \<open>
  Classification of transport failures (\<^verbatim>\<open>http/failure.py\<close>) and the question
  whether the same request can succeed when it is sent again
  (\<^verbatim>\<open>http/retry_prospect.py\<close>). The exceptions belong to third-party libraries: an
  exception object is its address, the library classes it is an instance of, its message and the
  addresses of its cause and context, so that a chain of them can be cyclic.
\<close>

section \<open>Values\<close>

datatype transport_stage = Stage_preparation | Stage_connect | Stage_send | Stage_receive | Stage_unknown

datatype transport_reason =
    Reason_timeout
  | Reason_dns_resolution
  | Reason_tls
  | Reason_certificate_verification
  | Reason_proxy
  | Reason_network_io
  | Reason_protocol_violation
  | Reason_unknown

record transport_failure =
  failure_stage :: transport_stage
  failure_reason :: transport_reason
  proxy_status :: "int option"

definition transport_failure_at :: "transport_stage \<Rightarrow> transport_reason \<Rightarrow> transport_failure" where
  "transport_failure_at s r = \<lparr>failure_stage = s, failure_reason = r, proxy_status = None\<rparr>"

definition request_may_have_reached_server :: "transport_failure \<Rightarrow> bool" where
  "request_may_have_reached_server f \<longleftrightarrow> failure_stage f \<notin> {Stage_preparation, Stage_connect}"

section \<open>Exception objects\<close>

text \<open>The classes of \<^verbatim>\<open>httpx2\<close>, \<^verbatim>\<open>botocore\<close> and the standard library that the code names.\<close>

datatype exc_class =
    Gaierror | SSLCertVerificationError | SSLError
  | HttpxLocalProtocolError | HttpxUnsupportedProtocol | HttpxPoolTimeout | HttpxConnectTimeout
  | HttpxWriteTimeout | HttpxReadTimeout | HttpxConnectError | HttpxProxyError
  | HttpxRemoteProtocolError | HttpxWriteError | HttpxReadError | HttpxCloseError | HttpxTransportError
  | BotoConnectTimeoutError | BotoReadTimeoutError | BotoEndpointConnectionError | BotoSSLError
  | BotoProxyConnectionError | BotoConnectionClosedError | BotoHTTPClientError | BotoConnectionError
  | BotoNoCredentialsError | BotoPartialCredentialsError | BotoNoRegionError
  | BotoCredentialRetrievalError | BotoClientError

record exc_object =
  exc_classes :: "exc_class list"
  exc_type_name :: pystr
  exc_message :: pystr
  exc_cause :: "nat option"
  exc_context :: "nat option"

type_synonym exc_heap = "(nat \<times> exc_object) list"

definition is_instance :: "exc_object \<Rightarrow> exc_class \<Rightarrow> bool" where
  "is_instance e c \<longleftrightarrow> c \<in> set (exc_classes e)"

definition next_exc :: "exc_object \<Rightarrow> nat option" where
  "next_exc e = (if exc_cause e \<noteq> None then exc_cause e else exc_context e)"

text \<open>
  \<^verbatim>\<open>_exception_chain\<close>: the exceptions from an address on, each once. An address outside
  of the heap does not occur in Python; the model ends the chain there.
\<close>

function exception_chain :: "exc_heap \<Rightarrow> nat option \<Rightarrow> nat list \<Rightarrow> exc_object list" where
  "exception_chain heap cur seen =
     (case cur of
        None \<Rightarrow> []
      | Some a \<Rightarrow>
          if a \<in> set seen then []
          else (case map_of heap a of
                  None \<Rightarrow> []
                | Some e \<Rightarrow> e # exception_chain heap (next_exc e) (a # seen)))"
  by pat_completeness auto

lemma unseen_smaller:
  assumes "map_of heap a = Some e" "a \<notin> set seen"
  shows "card (fst ` set heap - set (a # seen)) < card (fst ` set heap - set seen)"
proof (rule psubset_card_mono)
  have "a \<in> fst ` set heap" using assms(1) by (force dest: map_of_SomeD)
  then show "fst ` set heap - set (a # seen) \<subset> fst ` set heap - set seen" using assms(2) by auto
qed simp

termination exception_chain
  by (relation "measure (\<lambda>(heap, cur, seen). card (fst ` set heap - set seen))")
    (simp_all add: unseen_smaller del: set_simps)

declare exception_chain.simps [simp del]

definition exceptions_from :: "exc_heap \<Rightarrow> nat \<Rightarrow> exc_object list" where
  "exceptions_from heap a = exception_chain heap (Some a) []"

section \<open>Classification\<close>

fun connect_failure_reason_loop :: "exc_object list \<Rightarrow> transport_reason" where
  "connect_failure_reason_loop [] = Reason_network_io"
| "connect_failure_reason_loop (e # es) =
     (if is_instance e Gaierror then Reason_dns_resolution
      else if is_instance e SSLCertVerificationError then Reason_certificate_verification
      else if is_instance e SSLError then Reason_tls
      else connect_failure_reason_loop es)"

definition connect_failure_reason :: "exc_heap \<Rightarrow> nat \<Rightarrow> transport_reason" where
  "connect_failure_reason heap a = connect_failure_reason_loop (exceptions_from heap a)"

text \<open>
  \<^verbatim>\<open>re.compile(r"^(\d{3})\b").match(message)\<close> with \<^verbatim>\<open>int\<close> of its group. The
  Unicode database is a parameter: the decimal value of a character that
  \<^verbatim>\<open>\d\<close> matches, and the class \<^verbatim>\<open>\w\<close> of the word boundary.
\<close>

definition refusal_status :: "(nat \<Rightarrow> nat option) \<Rightarrow> (nat \<Rightarrow> bool) \<Rightarrow> pystr \<Rightarrow> int option" where
  "refusal_status decimal word message =
     (case message of
        a # b # c # rest \<Rightarrow>
          (case (decimal a, decimal b, decimal c) of
             (Some x, Some y, Some z) \<Rightarrow>
               if (case rest of [] \<Rightarrow> True | d # _ \<Rightarrow> \<not> word d)
               then Some (int (100 * x + 10 * y + z)) else None
           | _ \<Rightarrow> None)
      | _ \<Rightarrow> None)"

definition classify_httpx ::
    "(nat \<Rightarrow> nat option) \<Rightarrow> (nat \<Rightarrow> bool) \<Rightarrow> exc_heap \<Rightarrow> nat \<Rightarrow> exc_object \<Rightarrow> transport_failure option" where
  "classify_httpx decimal word heap a e =
     (if is_instance e HttpxLocalProtocolError \<or> is_instance e HttpxUnsupportedProtocol then None
      else if is_instance e HttpxPoolTimeout then Some (transport_failure_at Stage_preparation Reason_timeout)
      else if is_instance e HttpxConnectTimeout then Some (transport_failure_at Stage_connect Reason_timeout)
      else if is_instance e HttpxWriteTimeout then Some (transport_failure_at Stage_send Reason_timeout)
      else if is_instance e HttpxReadTimeout then Some (transport_failure_at Stage_receive Reason_timeout)
      else if is_instance e HttpxConnectError then
        Some (transport_failure_at Stage_connect (connect_failure_reason heap a))
      else if is_instance e HttpxProxyError then
        Some \<lparr>failure_stage = Stage_connect, failure_reason = Reason_proxy,
              proxy_status = refusal_status decimal word (exc_message e)\<rparr>
      else if is_instance e HttpxRemoteProtocolError then
        Some (transport_failure_at Stage_receive Reason_protocol_violation)
      else if is_instance e HttpxWriteError then Some (transport_failure_at Stage_send Reason_network_io)
      else if is_instance e HttpxReadError then Some (transport_failure_at Stage_receive Reason_network_io)
      else if is_instance e HttpxCloseError then Some (transport_failure_at Stage_unknown Reason_network_io)
      else if is_instance e HttpxTransportError then Some (transport_failure_at Stage_unknown Reason_unknown)
      else None)"

definition classify_botocore :: "exc_heap \<Rightarrow> nat \<Rightarrow> exc_object \<Rightarrow> transport_failure option" where
  "classify_botocore heap a e =
     (if is_instance e BotoConnectTimeoutError then Some (transport_failure_at Stage_connect Reason_timeout)
      else if is_instance e BotoReadTimeoutError then Some (transport_failure_at Stage_receive Reason_timeout)
      else if is_instance e BotoEndpointConnectionError then
        Some (transport_failure_at Stage_connect Reason_network_io)
      else if is_instance e BotoSSLError then
        (if list_ex (\<lambda>x. is_instance x SSLCertVerificationError) (exceptions_from heap a)
         then Some (transport_failure_at Stage_connect Reason_certificate_verification)
         else Some (transport_failure_at Stage_unknown Reason_tls))
      else if is_instance e BotoProxyConnectionError then
        Some (transport_failure_at Stage_connect Reason_proxy)
      else if is_instance e BotoConnectionClosedError then
        Some (transport_failure_at Stage_unknown Reason_network_io)
      else if is_instance e BotoHTTPClientError \<or> is_instance e BotoConnectionError then
        Some (transport_failure_at Stage_unknown Reason_unknown)
      else None)"

section \<open>Retry prospect\<close>

definition is_resolvable_by_retry :: "transport_failure \<Rightarrow> bool" where
  "is_resolvable_by_retry f =
     (case failure_reason f of
        Reason_timeout \<Rightarrow> True
      | Reason_dns_resolution \<Rightarrow> True
      | Reason_tls \<Rightarrow> True
      | Reason_network_io \<Rightarrow> True
      | Reason_protocol_violation \<Rightarrow> True
      | Reason_proxy \<Rightarrow>
          (case proxy_status f of
             None \<Rightarrow> True
           | Some status \<Rightarrow> status = 429 \<or> (500 \<le> status \<and> status \<le> 599))
      | Reason_certificate_verification \<Rightarrow> False
      | Reason_unknown \<Rightarrow> False)"

section \<open>Chains and classification\<close>

text \<open>One step of the links, as long as it stays in the heap.\<close>

definition exc_link :: "exc_heap \<Rightarrow> nat \<Rightarrow> nat \<Rightarrow> bool" where
  "exc_link heap a b \<longleftrightarrow> (\<exists>e. map_of heap a = Some e \<and> next_exc e = Some b) \<and> b \<in> fst ` set heap"

lemma exception_chain_Some:
  "exception_chain heap (Some a) seen =
     (case map_of heap a of None \<Rightarrow> [] | Some e \<Rightarrow>
        if a \<in> set seen then [] else e # exception_chain heap (next_exc e) (a # seen))"
  by (subst exception_chain.simps) (simp split: option.splits)

lemma exception_chain_None [simp]: "exception_chain heap None seen = []"
  by (subst exception_chain.simps) simp

lemma exception_chain_cases:
  assumes "e \<in> set (exception_chain heap (Some a) seen)"
  obtains x where "map_of heap a = Some x" "a \<notin> set seen"
    "exception_chain heap (Some a) seen = x # exception_chain heap (next_exc x) (a # seen)"
  using assms by (cases "map_of heap a") (auto simp: exception_chain_Some split: if_splits)

lemma exception_chain_reachable:
  assumes "e \<in> set (exception_chain heap cur seen)" "cur = Some a"
  shows "\<exists>b. (exc_link heap)\<^sup>*\<^sup>* a b \<and> map_of heap b = Some e"
  using assms
proof (induction heap cur seen arbitrary: a rule: exception_chain.induct)
  case (1 heap cur seen)
  obtain x where x: "map_of heap a = Some x" "a \<notin> set seen"
    "exception_chain heap (Some a) seen = x # exception_chain heap (next_exc x) (a # seen)"
    using exception_chain_cases "1.prems" by metis
  show ?case
  proof (cases "e = x")
    case True
    then show ?thesis using x(1) by blast
  next
    case False
    then have e: "e \<in> set (exception_chain heap (next_exc x) (a # seen))" using "1.prems" x(3) by simp
    then obtain b where b: "next_exc x = Some b" by (cases "next_exc x") auto
    have "exc_link heap a b"
      using x(1) b e by (auto simp: exc_link_def elim!: exception_chain_cases dest!: map_of_SomeD
          intro: image_eqI [rotated])
    moreover have "\<exists>c. (exc_link heap)\<^sup>*\<^sup>* b c \<and> map_of heap c = Some e"
      using "1.IH" [OF "1.prems"(2) x(2,1) e b] .
    ultimately show ?thesis by (meson converse_rtranclp_into_rtranclp)
  qed
qed

lemma exception_chain_closed:
  assumes "e \<in> set (exception_chain heap cur seen)" "next_exc e = Some b" "map_of heap b = Some e'"
    and "b \<notin> set seen"
  shows "e' \<in> set (exception_chain heap cur seen)"
  using assms
proof (induction heap cur seen rule: exception_chain.induct)
  case (1 heap cur seen)
  obtain a where cur: "cur = Some a" using "1.prems"(1) by (cases cur) auto
  obtain x where x: "map_of heap a = Some x" "a \<notin> set seen"
    "exception_chain heap (Some a) seen = x # exception_chain heap (next_exc x) (a # seen)"
    using exception_chain_cases "1.prems"(1) cur by metis
  show ?case
  proof (cases "b = a")
    case True
    then have "e' = x" using x(1) "1.prems"(3) by simp
    then show ?thesis using x(3) cur by simp
  next
    case False
    then have b: "b \<notin> set (a # seen)" using "1.prems"(4) by simp
    show ?thesis
    proof (cases "e = x")
      case True
      then show ?thesis using x(3) cur "1.prems"(2,3) b by (simp add: exception_chain_Some)
    next
      case False
      then have "e \<in> set (exception_chain heap (next_exc x) (a # seen))" using "1.prems"(1) x(3) cur by simp
      from "1.IH" [OF cur x(2,1) this "1.prems"(2,3) b] show ?thesis using x(3) cur by simp
    qed
  qed
qed

lemma reachable_visited:
  assumes "(exc_link heap)\<^sup>*\<^sup>* a b" "map_of heap a = Some x" "map_of heap b = Some e"
  shows "e \<in> set (exceptions_from heap a)"
  using assms(1,3)
proof (induction arbitrary: e rule: rtranclp_induct)
  case base
  then show ?case using assms(2) by (simp add: exceptions_from_def exception_chain_Some)
next
  case (step b c)
  obtain y where y: "map_of heap b = Some y" "next_exc y = Some c"
    using step.hyps(2) by (auto simp: exc_link_def)
  then have "y \<in> set (exception_chain heap (Some a) [])" using step.IH by (simp add: exceptions_from_def)
  from exception_chain_closed [OF this y(2) step.prems] show ?case by (simp add: exceptions_from_def)
qed

lemma exception_chain_length: "length (exception_chain heap cur seen) \<le> card (fst ` set heap - set seen)"
proof (induction heap cur seen rule: exception_chain.induct)
  case (1 heap cur seen)
  show ?case
  proof (cases "exception_chain heap cur seen")
    case (Cons e es)
    then obtain a where cur: "cur = Some a" by (cases cur) auto
    obtain x where x: "map_of heap a = Some x" "a \<notin> set seen"
      "exception_chain heap (Some a) seen = x # exception_chain heap (next_exc x) (a # seen)"
      using exception_chain_cases [of e heap a seen] Cons cur by auto
    have "length (exception_chain heap (next_exc x) (a # seen)) \<le> card (fst ` set heap - set (a # seen))"
      by (rule "1.IH" [OF cur x(2,1)])
    then show ?thesis using unseen_smaller [OF x(1,2)] x(3) cur by (simp del: set_simps)
  qed simp
qed

text \<open>
  Following causes and contexts ends even when they form a cycle: it visits exactly the
  exceptions that the links lead to from the first one, and no more of them than there are
  objects.
\<close>

theorem exception_chain_visits_reachable:
  "set (exceptions_from heap a) = {e. \<exists>b. (exc_link heap)\<^sup>*\<^sup>* a b \<and> map_of heap b = Some e \<and> map_of heap a \<noteq> None}
   \<and> length (exceptions_from heap a) \<le> card (fst ` set heap)"
proof (intro conjI set_eqI iffI)
  fix e assume e: "e \<in> set (exceptions_from heap a)"
  then have "map_of heap a \<noteq> None" by (auto simp: exceptions_from_def elim: exception_chain_cases)
  then show "e \<in> {e. \<exists>b. (exc_link heap)\<^sup>*\<^sup>* a b \<and> map_of heap b = Some e \<and> map_of heap a \<noteq> None}"
    using exception_chain_reachable [OF e [unfolded exceptions_from_def] refl] by blast
next
  fix e assume "e \<in> {e. \<exists>b. (exc_link heap)\<^sup>*\<^sup>* a b \<and> map_of heap b = Some e \<and> map_of heap a \<noteq> None}"
  then show "e \<in> set (exceptions_from heap a)" using reachable_visited by fastforce
next
  show "length (exceptions_from heap a) \<le> card (fst ` set heap)"
    using exception_chain_length [of heap "Some a" "[]"] by (simp add: exceptions_from_def)
qed

text \<open>
  Whatever a proxy answered, only a refusal that retrying can change is retried; a failed
  certificate check never is.
\<close>

lemma retry_prospects:
  "is_resolvable_by_retry f \<longleftrightarrow> failure_reason f \<notin> {Reason_certificate_verification, Reason_unknown}
     \<and> (failure_reason f = Reason_proxy \<longrightarrow>
          proxy_status f \<in> insert None (Some ` insert 429 {500..599}))"
  by (cases "failure_reason f"; cases "proxy_status f")
    (auto simp: is_resolvable_by_retry_def)

end
