(* ===== verification/SqsMessages.thy ===== *)
theory SqsMessages
  imports HttpFailure PyText
begin

text \<open>
  Sending messages to SQS: the failures of a send (\<^verbatim>\<open>outbox/relay/sender.py\<close>,
  \<^verbatim>\<open>aws/sqs/errors.py\<close>), the outgoing message and batch with the verification of
  SQS's response (\<^verbatim>\<open>aws/sqs/outgoing_message.py\<close>) and the sender
  (\<^verbatim>\<open>aws/sqs/message_sender.py\<close>). The SDK client, its exceptions, MD5 and the text of
  a UUID are parameters.
\<close>

section \<open>Python values of a response\<close>

datatype py_value =
    PyNone
  | PyBool bool
  | PyInt int
  | PyStr pystr
  | PyList "py_value list"
  | PyDict "(pystr \<times> py_value) list"
  | PyOther

definition py_get :: "(pystr \<times> py_value) list \<Rightarrow> string \<Rightarrow> py_value option" where
  "py_get d k = map_of d (lit k)"

section \<open>Failures of a send\<close>

datatype service_reason =
    Throttled | Service_unavailable | Authentication_failed | Access_denied | Destination_not_found
  | Request_rejected | Security_rejected | Request_expired | Encryption_error | Service_unknown

datatype configuration_reason =
    Missing_credentials | Incomplete_credentials | Missing_region | Missing_queue_url

datatype response_field =
    Response | Successful_entries | Failed_entries | Successful_entry | Failed_entry | Entry_id
  | Message_id | Body_checksum | Error_code | Sender_fault

datatype invalid_reason =
    Invalid_type | Missing | Empty | Invalid_format | Not_in_request | Duplicate | Not_returned

datatype send_error =
    TransportError transport_failure pystr
  | ServiceError service_reason "pystr option"
  | ConfigurationError configuration_reason
  | CredentialsError pystr
  | UnexpectedError pystr
  | MessageTooLarge
  | ResponseInvalid invalid_reason response_field
  | BodyMismatch

datatype send_result = Accepted pystr | Failed_to_send send_error

definition codes_by_reason :: "(service_reason \<times> string list) list" where
  "codes_by_reason =
     [(Throttled, [''RequestThrottled'', ''KmsThrottled'', ''ThrottlingException'']),
      (Service_unavailable, [''InternalFailure'', ''ServiceUnavailable'']),
      (Authentication_failed, [''InvalidClientTokenId'', ''MissingAuthenticationToken'']),
      (Access_denied, [''AccessDenied'', ''AccessDeniedException'', ''NotAuthorized'', ''KmsAccessDenied'',
         ''OptInRequired'']),
      (Destination_not_found, [''QueueDoesNotExist'']),
      (Request_rejected, [''InvalidAddress'', ''InvalidMessageContents'', ''UnsupportedOperation'',
         ''InvalidAction'', ''InvalidParameterCombination'', ''InvalidParameterValue'',
         ''InvalidQueryParameter'', ''MalformedQueryString'', ''MissingAction'', ''MissingParameter'',
         ''ValidationError'', ''BatchEntryIdsNotDistinct'', ''BatchRequestTooLong'', ''EmptyBatchRequest'',
         ''InvalidBatchEntryId'', ''TooManyEntriesInBatchRequest'']),
      (Security_rejected, [''InvalidSecurity'', ''IncompleteSignature'']),
      (Request_expired, [''RequestExpired'']),
      (Encryption_error, [''KmsDisabled'', ''KmsInvalidState'', ''KmsNotFound'', ''KmsOptInRequired'',
         ''KmsInvalidKeyUsage''])]"

definition reason_by_code :: "(pystr \<times> service_reason) list" where
  "reason_by_code = concat (map (\<lambda>(reason, codes). map (\<lambda>code. (lit code, reason)) codes) codes_by_reason)"

text \<open>\<^verbatim>\<open>re.fullmatch(r"[A-Za-z0-9_.:-]{1,128}", code)\<close>\<close>

definition code_char :: "nat \<Rightarrow> bool" where
  "code_char c \<longleftrightarrow> 65 \<le> c \<and> c \<le> 90 \<or> 97 \<le> c \<and> c \<le> 122 \<or> 48 \<le> c \<and> c \<le> 57 \<or> c \<in> {95, 46, 58, 45}"

definition well_formed_code :: "pystr \<Rightarrow> bool" where
  "well_formed_code code \<longleftrightarrow> 1 \<le> length code \<and> length code \<le> 128 \<and> list_all code_char code"

definition to_sqs_service_error :: "pystr option \<Rightarrow> int option \<Rightarrow> send_error" where
  "to_sqs_service_error code status =
     (let code = (case code of None \<Rightarrow> None | Some c \<Rightarrow> if well_formed_code c then Some c else None) in
      case (case code of None \<Rightarrow> None | Some c \<Rightarrow> map_of reason_by_code c) of
        Some reason \<Rightarrow> ServiceError reason code
      | None \<Rightarrow> ServiceError
          (case status of
             Some s \<Rightarrow> if 500 \<le> s \<and> s \<le> 599 then Service_unavailable else Service_unknown
           | None \<Rightarrow> Service_unknown) code)"

text \<open>
  An exception of the SDK client: the object with its place in the heap, a send failure when it
  already is one, and the operation and response of a client error.
\<close>

record sdk_exception =
  sdk_object :: exc_object
  sdk_address :: nat
  sdk_heap :: exc_heap
  sdk_send_error :: "send_error option"
  sdk_operation :: pystr
  sdk_response :: py_value

definition dict_or_empty :: "py_value option \<Rightarrow> (pystr \<times> py_value) list" where
  "dict_or_empty v = (case v of Some (PyDict d) \<Rightarrow> d | _ \<Rightarrow> [])"

definition client_error_code :: "(pystr \<times> py_value) list \<Rightarrow> pystr option" where
  "client_error_code error =
     (case (case py_get error ''QueryErrorCode'' of
              Some (PyStr q) \<Rightarrow> if q \<noteq> [] then Some (PyStr q) else py_get error ''Code''
            | _ \<Rightarrow> py_get error ''Code'') of
        Some (PyStr c) \<Rightarrow> Some c
      | _ \<Rightarrow> None)"

definition response_status :: "(pystr \<times> py_value) list \<Rightarrow> int option" where
  "response_status response =
     (case py_get (dict_or_empty (py_get response ''ResponseMetadata'')) ''HTTPStatusCode'' of
        Some (PyInt n) \<Rightarrow> Some n
      | _ \<Rightarrow> None)"

definition to_message_send_error :: "sdk_exception \<Rightarrow> send_error" where
  "to_message_send_error exc =
     (let e = sdk_object exc; name = exc_type_name e in
      case sdk_send_error exc of
        Some already \<Rightarrow> already
      | None \<Rightarrow>
          if is_instance e BotoNoCredentialsError then ConfigurationError Missing_credentials
          else if is_instance e BotoPartialCredentialsError then ConfigurationError Incomplete_credentials
          else if is_instance e BotoNoRegionError then ConfigurationError Missing_region
          else if is_instance e BotoCredentialRetrievalError then CredentialsError name
          else if is_instance e BotoClientError then
            (if sdk_operation exc \<notin> {lit ''SendMessage'', lit ''SendMessageBatch''} then CredentialsError name
             else (let response = dict_or_empty (Some (sdk_response exc)) in
               to_sqs_service_error (client_error_code (dict_or_empty (py_get response ''Error'')))
                 (response_status response)))
          else (case classify_botocore (sdk_heap exc) (sdk_address exc) e of
                  Some f \<Rightarrow> TransportError f name
                | None \<Rightarrow> UnexpectedError name))"

section \<open>The outgoing message\<close>

definition MAX_MESSAGE_BYTES :: nat where "MAX_MESSAGE_BYTES = 1048576"

datatype send_exc = SendFailure send_error | SendRaised py_exc

record outgoing_message =
  out_body :: pystr
  out_bytes :: nat
  out_md5 :: pystr

definition make_outgoing_message :: "(nat list \<Rightarrow> pystr) \<Rightarrow> pystr \<Rightarrow> send_exc + outgoing_message" where
  "make_outgoing_message md5hex body =
     (case utf8_encode body of
        Inl e \<Rightarrow> Inl (SendRaised e)
      | Inr bytes \<Rightarrow>
          if length bytes > MAX_MESSAGE_BYTES then Inl (SendFailure MessageTooLarge)
          else Inr \<lparr>out_body = body, out_bytes = length bytes, out_md5 = md5hex bytes\<rparr>)"

definition required_string ::
    "(pystr \<times> py_value) list \<Rightarrow> string \<Rightarrow> response_field \<Rightarrow> send_error + pystr" where
  "required_string fs key field =
     (case py_get fs key of
        None \<Rightarrow> Inl (ResponseInvalid Missing field)
      | Some (PyStr v) \<Rightarrow> if v = [] then Inl (ResponseInvalid Empty field) else Inr v
      | Some _ \<Rightarrow> Inl (ResponseInvalid Invalid_type field))"

definition is_hex_digit :: "nat \<Rightarrow> bool" where
  "is_hex_digit c \<longleftrightarrow> 48 \<le> c \<and> c \<le> 57 \<or> 97 \<le> c \<and> c \<le> 102 \<or> 65 \<le> c \<and> c \<le> 70"

definition lower_ascii :: "pystr \<Rightarrow> pystr" where
  "lower_ascii = map (\<lambda>c. if 65 \<le> c \<and> c \<le> 90 then c + 32 else c)"

text \<open>The verification of one entry that is already known to be a dict.\<close>

definition verify_fields :: "outgoing_message \<Rightarrow> (pystr \<times> py_value) list \<Rightarrow> send_error + pystr" where
  "verify_fields m fs =
     (case required_string fs ''MessageId'' Message_id of
        Inl e \<Rightarrow> Inl e
      | Inr message_id \<Rightarrow>
          (case required_string fs ''MD5OfMessageBody'' Body_checksum of
             Inl e \<Rightarrow> Inl e
           | Inr checksum \<Rightarrow>
               if \<not> (length checksum = 32 \<and> list_all is_hex_digit checksum)
               then Inl (ResponseInvalid Invalid_format Body_checksum)
               else if lower_ascii checksum \<noteq> out_md5 m then Inl BodyMismatch
               else Inr message_id))"

definition verify_message :: "outgoing_message \<Rightarrow> py_value \<Rightarrow> send_error + pystr" where
  "verify_message m result =
     (case result of
        PyDict fs \<Rightarrow> verify_fields m fs
      | _ \<Rightarrow> Inl (ResponseInvalid Invalid_type Response))"

section \<open>The batch\<close>

type_synonym message_batch = "(pystr \<times> outgoing_message) list"

definition make_batch :: "(pystr \<times> outgoing_message) list \<Rightarrow> py_exc + message_batch" where
  "make_batch messages =
     (if \<not> (1 \<le> length messages \<and> length messages \<le> 10) then Inl ValueError
      else if sum_list (map (out_bytes \<circ> snd) messages) > MAX_MESSAGE_BYTES then Inl ValueError
      else Inr messages)"

definition batch_entries :: "message_batch \<Rightarrow> (pystr \<times> pystr) list" where
  "batch_entries messages = map (\<lambda>(i, m). (i, out_body m)) messages"

definition claim_id :: "message_batch \<Rightarrow> (pystr \<times> py_value) list \<Rightarrow> pystr set \<Rightarrow> send_error + pystr" where
  "claim_id messages entry seen =
     (case required_string entry ''Id'' Entry_id of
        Inl e \<Rightarrow> Inl e
      | Inr i \<Rightarrow>
          if i \<notin> fst ` set messages then Inl (ResponseInvalid Not_in_request Entry_id)
          else if i \<in> seen then Inl (ResponseInvalid Duplicate Entry_id)
          else Inr i)"

type_synonym batch_results = "pystr set \<times> (pystr \<times> send_result) list"

definition verify_successful :: "message_batch \<Rightarrow> batch_results \<Rightarrow> py_value \<Rightarrow> send_error + batch_results" where
  "verify_successful messages st entry =
     (case st of (seen, results) \<Rightarrow>
        case entry of
          PyDict fs \<Rightarrow>
            (case claim_id messages fs seen of
               Inl e \<Rightarrow> Inl e
             | Inr i \<Rightarrow>
                 (case map_of messages i of
                    None \<Rightarrow> Inl (ResponseInvalid Not_in_request Entry_id)
                  | Some m \<Rightarrow>
                      (case verify_fields m fs of
                         Inr message_id \<Rightarrow> Inr (insert i seen, AList.update i (Accepted message_id) results)
                       | Inl BodyMismatch \<Rightarrow>
                           Inr (insert i seen, AList.update i (Failed_to_send BodyMismatch) results)
                       | Inl e \<Rightarrow> Inl e)))
        | _ \<Rightarrow> Inl (ResponseInvalid Invalid_type Successful_entry))"

definition verify_failed :: "message_batch \<Rightarrow> batch_results \<Rightarrow> py_value \<Rightarrow> send_error + batch_results" where
  "verify_failed messages st entry =
     (case st of (seen, results) \<Rightarrow>
        case entry of
          PyDict fs \<Rightarrow>
            (case claim_id messages fs seen of
               Inl e \<Rightarrow> Inl e
             | Inr i \<Rightarrow>
                 (case py_get fs ''SenderFault'' of
                    None \<Rightarrow> Inl (ResponseInvalid Missing Sender_fault)
                  | Some (PyBool _) \<Rightarrow>
                      map_sum id (\<lambda>code. (insert i seen,
                          AList.update i (Failed_to_send (to_sqs_service_error (Some code) None)) results))
                        (required_string fs ''Code'' Error_code)
                  | Some _ \<Rightarrow> Inl (ResponseInvalid Invalid_type Sender_fault)))
        | _ \<Rightarrow> Inl (ResponseInvalid Invalid_type Failed_entry))"

fun fold_entries :: "('s \<Rightarrow> py_value \<Rightarrow> send_error + 's) \<Rightarrow> 's \<Rightarrow> py_value list \<Rightarrow> send_error + 's" where
  "fold_entries f st [] = Inr st"
| "fold_entries f st (e # es) = (case f st e of Inl x \<Rightarrow> Inl x | Inr st' \<Rightarrow> fold_entries f st' es)"

text \<open>\<^verbatim>\<open>response.get(key, [])\<close>, which must be a list.\<close>

definition entry_list :: "(pystr \<times> py_value) list \<Rightarrow> string \<Rightarrow> response_field \<Rightarrow> send_error + py_value list" where
  "entry_list response key field =
     (case py_get response key of
        None \<Rightarrow> Inr []
      | Some (PyList xs) \<Rightarrow> Inr xs
      | Some _ \<Rightarrow> Inl (ResponseInvalid Invalid_type field))"

definition batch_verify :: "message_batch \<Rightarrow> py_value \<Rightarrow> send_error + (pystr \<times> send_result) list" where
  "batch_verify messages response =
     (case response of
        PyDict d \<Rightarrow>
          (case entry_list d ''Successful'' Successful_entries of
             Inl e \<Rightarrow> Inl e
           | Inr successful \<Rightarrow>
               (case entry_list d ''Failed'' Failed_entries of
                  Inl e \<Rightarrow> Inl e
                | Inr failed \<Rightarrow>
                    (case fold_entries (verify_successful messages) ({}, []) successful of
                       Inl e \<Rightarrow> Inl e
                     | Inr st \<Rightarrow>
                         (case fold_entries (verify_failed messages) st failed of
                            Inl e \<Rightarrow> Inl e
                          | Inr (seen, results) \<Rightarrow>
                              if seen \<noteq> fst ` set messages
                              then Inl (ResponseInvalid Not_returned Entry_id)
                              else Inr (map (\<lambda>(i, m). (i, the (map_of results i))) messages)))))
      | _ \<Rightarrow> Inl (ResponseInvalid Invalid_type Response))"

section \<open>The sender\<close>

record event_message =
  message_event_id :: uuid
  message_body :: pystr

text \<open>The loop over the bodies: the messages to send and the failures of those that are too large.\<close>

fun prepare_messages ::
    "(nat list \<Rightarrow> pystr) \<Rightarrow> (uuid \<Rightarrow> pystr) \<Rightarrow> (uuid \<times> pystr) list
       \<Rightarrow> py_exc + ((pystr \<times> outgoing_message) list \<times> (pystr \<times> send_result) list)" where
  "prepare_messages md5hex entry_id [] = Inr ([], [])"
| "prepare_messages md5hex entry_id ((k, body) # bodies) =
     (case make_outgoing_message md5hex body of
        Inl (SendRaised e) \<Rightarrow> Inl e
      | Inl (SendFailure e) \<Rightarrow>
          map_sum id (\<lambda>(ms, rs). (ms, (entry_id k, Failed_to_send e) # rs))
            (prepare_messages md5hex entry_id bodies)
      | Inr m \<Rightarrow>
          map_sum id (\<lambda>(ms, rs). ((entry_id k, m) # ms, rs)) (prepare_messages md5hex entry_id bodies))"

text \<open>
  \<^verbatim>\<open>_send_batch\<close>. The client gives a response or raises; the bodies are a dict, so their
  keys are distinct, as are the texts of distinct UUIDs.
\<close>

definition send_batch_results ::
    "(nat list \<Rightarrow> pystr) \<Rightarrow> (uuid \<Rightarrow> pystr) \<Rightarrow> ((pystr \<times> pystr) list \<Rightarrow> sdk_exception + py_value)
       \<Rightarrow> (uuid \<times> pystr) list \<Rightarrow> py_exc + (uuid \<times> send_result) list" where
  "send_batch_results md5hex entry_id client bodies =
     (case prepare_messages md5hex entry_id bodies of
        Inl e \<Rightarrow> Inl e
      | Inr (messages, too_large) \<Rightarrow>
          map_sum id (\<lambda>results. map (\<lambda>(k, b). (k, the (map_of results (entry_id k)))) bodies)
            (if messages = [] then Inr too_large
             else (case make_batch messages of
               Inl e \<Rightarrow> Inl e
             | Inr batch \<Rightarrow>
                 Inr (too_large @
                   (case client (batch_entries batch) of
                      Inl exc \<Rightarrow> map (\<lambda>(i, m). (i, Failed_to_send (to_message_send_error exc))) messages
                    | Inr response \<Rightarrow>
                        (case batch_verify batch response of
                           Inl e \<Rightarrow> map (\<lambda>(i, m). (i, Failed_to_send e)) messages
                         | Inr rs \<Rightarrow> rs))))))"

text \<open>\<^verbatim>\<open>send_batch\<close>: the results paired with the targets, in the order of the input.\<close>

definition send_batch ::
    "(nat list \<Rightarrow> pystr) \<Rightarrow> (uuid \<Rightarrow> pystr) \<Rightarrow> ((pystr \<times> pystr) list \<Rightarrow> sdk_exception + py_value)
       \<Rightarrow> ('t \<times> event_message) list \<Rightarrow> py_exc + ('t \<times> send_result) list" where
  "send_batch md5hex entry_id client items =
     (if \<not> (1 \<le> length items \<and> length items \<le> 10) then Inl ValueError
      else if \<not> distinct (map (message_event_id \<circ> snd) items) then Inl ValueError
      else map_sum id (\<lambda>results. map (\<lambda>(t, m). (t, the (map_of results (message_event_id m)))) items)
             (send_batch_results md5hex entry_id client
                (map (\<lambda>(t, m). (message_event_id m, message_body m)) items)))"

text \<open>\<^verbatim>\<open>_send\<close> of a single message.\<close>

definition send_one ::
    "(nat list \<Rightarrow> pystr) \<Rightarrow> (pystr \<Rightarrow> sdk_exception + py_value) \<Rightarrow> pystr \<Rightarrow> send_exc + unit" where
  "send_one md5hex client body =
     (case make_outgoing_message md5hex body of
        Inl e \<Rightarrow> Inl e
      | Inr m \<Rightarrow>
          (case client (out_body m) of
             Inl exc \<Rightarrow> Inl (SendFailure (to_message_send_error exc))
           | Inr response \<Rightarrow>
               (case verify_message m response of
                  Inl e \<Rightarrow> Inl (SendFailure e)
                | Inr _ \<Rightarrow> Inr ())))"

text \<open>Opening a sender: a blank queue URL is refused before a client is made.\<close>

definition open_sender :: "pystr \<Rightarrow> sdk_exception + 'c \<Rightarrow> send_error + 'c" where
  "open_sender queue_url client_factory =
     (if strip queue_url = []
      then Inl (ConfigurationError Missing_queue_url)
      else map_sum to_message_send_error id client_factory)"

section \<open>What a verified response shows\<close>

fun entry_id_of :: "py_value \<Rightarrow> pystr option" where
  "entry_id_of (PyDict d) = (case py_get d ''Id'' of Some (PyStr i) \<Rightarrow> Some i | _ \<Rightarrow> None)"
| "entry_id_of _ = None"

fun entry_string :: "py_value \<Rightarrow> string \<Rightarrow> pystr option" where
  "entry_string (PyDict d) k = (case py_get d k of Some (PyStr v) \<Rightarrow> Some v | _ \<Rightarrow> None)"
| "entry_string _ k = None"

text \<open>The entry of SQS that stands behind a result.\<close>

definition reported_success :: "message_batch \<Rightarrow> py_value \<Rightarrow> pystr \<Rightarrow> send_result \<Rightarrow> bool" where
  "reported_success messages e i r \<longleftrightarrow>
     (\<exists>m checksum. map_of messages i = Some m \<and> entry_string e ''MD5OfMessageBody'' = Some checksum
       \<and> (r = Failed_to_send BodyMismatch \<and> lower_ascii checksum \<noteq> out_md5 m
          \<or> (\<exists>message_id. r = Accepted message_id \<and> entry_string e ''MessageId'' = Some message_id
               \<and> lower_ascii checksum = out_md5 m)))"

definition reported_failure :: "py_value \<Rightarrow> pystr \<Rightarrow> send_result \<Rightarrow> bool" where
  "reported_failure e i r \<longleftrightarrow>
     (\<exists>code. entry_string e ''Code'' = Some code \<and> r = Failed_to_send (to_sqs_service_error (Some code) None))"

lemma required_string_Inr:
  "required_string d k f = Inr v \<longleftrightarrow> py_get d k = Some (PyStr v) \<and> v \<noteq> []"
  by (auto simp: required_string_def split: option.splits py_value.splits if_splits)

lemma claim_id_Inr:
  "claim_id messages d seen = Inr i \<Longrightarrow>
   entry_id_of (PyDict d) = Some i \<and> i \<in> fst ` set messages \<and> i \<notin> seen"
  by (auto simp: claim_id_def required_string_Inr split: sum.splits if_splits)

lemma verify_fields_Inr:
  "verify_fields m d = Inr message_id \<Longrightarrow>
   \<exists>checksum. entry_string (PyDict d) ''MessageId'' = Some message_id
     \<and> entry_string (PyDict d) ''MD5OfMessageBody'' = Some checksum \<and> lower_ascii checksum = out_md5 m"
  by (auto simp: verify_fields_def required_string_Inr split: sum.splits if_splits)

lemma verify_fields_mismatch:
  "verify_fields m d = Inl BodyMismatch \<Longrightarrow>
   \<exists>checksum. entry_string (PyDict d) ''MD5OfMessageBody'' = Some checksum \<and> lower_ascii checksum \<noteq> out_md5 m"
  by (auto simp: verify_fields_def required_string_Inr required_string_def
      split: sum.splits if_splits option.splits py_value.splits)

lemma verify_successful_step:
  assumes "verify_successful messages (seen, results) e = Inr st'"
  shows "\<exists>i r. entry_id_of e = Some i \<and> i \<notin> seen
    \<and> st' = (insert i seen, AList.update i r results) \<and> reported_success messages e i r"
proof -
  obtain d where e: "e = PyDict d" using assms by (cases e) (simp_all add: verify_successful_def)
  obtain i where i: "claim_id messages d seen = Inr i"
    using assms by (cases "claim_id messages d seen") (simp_all add: verify_successful_def e)
  obtain m where m: "map_of messages i = Some m"
    using assms i by (cases "map_of messages i") (simp_all add: verify_successful_def e)
  show ?thesis
  proof (cases "verify_fields m d")
    case (Inr message_id)
    then show ?thesis
      using assms i m claim_id_Inr [OF i] verify_fields_Inr [OF Inr]
      by (auto simp: verify_successful_def e reported_success_def)
  next
    case (Inl x)
    then have "x = BodyMismatch" using assms i m by (cases x) (simp_all add: verify_successful_def e)
    then show ?thesis
      using assms i m claim_id_Inr [OF i] verify_fields_mismatch [of m d] Inl
      by (auto simp: verify_successful_def e reported_success_def)
  qed
qed

lemma verify_failed_step:
  assumes "verify_failed messages (seen, results) e = Inr st'"
  shows "\<exists>i r. entry_id_of e = Some i \<and> i \<notin> seen
    \<and> st' = (insert i seen, AList.update i r results) \<and> reported_failure e i r"
proof -
  obtain d where e: "e = PyDict d" using assms by (cases e) (simp_all add: verify_failed_def)
  obtain i where i: "claim_id messages d seen = Inr i"
    using assms by (cases "claim_id messages d seen") (simp_all add: verify_failed_def e)
  obtain b where b: "py_get d ''SenderFault'' = Some (PyBool b)"
    using assms i by (auto simp: verify_failed_def e split: option.splits py_value.splits)
  obtain code where code: "required_string d ''Code'' Error_code = Inr code"
    using assms i b by (cases "required_string d ''Code'' Error_code") (simp_all add: verify_failed_def e)
  then show ?thesis
    using assms i b claim_id_Inr [OF i] required_string_Inr [of d "''Code''" Error_code code]
    by (auto simp: verify_failed_def e reported_failure_def)
qed

lemma fold_entries_claims:
  assumes step: "\<And>seen results e st'. f (seen, results) e = Inr st' \<Longrightarrow>
      \<exists>i r. entry_id_of e = Some i \<and> i \<notin> seen \<and> st' = (insert i seen, AList.update i r results) \<and> Q e i r"
    and "fold_entries f (seen, results) es = Inr (seen', results')"
  shows "\<exists>ids. map entry_id_of es = map Some ids \<and> distinct ids \<and> set ids \<inter> seen = {}
    \<and> seen' = seen \<union> set ids
    \<and> (\<forall>i \<in> set ids. \<exists>e \<in> set es. \<exists>r. map_of results' i = Some r \<and> entry_id_of e = Some i \<and> Q e i r)
    \<and> (\<forall>i. i \<notin> set ids \<longrightarrow> map_of results' i = map_of results i)"
  using assms(2)
proof (induction es arbitrary: seen results)
  case Nil
  then show ?case by simp
next
  case (Cons e es)
  obtain st where st: "f (seen, results) e = Inr st" "fold_entries f st es = Inr (seen', results')"
    using Cons.prems by (auto split: sum.splits)
  obtain i r where i: "entry_id_of e = Some i" "i \<notin> seen" "st = (insert i seen, AList.update i r results)"
    "Q e i r" using step [OF st(1)] by blast
  obtain ids where ids: "map entry_id_of es = map Some ids" "distinct ids" "set ids \<inter> insert i seen = {}"
    "seen' = insert i seen \<union> set ids"
    "\<forall>i \<in> set ids. \<exists>e \<in> set es. \<exists>r. map_of results' i = Some r \<and> entry_id_of e = Some i \<and> Q e i r"
    "\<forall>j. j \<notin> set ids \<longrightarrow> map_of results' j = map_of (AList.update i r results) j"
    using Cons.IH [of "insert i seen" "AList.update i r results"] st(2) i(3) by blast
  have "map_of results' i = Some r" using ids(3,6) by auto
  then show ?case
    using i ids by (intro exI [of _ "i # ids"]) auto
qed

text \<open>
  A batch response that verifies answers exactly the request: every id that was sent occurs
  exactly once among the successful and failed entries and nothing else occurs, and the results
  come in the order of the request. A message counts as accepted only with a successful entry of
  its id whose body checksum is that of the message; a checksum that differs is a mismatch, and
  every other failure carries the classified code of a failed entry.
\<close>

theorem verified_batch_answers_request:
  assumes "batch_verify messages (PyDict d) = Inr results" "distinct (map fst messages)"
    and "entry_list d ''Successful'' Successful_entries = Inr S" "entry_list d ''Failed'' Failed_entries = Inr F"
  shows "map fst results = map fst messages
    \<and> (\<exists>ids. map entry_id_of (S @ F) = map Some ids \<and> distinct ids \<and> set ids = set (map fst messages))
    \<and> (\<forall>(i, r) \<in> set results.
         (\<exists>e \<in> set S. entry_id_of e = Some i \<and> reported_success messages e i r)
         \<or> (\<exists>e \<in> set F. entry_id_of e = Some i \<and> reported_failure e i r))"
proof -
  obtain seen1 res1 where s1: "fold_entries (verify_successful messages) ({}, []) S = Inr (seen1, res1)"
    using assms(1,3,4) by (auto simp: batch_verify_def split: sum.splits)
  obtain seen res where s2: "fold_entries (verify_failed messages) (seen1, res1) F = Inr (seen, res)"
    using assms(1,3,4) s1 by (auto simp: batch_verify_def split: sum.splits)
  have all: "seen = fst ` set messages" and results: "results = map (\<lambda>(i, m). (i, the (map_of res i))) messages"
    using assms(1,3,4) s1 s2 by (auto simp: batch_verify_def split: if_splits)
  obtain ids1 where i1: "map entry_id_of S = map Some ids1" "distinct ids1" "seen1 = set ids1"
    "\<forall>i \<in> set ids1. \<exists>e \<in> set S. \<exists>r. map_of res1 i = Some r \<and> entry_id_of e = Some i \<and> reported_success messages e i r"
    using fold_entries_claims [where f = "verify_successful messages" and Q = "reported_success messages", OF verify_successful_step s1] by auto
  obtain ids2 where i2: "map entry_id_of F = map Some ids2" "distinct ids2" "set ids2 \<inter> seen1 = {}"
    "seen = seen1 \<union> set ids2"
    "\<forall>i \<in> set ids2. \<exists>e \<in> set F. \<exists>r. map_of res i = Some r \<and> entry_id_of e = Some i \<and> reported_failure e i r"
    "\<forall>i. i \<notin> set ids2 \<longrightarrow> map_of res i = map_of res1 i"
    using fold_entries_claims [where f = "verify_failed messages" and Q = reported_failure, OF verify_failed_step [of messages] s2] by auto
  have "\<exists>ids. map entry_id_of (S @ F) = map Some ids \<and> distinct ids \<and> set ids = set (map fst messages)"
    using i1(1-3) i2(1-4) all by (intro exI [of _ "ids1 @ ids2"]) auto
  moreover have "(\<exists>e \<in> set S. entry_id_of e = Some i \<and> reported_success messages e i r)
      \<or> (\<exists>e \<in> set F. entry_id_of e = Some i \<and> reported_failure e i r)" if "(i, r) \<in> set results" for i r
  proof -
    have r: "r = the (map_of res i)" and i: "i \<in> seen" using that results all by force+
    show ?thesis
    proof (cases "i \<in> set ids2")
      case True
      then show ?thesis using i2(5) r by force
    next
      case False
      then have "i \<in> set ids1" using i i1(3) i2(4) by blast
      then show ?thesis using i1(4) i2(6) False r by force
    qed
  qed
  moreover have "map fst results = map fst messages" using results by (simp add: comp_def case_prod_beta)
  ultimately show ?thesis by blast
qed

lemma verified_batch_answers_request_witness:
  "\<exists>results. batch_verify [([49], \<lparr>out_body = [97], out_bytes = 1, out_md5 = replicate 32 97\<rparr>)]
      (PyDict [(lit ''Successful'', PyList [PyDict [(lit ''Id'', PyStr [49]), (lit ''MessageId'', PyStr [120]),
         (lit ''MD5OfMessageBody'', PyStr (replicate 32 65))]])]) = Inr results
     \<and> map fst results = [[49]]"
proof -
  let ?ms = "[([49], \<lparr>out_body = [97], out_bytes = 1, out_md5 = replicate 32 97\<rparr>)]"
  let ?e = "PyDict [(lit ''Id'', PyStr [49]), (lit ''MessageId'', PyStr [120]),
         (lit ''MD5OfMessageBody'', PyStr (replicate 32 65))]"
  let ?d = "[(lit ''Successful'', PyList [?e])]"
  have v: "batch_verify ?ms (PyDict ?d) = Inr [([49], Accepted [120])]"
    by (simp add: batch_verify_def entry_list_def py_get_def lit_def verify_successful_def claim_id_def
        required_string_def verify_fields_def is_hex_digit_def lower_ascii_def list_all_iff)
  have l: "entry_list ?d ''Successful'' Successful_entries = Inr [?e]"
    "entry_list ?d ''Failed'' Failed_entries = Inr []"
    by (simp_all add: entry_list_def py_get_def lit_def)
  show ?thesis using verified_batch_answers_request [OF v _ l] v by simp
qed

section \<open>Results of a send\<close>

lemma prepare_messages_result:
  "prepare_messages md5hex entry_id bodies = Inr (ms, rs) \<Longrightarrow>
   fst ` set ms \<union> fst ` set rs = entry_id ` fst ` set bodies
   \<and> length ms \<le> length bodies
   \<and> (distinct (map (entry_id \<circ> fst) bodies) \<longrightarrow> distinct (map fst ms @ map fst rs))
   \<and> (\<forall>(i, m) \<in> set ms. \<exists>k. (k, out_body m) \<in> set bodies \<and> i = entry_id k
        \<and> make_outgoing_message md5hex (out_body m) = Inr m)
   \<and> (\<forall>(i, r) \<in> set rs. r = Failed_to_send MessageTooLarge)"
proof (induction md5hex entry_id bodies arbitrary: ms rs rule: prepare_messages.induct)
  case (2 md5hex entry_id k body bodies)
  show ?case
  proof (cases "make_outgoing_message md5hex body")
    case (Inr m)
    then obtain ms' where p: "prepare_messages md5hex entry_id bodies = Inr (ms', rs)" "ms = (entry_id k, m) # ms'"
      using "2.prems" by (cases "prepare_messages md5hex entry_id bodies") auto
    have "out_body m = body" using Inr by (auto simp: make_outgoing_message_def split: sum.splits if_splits)
    then show ?thesis using "2.IH"(2) [OF Inr p(1)] p(2) Inr by (auto simp: image_iff)
  next
    case (Inl x)
    then obtain e where x: "x = SendFailure e"
      using "2.prems" by (cases x) auto
    then obtain rs' where p: "prepare_messages md5hex entry_id bodies = Inr (ms, rs')"
        "rs = (entry_id k, Failed_to_send e) # rs'"
      using "2.prems" Inl by (cases "prepare_messages md5hex entry_id bodies") auto
    have "e = MessageTooLarge" using Inl x by (auto simp: make_outgoing_message_def split: sum.splits if_splits)
    then show ?thesis using "2.IH"(1) [OF Inl x p(1)] p(2) by (auto simp: image_iff)
  qed
qed simp

lemma prepare_messages_raises:
  "prepare_messages md5hex entry_id bodies = Inl e \<longleftrightarrow>
   e = ValueError \<and> (\<exists>(k, b) \<in> set bodies. utf8_encode b = Inl ValueError)"
proof (induction md5hex entry_id bodies rule: prepare_messages.induct)
  case (2 md5hex entry_id k body bodies)
  have enc: "utf8_encode s = Inl x \<Longrightarrow> x = ValueError" for s x
    by (induction s) (auto simp: map_sum_def split: if_splits sum.splits)
  show ?case
  proof (cases "utf8_encode body")
    case (Inl x)
    then have "x = ValueError" by (rule enc)
    then show ?thesis using Inl by (auto simp: make_outgoing_message_def)
  next
    case (Inr bytes)
    show ?thesis
    proof (cases "length bytes > MAX_MESSAGE_BYTES")
      case True
      then have m: "make_outgoing_message md5hex body = Inl (SendFailure MessageTooLarge)"
        using Inr by (simp add: make_outgoing_message_def)
      show ?thesis using "2.IH"(1) [OF m refl] m Inr
        by (cases "prepare_messages md5hex entry_id bodies") (auto simp: map_sum_def)
    next
      case False
      then obtain m where m: "make_outgoing_message md5hex body = Inr m"
        using Inr by (simp add: make_outgoing_message_def)
      show ?thesis using "2.IH"(2) [OF m] m Inr
        by (cases "prepare_messages md5hex entry_id bodies") (auto simp: map_sum_def)
    qed
  qed
qed simp

text \<open>The messages of a batch that is small enough to send, and their size.\<close>

definition sendable_size :: "(nat list \<Rightarrow> pystr) \<Rightarrow> (uuid \<Rightarrow> pystr) \<Rightarrow> (uuid \<times> pystr) list \<Rightarrow> nat" where
  "sendable_size md5hex entry_id bodies =
     (case prepare_messages md5hex entry_id bodies of
        Inl e \<Rightarrow> 0
      | Inr (ms, rs) \<Rightarrow> sum_list (map (out_bytes \<circ> snd) ms))"

lemma send_batch_results_Inr:
  assumes "distinct (map (entry_id \<circ> fst) bodies)" "length bodies \<le> 10"
    and "prepare_messages md5hex entry_id bodies = Inr (ms, rs)"
    and "sum_list (map (out_bytes \<circ> snd) ms) \<le> MAX_MESSAGE_BYTES"
  shows "\<exists>results. send_batch_results md5hex entry_id client bodies = Inr results
    \<and> map fst results = map fst bodies"
proof -
  have "length ms \<le> 10" using prepare_messages_result [OF assms(3)] assms(2) by linarith
  then show ?thesis
    using assms(3,4) by (auto simp: send_batch_results_def make_batch_def comp_def case_prod_beta
        Suc_le_eq length_greater_0_conv)
qed

lemma send_batch_cases:
  assumes "inj entry_id"
  shows "case send_batch md5hex entry_id client items of
      Inr results \<Rightarrow> map fst results = map fst items \<and> 1 \<le> length items \<and> length items \<le> 10
        \<and> distinct (map (message_event_id \<circ> snd) items)
        \<and> (\<forall>(t, m) \<in> set items. utf8_encode (message_body m) \<noteq> Inl ValueError)
        \<and> sendable_size md5hex entry_id (map (\<lambda>(t, m). (message_event_id m, message_body m)) items)
            \<le> MAX_MESSAGE_BYTES
    | Inl e \<Rightarrow> e = ValueError
        \<and> (length items \<notin> {1..10} \<or> \<not> distinct (map (message_event_id \<circ> snd) items)
           \<or> (\<exists>(t, m) \<in> set items. utf8_encode (message_body m) = Inl ValueError)
           \<or> sendable_size md5hex entry_id (map (\<lambda>(t, m). (message_event_id m, message_body m)) items)
               > MAX_MESSAGE_BYTES)"
proof -
  let ?bodies = "map (\<lambda>(t, m). (message_event_id m, message_body m)) items"
  show ?thesis
  proof (cases "1 \<le> length items \<and> length items \<le> 10 \<and> distinct (map (message_event_id \<circ> snd) items)")
    case False
    then show ?thesis by (auto simp: send_batch_def)
  next
    case True
    have fst_bodies: "map fst ?bodies = map (message_event_id \<circ> snd) items" by auto
    then have "distinct (map entry_id (map fst ?bodies))"
      using True assms by (simp add: distinct_map inj_on_def inj_def)
    then have dist: "distinct (map (entry_id \<circ> fst) ?bodies)" by (simp add: comp_def)
    show ?thesis
    proof (cases "prepare_messages md5hex entry_id ?bodies")
      case (Inl e)
      then have "e = ValueError \<and> (\<exists>(k, b) \<in> set ?bodies. utf8_encode b = Inl ValueError)"
        using prepare_messages_raises by blast
      then show ?thesis using True Inl by (auto simp: send_batch_def send_batch_results_def)
    next
      case (Inr p)
      obtain ms rs where p: "p = (ms, rs)" by fastforce
      note prep = Inr [unfolded p]
      show ?thesis
      proof (cases "sum_list (map (out_bytes \<circ> snd) ms) \<le> MAX_MESSAGE_BYTES")
        case True': True
        obtain results where r: "send_batch_results md5hex entry_id client ?bodies = Inr results"
          using send_batch_results_Inr [OF dist _ prep True', of client] True by auto
        have "\<not> (\<exists>(k, b) \<in> set ?bodies. utf8_encode b = Inl ValueError)"
          using prepare_messages_raises [of md5hex entry_id ?bodies ValueError] prep by auto
        then show ?thesis using True r True' prep
          by (auto simp: send_batch_def comp_def case_prod_beta sendable_size_def)
      next
        case False
        then have "ms \<noteq> []" by auto
        have "send_batch_results md5hex entry_id client ?bodies = Inl ValueError"
          using prep False \<open>ms \<noteq> []\<close> by (simp add: send_batch_results_def make_batch_def)
        then show ?thesis using True False prep by (simp add: send_batch_def sendable_size_def)
      qed
    qed
  qed
qed

text \<open>
  Sending a batch pairs every target with a result, in the order of the input, whatever the
  client returns or raises. It raises exactly for an empty batch or one of more than ten, repeated
  event ids, a body that is no valid text, or bodies that are each within the limit of one message
  but together exceed it: that last error is no failure of a message, so no event of the batch
  gets a result.
\<close>

theorem send_batch_is_aligned:
  assumes "inj entry_id"
  shows "case send_batch md5hex entry_id client items of
      Inr results \<Rightarrow> map fst results = map fst items \<and> 1 \<le> length items \<and> length items \<le> 10
        \<and> distinct (map (message_event_id \<circ> snd) items)
        \<and> (\<forall>(t, m) \<in> set items. utf8_encode (message_body m) \<noteq> Inl ValueError)
        \<and> sendable_size md5hex entry_id (map (\<lambda>(t, m). (message_event_id m, message_body m)) items)
            \<le> MAX_MESSAGE_BYTES
    | Inl e \<Rightarrow> e = ValueError
        \<and> (length items \<notin> {1..10} \<or> \<not> distinct (map (message_event_id \<circ> snd) items)
           \<or> (\<exists>(t, m) \<in> set items. utf8_encode (message_body m) = Inl ValueError)
           \<or> sendable_size md5hex entry_id (map (\<lambda>(t, m). (message_event_id m, message_body m)) items)
               > MAX_MESSAGE_BYTES)"
  by (rule send_batch_cases [OF assms])

lemma send_batch_is_aligned_witness:
  "inj (\<lambda>u :: uuid. replicate u (97 :: nat))
   \<and> send_batch (\<lambda>_. replicate 32 97) (\<lambda>u. replicate u 97) (\<lambda>_. Inr PyNone)
       [(True, \<lparr>message_event_id = 1, message_body = [98]\<rparr>)]
     = Inr [(True, Failed_to_send (ResponseInvalid Invalid_type Response))]
   \<and> map fst [(True, Failed_to_send (ResponseInvalid Invalid_type Response))] = [True]"
proof -
  let ?id = "\<lambda>u :: uuid. replicate u (97 :: nat)"
  have inj: "inj ?id" by (auto simp: inj_def dest: arg_cong [of _ _ length])
  have r: "send_batch (\<lambda>_. replicate 32 97) ?id (\<lambda>_. Inr PyNone)
       [(True, \<lparr>message_event_id = 1, message_body = [98]\<rparr>)]
     = Inr [(True, Failed_to_send (ResponseInvalid Invalid_type Response))]"
    by (simp add: send_batch_def send_batch_results_def make_outgoing_message_def make_batch_def
        MAX_MESSAGE_BYTES_def batch_verify_def)
  show ?thesis
    using send_batch_is_aligned [OF inj, where md5hex = "\<lambda>_. replicate 32 97" and client = "\<lambda>_. Inr PyNone"
        and items = "[(True, \<lparr>message_event_id = 1, message_body = [98]\<rparr>)]"] inj r by simp
qed

end
