(* ===== verification/OutboxRetry.thy ===== *)
theory OutboxRetry
  imports Complex_Main SqsMessages
begin

text \<open>
  What happens to an event that could not be sent: the decision to retry or to stop
  (\<^verbatim>\<open>outbox/relay/retry_policy.py\<close>), the delay of the next attempt in the binary
  floating point of the source, and what is recorded of a stop
  (\<^verbatim>\<open>outbox/relay/failure_recording.py\<close>).
\<close>

section \<open>Floating point below two\<close>

text \<open>Rounding to the nearest integer, ties to even.\<close>

definition round_even :: "rat \<Rightarrow> int" where
  "round_even x =
     (let f = \<lfloor>x\<rfloor>; r = x - of_int f in
      if r < 1 / 2 then f else if r > 1 / 2 then f + 1 else if even f then f else f + 1)"

text \<open>
  The distance of neighbouring binary64 numbers at \<open>x\<close>, for \<open>0 \<le> x < 2\<close>: the power of two
  at most \<open>x\<close>, down to the smallest normal one, divided by \<open>2 ^ 52\<close>.
\<close>

fun float_ulp :: "nat \<Rightarrow> rat \<Rightarrow> rat \<Rightarrow> rat" where
  "float_ulp 0 b x = b / 2 ^ 52"
| "float_ulp (Suc n) b x = (if b \<le> x then b / 2 ^ 52 else float_ulp n (b / 2) x)"

text \<open>The binary64 number nearest to \<open>x\<close>; every value of the computation below lies in \<open>[0, 2)\<close>.\<close>

definition float_of_rat :: "rat \<Rightarrow> rat" where
  "float_of_rat x = (let u = float_ulp 1022 1 x in of_int (round_even (x / u)) * u)"

text \<open>A \<^verbatim>\<open>float\<close> argument: a number, or an infinity or NaN.\<close>

datatype py_float = Finite_float rat | Not_finite

section \<open>The retry decision\<close>

datatype event_invalid_reason =
    Invalid_envelope | Unsupported_event_type | Unsupported_schema_version | Invalid_payload

datatype event_invalid_code =
    Missing_required_field | Invalid_type_code | Invalid_value | Unknown_field
  | Unsupported_event_type_code | Unsupported_schema_version_code

record event_invalid =
  invalid_reason_of :: event_invalid_reason
  invalid_issues :: "(pystr \<times> event_invalid_code) list"

datatype publish_failure = Send_error send_error | Event_invalid event_invalid

datatype non_retryable_reason = Non_retryable_failure | Retry_exhausted

datatype retry_decision = Retryable duration | Non_retryable non_retryable_reason

definition MAX_PUBLISH_ATTEMPTS :: int where "MAX_PUBLISH_ATTEMPTS = 5"

definition RETRY_DELAYS :: "int list" where "RETRY_DELAYS = [30, 120, 600, 1800]"

fun resolvable_by_resend :: "send_error \<Rightarrow> bool" where
  "resolvable_by_resend (TransportError f _) = is_resolvable_by_retry f"
| "resolvable_by_resend (ServiceError r _) = (r \<in> {Throttled, Service_unavailable})"
| "resolvable_by_resend _ = False"

definition jitter_factor :: "rat \<Rightarrow> rat" where
  "jitter_factor jitter =
     float_of_rat (float_of_rat (4 / 5) + float_of_rat (float_of_rat (2 / 5) * jitter))"

text \<open>
  \<^verbatim>\<open>_retry_delay\<close>: a \<^verbatim>\<open>timedelta\<close> times a \<^verbatim>\<open>float\<close> multiplies with its exact
  ratio and rounds to microseconds, ties to even. The index of the delay is a Python index.
\<close>

definition retry_delay :: "int \<Rightarrow> rat \<Rightarrow> duration" where
  "retry_delay attempt_count jitter =
     round_even (of_int (seconds (RETRY_DELAYS ! nat (attempt_count - 1))) * jitter_factor jitter)"

definition make_retry_delay :: "duration \<Rightarrow> py_exc + duration" where
  "make_retry_delay d = (if d < 0 then Inl ValueError else Inr d)"

definition decide_publish_retry :: "publish_failure \<Rightarrow> int \<Rightarrow> py_float \<Rightarrow> py_exc + retry_decision" where
  "decide_publish_retry error attempt_count jitter =
     (if attempt_count < 1 then Inl ValueError
      else case jitter of
        Not_finite \<Rightarrow> Inl ValueError
      | Finite_float j \<Rightarrow>
          if \<not> (0 \<le> j \<and> j \<le> 1) then Inl ValueError
          else if \<not> (case error of Send_error e \<Rightarrow> resolvable_by_resend e | Event_invalid _ \<Rightarrow> False)
          then Inr (Non_retryable Non_retryable_failure)
          else if attempt_count \<ge> MAX_PUBLISH_ATTEMPTS then Inr (Non_retryable Retry_exhausted)
          else map_sum id Retryable (make_retry_delay (retry_delay attempt_count j)))"

section \<open>What is recorded of a stop\<close>

fun requires_configuration_fix :: "send_error \<Rightarrow> bool" where
  "requires_configuration_fix (ConfigurationError r) =
     (r \<in> {Missing_credentials, Incomplete_credentials, Missing_region})"
| "requires_configuration_fix (ServiceError r _) =
     (r \<in> {Authentication_failed, Access_denied, Destination_not_found})"
| "requires_configuration_fix _ = False"

record stop_record =
  stopped_event_id :: uuid
  stopped_attempt_count :: int
  stopped_reason :: non_retryable_reason
  stopped_requires_fix :: bool
  configuration_metric :: bool

text \<open>The log entry of a stop, and whether the metric of a configuration failure is emitted.\<close>

definition record_publish_failure ::
    "uuid \<Rightarrow> int \<Rightarrow> publish_failure \<Rightarrow> non_retryable_reason \<Rightarrow> stop_record" where
  "record_publish_failure event_id attempt_count error stop_reason =
     (let requires_fix = (case error of Send_error e \<Rightarrow> requires_configuration_fix e | Event_invalid _ \<Rightarrow> False) in
      \<lparr>stopped_event_id = event_id, stopped_attempt_count = attempt_count, stopped_reason = stop_reason,
       stopped_requires_fix = requires_fix, configuration_metric = requires_fix\<rparr>)"

section \<open>Bounds of the delay\<close>

lemma round_even_near: "\<bar>of_int (round_even x) - x\<bar> \<le> 1 / 2"
  unfolding round_even_def Let_def
  using floor_correct [of x] by (auto simp: abs_le_iff field_simps)

lemma float_ulp_pos: "0 < b \<Longrightarrow> 0 < float_ulp n b x"
  by (induction n arbitrary: b) auto

lemma float_ulp_le: "0 \<le> b \<Longrightarrow> float_ulp n b x \<le> b / 2 ^ 52"
proof (induction n arbitrary: b)
  case (Suc n)
  have "float_ulp n (b / 2) x \<le> b / 2 / 2 ^ 52" using Suc.prems by (intro Suc.IH) simp
  also have "\<dots> \<le> b / 2 ^ 52" using Suc.prems by (simp add: field_simps)
  finally show ?case by simp
qed simp

lemma float_of_rat_near: "\<bar>float_of_rat x - x\<bar> \<le> 1 / 2 ^ 53"
proof -
  define u where "u = float_ulp 1022 1 x"
  have u: "0 < u" "u \<le> 1 / 2 ^ 52" using float_ulp_pos [of 1 1022 x] float_ulp_le [of 1 1022 x] by (auto simp: u_def)
  have "\<bar>float_of_rat x - x\<bar> = \<bar>of_int (round_even (x / u)) - x / u\<bar> * u"
  proof -
    have "float_of_rat x - x = (of_int (round_even (x / u)) - x / u) * u"
      using u(1) by (simp add: float_of_rat_def Let_def u_def [symmetric] left_diff_distrib)
    then show ?thesis using u(1) by (simp add: abs_mult)
  qed
  also have "\<dots> \<le> 1 / 2 * (1 / 2 ^ 52)"
    using round_even_near [of "x / u"] u by (intro mult_mono) auto
  finally show ?thesis by simp
qed

lemma jitter_factor_near:
  assumes "0 \<le> j" "j \<le> 1"
  shows "\<bar>jitter_factor j - (4 / 5 + 2 / 5 * j)\<bar> \<le> 4 / 2 ^ 53"
proof -
  define a b where "a = float_of_rat (4 / 5)" and "b = float_of_rat (2 / 5)"
  define p where "p = float_of_rat (b * j)"
  have e1: "\<bar>a - 4 / 5\<bar> \<le> 1 / 2 ^ 53" and e2: "\<bar>b - 2 / 5\<bar> \<le> 1 / 2 ^ 53" and e3: "\<bar>p - b * j\<bar> \<le> 1 / 2 ^ 53"
    and e4: "\<bar>jitter_factor j - (a + p)\<bar> \<le> 1 / 2 ^ 53"
    unfolding jitter_factor_def a_def b_def p_def by (rule float_of_rat_near)+
  have "\<bar>b * j - 2 / 5 * j\<bar> = \<bar>b - 2 / 5\<bar> * j"
    using assms(1) by (metis abs_mult abs_of_nonneg left_diff_distrib)
  also have "\<dots> \<le> 1 / 2 ^ 53 * 1" using e2 assms by (intro mult_mono) auto
  finally have e5: "\<bar>b * j - 2 / 5 * j\<bar> \<le> 1 / 2 ^ 53" by simp
  define eps :: rat where "eps = 1 / 2 ^ 53"
  have "\<bar>jitter_factor j - (4 / 5 + 2 / 5 * j)\<bar> \<le> 4 * eps"
    using e1 e3 e4 e5 unfolding eps_def [symmetric] by linarith
  then show ?thesis by (simp add: eps_def)
qed

lemma retry_delay_bounds:
  assumes "d \<in> {30, 120, 600, 1800}" "RETRY_DELAYS ! nat (n - 1) = d" "0 \<le> j" "j \<le> 1"
  shows "seconds (d * 4 div 5) \<le> retry_delay n j \<and> retry_delay n j \<le> seconds (d * 6 div 5)"
proof -
  define s :: int where "s = seconds d"
  define y where "y = of_int s * jitter_factor j"
  have s: "0 < s" "s \<le> 1800000000" using assms(1) by (auto simp: s_def seconds_def)
  have "\<bar>y - of_int s * (4 / 5 + 2 / 5 * j)\<bar> = of_int s * \<bar>jitter_factor j - (4 / 5 + 2 / 5 * j)\<bar>"
    using s by (simp add: y_def abs_mult right_diff_distrib [symmetric])
  also have "\<dots> \<le> 1800000000 * (4 / 2 ^ 53)"
    using jitter_factor_near [OF assms(3,4)] s by (intro mult_mono) auto
  finally have near: "\<bar>y - of_int s * (4 / 5 + 2 / 5 * j)\<bar> < 1 / 4" by simp
  have "0 \<le> of_int s * j" "of_int s * j \<le> of_int s"
    using assms(3,4) s by (auto simp: mult_le_cancel_left1)
  then have "of_int s * (4 / 5) \<le> of_int s * (4 / 5 + 2 / 5 * j)"
    "of_int s * (4 / 5 + 2 / 5 * j) \<le> of_int s * (6 / 5 :: rat)" by (simp_all add: distrib_left mult.commute)
  then have y: "of_int s * (4 / 5) - 1 / 4 < y" "y < of_int s * (6 / 5) + 1 / 4" using near by linarith+
  have rd: "retry_delay n j = round_even y" using assms(2) by (simp add: retry_delay_def y_def s_def)
  have r: "of_int s * (4 / 5) - 3 / 4 < (of_int (retry_delay n j) :: rat)"
    "of_int (retry_delay n j) < of_int s * (6 / 5) + (3 / 4 :: rat)"
    using round_even_near [of y] y unfolding rd by linarith+
  show ?thesis
    using assms(1) r by (elim insertE) (simp_all add: s_def seconds_def)
qed

lemma retry_delay_index_bounds:
  assumes "1 \<le> n" "0 \<le> j" "j \<le> 1" "n < 5"
  shows "seconds (RETRY_DELAYS ! nat (n - 1) * 4 div 5) \<le> retry_delay n j"
    and "retry_delay n j \<le> seconds (RETRY_DELAYS ! nat (n - 1) * 6 div 5)"
    and "0 < retry_delay n j"
proof -
  have "nat (n - 1) \<in> {0, 1, 2, 3}" using assms(1,4) by auto
  then have base: "RETRY_DELAYS ! nat (n - 1) \<in> {30, 120, 600, 1800}" by (auto simp: RETRY_DELAYS_def)
  show bounds: "seconds (RETRY_DELAYS ! nat (n - 1) * 4 div 5) \<le> retry_delay n j"
    "retry_delay n j \<le> seconds (RETRY_DELAYS ! nat (n - 1) * 6 div 5)"
    using retry_delay_bounds [OF base refl assms(2,3)] by auto
  have "0 < seconds (RETRY_DELAYS ! nat (n - 1) * 4 div 5)" using base by (auto simp: seconds_def)
  then show "0 < retry_delay n j" using bounds by linarith
qed

definition resolvable_failure :: "publish_failure \<Rightarrow> bool" where
  "resolvable_failure error = (case error of Send_error e \<Rightarrow> resolvable_by_resend e | Event_invalid _ \<Rightarrow> False)"

lemma decide_publish_retry_Inr:
  assumes "1 \<le> n" "0 \<le> j" "j \<le> 1"
  shows "decide_publish_retry error n (Finite_float j) =
    Inr (if \<not> resolvable_failure error then Non_retryable Non_retryable_failure
         else if 5 \<le> n then Non_retryable Retry_exhausted else Retryable (retry_delay n j))"
  using assms retry_delay_index_bounds(3) [OF assms]
  by (auto simp: decide_publish_retry_def resolvable_failure_def MAX_PUBLISH_ATTEMPTS_def make_retry_delay_def)

text \<open>
  C40. The decision after a failed attempt: a failure that sending the same message again cannot
  resolve stops the delivery; one that it can resolve stops it at the fifth attempt and before
  that schedules the next attempt after 30 s, 2 min, 10 min or 30 min, give or take exactly a
  fifth whatever the jitter, rounding errors included. Nothing is raised for a real attempt.
\<close>

theorem retry_decision_is_bounded:
  assumes "1 \<le> n" "0 \<le> j" "j \<le> 1"
  shows "\<exists>decision. decide_publish_retry error n (Finite_float j) = Inr decision
    \<and> (case error of
         Event_invalid _ \<Rightarrow> decision = Non_retryable Non_retryable_failure
       | Send_error e \<Rightarrow>
           if \<not> resolvable_by_resend e then decision = Non_retryable Non_retryable_failure
           else if 5 \<le> n then decision = Non_retryable Retry_exhausted
           else \<exists>delay. decision = Retryable delay
             \<and> (let base = [30, 120, 600, 1800] ! nat (n - 1) in
                seconds (base * 4 div 5) \<le> delay \<and> delay \<le> seconds (base * 6 div 5)))"
proof (cases "resolvable_failure error \<and> n < 5")
  case False
  then show ?thesis
    using decide_publish_retry_Inr [OF assms, of error]
    by (auto simp: resolvable_failure_def split: publish_failure.splits)
next
  case True
  then show ?thesis
    using decide_publish_retry_Inr [OF assms, of error] retry_delay_index_bounds [OF assms]
    by (auto simp: resolvable_failure_def Let_def RETRY_DELAYS_def split: publish_failure.splits)
qed

lemma retry_decision_is_bounded_witness:
  "\<exists>delay. decide_publish_retry (Send_error (ServiceError Throttled None)) 1 (Finite_float (1 / 2))
       = Inr (Retryable delay)
     \<and> seconds 24 \<le> delay \<and> delay \<le> seconds 36"
  using retry_decision_is_bounded [of 1 "1 / 2" "Send_error (ServiceError Throttled None)"] by auto

end
