(* ===== verification/OutboxStore.thy ===== *)
theory OutboxStore
  imports OutboxRetry
begin

text \<open>
  The table of outbox events with its constraints (\<^verbatim>\<open>models/outbox_event.py\<close>) and the
  operations of the delivery repository on it (\<^verbatim>\<open>outbox/relay/repository.py\<close>). Every
  operation is one SQL statement; the server's time, the random tokens and the rows that other
  transactions keep locked are arguments.
\<close>

section \<open>Rows\<close>

record outbox_event =
  event_type :: pystr
  schema_version :: int
  payload :: py_value
  occurred_at :: time
  published_at :: "time option"
  next_attempt_at :: time
  attempt_count :: int
  lease_token :: "uuid option"
  leased_until :: "time option"
  delivery_stopped_at :: "time option"
  delivery_stop_reason :: "non_retryable_reason option"

type_synonym outbox_table = "(uuid \<times> outbox_event) list"

fun is_json_object :: "py_value \<Rightarrow> bool" where
  "is_json_object (PyDict _) = True"
| "is_json_object _ = False"

text \<open>The check constraints; a stop reason of the enum is never blank.\<close>

definition row_constraints :: "outbox_event \<Rightarrow> bool" where
  "row_constraints r \<longleftrightarrow>
     schema_version r \<ge> 1
     \<and> attempt_count r \<ge> 0
     \<and> is_json_object (payload r)
     \<and> (lease_token r = None) = (leased_until r = None)
     \<and> (delivery_stopped_at r = None) = (delivery_stop_reason r = None)
     \<and> (published_at r = None \<or> delivery_stopped_at r = None)"

text \<open>
  The insert of a new event, as the services of the pipeline do it: the other columns take their
  defaults, with the time at which the transaction began.
\<close>

definition insert_event ::
    "outbox_table \<Rightarrow> time \<Rightarrow> uuid \<Rightarrow> pystr \<Rightarrow> int \<Rightarrow> py_value \<Rightarrow> py_exc + outbox_table" where
  "insert_event t now event_id etype version pl =
     (let r = \<lparr>event_type = etype, schema_version = version, payload = pl, occurred_at = now,
               published_at = None, next_attempt_at = now, attempt_count = 0, lease_token = None,
               leased_until = None, delivery_stopped_at = None, delivery_stop_reason = None\<rparr> in
      if event_id \<in> fst ` set t \<or> \<not> row_constraints r then Inl IntegrityError
      else Inr (t @ [(event_id, r)]))"

section \<open>Queries\<close>

definition undecided :: "outbox_event \<Rightarrow> bool" where
  "undecided r \<longleftrightarrow> published_at r = None \<and> delivery_stopped_at r = None"

definition lease_free :: "time \<Rightarrow> outbox_event \<Rightarrow> bool" where
  "lease_free now r \<longleftrightarrow> (case leased_until r of None \<Rightarrow> True | Some u \<Rightarrow> u \<le> now)"

definition due_for_delivery :: "pystr \<Rightarrow> time \<Rightarrow> outbox_event \<Rightarrow> bool" where
  "due_for_delivery etype now r \<longleftrightarrow>
     event_type r = etype \<and> attempt_count r < MAX_PUBLISH_ATTEMPTS \<and> undecided r
     \<and> next_attempt_at r \<le> now \<and> lease_free now r"

definition exhausted :: "pystr \<Rightarrow> time \<Rightarrow> outbox_event \<Rightarrow> bool" where
  "exhausted etype now r \<longleftrightarrow>
     event_type r = etype \<and> attempt_count r \<ge> MAX_PUBLISH_ATTEMPTS \<and> undecided r \<and> lease_free now r"

text \<open>
  \<^verbatim>\<open>ORDER BY occurred_at LIMIT n FOR UPDATE SKIP LOCKED\<close>: the oldest rows that satisfy
  the condition and are not locked. Rows of equal age come in table order, which is arbitrary.
\<close>

definition oldest_where ::
    "outbox_table \<Rightarrow> (outbox_event \<Rightarrow> bool) \<Rightarrow> uuid set \<Rightarrow> nat \<Rightarrow> (uuid \<times> outbox_event) list" where
  "oldest_where t P locked n =
     take n (sort_key (\<lambda>(i, r). occurred_at r) (filter (\<lambda>(i, r). P r \<and> i \<notin> locked) t))"

text \<open>An update of the rows with the given keys.\<close>

definition update_rows :: "(uuid \<Rightarrow> outbox_event \<Rightarrow> outbox_event) \<Rightarrow> uuid set \<Rightarrow> outbox_table \<Rightarrow> outbox_table" where
  "update_rows f ids t = map (\<lambda>(i, r). (i, if i \<in> ids then f i r else r)) t"

section \<open>Operations\<close>

record event_envelope =
  env_event_id :: uuid
  env_event_type :: pystr
  env_schema_version :: int
  env_occurred_at :: time
  env_payload :: py_value

record leased_event =
  envelope :: event_envelope
  le_token :: uuid
  le_attempt_count :: int

definition make_lease_duration :: "duration \<Rightarrow> py_exc + duration" where
  "make_lease_duration d = (if d \<le> 0 then Inl ValueError else Inr d)"

definition lease_row :: "time \<Rightarrow> duration \<Rightarrow> (uuid \<Rightarrow> uuid) \<Rightarrow> uuid \<Rightarrow> outbox_event \<Rightarrow> outbox_event" where
  "lease_row now d token i r =
     r\<lparr>lease_token := Some (token i), leased_until := Some (now + d), attempt_count := attempt_count r + 1\<rparr>"

definition leased_event_of :: "uuid \<times> outbox_event \<Rightarrow> leased_event" where
  "leased_event_of x =
     (case x of (i, r) \<Rightarrow>
       \<lparr>envelope = \<lparr>env_event_id = i, env_event_type = event_type r, env_schema_version = schema_version r,
                     env_occurred_at = occurred_at r, env_payload = payload r\<rparr>,
        le_token = the (lease_token r), le_attempt_count = attempt_count r\<rparr>)"

definition lease_events_to_publish ::
    "outbox_table \<Rightarrow> time \<Rightarrow> (uuid \<Rightarrow> uuid) \<Rightarrow> uuid set \<Rightarrow> pystr \<Rightarrow> int \<Rightarrow> duration
       \<Rightarrow> outbox_table \<times> leased_event list" where
  "lease_events_to_publish t now token locked etype limit d =
     (if limit \<le> 0 then (t, [])
      else (let candidates = oldest_where t (due_for_delivery etype now) locked (nat limit);
                ids = fst ` set candidates;
                t' = update_rows (lease_row now d token) ids t in
            (t', map leased_event_of
                   (sort_key (\<lambda>(i, r). occurred_at r) (filter (\<lambda>(i, r). i \<in> ids) t')))))"

text \<open>\<^verbatim>\<open>_stop_delivery_update\<close>: the stop and the release of the lease in one update.\<close>

definition stop_row :: "time \<Rightarrow> non_retryable_reason \<Rightarrow> outbox_event \<Rightarrow> outbox_event" where
  "stop_row now reason r =
     r\<lparr>delivery_stopped_at := Some now, delivery_stop_reason := Some reason,
       lease_token := None, leased_until := None\<rparr>"

definition stop_deliveries_at_attempt_limit ::
    "outbox_table \<Rightarrow> time \<Rightarrow> uuid set \<Rightarrow> pystr \<Rightarrow> int \<Rightarrow> outbox_table \<times> uuid list" where
  "stop_deliveries_at_attempt_limit t now locked etype limit =
     (if limit \<le> 0 then (t, [])
      else (let ids = fst ` set (oldest_where t (exhausted etype now) locked (nat limit));
                t' = update_rows (\<lambda>i. stop_row now Retry_exhausted) ids t in
            (t', map fst (sort_key (\<lambda>(i, r). occurred_at r) (filter (\<lambda>(i, r). i \<in> ids) t')))))"

text \<open>
  \<^verbatim>\<open>_delivery_update\<close>: only the owner of a lease that is still valid updates an undecided
  event, and the update releases the lease.
\<close>

definition owns_lease :: "time \<Rightarrow> uuid \<Rightarrow> outbox_event \<Rightarrow> bool" where
  "owns_lease now token r \<longleftrightarrow>
     lease_token r = Some token \<and> (case leased_until r of None \<Rightarrow> False | Some u \<Rightarrow> u > now) \<and> undecided r"

definition delivery_update ::
    "outbox_table \<Rightarrow> time \<Rightarrow> uuid \<Rightarrow> uuid \<Rightarrow> (outbox_event \<Rightarrow> outbox_event) \<Rightarrow> outbox_table \<times> bool" where
  "delivery_update t now event_id token f =
     (case map_of t event_id of
        None \<Rightarrow> (t, False)
      | Some r \<Rightarrow>
          if owns_lease now token r
          then (AList.update event_id (f (r\<lparr>lease_token := None, leased_until := None\<rparr>)) t, True)
          else (t, False))"

definition mark_published :: "outbox_table \<Rightarrow> time \<Rightarrow> uuid \<Rightarrow> uuid \<Rightarrow> outbox_table \<times> bool" where
  "mark_published t now event_id token = delivery_update t now event_id token (\<lambda>r. r\<lparr>published_at := Some now\<rparr>)"

definition schedule_retry :: "outbox_table \<Rightarrow> time \<Rightarrow> uuid \<Rightarrow> uuid \<Rightarrow> duration \<Rightarrow> outbox_table \<times> bool" where
  "schedule_retry t now event_id token delay =
     delivery_update t now event_id token (\<lambda>r. r\<lparr>next_attempt_at := now + delay\<rparr>)"

definition stop_delivery ::
    "outbox_table \<Rightarrow> time \<Rightarrow> uuid \<Rightarrow> uuid \<Rightarrow> non_retryable_reason \<Rightarrow> outbox_table \<times> bool" where
  "stop_delivery t now event_id token reason = delivery_update t now event_id token (stop_row now reason)"

section \<open>Keys and rows after an update\<close>

lemma update_rows_keys [simp]: "map fst (update_rows f ids t) = map fst t"
  by (simp add: update_rows_def comp_def case_prod_beta)

lemma map_of_update_rows:
  "map_of (update_rows f ids t) i =
     (case map_of t i of None \<Rightarrow> None | Some r \<Rightarrow> Some (if i \<in> ids then f i r else r))"
  by (induction t) (auto simp: update_rows_def)

lemma update_keys_present:
  "map_of t i = Some r \<Longrightarrow> map fst (AList.update i v t) = map fst t"
  by (induction t) auto

lemma delivery_update_keys: "map fst (fst (delivery_update t now i k f)) = map fst t"
  by (auto simp: delivery_update_def update_keys_present split: option.splits)

lemma map_of_delivery_update:
  "map_of (fst (delivery_update t now i k f)) j =
     (case map_of t j of None \<Rightarrow> None
      | Some r \<Rightarrow> Some (if j = i \<and> owns_lease now k r
                    then f (r\<lparr>lease_token := None, leased_until := None\<rparr>) else r))"
  by (auto simp: delivery_update_def split: option.splits)

lemma set_oldest_where:
  "(i, r) \<in> set (oldest_where t P locked n) \<Longrightarrow> (i, r) \<in> set t \<and> P r \<and> i \<notin> locked"
  by (auto simp: oldest_where_def dest: in_set_takeD)

lemma length_oldest_where: "length (oldest_where t P locked n) \<le> n"
  by (simp add: oldest_where_def)

section \<open>The oldest rows\<close>

lemma sort_key_take_drop_le:
  assumes "x \<in> set (take n (sort_key f xs))" "y \<in> set (drop n (sort_key f xs))"
  shows "f x \<le> f y"
proof -
  have "sorted (map f (take n (sort_key f xs)) @ map f (drop n (sort_key f xs)))"
    by (metis append_take_drop_id map_append sorted_sort_key)
  then show ?thesis using assms by (auto simp: sorted_append)
qed

lemma oldest_where_complete:
  assumes "(j, r) \<in> set t" "P r" "j \<notin> locked" "(j, r) \<notin> set (oldest_where t P locked n)"
  shows "length (oldest_where t P locked n) = n
    \<and> (\<forall>(i, q) \<in> set (oldest_where t P locked n). occurred_at q \<le> occurred_at r)"
proof -
  define xs where "xs = sort_key (\<lambda>(i, r). occurred_at r) (filter (\<lambda>(i, r). P r \<and> i \<notin> locked) t)"
  have o: "oldest_where t P locked n = take n xs" by (simp add: oldest_where_def xs_def)
  have "(j, r) \<in> set xs" using assms(1-3) by (simp add: xs_def)
  then have d: "(j, r) \<in> set (drop n xs)"
    using assms(4) unfolding o by (metis Un_iff append_take_drop_id set_append)
  then have "length (take n xs) = n" by (cases "n < length xs") auto
  moreover have "occurred_at q \<le> occurred_at r" if "(i, q) \<in> set (take n xs)" for i q
    using sort_key_take_drop_le [OF that [unfolded xs_def] d [unfolded xs_def]] by simp
  ultimately show ?thesis unfolding o by blast
qed

lemma distinct_oldest_where:
  assumes "distinct (map fst t)"
  shows "distinct (map fst (oldest_where t P locked n))"
proof -
  have "distinct (map fst (sort_key (\<lambda>(i, r). occurred_at r) (filter (\<lambda>(i, r). P r \<and> i \<notin> locked) t)))"
    using distinct_map_filter [OF assms] by (simp add: distinct_map)
  then show ?thesis by (simp add: oldest_where_def take_map [symmetric])
qed

text \<open>The rows that an update of candidates returns, in the order of their age.\<close>

lemma updated_rows_sorted:
  assumes "distinct (map fst t)" "ids \<subseteq> fst ` set t"
    and "rs = sort_key (\<lambda>(i, r). occurred_at r) (filter (\<lambda>(i, r). i \<in> ids) (update_rows f ids t))"
  shows "fst ` set rs = ids" and "distinct (map fst rs)"
    and "sorted (map (\<lambda>(i, r). occurred_at r) rs)"
    and "(i, r') \<in> set rs \<longleftrightarrow> i \<in> ids \<and> map_of (update_rows f ids t) i = Some r'"
proof -
  have d: "distinct (map fst (update_rows f ids t))" using assms(1) by simp
  show "sorted (map (\<lambda>(i, r). occurred_at r) rs)" unfolding assms(3) by (rule sorted_sort_key)
  show m: "(i, r') \<in> set rs \<longleftrightarrow> i \<in> ids \<and> map_of (update_rows f ids t) i = Some r'" for i r'
    unfolding assms(3) using map_of_set_iff [OF d] by auto
  show "distinct (map fst rs)" unfolding assms(3) using distinct_map_filter [OF d] by (simp add: distinct_map)
  show "fst ` set rs = ids"
  proof
    show "fst ` set rs \<subseteq> ids" using m by fastforce
    show "ids \<subseteq> fst ` set rs"
    proof
      fix i assume i: "i \<in> ids"
      then obtain r where "map_of t i = Some r"
        using assms(2) by (metis map_of_eq_None_iff not_Some_eq subsetD)
      then have "(i, f i r) \<in> set rs" using i m by (simp add: map_of_update_rows)
      then show "i \<in> fst ` set rs" by force
    qed
  qed
qed

end
