(* ===== verification/OutboxSystem.thy ===== *)
theory OutboxSystem
  imports OutboxStore
begin

text \<open>
  The outbox table as a transition system: services insert events, and any number of relays
  lease, publish, reschedule and stop them, in any order and at any time. A state carries the
  server's clock and the lease tokens handed out so far, which random tokens never repeat. The
  properties of leases rest on the system locale.
\<close>

section \<open>Steps\<close>

type_synonym outbox_system = "outbox_table \<times> time \<times> uuid set"

definition outbox_start :: "outbox_system \<Rightarrow> bool" where
  "outbox_start s \<longleftrightarrow> (case s of (t, now, issued) \<Rightarrow> t = [] \<and> issued = {})"

inductive outbox_step :: "outbox_system \<Rightarrow> outbox_system \<Rightarrow> bool" where
  step_tick: "now \<le> now' \<Longrightarrow> outbox_step (t, now, issued) (t, now', issued)"
| step_insert: "insert_event t began i etype version pl = Inr t' \<Longrightarrow>
    outbox_step (t, now, issued) (t', now, issued)"
| step_lease: "lease_events_to_publish t now token locked etype limit d = (t', leased) \<Longrightarrow> 0 < d \<Longrightarrow>
    le_token ` set leased \<inter> issued = {} \<Longrightarrow>
    outbox_step (t, now, issued) (t', now, issued \<union> le_token ` set leased)"
| step_limit: "stop_deliveries_at_attempt_limit t now locked etype limit = (t', stopped) \<Longrightarrow>
    outbox_step (t, now, issued) (t', now, issued)"
| step_mark: "mark_published t now i k = (t', updated) \<Longrightarrow> outbox_step (t, now, issued) (t', now, issued)"
| step_retry: "schedule_retry t now i k delay = (t', updated) \<Longrightarrow>
    outbox_step (t, now, issued) (t', now, issued)"
| step_stop: "stop_delivery t now i k reason = (t', updated) \<Longrightarrow>
    outbox_step (t, now, issued) (t', now, issued)"

section \<open>Invariant and order\<close>

definition event_ok :: "uuid set \<Rightarrow> outbox_event \<Rightarrow> bool" where
  "event_ok issued r \<longleftrightarrow>
     row_constraints r \<and> attempt_count r \<le> MAX_PUBLISH_ATTEMPTS
     \<and> (attempt_count r = 0 \<longrightarrow> undecided r \<and> lease_token r = None)
     \<and> (lease_token r \<noteq> None \<longrightarrow> undecided r)
     \<and> (\<forall>k. lease_token r = Some k \<longrightarrow> k \<in> issued)"

definition outbox_inv :: "outbox_system \<Rightarrow> bool" where
  "outbox_inv s \<longleftrightarrow> (case s of (t, now, issued) \<Rightarrow>
     distinct (map fst t) \<and> (\<forall>i r. map_of t i = Some r \<longrightarrow> event_ok issued r))"

text \<open>
  What time does to a row: its content stays, attempts only grow, a decided row stays as it is, a
  token that is no longer the row's never becomes it again, and a lease is never extended.
\<close>

definition event_le :: "uuid set \<Rightarrow> outbox_event \<Rightarrow> outbox_event \<Rightarrow> bool" where
  "event_le issued r r' \<longleftrightarrow>
     event_type r' = event_type r \<and> schema_version r' = schema_version r \<and> payload r' = payload r
     \<and> occurred_at r' = occurred_at r \<and> attempt_count r \<le> attempt_count r'
     \<and> (\<not> undecided r \<longrightarrow> r' = r)
     \<and> (\<forall>k \<in> issued. lease_token r' = Some k \<longrightarrow>
          lease_token r = Some k \<and> leased_until r' = leased_until r \<and> attempt_count r' = attempt_count r)"

definition outbox_le :: "outbox_system \<Rightarrow> outbox_system \<Rightarrow> bool" where
  "outbox_le s s' \<longleftrightarrow> (case (s, s') of ((t, now, issued), (t', now', issued')) \<Rightarrow>
     now \<le> now' \<and> issued \<subseteq> issued'
     \<and> (\<forall>i r. map_of t i = Some r \<longrightarrow> (\<exists>r'. map_of t' i = Some r' \<and> event_le issued r r')))"

lemma event_le_refl: "event_le issued r r"
  by (simp add: event_le_def)

lemma event_le_trans:
  assumes "event_le issued r r'" "event_le issued' r' r''" "issued \<subseteq> issued'"
  shows "event_le issued r r''"
proof -
  have "lease_token r = Some k \<and> leased_until r'' = leased_until r \<and> attempt_count r'' = attempt_count r"
    if k: "k \<in> issued" "lease_token r'' = Some k" for k
  proof -
    have "k \<in> issued'" using k(1) assms(3) by blast
    then have "lease_token r' = Some k \<and> leased_until r'' = leased_until r' \<and> attempt_count r'' = attempt_count r'"
      using assms(2) k(2) by (simp add: event_le_def)
    then show ?thesis using assms(1) k(1) by (simp add: event_le_def)
  qed
  moreover have "\<not> undecided r \<longrightarrow> r'' = r"
    using assms(1,2) by (metis event_le_def)
  ultimately show ?thesis using assms(1,2) by (simp add: event_le_def)
qed

lemma outbox_le_refl: "outbox_le s s"
  by (auto simp: outbox_le_def event_le_refl split: prod.splits)

lemma outbox_le_trans: "outbox_le s t \<Longrightarrow> outbox_le t u \<Longrightarrow> outbox_le s u"
proof -
  assume st: "outbox_le s t" and tu: "outbox_le t u"
  obtain t1 n1 i1 t2 n2 i2 t3 n3 i3 where eq: "s = (t1, n1, i1)" "t = (t2, n2, i2)" "u = (t3, n3, i3)"
    by (metis prod_cases3)
  have "\<exists>r''. map_of t3 i = Some r'' \<and> event_le i1 r r''" if r: "map_of t1 i = Some r" for i r
  proof -
    obtain r' where r': "map_of t2 i = Some r'" "event_le i1 r r'"
      using st r unfolding outbox_le_def eq prod.case by blast
    obtain r'' where "map_of t3 i = Some r''" "event_le i2 r' r''"
      using tu r'(1) unfolding outbox_le_def eq prod.case by blast
    moreover have "i1 \<subseteq> i2" using st by (simp add: outbox_le_def eq)
    ultimately show ?thesis using event_le_trans [OF r'(2)] by blast
  qed
  moreover have "n1 \<le> n3 \<and> i1 \<subseteq> i3" using st tu by (auto simp: outbox_le_def eq)
  ultimately show ?thesis by (simp add: outbox_le_def eq)
qed

text \<open>A step that changes rows in place, and keeps each of them in order, is one of the system.\<close>

definition rowwise :: "uuid set \<Rightarrow> uuid set \<Rightarrow> outbox_table \<Rightarrow> outbox_table \<Rightarrow> bool" where
  "rowwise issued issued' t t' \<longleftrightarrow>
     map fst t' = map fst t
     \<and> (\<forall>i r. map_of t i = Some r \<longrightarrow> event_ok issued r \<longrightarrow>
          (\<exists>r'. map_of t' i = Some r' \<and> event_ok issued' r' \<and> event_le issued r r'))"

lemma rowwise_step:
  assumes "rowwise issued issued' t t'" "outbox_inv (t, now, issued)" "issued \<subseteq> issued'" "now \<le> now'"
  shows "outbox_inv (t', now', issued') \<and> outbox_le (t, now, issued) (t', now', issued')"
proof -
  have keys: "map fst t' = map fst t" using assms(1) by (simp add: rowwise_def)
  have "event_ok issued' r'" if r': "map_of t' i = Some r'" for i r'
  proof -
    obtain r where "map_of t i = Some r"
      using r' keys by (metis list.set_map map_of_eq_None_iff not_Some_eq)
    then show ?thesis using assms(1,2) r' by (fastforce simp: rowwise_def outbox_inv_def)
  qed
  then show ?thesis
    using assms keys by (fastforce simp: rowwise_def outbox_inv_def outbox_le_def)
qed

lemma event_ok_mono: "event_ok issued r \<Longrightarrow> issued \<subseteq> issued' \<Longrightarrow> event_ok issued' r"
  by (auto simp: event_ok_def)

lemma delivery_update_rowwise:
  assumes "\<And>r. event_ok issued r \<Longrightarrow> owns_lease now k r \<Longrightarrow>
      event_ok issued (f (r\<lparr>lease_token := None, leased_until := None\<rparr>))
      \<and> event_le issued r (f (r\<lparr>lease_token := None, leased_until := None\<rparr>))"
  shows "rowwise issued issued t (fst (delivery_update t now i k f))"
  using assms
  by (auto simp: rowwise_def delivery_update_keys map_of_delivery_update event_le_refl)

lemma mark_published_rowwise: "rowwise issued issued t (fst (mark_published t now i k))"
  unfolding mark_published_def
  by (rule delivery_update_rowwise)
    (auto simp: owns_lease_def event_ok_def event_le_def row_constraints_def undecided_def)

lemma schedule_retry_rowwise: "rowwise issued issued t (fst (schedule_retry t now i k delay))"
  unfolding schedule_retry_def
  by (rule delivery_update_rowwise)
    (auto simp: owns_lease_def event_ok_def event_le_def row_constraints_def undecided_def)

lemma stop_row_in_order:
  assumes "event_ok issued r" "undecided r" "attempt_count r \<noteq> 0"
  shows "event_ok issued (stop_row now reason r) \<and> event_le issued r (stop_row now reason r)"
  using assms by (auto simp: event_ok_def event_le_def row_constraints_def undecided_def stop_row_def)

lemma stop_row_release [simp]:
  "stop_row now reason (r\<lparr>lease_token := None, leased_until := None\<rparr>) = stop_row now reason r"
  by (simp add: stop_row_def)

lemma owns_lease_attempted:
  "event_ok issued r \<Longrightarrow> owns_lease now k r \<Longrightarrow> undecided r \<and> attempt_count r \<noteq> 0"
  by (auto simp: event_ok_def owns_lease_def)

lemma stop_delivery_rowwise: "rowwise issued issued t (fst (stop_delivery t now i k reason))"
  unfolding stop_delivery_def
  by (rule delivery_update_rowwise) (simp add: stop_row_in_order owns_lease_attempted)

lemma candidates_rows:
  assumes "distinct (map fst t)" "i \<in> fst ` set (oldest_where t P locked n)" "map_of t i = Some r"
  shows "P r"
proof -
  obtain q where "(i, q) \<in> set (oldest_where t P locked n)" using assms(2) by auto
  then have "(i, q) \<in> set t" "P q" using set_oldest_where [of i q t P locked n] by blast+
  then show ?thesis using assms(1,3) by (metis map_of_is_SomeI option.inject)
qed

lemma limit_rowwise:
  assumes "distinct (map fst t)"
  shows "rowwise issued issued t (fst (stop_deliveries_at_attempt_limit t now locked etype limit))"
proof -
  define ids where "ids = fst ` set (oldest_where t (exhausted etype now) locked (nat limit))"
  have "event_ok issued (stop_row now Retry_exhausted r) \<and> event_le issued r (stop_row now Retry_exhausted r)"
    if "event_ok issued r" "map_of t i = Some r" "i \<in> ids" for i r
    using stop_row_in_order [OF that(1)] candidates_rows [OF assms that(3) [unfolded ids_def] that(2)]
    by (auto simp: exhausted_def MAX_PUBLISH_ATTEMPTS_def)
  then have "rowwise issued issued t (update_rows (\<lambda>i. stop_row now Retry_exhausted) ids t)"
    by (auto simp: rowwise_def map_of_update_rows event_le_refl)
  moreover have "rowwise issued issued t t" by (simp add: rowwise_def event_le_refl)
  ultimately show ?thesis by (simp add: stop_deliveries_at_attempt_limit_def Let_def ids_def)
qed

section \<open>Leases\<close>

lemma lease_result:
  assumes "lease_events_to_publish t now token locked etype limit d = (t', leased)" "distinct (map fst t)"
  shows "t' = update_rows (lease_row now d token) (env_event_id ` envelope ` set leased) t"
    and "distinct (map (env_event_id \<circ> envelope) leased)" and "int (length leased) \<le> max 0 limit"
    and "sorted (map (env_occurred_at \<circ> envelope) leased)"
    and "x \<in> set leased \<longleftrightarrow> (\<exists>i r. x = leased_event_of (i, lease_row now d token i r)
           \<and> limit > 0 \<and> (i, r) \<in> set (oldest_where t (due_for_delivery etype now) locked (nat limit)))"
proof -
  define cs where "cs = (if limit \<le> 0 then [] else oldest_where t (due_for_delivery etype now) locked (nat limit))"
  define ids where "ids = fst ` set cs"
  define u where "u = update_rows (lease_row now d token) ids t"
  define rs where "rs = sort_key (\<lambda>(i, r). occurred_at r) (filter (\<lambda>(i, r). i \<in> ids) u)"
  have no_ids: "update_rows f {} t = t" for f by (simp add: update_rows_def case_prod_beta)
  have eq: "t' = u" "leased = map leased_event_of rs"
    using assms(1) no_ids
    by (auto simp: lease_events_to_publish_def Let_def cs_def ids_def u_def rs_def split: if_splits)
  have sub: "ids \<subseteq> fst ` set t" using set_oldest_where by (force simp: ids_def cs_def split: if_splits)
  note upd = updated_rows_sorted [OF assms(2) sub rs_def [unfolded u_def]]
  have id: "env_event_id (envelope (leased_event_of p)) = fst p" for p
    by (cases p) (simp add: leased_event_of_def)
  have key: "map (env_event_id \<circ> envelope) leased = map fst rs" by (simp add: eq(2) comp_def id)
  then have "env_event_id ` envelope ` set leased = ids"
    using upd(1) by (metis image_comp list.set_map)
  then show "t' = update_rows (lease_row now d token) (env_event_id ` envelope ` set leased) t"
    by (simp add: eq(1) u_def)
  show "distinct (map (env_event_id \<circ> envelope) leased)" using key upd(2) by simp
  have "map (env_occurred_at \<circ> envelope) leased = map (\<lambda>(i, r). occurred_at r) rs"
    by (simp add: eq(2) leased_event_of_def case_prod_beta)
  then show "sorted (map (env_occurred_at \<circ> envelope) leased)" using upd(3) by simp
  have dc: "distinct (map fst cs)" using distinct_oldest_where [OF assms(2)] by (simp add: cs_def)
  have "length leased = card ids" using upd(1,2) by (metis distinct_card eq(2) length_map list.set_map)
  also have "\<dots> = length cs" using dc by (metis distinct_card ids_def length_map list.set_map)
  also have "\<dots> \<le> nat limit" by (simp add: cs_def length_oldest_where)
  finally show "int (length leased) \<le> max 0 limit" by linarith
  have "(i, q) \<in> set rs \<longleftrightarrow> (\<exists>r. (i, r) \<in> set cs \<and> q = lease_row now d token i r)" for i q
  proof -
    have "(i, r) \<in> set cs \<longleftrightarrow> i \<in> ids \<and> map_of t i = Some r" for r
    proof -
      have cs_t: "set cs \<subseteq> set t" using set_oldest_where by (auto simp: cs_def split: if_splits)
      show ?thesis
        using cs_t map_of_set_iff [OF assms(2), of i] unfolding ids_def
        by (metis (no_types, lifting) image_iff option.inject prod.collapse subsetD fst_conv)
    qed
    then show ?thesis using upd(4) [of i q] by (auto simp: map_of_update_rows split: option.splits)
  qed
  then show "x \<in> set leased \<longleftrightarrow> (\<exists>i r. x = leased_event_of (i, lease_row now d token i r)
           \<and> limit > 0 \<and> (i, r) \<in> set (oldest_where t (due_for_delivery etype now) locked (nat limit)))"
    by (force simp: eq(2) cs_def image_iff split: if_splits)
qed

lemma lease_rowwise:
  assumes "lease_events_to_publish t now token locked etype limit d = (t', leased)" "distinct (map fst t)"
    and fresh: "le_token ` set leased \<inter> issued = {}"
  shows "rowwise issued (issued \<union> le_token ` set leased) t t'"
  unfolding rowwise_def
proof (intro conjI allI impI)
  define ids where "ids = env_event_id ` envelope ` set leased"
  note res = lease_result [OF assms(1,2)]
  have t': "t' = update_rows (lease_row now d token) ids t" using res(1) by (simp add: ids_def)
  then show "map fst t' = map fst t" by simp
  fix i r assume r: "map_of t i = Some r" "event_ok issued r"
  show "\<exists>r'. map_of t' i = Some r' \<and> event_ok (issued \<union> le_token ` set leased) r' \<and> event_le issued r r'"
  proof (cases "i \<in> ids")
    case False
    then show ?thesis using r event_ok_mono [OF r(2)] by (simp add: t' map_of_update_rows event_le_refl)
  next
    case True
    then obtain x where x: "x \<in> set leased" "i = env_event_id (envelope x)" by (auto simp: ids_def)
    then obtain j q where q: "x = leased_event_of (j, lease_row now d token j q)"
      "(j, q) \<in> set (oldest_where t (due_for_delivery etype now) locked (nat limit))" using res(5) by blast
    have j: "j = i" using x(2) q(1) by (simp add: leased_event_of_def)
    then have "(i, q) \<in> set t" "due_for_delivery etype now q" using set_oldest_where [OF q(2)] by auto
    then have due: "due_for_delivery etype now r" using r(1) assms(2) by (metis map_of_is_SomeI option.inject)
    have tok: "le_token x = token i" using q(1) j by (simp add: leased_event_of_def lease_row_def)
    then have "token i \<in> le_token ` set leased" "token i \<notin> issued" using x(1) fresh by (force, force)
    then have "event_ok (issued \<union> le_token ` set leased) (lease_row now d token i r)
      \<and> event_le issued r (lease_row now d token i r)"
      using r(2) due
      by (auto simp: event_ok_def event_le_def due_for_delivery_def lease_row_def row_constraints_def
          undecided_def MAX_PUBLISH_ATTEMPTS_def)
    then show ?thesis using True r(1) by (simp add: t' map_of_update_rows)
  qed
qed

lemma insert_event_result:
  "insert_event t began i etype version pl = Inr t' \<Longrightarrow>
   \<exists>r. t' = t @ [(i, r)] \<and> i \<notin> fst ` set t \<and> row_constraints r \<and> attempt_count r = 0
     \<and> undecided r \<and> lease_token r = None"
  by (auto simp: insert_event_def Let_def undecided_def split: if_splits)

lemma insert_step:
  assumes "insert_event t began i etype version pl = Inr t'" "outbox_inv (t, now, issued)"
  shows "outbox_inv (t', now, issued) \<and> outbox_le (t, now, issued) (t', now, issued)"
proof -
  obtain r where r: "t' = t @ [(i, r)]" "i \<notin> fst ` set t" "row_constraints r" "attempt_count r = 0"
      "undecided r" "lease_token r = None"
    using insert_event_result [OF assms(1)] by blast
  have m: "map_of t' j = (case map_of t j of None \<Rightarrow> if j = i then Some r else None | Some q \<Rightarrow> Some q)" for j
    by (simp add: r(1) map_add_def split: option.splits)
  have "event_ok issued r" using r by (simp add: event_ok_def MAX_PUBLISH_ATTEMPTS_def)
  then have "outbox_inv (t', now, issued)"
    using assms(2) r(2) by (auto simp: outbox_inv_def m r(1) split: option.splits if_splits)
  moreover have "outbox_le (t, now, issued) (t', now, issued)"
    by (auto simp: outbox_le_def m event_le_refl)
  ultimately show ?thesis by blast
qed

lemma outbox_step_effect:
  assumes "outbox_step s s'" "outbox_inv s"
  shows "outbox_inv s' \<and> outbox_le s s'"
  using assms(1)
proof (cases rule: outbox_step.cases)
  case (step_tick now now' t issued)
  then show ?thesis using assms(2) by (simp add: outbox_inv_def outbox_le_def event_le_refl)
next
  case (step_insert t began i etype version pl t' now issued)
  then show ?thesis using insert_step assms(2) by blast
next
  case (step_lease t now token locked etype limit d t' leased issued)
  have "distinct (map fst t)" using assms(2) step_lease(1) by (simp add: outbox_inv_def)
  from rowwise_step [OF lease_rowwise [OF step_lease(3) this step_lease(5)], of now now]
  show ?thesis using step_lease(1,2) assms(2) by simp
next
  case (step_limit t now locked etype limit t' stopped issued)
  have "distinct (map fst t)" using assms(2) step_limit(1) by (simp add: outbox_inv_def)
  from limit_rowwise [OF this, of issued now locked etype limit]
  show ?thesis using rowwise_step [of issued issued t t' now now] step_limit assms(2) by simp
next
  case (step_mark t now i k t' updated issued)
  then show ?thesis
    using rowwise_step [of issued issued t t' now now] mark_published_rowwise [of issued t now i k] assms(2) by simp
next
  case (step_retry t now i k delay t' updated issued)
  then show ?thesis
    using rowwise_step [of issued issued t t' now now] schedule_retry_rowwise [of issued t now i k delay] assms(2) by simp
next
  case (step_stop t now i k reason t' updated issued)
  then show ?thesis
    using rowwise_step [of issued issued t t' now now] stop_delivery_rowwise [of issued t now i k reason] assms(2) by simp
qed

interpretation outbox_sys: monotone_system outbox_start outbox_step outbox_inv outbox_le
proof
  show "outbox_start s \<Longrightarrow> outbox_inv s" for s
    by (auto simp: outbox_start_def outbox_inv_def)
  show "outbox_step s t \<Longrightarrow> outbox_inv s \<Longrightarrow> outbox_inv t" for s t
    using outbox_step_effect by blast
  show "outbox_le s s" for s
    by (rule outbox_le_refl)
  show "outbox_le s t \<Longrightarrow> outbox_le t u \<Longrightarrow> outbox_le s u" for s t u
    by (rule outbox_le_trans)
  show "outbox_inv s \<Longrightarrow> outbox_step s t \<Longrightarrow> outbox_le s t" for s t
    using outbox_step_effect by blast
qed

end
