(* ===== verification/OutboxProperties.thy ===== *)
theory OutboxProperties
  imports OutboxSystem
begin

text \<open>
  The properties of the outbox table: its invariant and what the relays cannot undo, the choice of
  the events to lease and to stop, and the lease as a mutual exclusion that fences late results.
\<close>

section \<open>Examples\<close>

definition example_event :: outbox_event where
  "example_event = \<lparr>event_type = [97], schema_version = 1, payload = PyDict [], occurred_at = 0,
     published_at = None, next_attempt_at = 0, attempt_count = 0, lease_token = None,
     leased_until = None, delivery_stopped_at = None, delivery_stop_reason = None\<rparr>"

lemma example_reachable: "reach outbox_start outbox_step ([(7, example_event)], 0, {})"
proof -
  have "outbox_start ([], 0, {})" by (simp add: outbox_start_def)
  moreover have "insert_event [] 0 7 [97] 1 (PyDict []) = Inr [(7, example_event)]"
    by (simp add: insert_event_def row_constraints_def example_event_def)
  ultimately show ?thesis by (blast intro: reach_start reach_step step_insert)
qed

definition example_leased :: outbox_event where
  "example_leased = lease_row 0 (seconds 150) (\<lambda>_. 3) 7 example_event"

definition example_lease :: leased_event where
  "example_lease = leased_event_of (7, example_leased)"

lemma example_lease_step:
  "lease_events_to_publish [(7, example_event)] 0 (\<lambda>_. 3) {} [97] 10 (seconds 150)
     = ([(7, example_leased)], [example_lease])"
  by (simp add: lease_events_to_publish_def Let_def oldest_where_def due_for_delivery_def undecided_def
      lease_free_def MAX_PUBLISH_ATTEMPTS_def example_event_def update_rows_def example_leased_def
      example_lease_def)

section \<open>The table\<close>

text \<open>
  In every state that services and relays reach, event ids are unique and every row satisfies
  the constraints of the table, has at most five attempts, and holds a lease only while it is
  undecided; an event that was never attempted is undecided.
\<close>

theorem outbox_consistent:
  assumes "reach outbox_start outbox_step (t, now, issued)"
  shows "distinct (map fst t) \<and> (\<forall>(i, r) \<in> set t. row_constraints r
    \<and> attempt_count r \<le> MAX_PUBLISH_ATTEMPTS \<and> (lease_token r \<noteq> None \<longrightarrow> undecided r)
    \<and> (attempt_count r = 0 \<longrightarrow> undecided r \<and> lease_token r = None))"
proof -
  have inv: "outbox_inv (t, now, issued)" by (rule outbox_sys.reach_inv [OF assms])
  then have "distinct (map fst t)" by (simp add: outbox_inv_def)
  moreover have "event_ok issued r" if "(i, r) \<in> set t" for i r
    using inv that map_of_is_SomeI [of t i r] by (simp add: outbox_inv_def)
  ultimately show ?thesis by (auto simp: event_ok_def)
qed

lemma outbox_consistent_witness:
  "distinct (map fst [(7 :: uuid, example_event)]) \<and> attempt_count example_event \<le> MAX_PUBLISH_ATTEMPTS"
  using outbox_consistent [OF example_reachable] by auto

text \<open>
  Nothing that services or relays do takes a decision back: an event that was published or
  stopped keeps its row, the content of an event never changes, and its attempts never decrease.
\<close>

theorem decided_events_are_final:
  assumes "reach outbox_start outbox_step (t, now, issued)" "map_of t i = Some r"
    and "leads_to outbox_step (t, now, issued) (t', now', issued')"
  shows "\<exists>r'. map_of t' i = Some r' \<and> (\<not> undecided r \<longrightarrow> r' = r) \<and> attempt_count r \<le> attempt_count r'
    \<and> event_type r' = event_type r \<and> schema_version r' = schema_version r \<and> payload r' = payload r
    \<and> occurred_at r' = occurred_at r"
proof -
  have "outbox_le (t, now, issued) (t', now', issued')"
    using outbox_sys.leads_to_le [OF assms(3)] outbox_sys.reach_inv [OF assms(1)] by blast
  then show ?thesis using assms(2) by (fastforce simp: outbox_le_def event_le_def)
qed

lemma example_leads:
  "leads_to outbox_step ([(7, example_event)], 0, {}) ([(7, example_leased)], 0, {3})"
proof -
  have "outbox_step ([(7, example_event)], 0, {}) ([(7, example_leased)], 0, {} \<union> le_token ` set [example_lease])"
    by (rule step_lease [OF example_lease_step]) (simp_all add: seconds_def)
  then show ?thesis
    by (auto intro: reach_start reach_step
        simp: example_lease_def leased_event_of_def example_leased_def lease_row_def)
qed

lemma decided_events_are_final_witness:
  "\<exists>r'. map_of [(7, example_leased)] 7 = Some r' \<and> payload r' = PyDict []"
  using decided_events_are_final [OF example_reachable _ example_leads, of 7 example_event]
  by (auto simp: example_event_def)

section \<open>The choice of events\<close>

lemma leased_event_rows:
  assumes "lease_events_to_publish t now token locked etype limit d = (t', leased)" "distinct (map fst t)"
    and x: "x \<in> set leased"
  shows "\<exists>r. map_of t (env_event_id (envelope x)) = Some r
         \<and> due_for_delivery etype now r \<and> env_event_id (envelope x) \<notin> locked
         \<and> map_of t' (env_event_id (envelope x)) = Some (r\<lparr>lease_token := Some (le_token x),
             leased_until := Some (now + d), attempt_count := le_attempt_count x\<rparr>)
         \<and> le_attempt_count x = attempt_count r + 1 \<and> env_payload (envelope x) = payload r"
proof -
  note res = lease_result [OF assms(1,2)]
  obtain i r where ir: "x = leased_event_of (i, lease_row now d token i r)"
    "(i, r) \<in> set (oldest_where t (due_for_delivery etype now) locked (nat limit))"
    using x res(5) by blast
  have tab: "map_of t i = Some r" "due_for_delivery etype now r" "i \<notin> locked"
    using set_oldest_where [OF ir(2)] assms(2) by auto
  have "i \<in> env_event_id ` envelope ` set leased" using x ir(1) by (force simp: leased_event_of_def)
  then have "map_of t' i = Some (lease_row now d token i r)"
    using tab by (simp add: res(1) map_of_update_rows)
  then show ?thesis using tab ir(1) by (simp add: leased_event_of_def lease_row_def)
qed

lemma leased_was_free:
  assumes "distinct (map fst t)" "map_of t i = Some r"
    and "i \<in> (env_event_id \<circ> envelope) ` set (snd (lease_events_to_publish t now token locked etype limit d))"
  shows "lease_free now r"
proof -
  obtain t' leased where l: "lease_events_to_publish t now token locked etype limit d = (t', leased)" by fastforce
  then obtain x where "x \<in> set leased" "i = env_event_id (envelope x)" using assms(3) by auto
  then show ?thesis
    using leased_event_rows [OF l assms(1)] assms(2) by (fastforce simp: due_for_delivery_def)
qed

lemma stopped_was_free:
  assumes "distinct (map fst t)" "map_of t i = Some r"
    and "i \<in> set (snd (stop_deliveries_at_attempt_limit t now locked etype limit))"
  shows "lease_free now r"
proof -
  define ids where "ids = fst ` set (oldest_where t (exhausted etype now) locked (nat limit))"
  have "i \<in> ids"
    using assms(3) unfolding stop_deliveries_at_attempt_limit_def Let_def ids_def [symmetric]
    by (auto split: if_splits)
  then have "exhausted etype now r"
    unfolding ids_def by (rule candidates_rows [OF assms(1) _ assms(2)])
  then show ?thesis by (simp add: exhausted_def)
qed

text \<open>
  A lease statement takes the oldest deliverable events up to its limit: exactly those rows
  change, each now holding the lease and one more attempt; they come back in the order of their
  age with the new token and count; and an unlocked deliverable event is left out only when
  the limit is used up by events that are not younger.
\<close>

theorem lease_takes_the_oldest_due_events:
  assumes "lease_events_to_publish t now token locked etype limit d = (t', leased)"
    and "distinct (map fst t)" "0 < limit"
  shows "distinct (map (env_event_id \<circ> envelope) leased) \<and> int (length leased) \<le> limit
    \<and> sorted (map (env_occurred_at \<circ> envelope) leased)
    \<and> (\<forall>i. i \<notin> (env_event_id \<circ> envelope) ` set leased \<longrightarrow> map_of t' i = map_of t i)
    \<and> (\<forall>x \<in> set leased. \<exists>r. map_of t (env_event_id (envelope x)) = Some r
         \<and> due_for_delivery etype now r \<and> env_event_id (envelope x) \<notin> locked
         \<and> map_of t' (env_event_id (envelope x)) = Some (r\<lparr>lease_token := Some (le_token x),
             leased_until := Some (now + d), attempt_count := le_attempt_count x\<rparr>)
         \<and> le_attempt_count x = attempt_count r + 1 \<and> env_payload (envelope x) = payload r)
    \<and> (\<forall>i r. map_of t i = Some r \<and> due_for_delivery etype now r \<and> i \<notin> locked
         \<and> i \<notin> (env_event_id \<circ> envelope) ` set leased \<longrightarrow>
         int (length leased) = limit \<and> (\<forall>x \<in> set leased. env_occurred_at (envelope x) \<le> occurred_at r))"
proof -
  note res = lease_result [OF assms(1,2)]
  define cs where "cs = oldest_where t (due_for_delivery etype now) locked (nat limit)"
  have mem: "x \<in> set leased \<longleftrightarrow> (\<exists>i r. x = leased_event_of (i, lease_row now d token i r) \<and> (i, r) \<in> set cs)" for x
    using res(5) [of x] assms(3) by (simp add: cs_def)
  have ids: "(env_event_id \<circ> envelope) ` set leased = env_event_id ` envelope ` set leased"
    by (simp add: image_comp)
  have key: "env_event_id (envelope (leased_event_of (i, q))) = i" for i q by (simp add: leased_event_of_def)
  have idcs: "(env_event_id \<circ> envelope) ` set leased = fst ` set cs"
  proof (intro subset_antisym subsetI)
    fix i assume "i \<in> (env_event_id \<circ> envelope) ` set leased"
    then obtain x where x: "x \<in> set leased" "i = env_event_id (envelope x)" by auto
    then obtain j r where "x = leased_event_of (j, lease_row now d token j r)" "(j, r) \<in> set cs"
      using mem by blast
    then show "i \<in> fst ` set cs" using x(2) key by force
  next
    fix i assume "i \<in> fst ` set cs"
    then obtain r where "(i, r) \<in> set cs" by auto
    then have "leased_event_of (i, lease_row now d token i r) \<in> set leased" using mem by blast
    then show "i \<in> (env_event_id \<circ> envelope) ` set leased"
      by (rule image_eqI [rotated]) (simp add: key)
  qed
  have tab: "map_of t i = Some r \<and> due_for_delivery etype now r \<and> i \<notin> locked" if "(i, r) \<in> set cs" for i r
    using set_oldest_where [OF that [unfolded cs_def]] assms(2) by auto
  have other: "\<forall>i. i \<notin> (env_event_id \<circ> envelope) ` set leased \<longrightarrow> map_of t' i = map_of t i"
    unfolding ids by (simp add: res(1) map_of_update_rows split: option.splits)
  have each: "\<exists>r. map_of t (env_event_id (envelope x)) = Some r
         \<and> due_for_delivery etype now r \<and> env_event_id (envelope x) \<notin> locked
         \<and> map_of t' (env_event_id (envelope x)) = Some (r\<lparr>lease_token := Some (le_token x),
             leased_until := Some (now + d), attempt_count := le_attempt_count x\<rparr>)
         \<and> le_attempt_count x = attempt_count r + 1 \<and> env_payload (envelope x) = payload r"
    if x: "x \<in> set leased" for x
    by (rule leased_event_rows [OF assms(1,2) x])
  have length: "length leased = length cs"
  proof -
    have "distinct (map fst cs)" using distinct_oldest_where [OF assms(2)] by (simp add: cs_def)
    then show ?thesis
      using res(2) idcs by (metis distinct_card length_map list.set_map)
  qed
  have rest: "int (length leased) = limit \<and> (\<forall>x \<in> set leased. env_occurred_at (envelope x) \<le> occurred_at r)"
    if r: "map_of t i = Some r" "due_for_delivery etype now r" "i \<notin> locked"
      "i \<notin> (env_event_id \<circ> envelope) ` set leased" for i r
  proof -
    have "(i, r) \<notin> set cs" using r(4) idcs by force
    then have "length cs = nat limit" "\<forall>(j, q) \<in> set cs. occurred_at q \<le> occurred_at r"
      using oldest_where_complete [OF map_of_SomeD [OF r(1)], of "due_for_delivery etype now" locked "nat limit"] r(2,3)
      by (auto simp: cs_def)
    moreover have "env_occurred_at (envelope x) \<le> occurred_at r" if x: "x \<in> set leased" for x
    proof -
      obtain j q where "x = leased_event_of (j, lease_row now d token j q)" "(j, q) \<in> set cs"
        using x mem by blast
      then show ?thesis using calculation(2) by (auto simp: leased_event_of_def lease_row_def)
    qed
    ultimately show ?thesis using length assms(3) by simp
  qed
  show ?thesis using res(2,3,4) assms(3) other each rest by auto
qed

lemma lease_takes_the_oldest_due_events_witness:
  "\<exists>r. map_of [(7, example_event)] 7 = Some r \<and> due_for_delivery [97] 0 r
     \<and> le_attempt_count example_lease = attempt_count r + 1"
  using lease_takes_the_oldest_due_events [OF example_lease_step]
  by (simp add: example_lease_def leased_event_of_def)

text \<open>
  The sweep before a lease stops the oldest free events that have used up their five attempts,
  up to its limit: they lose their lease and carry the time and the reason, no other row changes,
  and an unlocked exhausted event stays only when the limit is used up.
\<close>

theorem attempt_limit_stops_exhausted_events:
  assumes "stop_deliveries_at_attempt_limit t now locked etype limit = (t', stopped)"
    and "distinct (map fst t)" "0 < limit"
  shows "distinct stopped \<and> int (length stopped) \<le> limit
    \<and> (\<forall>i. map_of t' i = (case map_of t i of None \<Rightarrow> None
         | Some r \<Rightarrow> Some (if i \<in> set stopped
             then r\<lparr>delivery_stopped_at := Some now, delivery_stop_reason := Some Retry_exhausted,
                    lease_token := None, leased_until := None\<rparr> else r)))
    \<and> (\<forall>i \<in> set stopped. \<exists>r. map_of t i = Some r \<and> exhausted etype now r \<and> i \<notin> locked)
    \<and> (\<forall>i r. map_of t i = Some r \<and> exhausted etype now r \<and> i \<notin> locked \<and> i \<notin> set stopped \<longrightarrow>
         int (length stopped) = limit)"
proof -
  define cs where "cs = oldest_where t (exhausted etype now) locked (nat limit)"
  define ids where "ids = fst ` set cs"
  define u where "u = update_rows (\<lambda>i. stop_row now Retry_exhausted) ids t"
  define rs where "rs = sort_key (\<lambda>(i, r). occurred_at r) (filter (\<lambda>(i, r). i \<in> ids) u)"
  have eq: "t' = u" "stopped = map fst rs"
    using assms(1,3) unfolding rs_def u_def ids_def cs_def
    by (auto simp: stop_deliveries_at_attempt_limit_def Let_def)
  have in_t: "(i, r) \<in> set t \<and> exhausted etype now r \<and> i \<notin> locked" if "(i, r) \<in> set cs" for i r
    using set_oldest_where [OF that [unfolded cs_def]] by blast
  then have sub: "ids \<subseteq> fst ` set t" by (force simp: ids_def)
  note upd = updated_rows_sorted [OF assms(2) sub rs_def [unfolded u_def]]
  have set: "set stopped = ids" using upd(1) by (simp add: eq(2))
  have d: "distinct stopped" using upd(2) by (simp add: eq(2))
  have "distinct (map fst cs)" using distinct_oldest_where [OF assms(2)] by (simp add: cs_def)
  then have len: "length stopped = length cs"
    using d set by (metis distinct_card ids_def length_map list.set_map)
  have "int (length stopped) \<le> limit"
    using len length_oldest_where [of t "exhausted etype now" locked "nat limit"] assms(3) by (simp add: cs_def)
  moreover have "map_of t' i = (case map_of t i of None \<Rightarrow> None
         | Some r \<Rightarrow> Some (if i \<in> set stopped
             then r\<lparr>delivery_stopped_at := Some now, delivery_stop_reason := Some Retry_exhausted,
                    lease_token := None, leased_until := None\<rparr> else r))" for i
    by (simp add: eq(1) u_def map_of_update_rows set stop_row_def split: option.splits)
  moreover have "\<exists>r. map_of t i = Some r \<and> exhausted etype now r \<and> i \<notin> locked" if "i \<in> set stopped" for i
  proof -
    obtain r where "(i, r) \<in> set cs" using \<open>i \<in> set stopped\<close> set by (auto simp: ids_def)
    then show ?thesis using in_t assms(2) by (metis map_of_is_SomeI)
  qed
  moreover have "int (length stopped) = limit"
    if "map_of t i = Some r" "exhausted etype now r" "i \<notin> locked" "i \<notin> set stopped" for i r
  proof -
    have "(i, r) \<notin> set cs" using that(4) set by (force simp: ids_def)
    then show ?thesis
      using oldest_where_complete [where P = "exhausted etype now", OF map_of_SomeD [OF that(1)] that(2,3)] len assms(3) by (simp add: cs_def)
  qed
  ultimately show ?thesis using d by blast
qed

lemma attempt_limit_stops_exhausted_events_witness:
  "\<exists>r. map_of [(7, example_event\<lparr>attempt_count := 5\<rparr>)] 7 = Some r \<and> exhausted [97] 0 r"
proof -
  have "stop_deliveries_at_attempt_limit [(7, example_event\<lparr>attempt_count := 5\<rparr>)] 0 {} [97] 100
    = ([(7, stop_row 0 Retry_exhausted (example_event\<lparr>attempt_count := 5\<rparr>))], [7])"
    by (simp add: stop_deliveries_at_attempt_limit_def Let_def oldest_where_def exhausted_def undecided_def
        lease_free_def MAX_PUBLISH_ATTEMPTS_def example_event_def update_rows_def)
  from attempt_limit_stops_exhausted_events [OF this] show ?thesis by simp
qed

section \<open>Leases\<close>

lemma delivery_update_rejected:
  "map_of t i = Some r \<Longrightarrow> \<not> owns_lease now k r \<Longrightarrow> delivery_update t now i k f = (t, False)"
  by (simp add: delivery_update_def)

lemma delivery_update_accepted:
  "map_of t i = Some r \<Longrightarrow> owns_lease now k r \<Longrightarrow> snd (delivery_update t now i k f)"
  by (simp add: delivery_update_def)

text \<open>What has become of a leased row in a later state.\<close>

lemma leased_row_later:
  assumes "reach outbox_start outbox_step (t, now, issued)"
    and lease: "lease_events_to_publish t now token locked etype limit d = (t', leased)" "0 < d"
      "le_token ` set leased \<inter> issued = {}"
    and x: "x \<in> set leased"
    and later: "leads_to outbox_step (t', now, issued \<union> le_token ` set leased) (t2, now2, issued2)"
  obtains r where "map_of t2 (env_event_id (envelope x)) = Some r"
    "owns_lease now2 (le_token x) r \<longleftrightarrow> lease_token r = Some (le_token x) \<and> now2 < now + d"
    "owns_lease now2 (le_token x) r \<Longrightarrow> leased_until r = Some (now + d) \<and> attempt_count r = le_attempt_count x"
proof -
  let ?issued = "issued \<union> le_token ` set leased"
  have inv: "outbox_inv (t, now, issued)" by (rule outbox_sys.reach_inv [OF assms(1)])
  have inv': "outbox_inv (t', now, ?issued)" by (rule outbox_sys.reach_step_inv [OF assms(1) step_lease [OF lease]])
  have inv2: "outbox_inv (t2, now2, issued2)" by (rule outbox_sys.leads_to_inv [OF later inv'])
  have "distinct (map fst t)" using inv by (simp add: outbox_inv_def)
  then obtain q where q: "map_of t' (env_event_id (envelope x)) = Some (q\<lparr>lease_token := Some (le_token x),
             leased_until := Some (now + d), attempt_count := le_attempt_count x\<rparr>)"
    using leased_event_rows [OF lease(1) _ x] by blast
  have "outbox_le (t', now, ?issued) (t2, now2, issued2)" by (rule outbox_sys.leads_to_le [OF later inv'])
  then obtain r where r: "map_of t2 (env_event_id (envelope x)) = Some r"
    "event_le ?issued (q\<lparr>lease_token := Some (le_token x),
             leased_until := Some (now + d), attempt_count := le_attempt_count x\<rparr>) r"
    using q unfolding outbox_le_def prod.case by blast
  have "le_token x \<in> ?issued" using x by simp
  then have held: "lease_token r = Some (le_token x) \<Longrightarrow> leased_until r = Some (now + d)
      \<and> attempt_count r = le_attempt_count x"
    using r(2) by (simp add: event_le_def)
  have "lease_token r \<noteq> None \<Longrightarrow> undecided r"
    using inv2 r(1) by (simp add: outbox_inv_def event_ok_def)
  then have "owns_lease now2 (le_token x) r \<longleftrightarrow> lease_token r = Some (le_token x) \<and> now2 < now + d"
    using held by (auto simp: owns_lease_def)
  then show thesis using that r(1) held by blast
qed

text \<open>
  C36. A lease is a mutual exclusion that fences late results. In every later state the relay that
  leased an event still owns it exactly while the row carries its token and the lease time has not
  passed; then no other relay leases the event and no sweep stops it, and the owner's result is
  recorded. Otherwise each of its results is refused and changes nothing, and that is so for good.
\<close>

theorem lease_excludes_and_fences:
  assumes "reach outbox_start outbox_step (t, now, issued)"
    and "lease_events_to_publish t now token locked etype limit d = (t', leased)" "0 < d"
    and "le_token ` set leased \<inter> issued = {}" "x \<in> set leased"
    and "leads_to outbox_step (t', now, issued \<union> le_token ` set leased) (t2, now2, issued2)"
    and "leads_to outbox_step (t2, now2, issued2) (t3, now3, issued3)"
  shows "\<exists>r. map_of t2 (env_event_id (envelope x)) = Some r \<and>
    (if lease_token r = Some (le_token x) \<and> now2 < now + d
     then attempt_count r = le_attempt_count x
       \<and> (\<forall>tok lk et lim d'. env_event_id (envelope x) \<notin>
            (env_event_id \<circ> envelope) ` set (snd (lease_events_to_publish t2 now2 tok lk et lim d')))
       \<and> (\<forall>lk et lim. env_event_id (envelope x) \<notin> set (snd (stop_deliveries_at_attempt_limit t2 now2 lk et lim)))
       \<and> snd (mark_published t2 now2 (env_event_id (envelope x)) (le_token x))
     else mark_published t3 now3 (env_event_id (envelope x)) (le_token x) = (t3, False)
       \<and> (\<forall>delay. schedule_retry t3 now3 (env_event_id (envelope x)) (le_token x) delay = (t3, False))
       \<and> (\<forall>reason. stop_delivery t3 now3 (env_event_id (envelope x)) (le_token x) reason = (t3, False)))"
proof -
  let ?i = "env_event_id (envelope x)" and ?k = "le_token x"
  have inv': "outbox_inv (t', now, issued \<union> le_token ` set leased)"
    by (rule outbox_sys.reach_step_inv [OF assms(1) step_lease [OF assms(2-4)]])
  then have inv2: "outbox_inv (t2, now2, issued2)" by (rule outbox_sys.leads_to_inv [OF assms(6)])
  obtain r where r: "map_of t2 ?i = Some r"
    "owns_lease now2 ?k r \<longleftrightarrow> lease_token r = Some ?k \<and> now2 < now + d"
    "owns_lease now2 ?k r \<Longrightarrow> leased_until r = Some (now + d) \<and> attempt_count r = le_attempt_count x"
    using leased_row_later [OF assms(1-6)] by blast
  show ?thesis
  proof (cases "owns_lease now2 ?k r")
    case True
    have busy: "\<not> lease_free now2 r" using r(2,3) True by (simp add: lease_free_def)
    have d2: "distinct (map fst t2)" using inv2 by (simp add: outbox_inv_def)
    have "?i \<notin> (env_event_id \<circ> envelope) ` set (snd (lease_events_to_publish t2 now2 tok lk et lim d'))"
      for tok lk et lim d'
      using busy r(1) leased_was_free [OF d2] by force
    moreover have "?i \<notin> set (snd (stop_deliveries_at_attempt_limit t2 now2 lk et lim))" for lk et lim
      using busy r(1) stopped_was_free [OF d2] by force
    moreover have "snd (mark_published t2 now2 ?i ?k)"
      using delivery_update_accepted [OF r(1) True] by (simp add: mark_published_def)
    ultimately show ?thesis using True r by auto
  next
    case False
    have all: "leads_to outbox_step (t', now, issued \<union> le_token ` set leased) (t3, now3, issued3)"
      using assms(6,7) by (rule leads_to_trans)
    have le: "outbox_le (t2, now2, issued2) (t3, now3, issued3)" by (rule outbox_sys.leads_to_le [OF assms(7) inv2])
    obtain r3 where r3: "map_of t3 ?i = Some r3"
      "owns_lease now3 ?k r3 \<longleftrightarrow> lease_token r3 = Some ?k \<and> now3 < now + d"
      using leased_row_later [OF assms(1-5) all] by blast
    have "?k \<in> issued2" using outbox_sys.leads_to_le [OF assms(6) inv'] assms(5) by (auto simp: outbox_le_def)
    then have "lease_token r3 = Some ?k \<Longrightarrow> lease_token r = Some ?k"
      using le r(1) r3(1) by (fastforce simp: outbox_le_def event_le_def)
    moreover have "now2 \<le> now3" using le by (simp add: outbox_le_def)
    ultimately have "\<not> owns_lease now3 ?k r3" using False r(2) r3(2) by auto
    then show ?thesis
      using r(1,2) False delivery_update_rejected [OF r3(1)]
      by (auto simp: mark_published_def schedule_retry_def stop_delivery_def)
  qed
qed

lemma lease_excludes_and_fences_witness:
  "snd (mark_published [(7, example_leased)] 0 7 3)"
proof -
  have fresh: "le_token ` set [example_lease] \<inter> {} = {}" "0 < seconds 150" "example_lease \<in> set [example_lease]"
    by (simp_all add: seconds_def)
  have refl: "leads_to outbox_step s s" for s by (simp add: reach_start)
  show ?thesis
    using lease_excludes_and_fences [OF example_reachable example_lease_step fresh(2,1,3) refl refl]
    by (simp add: example_lease_def example_leased_def leased_event_of_def lease_row_def example_event_def
        seconds_def)
qed

end
