(* ===== verification/OutboxRelay.thy ===== *)
theory OutboxRelay
  imports OutboxProperties
begin

text \<open>
  One run of the outbox relay (\<^verbatim>\<open>outbox/relay/relay.py\<close>) with its handling of
  failures (\<^verbatim>\<open>outbox/relay/failure_handler.py\<close>) and its route
  (\<^verbatim>\<open>outbox/relay/route.py\<close>). A run is a sequence of transactions; between two of
  them other transactions may change the table. What the run gets from outside (the server's
  clock, the other transactions, the locks they hold, random tokens and jitter) is an
  environment, indexed by the number of the transaction.
\<close>

section \<open>The environment\<close>

record relay_env =
  clock :: "nat \<Rightarrow> time"
  others :: "nat \<Rightarrow> outbox_table \<Rightarrow> outbox_table"
  locked_rows :: "nat \<Rightarrow> uuid set"
  new_token :: "nat \<Rightarrow> uuid \<Rightarrow> uuid"
  jitter_at :: "nat \<Rightarrow> py_float"

type_synonym relay_state = "outbox_table \<times> nat"

definition transact ::
    "relay_env \<Rightarrow> relay_state \<Rightarrow> (outbox_table \<Rightarrow> time \<Rightarrow> nat \<Rightarrow> outbox_table \<times> 'r) \<Rightarrow> relay_state \<times> 'r" where
  "transact env st f =
     (case st of (t, n) \<Rightarrow>
        (case f (others env n t) (clock env n) n of (t', res) \<Rightarrow> ((t', Suc n), res)))"

section \<open>Failures\<close>

datatype delivery_outcome =
    Retry_scheduled duration
  | Delivery_stopped non_retryable_reason
  | Delivery_update_skipped

text \<open>
  \<^verbatim>\<open>OutboxDeliveryFailureHandler.handle\<close>: a transaction that updates no row is rolled
  back, and only a stop that was committed is recorded.
\<close>

definition handle_failure ::
    "relay_env \<Rightarrow> relay_state \<Rightarrow> leased_event \<Rightarrow> publish_failure
       \<Rightarrow> py_exc + relay_state \<times> delivery_outcome \<times> stop_record option" where
  "handle_failure env st x error =
     (let event_id = env_event_id (envelope x); token = le_token x in
      case decide_publish_retry error (le_attempt_count x) (jitter_at env (snd st)) of
        Inl e \<Rightarrow> Inl e
      | Inr (Retryable delay) \<Rightarrow>
          (case transact env st (\<lambda>t now n. schedule_retry t now event_id token delay) of
             (st', updated) \<Rightarrow>
               Inr (st', if updated then Retry_scheduled delay else Delivery_update_skipped, None))
      | Inr (Non_retryable reason) \<Rightarrow>
          (case transact env st (\<lambda>t now n. stop_delivery t now event_id token reason) of
             (st', updated) \<Rightarrow>
               if updated
               then Inr (st', Delivery_stopped reason,
                      Some (record_publish_failure event_id (le_attempt_count x) error reason))
               else Inr (st', Delivery_update_skipped, None)))"

section \<open>A run\<close>

record delivery_route =
  route_event_type :: pystr
  route_queue_url :: pystr

definition make_route :: "pystr \<Rightarrow> pystr \<Rightarrow> py_exc + delivery_route" where
  "make_route etype url =
     (if strip etype = [] \<or> strip url = [] then Inl ValueError
      else Inr \<lparr>route_event_type = etype, route_queue_url = url\<rparr>)"

text \<open>What the run did with a leased event: the result of marking it published, or the failure.\<close>

datatype relay_record =
    Marked_published bool
  | Failure_handled publish_failure delivery_outcome "stop_record option"

type_synonym relay_trace = "(leased_event \<times> relay_record) list"

text \<open>The state when the run ended, its records, and the exception when one ended it.\<close>

type_synonym relay_result = "relay_state \<times> relay_trace \<times> py_exc option"

definition record_then :: "leased_event \<times> relay_record \<Rightarrow> relay_result \<Rightarrow> relay_result" where
  "record_then x res = (case res of (st, trace, e) \<Rightarrow> (st, x # trace, e))"

text \<open>The loop over the leased events: messages that cannot be built fail at once.\<close>

fun build_messages ::
    "relay_env \<Rightarrow> (event_envelope \<Rightarrow> event_invalid + event_message) \<Rightarrow> relay_state \<Rightarrow> leased_event list
       \<Rightarrow> relay_result \<times> (leased_event \<times> event_message) list" where
  "build_messages env build st [] = ((st, [], None), [])"
| "build_messages env build st (x # xs) =
     (case build (envelope x) of
        Inr m \<Rightarrow> (case build_messages env build st xs of (res, sendable) \<Rightarrow> (res, (x, m) # sendable))
      | Inl invalid \<Rightarrow>
          (case handle_failure env st x (Event_invalid invalid) of
             Inl e \<Rightarrow> ((st, [], Some e), [])
           | Inr (st', outcome, rec) \<Rightarrow>
               (case build_messages env build st' xs of (res, sendable) \<Rightarrow>
                  (record_then (x, Failure_handled (Event_invalid invalid) outcome rec) res, sendable))))"

text \<open>The loop over the results; a sender that could not be opened fails every event alike.\<close>

fun record_results :: "relay_env \<Rightarrow> relay_state \<Rightarrow> (leased_event \<times> send_result) list \<Rightarrow> relay_result" where
  "record_results env st [] = (st, [], None)"
| "record_results env st ((x, Accepted message_id) # rs) =
     (case transact env st (\<lambda>t now n. mark_published t now (env_event_id (envelope x)) (le_token x)) of
        (st', updated) \<Rightarrow> record_then (x, Marked_published updated) (record_results env st' rs))"
| "record_results env st ((x, Failed_to_send error) # rs) =
     (case handle_failure env st x (Send_error error) of
        Inl e \<Rightarrow> (st, [], Some e)
      | Inr (st', outcome, rec) \<Rightarrow>
          record_then (x, Failure_handled (Send_error error) outcome rec) (record_results env st' rs))"

type_synonym batch_sender =
  "(leased_event \<times> event_message) list \<Rightarrow> py_exc + (leased_event \<times> send_result) list"

definition send_and_record ::
    "relay_env \<Rightarrow> send_error + batch_sender \<Rightarrow> relay_state \<Rightarrow> (leased_event \<times> event_message) list \<Rightarrow> relay_result" where
  "send_and_record env sender st sendable =
     (if sendable = [] then (st, [], None)
      else case sender of
        Inl error \<Rightarrow> record_results env st (map (\<lambda>(x, m). (x, Failed_to_send error)) sendable)
      | Inr send \<Rightarrow>
          (case send sendable of
             Inl e \<Rightarrow> (st, [], Some e)
           | Inr results \<Rightarrow> record_results env st results))"

definition stop_exhausted :: "relay_env \<Rightarrow> pystr \<Rightarrow> relay_state \<Rightarrow> relay_state \<times> uuid list" where
  "stop_exhausted env etype st =
     transact env st (\<lambda>t now n. stop_deliveries_at_attempt_limit t now (locked_rows env n) etype 100)"

definition lease_batch :: "relay_env \<Rightarrow> pystr \<Rightarrow> duration \<Rightarrow> relay_state \<Rightarrow> relay_state \<times> leased_event list" where
  "lease_batch env etype d st =
     transact env st (\<lambda>t now n. lease_events_to_publish t now (new_token env n) (locked_rows env n) etype 10 d)"

definition deliver ::
    "relay_env \<Rightarrow> (event_envelope \<Rightarrow> event_invalid + event_message) \<Rightarrow> send_error + batch_sender
       \<Rightarrow> relay_state \<Rightarrow> leased_event list \<Rightarrow> relay_result" where
  "deliver env build sender st leased =
     (case build_messages env build st leased of
        ((st', trace, Some e), sendable) \<Rightarrow> (st', trace, Some e)
      | ((st', trace, None), sendable) \<Rightarrow>
          (case send_and_record env sender st' sendable of
             (st'', trace', e) \<Rightarrow> (st'', trace @ trace', e)))"

definition run_once ::
    "relay_env \<Rightarrow> delivery_route \<Rightarrow> (event_envelope \<Rightarrow> event_invalid + event_message)
       \<Rightarrow> send_error + batch_sender \<Rightarrow> relay_state \<Rightarrow> relay_result" where
  "run_once env route build sender st =
     (case stop_exhausted env (route_event_type route) st of (st1, stopped) \<Rightarrow>
        case make_lease_duration (seconds 150) of
          Inl e \<Rightarrow> (st1, [], Some e)
        | Inr d \<Rightarrow>
            (case lease_batch env (route_event_type route) d st1 of (st2, leased) \<Rightarrow>
               if leased = [] then (st2, [], None) else deliver env build sender st2 leased))"

end
