(* ===== verification/RelayProperties.thy ===== *)
theory RelayProperties
  imports OutboxRelay "HOL-Library.Multiset"
begin

text \<open>
  The properties of a relay run: every leased event gets exactly one record, whatever the builder,
  the sender and the other transactions do; and a run that keeps within its lease settles every
  event it leased. The contract of the sender is a locale, interpreted on the sender of SQS.
\<close>

section \<open>The contract of a sender\<close>

text \<open>\<^verbatim>\<open>MessageSender.send_batch\<close>: one result per target, in the order given.\<close>

locale message_sender =
  fixes send :: "('t \<times> event_message) list \<Rightarrow> py_exc + ('t \<times> send_result) list"
  assumes aligned: "send items = Inr results \<Longrightarrow> map fst results = map fst items"
begin

lemma result_of_target:
  "send items = Inr results \<Longrightarrow> set (map fst results) = set (map fst items)"
  by (simp add: aligned)

lemma results_length: "send items = Inr results \<Longrightarrow> length results = length items"
  by (metis aligned length_map)

end

lemma send_batch_aligned:
  "send_batch md5hex entry_id client items = Inr results \<Longrightarrow> map fst results = map fst items"
  by (auto simp: send_batch_def map_sum_def comp_def case_prod_beta split: if_splits sum.splits)

interpretation sqs: message_sender "send_batch md5hex entry_id client" for md5hex entry_id client
  by unfold_locales (rule send_batch_aligned)

section \<open>One record for every event\<close>

definition valid_jitter :: "relay_env \<Rightarrow> bool" where
  "valid_jitter env \<longleftrightarrow> (\<forall>n. \<exists>j. jitter_at env n = Finite_float j \<and> 0 \<le> j \<and> j \<le> 1)"

lemma decide_total:
  assumes "valid_jitter env" "1 \<le> n"
  obtains decision where "decide_publish_retry error n (jitter_at env k) = Inr decision"
  using assms(1) decide_publish_retry_Inr [OF assms(2)] unfolding valid_jitter_def by metis

lemma handle_total:
  assumes "valid_jitter env" "1 \<le> le_attempt_count x"
  obtains st' outcome rec where "handle_failure env st x error = Inr (st', outcome, rec)"
proof -
  obtain decision where d: "decide_publish_retry error (le_attempt_count x) (jitter_at env (snd st)) = Inr decision"
    using decide_total [OF assms] by blast
  then have "\<exists>p. handle_failure env st x error = Inr p"
    by (cases decision) (auto simp: handle_failure_def Let_def split: prod.splits)
  then show thesis using that by (metis prod_cases3)
qed

definition is_invalid :: "(event_envelope \<Rightarrow> event_invalid + event_message) \<Rightarrow> leased_event \<Rightarrow> bool" where
  "is_invalid build x \<longleftrightarrow> (\<exists>e. build (envelope x) = Inl e)"

definition sendable_events ::
    "(event_envelope \<Rightarrow> event_invalid + event_message) \<Rightarrow> leased_event list \<Rightarrow> (leased_event \<times> event_message) list" where
  "sendable_events build xs =
     map (\<lambda>x. (x, case build (envelope x) of Inr m \<Rightarrow> m)) (filter (\<lambda>x. \<not> is_invalid build x) xs)"

lemma map_fst_sendable: "map fst (sendable_events build xs) = filter (\<lambda>x. \<not> is_invalid build x) xs"
  by (simp add: sendable_events_def comp_def)

text \<open>The record that fits a failed build, and a result of the sender.\<close>

definition fits_invalid ::
    "(event_envelope \<Rightarrow> event_invalid + event_message) \<Rightarrow> leased_event \<times> relay_record \<Rightarrow> bool" where
  "fits_invalid build p \<longleftrightarrow>
     (\<exists>e outcome rec. build (envelope (fst p)) = Inl e \<and> snd p = Failure_handled (Event_invalid e) outcome rec)"

fun fits_result :: "send_result \<Rightarrow> relay_record \<Rightarrow> bool" where
  "fits_result (Accepted _) rec = (\<exists>updated. rec = Marked_published updated)"
| "fits_result (Failed_to_send e) rec = (\<exists>outcome stop. rec = Failure_handled (Send_error e) outcome stop)"

lemma build_messages_result:
  assumes "valid_jitter env" "\<forall>x \<in> set xs. 1 \<le> le_attempt_count x"
  shows "\<exists>st' trace. build_messages env build st xs = ((st', trace, None), sendable_events build xs)
    \<and> map fst trace = filter (is_invalid build) xs \<and> list_all (fits_invalid build) trace"
  using assms(2)
proof (induction xs arbitrary: st)
  case Nil
  then show ?case by (simp add: sendable_events_def)
next
  case (Cons x xs)
  show ?case
  proof (cases "build (envelope x)")
    case (Inr m)
    then have "\<not> is_invalid build x" by (simp add: is_invalid_def)
    moreover obtain st' trace where "build_messages env build st xs = ((st', trace, None), sendable_events build xs)"
      "map fst trace = filter (is_invalid build) xs" "list_all (fits_invalid build) trace"
      using Cons.IH [of st] Cons.prems by auto
    ultimately show ?thesis using Inr by (simp add: sendable_events_def)
  next
    case (Inl e)
    then have inv: "is_invalid build x" by (simp add: is_invalid_def)
    obtain st1 outcome rec where h: "handle_failure env st x (Event_invalid e) = Inr (st1, outcome, rec)"
      using handle_total [OF assms(1)] Cons.prems by (metis list.set_intros(1))
    obtain st' trace where "build_messages env build st1 xs = ((st', trace, None), sendable_events build xs)"
      "map fst trace = filter (is_invalid build) xs" "list_all (fits_invalid build) trace"
      using Cons.IH [of st1] Cons.prems by auto
    moreover have "fits_invalid build (x, Failure_handled (Event_invalid e) outcome rec)"
      using Inl by (simp add: fits_invalid_def)
    ultimately show ?thesis using Inl inv h
      by (simp add: sendable_events_def record_then_def)
  qed
qed

lemma record_results_result:
  assumes "valid_jitter env" "\<forall>x \<in> set (map fst results). 1 \<le> le_attempt_count x"
  shows "\<exists>st' trace. record_results env st results = (st', trace, None)
    \<and> map fst trace = map fst results \<and> list_all2 fits_result (map snd results) (map snd trace)"
  using assms(2)
proof (induction results arbitrary: st)
  case (Cons p rs)
  obtain x res where p: "p = (x, res)" by fastforce
  show ?case
  proof (cases res)
    case (Accepted i)
    obtain st1 updated where
      t: "transact env st (\<lambda>t now n. mark_published t now (env_event_id (envelope x)) (le_token x)) = (st1, updated)"
      by fastforce
    obtain st' trace where "record_results env st1 rs = (st', trace, None)" "map fst trace = map fst rs"
      "list_all2 fits_result (map snd rs) (map snd trace)"
      using Cons.IH [of st1] Cons.prems by auto
    then show ?thesis using p Accepted t by (simp add: record_then_def)
  next
    case (Failed_to_send e)
    obtain st1 outcome rec where h: "handle_failure env st x (Send_error e) = Inr (st1, outcome, rec)"
      using handle_total [OF assms(1)] Cons.prems p by (metis fst_conv list.set_intros(1) list.simps(9))
    obtain st' trace where "record_results env st1 rs = (st', trace, None)" "map fst trace = map fst rs"
      "list_all2 fits_result (map snd rs) (map snd trace)"
      using Cons.IH [of st1] Cons.prems by auto
    then show ?thesis using p Failed_to_send h by (simp add: record_then_def)
  qed
qed simp

text \<open>The results that a sender, open or not, gives for the events.\<close>

definition results_of ::
    "send_error + batch_sender \<Rightarrow> (leased_event \<times> event_message) list \<Rightarrow> py_exc + (leased_event \<times> send_result) list" where
  "results_of sender items =
     (if items = [] then Inr []
      else case sender of
        Inl error \<Rightarrow> Inr (map (\<lambda>(x, m). (x, Failed_to_send error)) items)
      | Inr send \<Rightarrow> send items)"

lemma send_and_record_alt:
  "send_and_record env sender st items =
     (case results_of sender items of
        Inl e \<Rightarrow> (st, [], Some e)
      | Inr results \<Rightarrow> record_results env st results)"
  by (simp add: send_and_record_def results_of_def split: sum.splits)

definition aligned_sender :: "send_error + batch_sender \<Rightarrow> bool" where
  "aligned_sender sender \<longleftrightarrow> (case sender of Inl _ \<Rightarrow> True | Inr send \<Rightarrow> message_sender send)"

lemma results_of_aligned:
  "aligned_sender sender \<Longrightarrow> results_of sender items = Inr results \<Longrightarrow> map fst results = map fst items"
  by (auto simp: aligned_sender_def results_of_def comp_def case_prod_beta
      split: if_splits sum.splits dest: message_sender.aligned)

lemma mset_filter_split: "mset (filter P xs) + mset (filter (\<lambda>x. \<not> P x) xs) = mset xs"
  by (induction xs) auto

lemma deliver_result:
  assumes "valid_jitter env" "\<forall>x \<in> set xs. 1 \<le> le_attempt_count x" "aligned_sender sender"
  shows "\<exists>st' trace e invalid sent. deliver env build sender st xs = (st', trace, e) \<and> trace = invalid @ sent
    \<and> map fst invalid = filter (is_invalid build) xs \<and> list_all (fits_invalid build) invalid
    \<and> (case results_of sender (sendable_events build xs) of
         Inl exc \<Rightarrow> e = Some exc \<and> sent = []
       | Inr results \<Rightarrow> e = None \<and> map fst sent = filter (\<lambda>x. \<not> is_invalid build x) xs
           \<and> map fst sent = map fst results \<and> list_all2 fits_result (map snd results) (map snd sent))"
proof -
  obtain st1 invalid where b: "build_messages env build st xs = ((st1, invalid, None), sendable_events build xs)"
    "map fst invalid = filter (is_invalid build) xs" "list_all (fits_invalid build) invalid"
    using build_messages_result [OF assms(1,2)] by blast
  show ?thesis
  proof (cases "results_of sender (sendable_events build xs)")
    case (Inl exc)
    then show ?thesis using b by (auto simp: deliver_def send_and_record_alt)
  next
    case (Inr results)
    have r: "map fst results = filter (\<lambda>x. \<not> is_invalid build x) xs"
      using results_of_aligned [OF assms(3) Inr] by (simp add: map_fst_sendable)
    have "set (map fst results) \<subseteq> set xs" unfolding r by auto
    then have "\<forall>x \<in> set (map fst results). 1 \<le> le_attempt_count x" using assms(2) by blast
    then obtain st' sent where "record_results env st1 results = (st', sent, None)"
      "map fst sent = map fst results" "list_all2 fits_result (map snd results) (map snd sent)"
      using record_results_result [OF assms(1)] by blast
    then show ?thesis using b r Inr by (auto simp: deliver_def send_and_record_alt)
  qed
qed

section \<open>The run accounts for every lease\<close>

text \<open>What the argument needs of the table, and of the other transactions.\<close>

definition attempts_ok :: "outbox_table \<Rightarrow> bool" where
  "attempts_ok t \<longleftrightarrow> distinct (map fst t) \<and> (\<forall>i r. map_of t i = Some r \<longrightarrow> 0 \<le> attempt_count r)"

definition others_ok :: "relay_env \<Rightarrow> bool" where
  "others_ok env \<longleftrightarrow> (\<forall>n t. attempts_ok t \<longrightarrow> attempts_ok (others env n t))"

lemma stop_exhausted_ok:
  assumes "attempts_ok t" "others_ok env" "stop_exhausted env etype (t, n) = ((t', n'), stopped)"
  shows "attempts_ok t' \<and> n' = Suc n"
proof -
  have "attempts_ok (others env n t)" using assms(1,2) by (simp add: others_ok_def)
  then show ?thesis
    using assms(3)
    by (auto simp: stop_exhausted_def transact_def stop_deliveries_at_attempt_limit_def Let_def attempts_ok_def
        map_of_update_rows stop_row_def split: if_splits option.splits)
qed

lemma lease_batch_ok:
  assumes "attempts_ok t" "others_ok env" "lease_batch env etype d (t, n) = (st', leased)"
  shows "\<forall>x \<in> set leased. 1 \<le> le_attempt_count x"
    and "distinct (map (env_event_id \<circ> envelope) leased)" and "length leased \<le> 10"
proof -
  let ?t = "others env n t"
  have ok: "attempts_ok ?t" using assms(1,2) by (simp add: others_ok_def)
  then have d: "distinct (map fst ?t)" by (simp add: attempts_ok_def)
  obtain t' where l: "lease_events_to_publish ?t (clock env n) (new_token env n) (locked_rows env n) etype 10 d
      = (t', leased)"
    using assms(3) by (auto simp: lease_batch_def transact_def split: prod.splits)
  show "\<forall>x \<in> set leased. 1 \<le> le_attempt_count x"
    using leased_event_rows [OF l d] ok unfolding attempts_ok_def by fastforce
  show "distinct (map (env_event_id \<circ> envelope) leased)" by (rule lease_result(2) [OF l d])
  show "length leased \<le> 10" using lease_result(3) [OF l d] by simp
qed

lemma run_once_deliver:
  "run_once env route build sender st =
     (case lease_batch env (route_event_type route) (seconds 150) (fst (stop_exhausted env (route_event_type route) st)) of
        (st2, leased) \<Rightarrow> if leased = [] then (st2, [], None) else deliver env build sender st2 leased)"
  by (simp add: run_once_def make_lease_duration_def seconds_def split: prod.splits)

lemma deliver_Nil: "deliver env build sender st [] = (st, [], None)"
  by (simp add: deliver_def send_and_record_def)

lemma run_once_result:
  assumes "valid_jitter env" "attempts_ok t" "others_ok env" "aligned_sender sender"
    and leased: "lease_batch env (route_event_type route) (seconds 150)
      (fst (stop_exhausted env (route_event_type route) (t, n))) = (st2, leased)"
  shows "\<exists>st' trace e invalid sent. run_once env route build sender (t, n) = (st', trace, e)
    \<and> trace = invalid @ sent
    \<and> map fst invalid = filter (is_invalid build) leased \<and> list_all (fits_invalid build) invalid
    \<and> (case results_of sender (sendable_events build leased) of
         Inl exc \<Rightarrow> e = Some exc \<and> sent = []
       | Inr results \<Rightarrow> e = None \<and> map fst sent = filter (\<lambda>x. \<not> is_invalid build x) leased
           \<and> map fst sent = map fst results \<and> list_all2 fits_result (map snd results) (map snd sent))"
proof -
  obtain t1 n1 stopped where s: "stop_exhausted env (route_event_type route) (t, n) = ((t1, n1), stopped)"
    by (metis prod.collapse)
  have ok: "attempts_ok t1" using stop_exhausted_ok [OF assms(2,3) s] by blast
  have lb: "lease_batch env (route_event_type route) (seconds 150) (t1, n1) = (st2, leased)"
    using leased s by simp
  have "run_once env route build sender (t, n) = deliver env build sender st2 leased"
    using lb s by (simp add: run_once_deliver deliver_Nil)
  then show ?thesis
    using deliver_result [OF assms(1) lease_batch_ok(1) [OF ok assms(3) lb] assms(4)] by simp
qed

lemma list_all2_records:
  assumes "list_all2 P (map snd results) (map snd sent)" "map fst sent = map fst results" "(x, rec) \<in> set sent"
  shows "\<exists>res. (x, res) \<in> set results \<and> P res rec"
proof -
  obtain i where i: "i < length sent" "sent ! i = (x, rec)" using assms(3) by (metis in_set_conv_nth)
  have len: "length results = length sent" using assms(2) by (metis length_map)
  have "fst (results ! i) = x" using assms(2) i len by (metis fst_conv nth_map)
  moreover have "P (snd (results ! i)) rec"
    using list_all2_nthD [OF assms(1), of i] i len by simp
  ultimately show ?thesis using i(1) len by (metis nth_mem prod.collapse)
qed

text \<open>
  C37. A relay run gives every event that it leased exactly one record: the failure of its message
  when the builder rejects it, else what the sender said of it, or the one failure of a
  sender that could not be opened. Only an exception of the sender ends the run early; then
  exactly the events that had a message stay without a record.
\<close>

theorem run_accounts_for_every_lease:
  assumes "valid_jitter env" "attempts_ok t" "others_ok env" "aligned_sender sender"
    and "lease_batch env (route_event_type route) (seconds 150)
      (fst (stop_exhausted env (route_event_type route) (t, n))) = (st2, leased)"
  shows "\<exists>st' trace e. run_once env route build sender (t, n) = (st', trace, e)
    \<and> (case results_of sender (sendable_events build leased) of
         Inl exc \<Rightarrow> e = Some exc \<and> map fst trace = filter (is_invalid build) leased
       | Inr results \<Rightarrow> e = None \<and> mset (map fst trace) = mset leased)
    \<and> (\<forall>(x, rec) \<in> set trace. fits_invalid build (x, rec)
         \<or> (\<exists>results res. results_of sender (sendable_events build leased) = Inr results
              \<and> (x, res) \<in> set results \<and> fits_result res rec))"
proof -
  obtain st' trace e invalid sent where r: "run_once env route build sender (t, n) = (st', trace, e)"
    "trace = invalid @ sent" "map fst invalid = filter (is_invalid build) leased"
    "list_all (fits_invalid build) invalid"
    and s: "case results_of sender (sendable_events build leased) of
         Inl exc \<Rightarrow> e = Some exc \<and> sent = []
       | Inr results \<Rightarrow> e = None \<and> map fst sent = filter (\<lambda>x. \<not> is_invalid build x) leased
           \<and> map fst sent = map fst results \<and> list_all2 fits_result (map snd results) (map snd sent)"
    using run_once_result [OF assms] by blast
  have inv: "\<forall>p \<in> set invalid. fits_invalid build p" using r(4) by (simp add: list_all_iff)
  show ?thesis
  proof (cases "results_of sender (sendable_events build leased)")
    case (Inl exc)
    then show ?thesis using r s inv by auto
  next
    case (Inr results)
    then have s': "e = None" "map fst sent = filter (\<lambda>x. \<not> is_invalid build x) leased"
      "map fst sent = map fst results" "list_all2 fits_result (map snd results) (map snd sent)"
      using s unfolding Inr sum.case by blast+
    have "mset (map fst trace) = mset leased"
      unfolding r(2) map_append mset_append r(3) s'(2) by (rule mset_filter_split)
    moreover have "\<exists>res. (x, res) \<in> set results \<and> fits_result res rec" if "(x, rec) \<in> set sent" for x rec
      using list_all2_records [OF s'(4,3) that] .
    ultimately show ?thesis using r(1,2) s'(1) inv Inr by (auto simp del: mset_map)
  qed
qed

section \<open>A run within its lease\<close>

text \<open>
  Other transactions leave a row alone while it is leased with a token of the run, and never
  change a decided row. The first is what the fencing of leases gives, the second that decisions
  are final.
\<close>

definition respects_leases :: "relay_env \<Rightarrow> uuid set \<Rightarrow> bool" where
  "respects_leases env tokens \<longleftrightarrow>
     (\<forall>n t i r. map_of t i = Some r \<longrightarrow>
        (\<not> undecided r \<or> (\<exists>k \<in> tokens. owns_lease (clock env n) k r)) \<longrightarrow>
        map_of (others env n t) i = Some r)"

definition event_id_of :: "leased_event \<Rightarrow> uuid" where
  "event_id_of x = env_event_id (envelope x)"

text \<open>The rows that still wait for their result.\<close>

definition pending :: "time \<Rightarrow> leased_event list \<Rightarrow> outbox_table \<Rightarrow> bool" where
  "pending until xs t \<longleftrightarrow>
     (\<forall>x \<in> set xs. \<exists>r. map_of t (event_id_of x) = Some r \<and> lease_token r = Some (le_token x)
        \<and> leased_until r = Some until \<and> undecided r)"

definition keeps_decided :: "outbox_table \<Rightarrow> outbox_table \<Rightarrow> bool" where
  "keeps_decided t t' \<longleftrightarrow> (\<forall>i r. map_of t i = Some r \<and> \<not> undecided r \<longrightarrow> map_of t' i = Some r)"

text \<open>What the table says of an event with a given record at the end of the run.\<close>

fun settled :: "outbox_table \<Rightarrow> leased_event \<times> relay_record \<Rightarrow> bool" where
  "settled t (x, Marked_published updated) =
     (updated \<and> (\<exists>r. map_of t (event_id_of x) = Some r \<and> published_at r \<noteq> None))"
| "settled t (x, Failure_handled e (Delivery_stopped reason) rec) =
     (rec = Some (record_publish_failure (event_id_of x) (le_attempt_count x) e reason)
      \<and> (\<exists>r. map_of t (event_id_of x) = Some r \<and> delivery_stop_reason r = Some reason \<and> \<not> undecided r))"
| "settled t (x, Failure_handled e (Retry_scheduled delay) rec) = (rec = None \<and> 0 < delay)"
| "settled t (x, Failure_handled e Delivery_update_skipped rec) = False"

lemma keeps_decided_refl: "keeps_decided t t"
  by (simp add: keeps_decided_def)

lemma keeps_decided_trans: "keeps_decided t u \<Longrightarrow> keeps_decided u v \<Longrightarrow> keeps_decided t v"
  by (simp add: keeps_decided_def)

lemma settled_keeps: "settled t p \<Longrightarrow> keeps_decided t t' \<Longrightarrow> settled t' p"
  by (induction t p rule: settled.induct) (fastforce simp: keeps_decided_def undecided_def)+

lemma transact_update:
  assumes "respects_leases env tokens" "pending until (x # ys) t" "le_token ` set (x # ys) \<subseteq> tokens"
    and "event_id_of x \<notin> event_id_of ` set ys" "clock env n < until"
    and f: "\<And>now r. undecided r \<Longrightarrow> P (f now r)"
  shows "\<exists>t'. transact env (t, n) (\<lambda>t now m. delivery_update t now (event_id_of x) (le_token x) (f now))
        = ((t', Suc n), True)
    \<and> pending until ys t' \<and> keeps_decided t t'
    \<and> (\<exists>r. map_of t' (event_id_of x) = Some r \<and> P r)"
proof -
  let ?t = "others env n t"
  have row: "\<exists>r. map_of ?t (event_id_of y) = Some r \<and> lease_token r = Some (le_token y)
        \<and> leased_until r = Some until \<and> undecided r" if y: "y \<in> set (x # ys)" for y
  proof -
    obtain r where r: "map_of t (event_id_of y) = Some r" "lease_token r = Some (le_token y)"
        "leased_until r = Some until" "undecided r"
      using assms(2) y by (auto simp: pending_def)
    have "owns_lease (clock env n) (le_token y) r" using r assms(5) by (simp add: owns_lease_def)
    moreover have "le_token y \<in> tokens" using assms(3) y by auto
    ultimately have "map_of ?t (event_id_of y) = Some r" using assms(1) r(1) unfolding respects_leases_def by blast
    then show ?thesis using r by blast
  qed
  obtain r where r: "map_of ?t (event_id_of x) = Some r" "lease_token r = Some (le_token x)"
        "leased_until r = Some until" "undecided r" using row by auto
  have own: "owns_lease (clock env n) (le_token x) r" using r assms(5) by (simp add: owns_lease_def)
  define t' where "t' = AList.update (event_id_of x) (f (clock env n) (r\<lparr>lease_token := None, leased_until := None\<rparr>)) ?t"
  have "transact env (t, n) (\<lambda>t now m. delivery_update t now (event_id_of x) (le_token x) (f now))
      = ((t', Suc n), True)"
    using r(1) own by (simp add: transact_def delivery_update_def t'_def)
  moreover have "pending until ys t'"
    using row assms(4) unfolding pending_def t'_def by (auto simp: image_iff)
  moreover have "keeps_decided t t'"
    using assms(1) r(1,4) unfolding keeps_decided_def respects_leases_def t'_def
    by (metis fun_upd_apply map_of_AList_update option.inject)
  moreover have "P (f (clock env n) (r\<lparr>lease_token := None, leased_until := None\<rparr>))"
    using r(4) by (intro f) (simp add: undecided_def)
  ultimately show ?thesis by (auto simp: t'_def)
qed

lemma handle_settles:
  assumes "respects_leases env tokens" "pending until (x # ys) t" "le_token ` set (x # ys) \<subseteq> tokens"
    and "event_id_of x \<notin> event_id_of ` set ys" "clock env n < until"
    and "valid_jitter env" "1 \<le> le_attempt_count x"
  shows "\<exists>t' outcome rec. handle_failure env (t, n) x error = Inr ((t', Suc n), outcome, rec)
    \<and> pending until ys t' \<and> keeps_decided t t' \<and> settled t' (x, Failure_handled error outcome rec)"
proof -
  obtain j where j: "jitter_at env n = Finite_float j" "0 \<le> j" "j \<le> 1"
    using assms(6) unfolding valid_jitter_def by blast
  note decide = decide_publish_retry_Inr [OF assms(7) j(2,3), of error]
  show ?thesis
  proof (cases "resolvable_failure error \<and> le_attempt_count x < 5")
    case True
    have pos: "0 < retry_delay (le_attempt_count x) j"
      using retry_delay_index_bounds(3) [OF assms(7) j(2,3)] True by simp
    obtain t' where t': "transact env (t, n) (\<lambda>t now m. schedule_retry t now (event_id_of x) (le_token x)
          (retry_delay (le_attempt_count x) j)) = ((t', Suc n), True)" "pending until ys t'" "keeps_decided t t'"
      using transact_update [OF assms(1-5), where P = "\<lambda>_. True"
          and f = "\<lambda>now r. r\<lparr>next_attempt_at := now + retry_delay (le_attempt_count x) j\<rparr>"]
      unfolding schedule_retry_def by blast
    then show ?thesis using True decide j(1) pos by (simp add: handle_failure_def Let_def event_id_of_def)
  next
    case False
    then obtain reason where reason: "decide_publish_retry error (le_attempt_count x) (Finite_float j) = Inr (Non_retryable reason)"
      using decide by (simp split: if_splits)
    obtain t' where t': "transact env (t, n) (\<lambda>t now m. stop_delivery t now (event_id_of x) (le_token x) reason)
         = ((t', Suc n), True)" "pending until ys t'" "keeps_decided t t'"
      "\<exists>r. map_of t' (event_id_of x) = Some r \<and> delivery_stop_reason r = Some reason \<and> \<not> undecided r"
      using transact_update [OF assms(1-5), where f = "\<lambda>now. stop_row now reason"
          and P = "\<lambda>r. delivery_stop_reason r = Some reason \<and> \<not> undecided r"]
      unfolding stop_delivery_def by (auto simp: stop_row_def undecided_def)
    then show ?thesis using reason j(1) by (simp add: handle_failure_def Let_def event_id_of_def)
  qed
qed

lemma record_results_settles:
  assumes "respects_leases env tokens" "valid_jitter env"
    and "\<forall>m. n \<le> m \<and> m < n + length results \<longrightarrow> clock env m < until"
    and "pending until (map fst results) t" "le_token ` set (map fst results) \<subseteq> tokens"
    and "distinct (map (event_id_of \<circ> fst) results)" "\<forall>x \<in> set (map fst results). 1 \<le> le_attempt_count x"
  shows "\<exists>t' trace. record_results env (t, n) results = ((t', n + length results), trace, None)
    \<and> keeps_decided t t' \<and> list_all (settled t') trace"
  using assms(3-7)
proof (induction results arbitrary: t n)
  case Nil
  then show ?case by (simp add: keeps_decided_refl)
next
  case (Cons p rs)
  obtain x res where p: "p = (x, res)" by fastforce
  have pend: "pending until (x # map fst rs) t" "le_token ` set (x # map fst rs) \<subseteq> tokens"
    "event_id_of x \<notin> event_id_of ` set (map fst rs)" "1 \<le> le_attempt_count x"
    using Cons.prems p by (auto simp: comp_def)
  have now: "clock env n < until" using Cons.prems(1) by simp
  have rest: "\<exists>t' trace. record_results env (u, Suc n) rs = ((t', Suc n + length rs), trace, None)
      \<and> keeps_decided u t' \<and> list_all (settled t') trace" if "pending until (map fst rs) u" for u
    using Cons.IH [of "Suc n" u] that Cons.prems by auto
  show ?case
  proof (cases res)
    case (Accepted i)
    obtain u where u: "transact env (t, n) (\<lambda>t now m. mark_published t now (event_id_of x) (le_token x))
        = ((u, Suc n), True)" "pending until (map fst rs) u" "keeps_decided t u"
      "\<exists>r. map_of u (event_id_of x) = Some r \<and> published_at r \<noteq> None"
      using transact_update [OF assms(1) pend(1-3) now, where f = "\<lambda>now r. r\<lparr>published_at := Some now\<rparr>"
          and P = "\<lambda>r. published_at r \<noteq> None"]
      unfolding mark_published_def by auto
    obtain t' trace where r: "record_results env (u, Suc n) rs = ((t', Suc n + length rs), trace, None)"
      "keeps_decided u t'" "list_all (settled t') trace" using rest [OF u(2)] by blast
    have "settled u (x, Marked_published True)" using u(4) by simp
    then have "settled t' (x, Marked_published True)" using r(2) by (rule settled_keeps)
    moreover have "record_results env (t, n) (p # rs)
        = ((t', n + length (p # rs)), (x, Marked_published True) # trace, None)"
      using u(1) r(1) by (simp add: p Accepted record_then_def event_id_of_def)
    ultimately show ?thesis using r(3) keeps_decided_trans [OF u(3) r(2)] by auto
  next
    case (Failed_to_send e)
    obtain u outcome rec where u: "handle_failure env (t, n) x (Send_error e) = Inr ((u, Suc n), outcome, rec)"
      "pending until (map fst rs) u" "keeps_decided t u" "settled u (x, Failure_handled (Send_error e) outcome rec)"
      using handle_settles [OF assms(1) pend(1-3) now assms(2) pend(4)] by blast
    obtain t' trace where r: "record_results env (u, Suc n) rs = ((t', Suc n + length rs), trace, None)"
      "keeps_decided u t'" "list_all (settled t') trace" using rest [OF u(2)] by blast
    have "settled t' (x, Failure_handled (Send_error e) outcome rec)" using u(4) r(2) by (rule settled_keeps)
    moreover have "record_results env (t, n) (p # rs)
        = ((t', n + length (p # rs)), (x, Failure_handled (Send_error e) outcome rec) # trace, None)"
      using u(1) r(1) by (simp add: p Failed_to_send record_then_def)
    ultimately show ?thesis using r(3) keeps_decided_trans [OF u(3) r(2)] by auto
  qed
qed

lemma build_messages_settles:
  assumes "respects_leases env tokens" "valid_jitter env"
    and "\<forall>m. n \<le> m \<and> m < n + length xs \<longrightarrow> clock env m < until"
    and "pending until (zs @ xs) t" "le_token ` set (zs @ xs) \<subseteq> tokens"
    and "distinct (map event_id_of (zs @ xs))" "\<forall>x \<in> set xs. 1 \<le> le_attempt_count x"
  shows "\<exists>t' trace. build_messages env build (t, n) xs
      = (((t', n + length (filter (is_invalid build) xs)), trace, None), sendable_events build xs)
    \<and> keeps_decided t t' \<and> list_all (settled t') trace
    \<and> pending until (zs @ filter (\<lambda>x. \<not> is_invalid build x) xs) t'"
  using assms(3-7)
proof (induction xs arbitrary: t n zs)
  case Nil
  then show ?case by (simp add: keeps_decided_refl sendable_events_def)
next
  case (Cons x xs)
  show ?case
  proof (cases "build (envelope x)")
    case (Inr m)
    then have valid: "\<not> is_invalid build x" by (simp add: is_invalid_def)
    obtain t' trace where "build_messages env build (t, n) xs
        = (((t', n + length (filter (is_invalid build) xs)), trace, None), sendable_events build xs)"
      "keeps_decided t t'" "list_all (settled t') trace"
      "pending until ((zs @ [x]) @ filter (\<lambda>x. \<not> is_invalid build x) xs) t'"
      using Cons.IH [of n "zs @ [x]" t] Cons.prems by auto
    then show ?thesis using Inr valid by (simp add: sendable_events_def)
  next
    case (Inl e)
    then have invalid: "is_invalid build x" by (simp add: is_invalid_def)
    have pend: "pending until (x # (zs @ xs)) t" "le_token ` set (x # (zs @ xs)) \<subseteq> tokens"
      "event_id_of x \<notin> event_id_of ` set (zs @ xs)" "1 \<le> le_attempt_count x" "clock env n < until"
      using Cons.prems by (auto simp: pending_def)
    obtain u outcome rec where u: "handle_failure env (t, n) x (Event_invalid e) = Inr ((u, Suc n), outcome, rec)"
      "pending until (zs @ xs) u" "keeps_decided t u" "settled u (x, Failure_handled (Event_invalid e) outcome rec)"
      using handle_settles [OF assms(1) pend(1-3,5) assms(2) pend(4)] by blast
    obtain t' trace where r: "build_messages env build (u, Suc n) xs
        = (((t', Suc n + length (filter (is_invalid build) xs)), trace, None), sendable_events build xs)"
      "keeps_decided u t'" "list_all (settled t') trace"
      "pending until (zs @ filter (\<lambda>x. \<not> is_invalid build x) xs) t'"
      using Cons.IH [of "Suc n" zs u] Cons.prems u(2) by auto
    have "settled t' (x, Failure_handled (Event_invalid e) outcome rec)" using u(4) r(2) by (rule settled_keeps)
    then show ?thesis using Inl invalid u(1) r keeps_decided_trans [OF u(3) r(2)]
      by (simp add: sendable_events_def record_then_def)
  qed
qed

text \<open>The rows right after the lease.\<close>

lemma lease_batch_pending:
  assumes "attempts_ok t" "others_ok env" "lease_batch env etype d (t, n) = ((t', n'), leased)"
  shows "pending (clock env n + d) leased t'" and "distinct (map event_id_of leased)" and "n' = Suc n"
proof -
  let ?t = "others env n t"
  have "attempts_ok ?t" using assms(1,2) by (simp add: others_ok_def)
  then have d: "distinct (map fst ?t)" by (simp add: attempts_ok_def)
  have l: "lease_events_to_publish ?t (clock env n) (new_token env n) (locked_rows env n) etype 10 d
      = (t', leased)" and n': "n' = Suc n"
    using assms(3) by (auto simp: lease_batch_def transact_def split: prod.splits)
  show "n' = Suc n" by (rule n')
  show "pending (clock env n + d) leased t'"
    using leased_event_rows [OF l d] by (fastforce simp: pending_def event_id_of_def due_for_delivery_def undecided_def)
  show "distinct (map event_id_of leased)"
    using lease_result(2) [OF l d] unfolding comp_def event_id_of_def [abs_def] .
qed

text \<open>
  C38. A run whose transactions all happen before its lease of 150 s runs out settles every event
  it leased, as long as other transactions leave leased and decided rows alone: no record is of
  a skipped update, an event marked as published is published and an event recorded as stopped is
  stopped with that reason and exactly one report of it, in the table that the run leaves.
\<close>

theorem timely_run_settles_its_events:
  assumes "valid_jitter env" "attempts_ok t" "others_ok env" "aligned_sender sender"
    and "stop_exhausted env (route_event_type route) (t, n) = ((t1, n1), stopped)"
    and "lease_batch env (route_event_type route) (seconds 150) (t1, n1) = ((t2, n2), leased)"
    and "respects_leases env (le_token ` set leased)"
    and "\<forall>m. n2 \<le> m \<and> m < n2 + length leased \<longrightarrow> clock env m < clock env n1 + seconds 150"
    and "run_once env route build sender (t, n) = ((t', n'), trace, e)"
  shows "list_all (settled t') trace"
proof -
  let ?until = "clock env n1 + seconds 150" and ?valid = "filter (\<lambda>x. \<not> is_invalid build x) leased"
  have ok: "attempts_ok t1" using stop_exhausted_ok [OF assms(2,3,5)] by blast
  note lease = lease_batch_pending [OF ok assms(3,6)] lease_batch_ok(1) [OF ok assms(3,6)]
  obtain u built where b: "build_messages env build (t2, n2) leased
      = (((u, n2 + length (filter (is_invalid build) leased)), built, None), sendable_events build leased)"
    "list_all (settled u) built" "pending ?until ?valid u"
    using build_messages_settles [OF assms(7,1,8), of "[]" t2 build] lease by auto
  define n3 where "n3 = n2 + length (filter (is_invalid build) leased)"
  have run: "((t', n'), trace, e) = (case send_and_record env sender (u, n3) (sendable_events build leased) of
      (st, sent, e) \<Rightarrow> (st, built @ sent, e))"
  proof -
    have "run_once env route build sender (t, n) = deliver env build sender (t2, n2) leased"
      using assms(5,6) by (simp add: run_once_deliver deliver_Nil)
    then show ?thesis using assms(9) b(1) by (simp add: deliver_def n3_def)
  qed
  show ?thesis
  proof (cases "results_of sender (sendable_events build leased)")
    case (Inl exc)
    then show ?thesis using run b(2) by (simp add: send_and_record_alt)
  next
    case (Inr results)
    have r: "map fst results = ?valid"
      using results_of_aligned [OF assms(4) Inr] by (simp add: map_fst_sendable)
    then have len: "length results + length (filter (is_invalid build) leased) = length leased"
      using sum_length_filter_compl [of "is_invalid build" leased] by (metis add.commute length_map)
    have sub: "set (map fst results) \<subseteq> set leased" unfolding r by auto
    have c: "\<forall>m. n3 \<le> m \<and> m < n3 + length results \<longrightarrow> clock env m < ?until"
      using assms(8) len by (auto simp: n3_def)
    have dist: "distinct (map (event_id_of \<circ> fst) results)"
      using distinct_map_filter [OF lease(2)] r by (metis map_map)
    obtain v sent where v: "record_results env (u, n3) results = ((v, n3 + length results), sent, None)"
      "keeps_decided u v" "list_all (settled v) sent"
      using record_results_settles [OF assms(7,1) c _ _ dist, of u] b(3) r sub lease(4) by auto
    have "list_all (settled v) built" using b(2) v(2) settled_keeps by (auto simp: list_all_iff)
    then show ?thesis using run v Inr by (simp add: send_and_record_alt)
  qed
qed

section \<open>The relay on SQS\<close>

definition sqs_sender ::
    "(nat list \<Rightarrow> pystr) \<Rightarrow> (uuid \<Rightarrow> pystr) \<Rightarrow> delivery_route
       \<Rightarrow> sdk_exception + ((pystr \<times> pystr) list \<Rightarrow> sdk_exception + py_value) \<Rightarrow> send_error + batch_sender" where
  "sqs_sender md5hex entry_id route client_factory =
     map_sum id (send_batch md5hex entry_id) (open_sender (route_queue_url route) client_factory)"

lemma sqs_sender_aligned: "aligned_sender (sqs_sender md5hex entry_id route factory)"
  by (cases "open_sender (route_queue_url route) factory")
    (simp_all add: aligned_sender_def sqs_sender_def sqs.message_sender_axioms)

definition bodies_of :: "(leased_event \<times> event_message) list \<Rightarrow> (uuid \<times> pystr) list" where
  "bodies_of items = map (\<lambda>(x, m). (message_event_id m, message_body m)) items"

lemma sqs_results_Inl:
  assumes "inj entry_id" "length items \<le> 10" "distinct (map (message_event_id \<circ> snd) items)"
  shows "(\<exists>e. results_of (sqs_sender md5hex entry_id route factory) items = Inl e) \<longleftrightarrow>
      items \<noteq> [] \<and> isl (open_sender (route_queue_url route) factory) = False
      \<and> ((\<exists>(x, m) \<in> set items. utf8_encode (message_body m) = Inl ValueError)
         \<or> sendable_size md5hex entry_id (bodies_of items) > MAX_MESSAGE_BYTES)"
    and "results_of (sqs_sender md5hex entry_id route factory) items = Inl e \<Longrightarrow> e = ValueError"
proof -
  show "(\<exists>e. results_of (sqs_sender md5hex entry_id route factory) items = Inl e) \<longleftrightarrow>
      items \<noteq> [] \<and> isl (open_sender (route_queue_url route) factory) = False
      \<and> ((\<exists>(x, m) \<in> set items. utf8_encode (message_body m) = Inl ValueError)
         \<or> sendable_size md5hex entry_id (bodies_of items) > MAX_MESSAGE_BYTES)"
  proof (cases "items = [] \<or> isl (open_sender (route_queue_url route) factory)")
    case True
    then show ?thesis by (auto simp: results_of_def sqs_sender_def isl_def)
  next
    case False
    then obtain client where c: "open_sender (route_queue_url route) factory = Inr client"
      by (cases "open_sender (route_queue_url route) factory") auto
    have len: "1 \<le> length items" using False by (cases items) auto
    show ?thesis
      using False len assms(2,3) c send_batch_cases [OF assms(1), where md5hex = md5hex and client = client and items = items]
      by (cases "send_batch md5hex entry_id client items")
        (auto simp: results_of_def sqs_sender_def bodies_of_def)
  qed
  assume "results_of (sqs_sender md5hex entry_id route factory) items = Inl e"
  then obtain client where "send_batch md5hex entry_id client items = Inl e"
    by (cases "open_sender (route_queue_url route) factory")
      (auto simp: results_of_def sqs_sender_def split: if_splits)
  then show "e = ValueError" using send_batch_cases [OF assms(1), where md5hex = md5hex and client = client and items = items] by simp
qed

text \<open>
  C39. With SQS as the sender and builders that keep the id of the event, a run ends with an
  exception exactly when the client was opened and the bodies to send include one that is no
  valid text or together exceed the limit of a batch. The exception is then a
  \<^verbatim>\<open>ValueError\<close>, and every event that had a message stays leased without a
  record: no outcome of the attempt is written for any of them.
\<close>

theorem sqs_run_fails_exactly_on_unsendable_batches:
  assumes "inj entry_id" "valid_jitter env" "attempts_ok t" "others_ok env"
    and "\<forall>v m. build v = Inr m \<longrightarrow> message_event_id m = env_event_id v"
    and "stop_exhausted env (route_event_type route) (t, n) = ((t1, n1), stopped)"
    and "lease_batch env (route_event_type route) (seconds 150) (t1, n1) = ((t2, n2), leased)"
    and "run_once env route build (sqs_sender md5hex entry_id route factory) (t, n) = (st', trace, e)"
  shows "(e \<noteq> None \<longleftrightarrow>
      sendable_events build leased \<noteq> [] \<and> \<not> isl (open_sender (route_queue_url route) factory)
      \<and> ((\<exists>(x, m) \<in> set (sendable_events build leased). utf8_encode (message_body m) = Inl ValueError)
         \<or> sendable_size md5hex entry_id (bodies_of (sendable_events build leased)) > MAX_MESSAGE_BYTES))
    \<and> (e \<noteq> None \<longrightarrow> e = Some ValueError \<and> map fst trace = filter (is_invalid build) leased)"
proof -
  let ?items = "sendable_events build leased" and ?sender = "sqs_sender md5hex entry_id route factory"
  have ok: "attempts_ok t1" using stop_exhausted_ok [OF assms(3,4,6)] by blast
  note lease = lease_batch_ok(2,3) [OF ok assms(4,7)]
  have "length ?items \<le> length leased" by (simp add: sendable_events_def)
  then have len: "length ?items \<le> 10" using lease(2) by simp
  have "map (message_event_id \<circ> snd) ?items
      = map (env_event_id \<circ> envelope) (filter (\<lambda>x. \<not> is_invalid build x) leased)"
    using assms(5) by (auto simp: sendable_events_def is_invalid_def split: sum.splits)
  then have dist: "distinct (map (message_event_id \<circ> snd) ?items)"
    using distinct_map_filter [OF lease(1)] by metis
  have "lease_batch env (route_event_type route) (seconds 150)
      (fst (stop_exhausted env (route_event_type route) (t, n))) = ((t2, n2), leased)"
    using assms(6,7) by simp
  from run_once_result [OF assms(2-4) sqs_sender_aligned this, of build md5hex entry_id route factory]
  have "case results_of ?sender ?items of
       Inl exc \<Rightarrow> e = Some exc \<and> map fst trace = filter (is_invalid build) leased
     | Inr results \<Rightarrow> e = None"
    unfolding assms(8) by (cases "results_of ?sender ?items") auto
  then show ?thesis
    using sqs_results_Inl [OF assms(1) len dist, of md5hex route factory]
    by (cases "results_of ?sender ?items") auto
qed

section \<open>An example run\<close>

definition example_env :: relay_env where
  "example_env = \<lparr>clock = \<lambda>_. 0, others = \<lambda>_ t. t, locked_rows = \<lambda>_. {}, new_token = \<lambda>_ _. 3,
     jitter_at = \<lambda>_. Finite_float 0\<rparr>"

definition example_route :: delivery_route where
  "example_route = \<lparr>route_event_type = [97], route_queue_url = [113]\<rparr>"

definition example_build :: "event_envelope \<Rightarrow> event_invalid + event_message" where
  "example_build v = Inr \<lparr>message_event_id = env_event_id v, message_body = [98]\<rparr>"

definition example_send :: "send_error + batch_sender" where
  "example_send = Inr (\<lambda>items. Inr (map (\<lambda>(x, m). (x, Accepted [120])) items))"

lemma example_env_ok:
  "valid_jitter example_env" "others_ok example_env" "respects_leases example_env tokens"
  "attempts_ok [(7, example_event)]" "aligned_sender example_send"
  by (auto simp: example_env_def valid_jitter_def others_ok_def respects_leases_def attempts_ok_def
      example_event_def aligned_sender_def example_send_def message_sender_def comp_def case_prod_beta)

lemma example_stop:
  "stop_exhausted example_env (route_event_type example_route) ([(7, example_event)], 0)
     = (([(7, example_event)], 1), [])"
  by (simp add: stop_exhausted_def transact_def example_env_def example_route_def example_event_def
      stop_deliveries_at_attempt_limit_def Let_def oldest_where_def exhausted_def MAX_PUBLISH_ATTEMPTS_def
      update_rows_def)

lemma example_lease_batch:
  "lease_batch example_env (route_event_type example_route) (seconds 150) ([(7, example_event)], 1)
     = (([(7, example_leased)], 2), [example_lease])"
  using example_lease_step
  by (simp add: lease_batch_def transact_def example_env_def example_route_def)

lemma run_accounts_for_every_lease_witness:
  "\<exists>st' trace. run_once example_env example_route example_build example_send ([(7, example_event)], 0)
      = (st', trace, None) \<and> mset (map fst trace) = {#example_lease#}"
proof -
  have "results_of example_send (sendable_events example_build [example_lease])
      = Inr [(example_lease, Accepted [120])]"
    by (simp add: results_of_def example_send_def sendable_events_def is_invalid_def example_build_def)
  then show ?thesis
    using run_accounts_for_every_lease [OF example_env_ok(1,4,2,5), of example_route 0 "([(7, example_leased)], 2)"
        "[example_lease]" example_build] example_stop example_lease_batch by auto
qed

lemma timely_run_settles_its_events_witness:
  "\<exists>t' n' trace e. run_once example_env example_route example_build example_send ([(7, example_event)], 0)
      = ((t', n'), trace, e) \<and> list_all (settled t') trace"
proof -
  obtain t' n' trace e where r: "run_once example_env example_route example_build example_send ([(7, example_event)], 0)
      = ((t', n'), trace, e)" by (metis prod.collapse)
  have clock: "\<forall>m. 2 \<le> m \<and> m < 2 + length [example_lease] \<longrightarrow> clock example_env m < clock example_env 1 + seconds 150"
    by (simp add: example_env_def seconds_def)
  show ?thesis
    using timely_run_settles_its_events [OF example_env_ok(1,4,2,5) example_stop example_lease_batch
        example_env_ok(3) clock r] r by blast
qed

lemma sqs_run_fails_exactly_on_unsendable_batches_witness:
  "\<exists>st' trace. run_once example_env example_route (\<lambda>v. Inr \<lparr>message_event_id = env_event_id v, message_body = [55296]\<rparr>)
      (sqs_sender (\<lambda>_. []) (\<lambda>u. replicate u 97) example_route (Inr (\<lambda>_. Inr PyNone)))
      ([(7, example_event)], 0) = (st', trace, Some ValueError)"
proof -
  let ?build = "\<lambda>v. Inr \<lparr>message_event_id = env_event_id v, message_body = [55296]\<rparr>"
  let ?run = "run_once example_env example_route ?build
      (sqs_sender (\<lambda>_. []) (\<lambda>u. replicate u 97) example_route (Inr (\<lambda>_. Inr PyNone))) ([(7, example_event)], 0)"
  have inj: "inj (\<lambda>u :: uuid. replicate u (97 :: nat))" by (auto simp: inj_def dest: arg_cong [of _ _ length])
  have keeps: "\<forall>v m. ?build v = Inr m \<longrightarrow> message_event_id m = env_event_id v" by auto
  obtain st' trace e where r: "?run = (st', trace, e)" by (metis prod_cases3)
  have items: "sendable_events ?build [example_lease] = [(example_lease, \<lparr>message_event_id = 7, message_body = [55296]\<rparr>)]"
    by (simp add: sendable_events_def is_invalid_def example_lease_def leased_event_of_def)
  have opened: "open_sender (route_queue_url example_route) (Inr c) = Inr c"
    for c :: "(pystr \<times> pystr) list \<Rightarrow> sdk_exception + py_value"
    by (simp add: open_sender_def example_route_def strip_def lstrip_def rstrip_def is_space_def)
  have "e = Some ValueError"
    using sqs_run_fails_exactly_on_unsendable_batches [OF inj example_env_ok(1,4,2) keeps example_stop
        example_lease_batch r] items opened by simp
  then show ?thesis using r by blast
qed

end
