(* ===== verification/PyJson.thy ===== *)
theory PyJson
  imports PyText
begin

text \<open>
  The JSON text of the Python standard library as the live updates use it: compact
  \<^verbatim>\<open>json.dumps(..., ensure_ascii=False)\<close> and \<^verbatim>\<open>json.loads\<close>, on
  code points, with the round trip. A floating-point literal is kept as its text; the limits on
  recursion depth and on the digits of an integer are not modelled.
\<close>

section \<open>Values\<close>

datatype json =
    JNull
  | JBool bool
  | JInt int
  | JFloat pystr
  | JStr pystr
  | JArr "json list"
  | JObj "(pystr \<times> json) list"

abbreviation QUOTE :: nat where "QUOTE \<equiv> 34"
abbreviation BACKSLASH :: nat where "BACKSLASH \<equiv> 92"
abbreviation LOWER_U :: nat where "LOWER_U \<equiv> 117"
abbreviation JCOMMA :: nat where "JCOMMA \<equiv> 44"
abbreviation COLON :: nat where "COLON \<equiv> 58"

section \<open>Printing\<close>

definition hex_digit :: "nat \<Rightarrow> nat" where
  "hex_digit n = (if n < 10 then 48 + n else 87 + n)"

definition escape_char :: "nat \<Rightarrow> pystr" where
  "escape_char c =
     (if c = QUOTE then [BACKSLASH, QUOTE]
      else if c = BACKSLASH then [BACKSLASH, BACKSLASH]
      else if c = 10 then [BACKSLASH, 110]
      else if c = 13 then [BACKSLASH, 114]
      else if c = 9 then [BACKSLASH, 116]
      else if c = 12 then [BACKSLASH, 102]
      else if c = 8 then [BACKSLASH, 98]
      else if c < 32 then [BACKSLASH, LOWER_U, 48, 48, hex_digit (c div 16), hex_digit (c mod 16)]
      else [c])"

definition dump_string :: "pystr \<Rightarrow> pystr" where
  "dump_string s = QUOTE # concat (map escape_char s) @ [QUOTE]"

definition str_of_int :: "int \<Rightarrow> pystr" where
  "str_of_int i = (if i < 0 then 45 # str_of_nat (nat (- i)) else str_of_nat (nat i))"

fun with_commas :: "pystr list \<Rightarrow> pystr" where
  "with_commas [] = []"
| "with_commas [x] = x"
| "with_commas (x # y # xs) = x @ JCOMMA # with_commas (y # xs)"

fun json_dumps :: "json \<Rightarrow> pystr" where
  "json_dumps JNull = lit ''null''"
| "json_dumps (JBool b) = (if b then lit ''true'' else lit ''false'')"
| "json_dumps (JInt i) = str_of_int i"
| "json_dumps (JFloat t) = t"
| "json_dumps (JStr s) = dump_string s"
| "json_dumps (JArr xs) = 91 # with_commas (map json_dumps xs) @ [93]"
| "json_dumps (JObj ms) = 123 # with_commas (map (\<lambda>(k, v). dump_string k @ COLON # json_dumps v) ms) @ [125]"

section \<open>Parsing\<close>

definition is_json_space :: "nat \<Rightarrow> bool" where
  "is_json_space c \<longleftrightarrow> c = 32 \<or> c = 9 \<or> c = 10 \<or> c = 13"

definition skip_space :: "pystr \<Rightarrow> pystr" where
  "skip_space s = dropWhile is_json_space s"

definition hex_value :: "nat \<Rightarrow> nat option" where
  "hex_value c =
     (if is_ascii_digit c then Some (c - 48)
      else if 97 \<le> c \<and> c \<le> 102 then Some (c - 87)
      else if 65 \<le> c \<and> c \<le> 70 then Some (c - 55)
      else None)"

fun hex_number :: "nat \<Rightarrow> pystr \<Rightarrow> nat option" where
  "hex_number a [] = Some a"
| "hex_number a (c # cs) = (case hex_value c of None \<Rightarrow> None | Some d \<Rightarrow> hex_number (a * 16 + d) cs)"

definition simple_escape :: "nat \<Rightarrow> nat option" where
  "simple_escape c =
     (if c = QUOTE \<or> c = BACKSLASH \<or> c = 47 then Some c
      else if c = 98 then Some 8
      else if c = 102 then Some 12
      else if c = 110 then Some 10
      else if c = 114 then Some 13
      else if c = 116 then Some 9
      else None)"

text \<open>The characters of a string up to its closing quote; two escaped surrogates join.\<close>

fun parse_chars :: "pystr \<Rightarrow> (pystr \<times> pystr) option" where
  "parse_chars [] = None"
| "parse_chars (c # s) =
     (if c = QUOTE then Some ([], s)
      else if c = BACKSLASH then
        (case s of
           [] \<Rightarrow> None
         | e # t \<Rightarrow>
             if e = LOWER_U then
               (case t of
                  h1 # h2 # h3 # h4 # u \<Rightarrow>
                    (case hex_number 0 [h1, h2, h3, h4] of
                       None \<Rightarrow> None
                     | Some x \<Rightarrow>
                         (case u of
                            b # v # g1 # g2 # g3 # g4 # w \<Rightarrow>
                              if 55296 \<le> x \<and> x \<le> 56319 \<and> b = BACKSLASH \<and> v = LOWER_U then
                                (case hex_number 0 [g1, g2, g3, g4] of
                                   None \<Rightarrow> None
                                 | Some y \<Rightarrow>
                                     if 56320 \<le> y \<and> y \<le> 57343
                                     then map_option (apfst ((#) (65536 + (x - 55296) * 1024 + (y - 56320)))) (parse_chars w)
                                     else map_option (apfst ((#) x)) (parse_chars u))
                              else map_option (apfst ((#) x)) (parse_chars u)
                          | _ \<Rightarrow> map_option (apfst ((#) x)) (parse_chars u)))
                | _ \<Rightarrow> None)
             else
               (case simple_escape e of
                  None \<Rightarrow> None
                | Some d \<Rightarrow> map_option (apfst ((#) d)) (parse_chars t)))
      else if c < 32 then None
      else map_option (apfst ((#) c)) (parse_chars s))"

definition scan_fraction :: "pystr \<Rightarrow> pystr \<times> pystr" where
  "scan_fraction s =
     (case s of
        p # d # t \<Rightarrow>
          if p = 46 \<and> is_ascii_digit d
          then (p # takeWhile is_ascii_digit (d # t), dropWhile is_ascii_digit (d # t)) else ([], s)
      | _ \<Rightarrow> ([], s))"

definition scan_exponent :: "pystr \<Rightarrow> pystr \<times> pystr" where
  "scan_exponent s =
     (case s of
        [] \<Rightarrow> ([], s)
      | e # t \<Rightarrow>
          if e = 101 \<or> e = 69 then
            (let (sign, u) = (case t of
                 [] \<Rightarrow> ([], t)
               | c # u \<Rightarrow> if c = 43 \<or> c = 45 then ([c], u) else ([], t));
               digits = takeWhile is_ascii_digit u
             in if digits = [] then ([], s) else (e # sign @ digits, dropWhile is_ascii_digit u))
          else ([], s))"

definition parse_number :: "pystr \<Rightarrow> (json \<times> pystr) option" where
  "parse_number s =
     (let (negative, t) = (case s of [] \<Rightarrow> (False, s) | c # t \<Rightarrow> if c = 45 then (True, t) else (False, s))
      in case t of
           [] \<Rightarrow> None
         | c # u \<Rightarrow>
             if \<not> is_ascii_digit c then None
             else
               (let digits = (if c = 48 then [c] else takeWhile is_ascii_digit t);
                    rest = (if c = 48 then u else dropWhile is_ascii_digit t);
                    (fraction, v) = scan_fraction rest;
                    (exponent, w) = scan_exponent v;
                    n = int (value_of_digits digits)
                in if fraction = [] \<and> exponent = [] then Some (JInt (if negative then - n else n), w)
                   else Some (JFloat ((if negative then [45] else []) @ digits @ fraction @ exponent), w)))"

definition after_literal :: "string \<Rightarrow> pystr \<Rightarrow> pystr option" where
  "after_literal l s = (if take (length l) s = lit l then Some (drop (length l) s) else None)"

definition parse_scalar :: "pystr \<Rightarrow> (json \<times> pystr) option" where
  "parse_scalar s =
     (case after_literal ''null'' s of
        Some t \<Rightarrow> Some (JNull, t)
      | None \<Rightarrow>
          (case after_literal ''true'' s of
             Some t \<Rightarrow> Some (JBool True, t)
           | None \<Rightarrow>
               (case after_literal ''false'' s of
                  Some t \<Rightarrow> Some (JBool False, t)
                | None \<Rightarrow>
                    (case after_literal ''NaN'' s of
                       Some t \<Rightarrow> Some (JFloat (lit ''NaN''), t)
                     | None \<Rightarrow>
                         (case after_literal ''Infinity'' s of
                            Some t \<Rightarrow> Some (JFloat (lit ''Infinity''), t)
                          | None \<Rightarrow>
                              (case after_literal ''-Infinity'' s of
                                 Some t \<Rightarrow> Some (JFloat (lit ''-Infinity''), t)
                               | None \<Rightarrow> parse_number s))))))"

text \<open>A dict built from pairs in order: a later value replaces an earlier one in its place.\<close>

definition py_dict :: "(pystr \<times> json) list \<Rightarrow> (pystr \<times> json) list" where
  "py_dict ms = fold (\<lambda>(k, v) d. AList.update k v d) ms []"

text \<open>Every call consumes a character, so the length of the text plus one is enough fuel.\<close>

fun parse_value :: "nat \<Rightarrow> pystr \<Rightarrow> (json \<times> pystr) option"
  and parse_items :: "nat \<Rightarrow> pystr \<Rightarrow> (json list \<times> pystr) option"
  and parse_members :: "nat \<Rightarrow> pystr \<Rightarrow> ((pystr \<times> json) list \<times> pystr) option" where
  "parse_value 0 s = None"
| "parse_value (Suc n) [] = None"
| "parse_value (Suc n) (c # s) =
     (if c = QUOTE then map_option (apfst JStr) (parse_chars s)
      else if c = 123 then
        (case skip_space s of
           [] \<Rightarrow> None
         | d # t \<Rightarrow> if d = 125 then Some (JObj [], t)
                   else map_option (apfst (\<lambda>ms. JObj (py_dict ms))) (parse_members n (d # t)))
      else if c = 91 then
        (case skip_space s of
           [] \<Rightarrow> None
         | d # t \<Rightarrow> if d = 93 then Some (JArr [], t)
                   else map_option (apfst JArr) (parse_items n (d # t)))
      else parse_scalar (c # s))"
| "parse_items 0 s = None"
| "parse_items (Suc n) s =
     (case parse_value n s of
        None \<Rightarrow> None
      | Some (x, t) \<Rightarrow>
          (case skip_space t of
             [] \<Rightarrow> None
           | d # u \<Rightarrow>
               if d = 93 then Some ([x], u)
               else if d = JCOMMA then map_option (apfst ((#) x)) (parse_items n (skip_space u))
               else None))"
| "parse_members 0 s = None"
| "parse_members (Suc n) [] = None"
| "parse_members (Suc n) (q # s) =
     (if q \<noteq> QUOTE then None
      else case parse_chars s of
        None \<Rightarrow> None
      | Some (k, t) \<Rightarrow>
          (case skip_space t of
             [] \<Rightarrow> None
           | c # u \<Rightarrow>
               if c \<noteq> COLON then None
               else case parse_value n (skip_space u) of
                 None \<Rightarrow> None
               | Some (v, w) \<Rightarrow>
                   (case skip_space w of
                      [] \<Rightarrow> None
                    | d # x \<Rightarrow>
                        if d = 125 then Some ([(k, v)], x)
                        else if d = JCOMMA then map_option (apfst ((#) (k, v))) (parse_members n (skip_space x))
                        else None)))"

definition json_loads :: "pystr \<Rightarrow> json option" where
  "json_loads s =
     (if take 1 s = [65279] then None
      else case parse_value (length s + 1) (skip_space s) of
        None \<Rightarrow> None
      | Some (v, t) \<Rightarrow> if skip_space t = [] then Some v else None)"

section \<open>Round trip\<close>

text \<open>The values that the modelled code prints: no floats, objects with distinct keys.\<close>

fun printable_json :: "json \<Rightarrow> bool" where
  "printable_json (JFloat t) = False"
| "printable_json (JArr xs) = list_all printable_json xs"
| "printable_json (JObj ms) = (distinct (map fst ms) \<and> list_all (\<lambda>(k, v). printable_json v) ms)"
| "printable_json _ = True"

declare parse_chars.simps(2) [simp del]

lemma hex_value_digit: "n < 16 \<Longrightarrow> hex_value (hex_digit n) = Some n"
  by (auto simp: hex_value_def hex_digit_def is_ascii_digit_def)

lemma parse_escape:
  "parse_chars (escape_char c @ s) = map_option (apfst ((#) c)) (parse_chars s)"
proof (cases "c < 32 \<and> c \<notin> {8, 9, 10, 12, 13}")
  case True
  have x: "hex_number 0 [48, 48, hex_digit (c div 16), hex_digit (c mod 16)] = Some c"
  proof -
    have "hex_value (hex_digit (c div 16)) = Some (c div 16)" "hex_value (hex_digit (c mod 16)) = Some (c mod 16)"
      using True by (auto intro!: hex_value_digit)
    then show ?thesis by (simp add: hex_value_def [of 48] is_ascii_digit_def)
  qed
  have esc: "escape_char c = [BACKSLASH, LOWER_U, 48, 48, hex_digit (c div 16), hex_digit (c mod 16)]"
    using True by (auto simp: escape_char_def)
  have "\<not> 55296 \<le> c" using True by simp
  then show ?thesis
    unfolding esc by (subst append_Cons, subst parse_chars.simps) (simp add: x del: hex_number.simps split: list.split)
next
  case False
  then show ?thesis
    by (auto simp: escape_char_def simple_escape_def parse_chars.simps)
qed

lemma parse_dump_string:
  "parse_chars (concat (map escape_char k) @ QUOTE # s) = Some (k, s)"
  by (induction k) (simp_all add: parse_escape parse_chars.simps(2) [of QUOTE])

text \<open>What may follow a number without becoming a part of it.\<close>

definition number_ends :: "pystr \<Rightarrow> bool" where
  "number_ends s \<longleftrightarrow> (case s of [] \<Rightarrow> True | c # _ \<Rightarrow> \<not> is_ascii_digit c \<and> c \<notin> {46, 69, 101})"

lemma str_of_nat_leading_zero: "hd (str_of_nat n) = 48 \<longleftrightarrow> n = 0"
proof (induction n rule: str_of_nat.induct)
  case (1 n)
  then show ?case by (cases "n < 10") (auto simp: str_of_nat.simps [of n])
qed

lemma str_of_nat_0: "str_of_nat 0 = [48]"
  by (simp add: str_of_nat.simps [of 0])

lemma takeWhile_number:
  "list_all is_ascii_digit d \<Longrightarrow> number_ends s \<Longrightarrow>
   takeWhile is_ascii_digit (d @ s) = d \<and> dropWhile is_ascii_digit (d @ s) = s"
  by (cases s) (auto simp: number_ends_def list_all_iff)

lemma scan_nothing: "number_ends s \<Longrightarrow> scan_fraction s = ([], s) \<and> scan_exponent s = ([], s)"
  by (auto simp: number_ends_def scan_fraction_def scan_exponent_def split: list.splits)

lemma parse_number_int:
  assumes "number_ends s"
  shows "parse_number (str_of_int i @ s) = Some (JInt i, s)"
proof -
  have nat: "parse_number (str_of_nat n @ s) = Some (JInt (int n), s)
      \<and> parse_number (45 # str_of_nat n @ s) = Some (JInt (- int n), s)" for n
  proof -
    obtain d ds where d: "str_of_nat n = d # ds" by (cases "str_of_nat n") auto
    have dig: "is_ascii_digit d" "list_all is_ascii_digit (d # ds)"
      using str_of_nat_digits [of n] d by simp_all
    have "d \<noteq> 45" using dig(1) by (auto simp: is_ascii_digit_def)
    moreover have "int (value_of_digits (d # ds)) = int n" using value_of_str_of_nat [of n] d by simp
    moreover have "d = 48 \<Longrightarrow> ds = []"
      using str_of_nat_leading_zero [of n] d str_of_nat_0 by auto
    ultimately show ?thesis
      using takeWhile_number [OF dig(2) assms] scan_nothing [OF assms] dig(1)
      by (cases "d = 48") (auto simp: d parse_number_def Let_def)
  qed
  show ?thesis
    using nat [of "nat i"] nat [of "nat (- i)"] by (simp add: str_of_int_def)
qed

lemma after_literal_other:
  "s \<noteq> [] \<Longrightarrow> hd s \<noteq> of_char c \<Longrightarrow> after_literal (c # l) s = None"
  by (cases s) (auto simp: after_literal_def lit_def)

lemma parse_scalar_int:
  assumes "number_ends s"
  shows "parse_scalar (str_of_int i @ s) = Some (JInt i, s)"
proof -
  obtain c t where t: "str_of_int i @ s = c # t" "is_ascii_digit c \<or> c = 45 \<and> t \<noteq> [] \<and> is_ascii_digit (hd t)"
  proof (cases "str_of_int i @ s")
    case Nil
    then show ?thesis by (simp add: str_of_int_def split: if_splits)
  next
    case (Cons c t)
    have "is_ascii_digit (hd (str_of_nat n))" for n
      using str_of_nat_digits [of n] by (cases "str_of_nat n") auto
    then show ?thesis
      using that [OF Cons] Cons str_of_nat_not_Nil
      by (metis (no_types, lifting) append_Cons append_is_Nil_conv hd_append2 list.sel(1) list.sel(3) str_of_int_def)
  qed
  have "after_literal ''-Infinity'' (c # t) = None"
    using t(2) by (cases t) (auto simp: after_literal_def lit_def is_ascii_digit_def)
  moreover have "after_literal ''null'' (c # t) = None" "after_literal ''true'' (c # t) = None"
    "after_literal ''false'' (c # t) = None" "after_literal ''NaN'' (c # t) = None"
    "after_literal ''Infinity'' (c # t) = None"
    using t(2) by (auto simp: is_ascii_digit_def intro!: after_literal_other)
  ultimately show ?thesis using parse_number_int [OF assms, of i] by (simp add: parse_scalar_def t(1))
qed

lemma update_new_key: "k \<notin> fst ` set d \<Longrightarrow> AList.update k v d = d @ [(k, v)]"
  by (induction d) auto

lemma py_dict_distinct: "distinct (map fst ms) \<Longrightarrow> py_dict ms = ms"
proof -
  have "distinct (map fst (d @ ms)) \<Longrightarrow> fold (\<lambda>(k, v) d. AList.update k v d) ms d = d @ ms" for d
  proof (induction ms arbitrary: d)
    case (Cons m ms)
    obtain k v where m: "m = (k, v)" by fastforce
    then have "AList.update k v d = d @ [(k, v)]" using Cons.prems by (intro update_new_key) auto
    then show ?case using Cons.IH [of "d @ [(k, v)]"] Cons.prems m by simp
  qed simp
  from this [of "[]"] show "distinct (map fst ms) \<Longrightarrow> py_dict ms = ms" by (simp add: py_dict_def)
qed

lemma skip_space_dumps:
  assumes "printable_json v"
  shows "json_dumps v \<noteq> [] \<and> skip_space (json_dumps v @ s) = json_dumps v @ s \<and> hd (json_dumps v) \<notin> {93, 125, 65279}"
proof -
  have digit: "is_ascii_digit (hd (str_of_nat n))" for n
    using str_of_nat_digits [of n] by (cases "str_of_nat n") auto
  have "json_dumps v \<noteq> [] \<and> \<not> is_json_space (hd (json_dumps v)) \<and> hd (json_dumps v) \<notin> {93, 125, 65279}"
  proof (cases v)
    case (JInt i)
    then show ?thesis
      using digit [of "nat i"] by (simp add: str_of_int_def is_json_space_def is_ascii_digit_def)
  qed (use assms in \<open>auto simp: lit_def is_json_space_def dump_string_def\<close>)
  then show ?thesis by (cases "json_dumps v") (auto simp: skip_space_def)
qed

definition parses_back :: "json \<Rightarrow> bool" where
  "parses_back v \<longleftrightarrow> (\<forall>n s. length (json_dumps v) \<le> n \<longrightarrow> number_ends s \<longrightarrow> parse_value n (json_dumps v @ s) = Some (v, s))"

lemma skip_space_closing [simp]:
  "skip_space (93 # s) = 93 # s" "skip_space (125 # s) = 125 # s" "skip_space (JCOMMA # s) = JCOMMA # s"
  "skip_space (COLON # s) = COLON # s" "skip_space (QUOTE # s) = QUOTE # s"
  by (simp_all add: skip_space_def is_json_space_def)

lemma number_ends_closing [simp]: "number_ends (93 # s)" "number_ends (125 # s)" "number_ends (JCOMMA # s)"
  by (simp_all add: number_ends_def is_ascii_digit_def)

lemma parse_items_dumps:
  assumes "xs \<noteq> []" "list_all parses_back xs" "list_all printable_json xs"
    and "length (with_commas (map json_dumps xs)) < n"
  shows "parse_items n (with_commas (map json_dumps xs) @ 93 # s) = Some (xs, s)"
  using assms
proof (induction xs arbitrary: n rule: induct_list012)
  case (2 x)
  then obtain m where n: "n = Suc m" by (cases n) auto
  then show ?case using 2 by (simp add: parses_back_def)
next
  case (3 x y ys)
  then obtain m where n: "n = Suc m" by (cases n) auto
  let ?rest = "with_commas (map json_dumps (y # ys)) @ 93 # s"
  have "parse_value m (json_dumps x @ JCOMMA # ?rest) = Some (x, JCOMMA # ?rest)"
    using 3 n by (simp add: parses_back_def)
  moreover have "skip_space ?rest = ?rest"
    using 3(5) skip_space_dumps [of y] by (cases ys) auto
  moreover have "parse_items m ?rest = Some (y # ys, s)"
    using "3.IH"(2) [of m] 3 n by simp
  ultimately show ?case using n by simp
qed simp

lemma parse_members_dumps:
  assumes "ms \<noteq> []" "list_all (\<lambda>(k, v). parses_back v \<and> printable_json v) ms"
    and "length (with_commas (map (\<lambda>(k, v). dump_string k @ COLON # json_dumps v) ms)) < n"
  shows "parse_members n (with_commas (map (\<lambda>(k, v). dump_string k @ COLON # json_dumps v) ms) @ 125 # s) = Some (ms, s)"
proof -
  let ?entry = "\<lambda>(k, v). dump_string k @ COLON # json_dumps v"
  have step: "parse_members (Suc m) (?entry e @ t) =
      (case skip_space t of
          [] \<Rightarrow> None
        | d # x \<Rightarrow> if d = 125 then Some ([e], x)
                  else if d = JCOMMA then map_option (apfst ((#) e)) (parse_members m (skip_space x)) else None)"
    if "parses_back (snd e)" "printable_json (snd e)" "length (?entry e) \<le> m" "number_ends t" for e m t
  proof -
    obtain k v where e: "e = (k, v)" by fastforce
    have "parse_value m (skip_space (json_dumps v @ t)) = Some (v, t)"
      using that e skip_space_dumps [of v t] by (simp add: parses_back_def)
    then show ?thesis unfolding e by (simp add: dump_string_def parse_dump_string)
  qed
  show ?thesis
    using assms
  proof (induction ms arbitrary: n rule: induct_list012)
    case (2 e)
    then obtain m where n: "n = Suc m" by (cases n) auto
    then have "parse_members (Suc m) (?entry e @ 125 # s) = Some ([e], s)"
      using 2 by (subst step) auto
    then show ?case using n by simp
  next
    case (3 e e' es)
    then obtain m where n: "n = Suc m" by (cases n) auto
    let ?rest = "with_commas (map ?entry (e' # es)) @ 125 # s"
    have "parse_members (Suc m) (?entry e @ JCOMMA # ?rest)
        = map_option (apfst ((#) e)) (parse_members m (skip_space ?rest))"
      using 3 n by (subst step) (auto simp: list_all_iff)
    moreover have "skip_space ?rest = ?rest"
      by (cases e'; cases es) (simp_all add: dump_string_def)
    moreover have "parse_members m ?rest = Some (e' # es, s)"
      using "3.IH"(2) [of m] 3 n by simp
    ultimately show ?case using n by simp
  qed simp
qed

lemma dumps_parse_back: "printable_json v \<Longrightarrow> parses_back v"
proof (induction v)
  case (JArr xs)
  then have all: "list_all parses_back xs" "list_all printable_json xs" by (auto simp: list_all_iff)
  have "parse_value n (json_dumps (JArr xs) @ s) = Some (JArr xs, s)"
    if "length (json_dumps (JArr xs)) \<le> n" for n s
  proof -
    note len = that
    obtain m where n: "n = Suc m" using len by (cases n) auto
    show ?thesis
    proof (cases xs)
      case Nil
      then show ?thesis using n by simp
    next
      case (Cons y ys)
      let ?items = "with_commas (map json_dumps xs) @ 93 # s"
      have "parse_items m ?items = Some (xs, s)"
        using len n Cons all by (intro parse_items_dumps) auto
      moreover have "skip_space ?items = ?items \<and> (\<exists>d t. ?items = d # t \<and> d \<noteq> 93)"
      proof -
        obtain r where "?items = json_dumps y @ r" using Cons by (cases ys) auto
        then show ?thesis
          using skip_space_dumps [of y r] all(2) Cons by (cases "json_dumps y") auto
      qed
      ultimately show ?thesis using n by auto
    qed
  qed
  then show ?case by (simp add: parses_back_def)
next
  case (JObj ms)
  let ?entry = "\<lambda>(k, v). dump_string k @ COLON # json_dumps v"
  have all: "list_all (\<lambda>(k, v). parses_back v \<and> printable_json v) ms"
    using JObj by (fastforce simp: list_all_iff)
  have "parse_value n (json_dumps (JObj ms) @ s) = Some (JObj ms, s)"
    if "length (json_dumps (JObj ms)) \<le> n" for n s
  proof -
    note len = that
    obtain m where n: "n = Suc m" using len by (cases n) auto
    show ?thesis
    proof (cases ms)
      case Nil
      then show ?thesis using n by simp
    next
      case (Cons y ys)
      let ?items = "with_commas (map ?entry ms) @ 125 # s"
      have "parse_members m ?items = Some (ms, s)"
        using len n Cons all by (intro parse_members_dumps) auto
      moreover obtain r where "?items = QUOTE # r"
        using Cons by (cases y; cases ys) (auto simp: dump_string_def)
      moreover have "py_dict ms = ms" using JObj.prems by (simp add: py_dict_distinct)
      ultimately show ?thesis using n by simp
    qed
  qed
  then show ?case by (simp add: parses_back_def)
next
  case (JInt i)
  have "parse_value n (str_of_int i @ s) = Some (JInt i, s)"
    if "length (str_of_int i) \<le> n" "number_ends s" for n s
  proof -
    note len = that
    obtain c t where c: "str_of_int i @ s = c # t" "c \<noteq> QUOTE" "c \<noteq> 123" "c \<noteq> 91"
    proof -
      have "is_ascii_digit (hd (str_of_nat k))" for k
        using str_of_nat_digits [of k] by (cases "str_of_nat k") auto
      then have "hd (str_of_int i) = 45 \<or> is_ascii_digit (hd (str_of_int i))" "str_of_int i \<noteq> []"
        by (simp_all add: str_of_int_def)
      then show ?thesis using that by (cases "str_of_int i") (auto simp: is_ascii_digit_def)
    qed
    moreover obtain m where "n = Suc m"
      using len(1) by (cases n) (auto simp: str_of_int_def split: if_splits)
    ultimately show ?thesis using parse_scalar_int [OF len(2), of i] by simp
  qed
  then show ?case by (simp add: parses_back_def)
next
  case (JStr k)
  have "parse_value n (dump_string k @ s) = Some (JStr k, s)" if "length (dump_string k) \<le> n" for n s
    using that by (cases n) (auto simp: dump_string_def parse_dump_string)
  then show ?case by (simp add: parses_back_def)
next
  case JNull
  have "parse_value n (json_dumps JNull @ s) = Some (JNull, s)" if "length (json_dumps JNull) \<le> n" for n s
    using that by (cases n) (auto simp: lit_def parse_scalar_def after_literal_def)
  then show ?case by (simp add: parses_back_def)
next
  case (JBool b)
  have "parse_value n (json_dumps (JBool b) @ s) = Some (JBool b, s)" if "length (json_dumps (JBool b)) \<le> n" for n s
    using that by (cases n; cases b) (auto simp: lit_def parse_scalar_def after_literal_def)
  then show ?case by (simp add: parses_back_def)
qed simp_all

lemma json_loads_dumps: "printable_json v \<Longrightarrow> json_loads (json_dumps v) = Some v"
proof -
  assume v: "printable_json v"
  have "parse_value (length (json_dumps v) + 1) (json_dumps v @ []) = Some (v, [])"
    using dumps_parse_back [OF v, unfolded parses_back_def, rule_format, of "length (json_dumps v) + 1" "[]"]
    by (simp add: number_ends_def)
  moreover have "take 1 (json_dumps v) \<noteq> [65279]"
    using skip_space_dumps [OF v] by (cases "json_dumps v") auto
  ultimately show "json_loads (json_dumps v) = Some v"
    using skip_space_dumps [OF v, of "[]"] by (simp add: json_loads_def skip_space_def)
qed

section \<open>One line\<close>

text \<open>Printed JSON has no control characters, hence no line breaks.\<close>

lemma escape_char_printable: "d \<in> set (escape_char c) \<Longrightarrow> 32 \<le> d"
  by (auto simp: escape_char_def hex_digit_def split: if_splits)

lemma dump_string_printable: "d \<in> set (dump_string s) \<Longrightarrow> 32 \<le> d"
  by (auto simp: dump_string_def dest: escape_char_printable)

lemma with_commas_printable: "d \<in> set (with_commas xs) \<Longrightarrow> d = JCOMMA \<or> (\<exists>x \<in> set xs. d \<in> set x)"
  by (induction xs rule: with_commas.induct) auto

lemma json_dumps_printable: "printable_json v \<Longrightarrow> d \<in> set (json_dumps v) \<Longrightarrow> 32 \<le> d"
proof (induction v arbitrary: d)
  case (JArr xs)
  then show ?case by (auto simp: list_all_iff dest!: with_commas_printable)
next
  case (JObj ms)
  then show ?case by (fastforce simp: list_all_iff dest!: with_commas_printable dump_string_printable)
next
  case (JInt i)
  have "32 \<le> d" if "d \<in> set (str_of_nat n)" for n
    using str_of_nat_digits [of n] that by (auto simp: list_all_iff is_ascii_digit_def)
  then show ?case using JInt by (auto simp: str_of_int_def split: if_splits)
qed (auto simp: lit_def dest: dump_string_printable split: if_splits)

lemma py_dict_keys: "distinct (map fst (py_dict ms)) \<and> set (py_dict ms) \<subseteq> set ms"
proof -
  have "distinct (map fst d) \<Longrightarrow> distinct (map fst (fold (\<lambda>(k, v) d. AList.update k v d) ms d))
      \<and> set (fold (\<lambda>(k, v) d. AList.update k v d) ms d) \<subseteq> set d \<union> set ms" for d
  proof (induction ms arbitrary: d)
    case (Cons m ms)
    obtain k v where m: "m = (k, v)" by fastforce
    have "set (AList.update k v d) \<subseteq> insert (k, v) (set d)" by (induction d) auto
    then show ?case using Cons.IH [of "AList.update k v d"] Cons.prems m by (auto simp: distinct_update)
  qed simp
  from this [of "[]"] show ?thesis by (simp add: py_dict_def)
qed

end
