(* ===== verification/LiveStream.thy ===== *)
theory LiveStream
  imports PyJson AnswerContract RunState
begin

text \<open>
  The live stream of a run (\<^verbatim>\<open>agent/live_updates/stream.py\<close>): its events with
  their envelope, the publisher of an attempt and the reader that follows one attempt. The Redis
  server is a parameter: its replies to the queries of the reader and to the pipeline of the
  publisher are arguments. The publication time of an entry is an argument as well.
\<close>

section \<open>Events\<close>

datatype progress_stage =
    Stage_safety_check | Stage_context_resolution | Stage_planning | Stage_evidence_collection
  | Stage_evidence_review | Stage_answering

datatype progress_event =
    Internal_search_started (activity_task: int) (activity_count: int)
  | Internal_search_completed (activity_task: int) (activity_count: int)
  | External_queries_generated (activity_task: int) (activity_queries: "pystr list")
  | External_hits_fetched (activity_task: int) (activity_count: int)
  | Evidence_selected (activity_count: int)

datatype terminal_status = Terminal_completed | Terminal_policy_blocked | Terminal_deadline_exceeded | Terminal_failed

datatype stream_event =
    Attempt_started
  | Stage_event progress_stage
  | Activity_event progress_event
  | Answer_delta (event_generation: int) (event_text: pystr)
  | Answer_reset (event_generation: int)
  | Terminal_event terminal_status "run_error_code option"

text \<open>The constraints of the event classes, checked whenever an event is constructed.\<close>

fun valid_activity :: "progress_event \<Rightarrow> bool" where
  "valid_activity (Internal_search_started t n) = (0 \<le> t \<and> 0 \<le> n)"
| "valid_activity (Internal_search_completed t n) = (0 \<le> t \<and> 0 \<le> n)"
| "valid_activity (External_queries_generated t qs) =
     (0 \<le> t \<and> (\<forall>q \<in> set qs. non_blank_text q = Inr q))"
| "valid_activity (External_hits_fetched t n) = (0 \<le> t \<and> 0 \<le> n)"
| "valid_activity (Evidence_selected n) = (0 \<le> n)"

fun valid_event :: "stream_event \<Rightarrow> bool" where
  "valid_event (Activity_event a) = valid_activity a"
| "valid_event (Answer_delta g t) = (1 \<le> g \<and> t \<noteq> [])"
| "valid_event (Answer_reset g) = (1 \<le> g)"
| "valid_event (Terminal_event s code) = ((s = Terminal_failed) = (code \<noteq> None))"
| "valid_event _ = True"

section \<open>Names on the wire\<close>

fun stage_name :: "progress_stage \<Rightarrow> pystr" where
  "stage_name Stage_safety_check = lit ''safety_check''"
| "stage_name Stage_context_resolution = lit ''context_resolution''"
| "stage_name Stage_planning = lit ''planning''"
| "stage_name Stage_evidence_collection = lit ''evidence_collection''"
| "stage_name Stage_evidence_review = lit ''evidence_review''"
| "stage_name Stage_answering = lit ''answering''"

definition ALL_STAGES :: "progress_stage list" where
  "ALL_STAGES = [Stage_safety_check, Stage_context_resolution, Stage_planning, Stage_evidence_collection,
     Stage_evidence_review, Stage_answering]"

fun error_code_value :: "run_error_code \<Rightarrow> pystr" where
  "error_code_value Generation_unavailable = lit ''generation_unavailable''"
| "error_code_value Internal_error = lit ''internal_error''"
| "error_code_value Enqueue_failed = lit ''enqueue_failed''"
| "error_code_value Stale = lit ''stale''"
| "error_code_value Cancelled = lit ''cancelled''"

definition ALL_ERROR_CODES :: "run_error_code list" where
  "ALL_ERROR_CODES = [Generation_unavailable, Internal_error, Enqueue_failed, Stale, Cancelled]"

fun terminal_status_name :: "terminal_status \<Rightarrow> pystr" where
  "terminal_status_name Terminal_completed = lit ''completed''"
| "terminal_status_name Terminal_policy_blocked = lit ''policy_blocked''"
| "terminal_status_name Terminal_deadline_exceeded = lit ''deadline_exceeded''"
| "terminal_status_name Terminal_failed = lit ''failed''"

definition ALL_TERMINAL_STATUSES :: "terminal_status list" where
  "ALL_TERMINAL_STATUSES = [Terminal_completed, Terminal_policy_blocked, Terminal_deadline_exceeded, Terminal_failed]"

fun activity_type :: "progress_event \<Rightarrow> pystr" where
  "activity_type (Internal_search_started _ _) = lit ''evidence_collection.internal_search_started''"
| "activity_type (Internal_search_completed _ _) = lit ''evidence_collection.internal_search_completed''"
| "activity_type (External_queries_generated _ _) = lit ''evidence_collection.external_search_queries_generated''"
| "activity_type (External_hits_fetched _ _) = lit ''evidence_collection.external_search_hits_fetched''"
| "activity_type (Evidence_selected _) = lit ''evidence_review.selected''"

fun event_type :: "stream_event \<Rightarrow> pystr" where
  "event_type Attempt_started = lit ''attempt.started''"
| "event_type (Stage_event _) = lit ''stage''"
| "event_type (Activity_event _) = lit ''activity''"
| "event_type (Answer_delta _ _) = lit ''answer.delta''"
| "event_type (Answer_reset _) = lit ''answer.reset''"
| "event_type (Terminal_event _ _) = lit ''terminal''"

section \<open>Encoding\<close>

fun dump_activity :: "progress_event \<Rightarrow> json" where
  "dump_activity (Internal_search_started t n) = JObj
     [(lit ''type'', JStr (activity_type (Internal_search_started t n))),
      (lit ''task_index'', JInt t), (lit ''query_count'', JInt n)]"
| "dump_activity (Internal_search_completed t n) = JObj
     [(lit ''type'', JStr (activity_type (Internal_search_completed t n))),
      (lit ''task_index'', JInt t), (lit ''hit_count'', JInt n)]"
| "dump_activity (External_queries_generated t qs) = JObj
     [(lit ''type'', JStr (activity_type (External_queries_generated t qs))),
      (lit ''task_index'', JInt t), (lit ''queries'', JArr (map JStr qs))]"
| "dump_activity (External_hits_fetched t n) = JObj
     [(lit ''type'', JStr (activity_type (External_hits_fetched t n))),
      (lit ''task_index'', JInt t), (lit ''hit_count'', JInt n)]"
| "dump_activity (Evidence_selected n) = JObj
     [(lit ''type'', JStr (activity_type (Evidence_selected n))), (lit ''evidence_count'', JInt n)]"

text \<open>The dumped model without its \<^verbatim>\<open>type\<close>.\<close>

fun event_payload :: "stream_event \<Rightarrow> (pystr \<times> json) list" where
  "event_payload Attempt_started = []"
| "event_payload (Stage_event s) = [(lit ''stage'', JStr (stage_name s))]"
| "event_payload (Activity_event a) = [(lit ''activity'', dump_activity a)]"
| "event_payload (Answer_delta g t) = [(lit ''generation'', JInt g), (lit ''text'', JStr t)]"
| "event_payload (Answer_reset g) = [(lit ''generation'', JInt g)]"
| "event_payload (Terminal_event s code) =
     (lit ''status'', JStr (terminal_status_name s))
     # (case code of None \<Rightarrow> [] | Some c \<Rightarrow> [(lit ''errorCode'', JStr (error_code_value c))])"

type_synonym raw_fields = "(pystr \<times> pystr) list"

definition encode_envelope :: "stream_event \<Rightarrow> int \<Rightarrow> pystr \<Rightarrow> raw_fields" where
  "encode_envelope event attempt_epoch published_at =
     [(lit ''type'', event_type event),
      (lit ''attemptEpoch'', str_of_int attempt_epoch),
      (lit ''payload'', json_dumps (JObj (event_payload event))),
      (lit ''publishedAt'', published_at)]"

section \<open>Decoding\<close>

text \<open>
  The reading of an integer by the validation library, beyond integers themselves, is a
  parameter: \<open>lax_int\<close>.
\<close>

definition json_find :: "('a \<Rightarrow> pystr) \<Rightarrow> 'a list \<Rightarrow> json \<Rightarrow> 'a option" where
  "json_find name xs v = (case v of JStr s \<Rightarrow> find (\<lambda>x. name x = s) xs | _ \<Rightarrow> None)"

definition only_keys :: "string list \<Rightarrow> (pystr \<times> json) list \<Rightarrow> bool" where
  "only_keys ks p \<longleftrightarrow> list_all (\<lambda>(k, v). k \<in> lit ` set (''type'' # ks)) p"

definition int_field :: "(json \<Rightarrow> int option) \<Rightarrow> int \<Rightarrow> string \<Rightarrow> (pystr \<times> json) list \<Rightarrow> int option" where
  "int_field lax_int minimum k p =
     (case map_of p (lit k) of
        None \<Rightarrow> None
      | Some v \<Rightarrow>
          (case lax_int v of
             None \<Rightarrow> None
           | Some i \<Rightarrow> if minimum \<le> i then Some i else None))"

fun json_texts :: "json list \<Rightarrow> pystr list option" where
  "json_texts [] = Some []"
| "json_texts (v # vs) =
     (case v of
        JStr s \<Rightarrow> map_option ((#) s) (json_texts vs)
      | _ \<Rightarrow> None)"

definition queries_field :: "(pystr \<times> json) list \<Rightarrow> pystr list option" where
  "queries_field p =
     (case map_of p (lit ''queries'') of
        None \<Rightarrow> Some []
      | Some (JArr vs) \<Rightarrow>
          (case json_texts vs of
             None \<Rightarrow> None
           | Some ts \<Rightarrow> (case non_blank_texts ts of Inl _ \<Rightarrow> None | Inr qs \<Rightarrow> Some qs))
      | Some _ \<Rightarrow> None)"

definition two_ints ::
    "(json \<Rightarrow> int option) \<Rightarrow> string \<Rightarrow> (int \<Rightarrow> int \<Rightarrow> 'a) \<Rightarrow> (pystr \<times> json) list \<Rightarrow> 'a option" where
  "two_ints lax_int k build p =
     (if \<not> only_keys [''task_index'', k] p then None
      else case int_field lax_int 0 ''task_index'' p of
        None \<Rightarrow> None
      | Some t \<Rightarrow> map_option (build t) (int_field lax_int 0 k p))"

definition validate_activity :: "(json \<Rightarrow> int option) \<Rightarrow> json \<Rightarrow> progress_event option" where
  "validate_activity lax_int v =
     (case v of
        JObj p \<Rightarrow>
          (case map_of p (lit ''type'') of
             Some (JStr ty) \<Rightarrow>
               if ty = lit ''evidence_collection.internal_search_started''
               then two_ints lax_int ''query_count'' Internal_search_started p
               else if ty = lit ''evidence_collection.internal_search_completed''
               then two_ints lax_int ''hit_count'' Internal_search_completed p
               else if ty = lit ''evidence_collection.external_search_queries_generated''
               then (if \<not> only_keys [''task_index'', ''queries''] p then None
                     else case int_field lax_int 0 ''task_index'' p of
                       None \<Rightarrow> None
                     | Some t \<Rightarrow> map_option (External_queries_generated t) (queries_field p))
               else if ty = lit ''evidence_collection.external_search_hits_fetched''
               then two_ints lax_int ''hit_count'' External_hits_fetched p
               else if ty = lit ''evidence_review.selected''
               then (if \<not> only_keys [''evidence_count''] p then None
                     else map_option Evidence_selected (int_field lax_int 0 ''evidence_count'' p))
               else None
           | _ \<Rightarrow> None)
      | _ \<Rightarrow> None)"

definition validate_terminal :: "(pystr \<times> json) list \<Rightarrow> stream_event option" where
  "validate_terminal p =
     (if \<not> only_keys [''status'', ''errorCode''] p then None
      else case map_of p (lit ''status'') of
        None \<Rightarrow> None
      | Some v \<Rightarrow>
          (case json_find terminal_status_name ALL_TERMINAL_STATUSES v of
             None \<Rightarrow> None
           | Some s \<Rightarrow>
               (let code = (case map_of p (lit ''errorCode'') of
                      None \<Rightarrow> Some None
                    | Some JNull \<Rightarrow> Some None
                    | Some c \<Rightarrow> map_option Some (json_find error_code_value ALL_ERROR_CODES c))
                in case code of
                     None \<Rightarrow> None
                   | Some c \<Rightarrow> if valid_event (Terminal_event s c) then Some (Terminal_event s c) else None)))"

definition validate_event :: "(json \<Rightarrow> int option) \<Rightarrow> pystr \<Rightarrow> (pystr \<times> json) list \<Rightarrow> stream_event option" where
  "validate_event lax_int ty p =
     (if ty = lit ''attempt.started'' then (if only_keys [] p then Some Attempt_started else None)
      else if ty = lit ''stage'' then
        (if \<not> only_keys [''stage''] p then None
         else case map_of p (lit ''stage'') of
           None \<Rightarrow> None
         | Some v \<Rightarrow> map_option Stage_event (json_find stage_name ALL_STAGES v))
      else if ty = lit ''activity'' then
        (if \<not> only_keys [''activity''] p then None
         else case map_of p (lit ''activity'') of
           None \<Rightarrow> None
         | Some v \<Rightarrow> map_option Activity_event (validate_activity lax_int v))
      else if ty = lit ''answer.delta'' then
        (if \<not> only_keys [''generation'', ''text''] p then None
         else case (int_field lax_int 1 ''generation'' p, map_of p (lit ''text'')) of
           (Some g, Some (JStr t)) \<Rightarrow> if t \<noteq> [] then Some (Answer_delta g t) else None
         | _ \<Rightarrow> None)
      else if ty = lit ''answer.reset'' then
        (if \<not> only_keys [''generation''] p then None
         else map_option Answer_reset (int_field lax_int 1 ''generation'' p))
      else if ty = lit ''terminal'' then validate_terminal p
      else None)"

record decoded_envelope =
  decoded_id :: pystr
  decoded_epoch :: int
  decoded_type :: pystr
  decoded_payload :: pystr

definition parse_attempt_epoch :: "pystr \<Rightarrow> int option" where
  "parse_attempt_epoch s =
     (if s \<noteq> [] \<and> list_all is_ascii_digit s then Some (int (value_of_digits s)) else None)"

text \<open>A field may be given by its alias or by its name; a field given twice is an extra one.\<close>

definition named_field :: "string \<Rightarrow> string \<Rightarrow> raw_fields \<Rightarrow> (pystr \<times> pystr) option" where
  "named_field alias name fs =
     (case map_of fs (lit alias) of
        Some v \<Rightarrow> Some (lit alias, v)
      | None \<Rightarrow> map_option (Pair (lit name)) (map_of fs (lit name)))"

definition decode_envelope :: "pystr \<Rightarrow> raw_fields \<Rightarrow> decoded_envelope option" where
  "decode_envelope stream_id fs =
     (case (named_field ''type'' ''type'' fs, named_field ''attemptEpoch'' ''attempt_epoch'' fs,
            named_field ''payload'' ''payload'' fs, named_field ''publishedAt'' ''published_at'' fs) of
        (Some (k1, ty), Some (k2, epoch_text), Some (k3, payload), Some (k4, _)) \<Rightarrow>
          if \<not> list_all (\<lambda>(k, v). k \<in> {k1, k2, k3, k4}) fs then None
          else (case parse_attempt_epoch epoch_text of
                  None \<Rightarrow> None
                | Some e \<Rightarrow>
                    if e < 1 then None
                    else Some \<lparr>decoded_id = stream_id, decoded_epoch = e, decoded_type = ty, decoded_payload = payload\<rparr>)
      | _ \<Rightarrow> None)"

definition decode_event :: "(json \<Rightarrow> int option) \<Rightarrow> decoded_envelope \<Rightarrow> stream_event option" where
  "decode_event lax_int entry =
     (case json_loads (decoded_payload entry) of
        Some (JObj p) \<Rightarrow>
          validate_event lax_int (decoded_type entry) (AList.update (lit ''type'') (JStr (decoded_type entry)) p)
      | _ \<Rightarrow> None)"

section \<open>Round trip of an event\<close>

lemma lit_eq_iff [simp]: "lit a = lit b \<longleftrightarrow> a = b"
  by (auto simp: lit_def inj_map_eq_map inj_of_char)

lemma lit_in_image [simp]: "lit a \<in> lit ` A \<longleftrightarrow> a \<in> A"
  by auto

lemma json_find_stage [simp]: "json_find stage_name ALL_STAGES (JStr (stage_name s)) = Some s"
  by (cases s) (simp_all add: json_find_def ALL_STAGES_def)

lemma json_find_code [simp]: "json_find error_code_value ALL_ERROR_CODES (JStr (error_code_value c)) = Some c"
  by (cases c) (simp_all add: json_find_def ALL_ERROR_CODES_def)

lemma json_find_status [simp]:
  "json_find terminal_status_name ALL_TERMINAL_STATUSES (JStr (terminal_status_name s)) = Some s"
  by (cases s) (simp_all add: json_find_def ALL_TERMINAL_STATUSES_def)

lemma json_texts_map [simp]: "json_texts (map JStr qs) = Some qs"
  by (induction qs) auto

lemma non_blank_texts_fixed: "\<forall>q \<in> set qs. non_blank_text q = Inr q \<Longrightarrow> non_blank_texts qs = Inr qs"
  by (induction qs) auto

definition reads_ints :: "(json \<Rightarrow> int option) \<Rightarrow> bool" where
  "reads_ints lax_int \<longleftrightarrow> (\<forall>i. lax_int (JInt i) = Some i)"

lemma validate_dumped_activity:
  assumes "valid_activity a" "reads_ints lax_int"
  shows "validate_activity lax_int (dump_activity a) = Some a"
  using assms
  by (cases a) (simp_all add: validate_activity_def two_ints_def int_field_def only_keys_def queries_field_def
      reads_ints_def non_blank_texts_fixed)

lemma validate_dumped_event:
  assumes "valid_event e" "reads_ints lax_int"
  shows "validate_event lax_int (event_type e) (AList.update (lit ''type'') (JStr (event_type e)) (event_payload e)) = Some e"
proof (cases e)
  case (Terminal_event s code)
  then show ?thesis
    using assms(1) by (cases code) 
      (auto simp: validate_event_def validate_terminal_def only_keys_def Let_def simp del: terminal_status_name.simps)
qed (use assms validate_dumped_activity in
  \<open>auto simp: validate_event_def int_field_def only_keys_def reads_ints_def\<close>)

lemma printable_payload: "printable_json (JObj (event_payload e))"
proof (cases e)
  case (Activity_event a)
  then show ?thesis by (cases a) (auto simp: list_all_iff)
qed (auto split: option.splits)

lemma parse_attempt_epoch_str: "1 \<le> n \<Longrightarrow> parse_attempt_epoch (str_of_int n) = Some n"
  using str_of_nat_digits [of "nat n"] by (simp add: parse_attempt_epoch_def str_of_int_def value_of_str_of_nat)

lemma decode_encoded_envelope:
  "1 \<le> n \<Longrightarrow> decode_envelope i (encode_envelope e n p) =
   Some \<lparr>decoded_id = i, decoded_epoch = n, decoded_type = event_type e,
         decoded_payload = json_dumps (JObj (event_payload e))\<rparr>"
  by (simp add: decode_envelope_def encode_envelope_def named_field_def parse_attempt_epoch_str)

lemma decode_encoded_event:
  "valid_event e \<Longrightarrow> reads_ints lax_int \<Longrightarrow> decode_event lax_int
    \<lparr>decoded_id = i, decoded_epoch = n, decoded_type = event_type e,
     decoded_payload = json_dumps (JObj (event_payload e))\<rparr> = Some e"
  by (simp add: decode_event_def json_loads_dumps [OF printable_payload] validate_dumped_event del: json_dumps.simps)

section \<open>Stream ids\<close>

text \<open>\<^verbatim>\<open>partition("-")\<close>: no separator, or an empty part, is a \<^verbatim>\<open>ValueError\<close>.\<close>

definition stream_id_parts :: "pystr \<Rightarrow> py_exc + int \<times> int" where
  "stream_id_parts s =
     (let ms = takeWhile (\<lambda>c. c \<noteq> 45) s; rest = dropWhile (\<lambda>c. c \<noteq> 45) s in
      if rest = [] \<or> ms = [] \<or> tl rest = [] then Inl ValueError
      else case (py_int ms, py_int (tl rest)) of
        (Some m, Some n) \<Rightarrow> Inr (m, n)
      | _ \<Rightarrow> Inl ValueError)"

definition is_stream_id_before :: "pystr \<Rightarrow> pystr \<Rightarrow> py_exc + bool" where
  "is_stream_id_before left right =
     (case stream_id_parts left of
        Inl e \<Rightarrow> Inl e
      | Inr (m1, n1) \<Rightarrow>
          (case stream_id_parts right of
             Inl e \<Rightarrow> Inl e
           | Inr (m2, n2) \<Rightarrow> Inr (m1 < m2 \<or> m1 = m2 \<and> n1 < n2)))"

section \<open>Publishing\<close>

definition AGENT_RUN_LIVE_STREAM_MAXLEN :: nat where "AGENT_RUN_LIVE_STREAM_MAXLEN = 4096"
definition AGENT_RUN_LIVE_STREAM_PAGE_SIZE :: nat where "AGENT_RUN_LIVE_STREAM_PAGE_SIZE = 128"
definition AGENT_RUN_LIVE_STREAM_TTL :: duration where "AGENT_RUN_LIVE_STREAM_TTL = seconds (15 * 60)"

definition validate_attempt_epoch :: "int \<Rightarrow> py_exc + unit" where
  "validate_attempt_epoch e = (if e < 1 then Inl ValueError else Inr ())"

record stream_publisher =
  publisher_epoch :: int
  attempt_started_confirmed :: bool

definition make_publisher :: "int \<Rightarrow> py_exc + stream_publisher" where
  "make_publisher e =
     map_sum id (\<lambda>_. \<lparr>publisher_epoch = e, attempt_started_confirmed = False\<rparr>) (validate_attempt_epoch e)"

text \<open>
  What the pipeline asks of the server: the new entries in order, each trimming the stream to its
  maximal length, then the new time to live. The reply in time is the list of the new ids; an
  exception or a late reply is \<^const>\<open>None\<close>, whether or not the server has executed the
  pipeline.
\<close>

datatype redis_command = Xadd raw_fields nat | Expire duration

definition append_commands :: "stream_publisher \<Rightarrow> stream_event list \<Rightarrow> (nat \<Rightarrow> pystr) \<Rightarrow> redis_command list" where
  "append_commands p events clock =
     map (\<lambda>(e, i). Xadd (encode_envelope e (publisher_epoch p) (clock i)) AGENT_RUN_LIVE_STREAM_MAXLEN)
       (zip events [0..<length events])
     @ [Expire AGENT_RUN_LIVE_STREAM_TTL]"

definition begin_attempt ::
    "stream_publisher \<Rightarrow> (nat \<Rightarrow> pystr) \<Rightarrow> pystr list option
       \<Rightarrow> stream_publisher \<times> pystr option \<times> redis_command list" where
  "begin_attempt p clock reply =
     (if attempt_started_confirmed p then (p, None, [])
      else
        (let commands = append_commands p [Attempt_started] clock in
         case reply of
           None \<Rightarrow> (p, None, commands)
         | Some ids \<Rightarrow> (p\<lparr>attempt_started_confirmed := True\<rparr>, Some (last ids), commands)))"

definition publish ::
    "stream_publisher \<Rightarrow> stream_event \<Rightarrow> (nat \<Rightarrow> pystr) \<Rightarrow> pystr list option
       \<Rightarrow> stream_publisher \<times> pystr option \<times> redis_command list" where
  "publish p event clock reply =
     (let marker_added = \<not> attempt_started_confirmed p;
          events = (if marker_added then [Attempt_started, event] else [event]);
          commands = append_commands p events clock in
      case reply of
        None \<Rightarrow> (p, None, commands)
      | Some ids \<Rightarrow>
          ((if marker_added then p\<lparr>attempt_started_confirmed := True\<rparr> else p), Some (last ids), commands))"

section \<open>Reading\<close>

datatype read_status =
    Read_events | Read_empty | Read_stream_missing | Read_attempt_absent | Read_attempt_advanced
  | Read_cursor_trimmed | Read_unavailable

record stream_entry =
  entry_id :: pystr
  entry_epoch :: int
  entry_event :: stream_event

record read_result =
  read_status :: read_status
  read_entries :: "stream_entry list"
  read_cursor :: "pystr option"
  observed_epoch :: "int option"

definition make_read_result ::
    "read_status \<Rightarrow> stream_entry list \<Rightarrow> pystr option \<Rightarrow> int option \<Rightarrow> py_exc + read_result" where
  "make_read_result status entries cursor observed =
     (if status = Read_attempt_advanced \<and> (case observed of None \<Rightarrow> True | Some e \<Rightarrow> e < 1) then Inl ValueError
      else if status = Read_attempt_advanced \<and> entries \<noteq> [] then Inl ValueError
      else if status \<noteq> Read_attempt_advanced \<and> observed \<noteq> None then Inl ValueError
      else Inr \<lparr>read_status = status, read_entries = entries, read_cursor = cursor, observed_epoch = observed\<rparr>)"

type_synonym raw_entry = "pystr \<times> raw_fields"

text \<open>
  The loop of \<^verbatim>\<open>_entries_result\<close>: the events so far and the cursor, or the
  newer epoch that was met before any event.
\<close>

fun scan_entries ::
    "(json \<Rightarrow> int option) \<Rightarrow> int \<Rightarrow> raw_entry list \<Rightarrow> pystr option \<Rightarrow> stream_entry list
       \<Rightarrow> (int \<times> pystr option) + (stream_entry list \<times> pystr option)" where
  "scan_entries lax_int e [] cursor events = Inr (events, cursor)"
| "scan_entries lax_int e ((i, fs) # rest) cursor events =
     (case decode_envelope i fs of
        None \<Rightarrow> scan_entries lax_int e rest (Some i) events
      | Some d \<Rightarrow>
          if decoded_epoch d < e then scan_entries lax_int e rest (Some i) events
          else if decoded_epoch d > e then
            (if events \<noteq> [] then Inr (events, cursor) else Inl (decoded_epoch d, cursor))
          else
            (let events' = (case decode_event lax_int d of
                   None \<Rightarrow> events
                 | Some ev \<Rightarrow> events @ [\<lparr>entry_id = decoded_id d, entry_epoch = decoded_epoch d, entry_event = ev\<rparr>])
             in if length events' = AGENT_RUN_LIVE_STREAM_PAGE_SIZE then Inr (events', Some i)
                else scan_entries lax_int e rest (Some i) events'))"

definition entries_result ::
    "(json \<Rightarrow> int option) \<Rightarrow> raw_entry list \<Rightarrow> int \<Rightarrow> pystr option \<Rightarrow> py_exc + read_result" where
  "entries_result lax_int raw e previous_cursor =
     (case scan_entries lax_int e raw previous_cursor [] of
        Inl (observed, cursor) \<Rightarrow> make_read_result Read_attempt_advanced [] cursor (Some observed)
      | Inr (events, cursor) \<Rightarrow>
          if events \<noteq> [] then make_read_result Read_events events cursor None
          else make_read_result Read_attempt_absent [] cursor None)"

text \<open>
  The replies of the server during one read: the first \<open>n\<close> entries of the stream, up to
  \<open>n\<close> entries after an id, and whether the key exists; \<^const>\<open>None\<close> is an exception.
  The read as a whole may exceed its time.
\<close>

record stream_replies =
  reply_first :: "nat \<Rightarrow> raw_entry list option"
  reply_after :: "pystr \<Rightarrow> nat \<Rightarrow> raw_entry list option"
  reply_exists :: "bool option"
  reply_late :: bool

definition missing_or ::
    "stream_replies \<Rightarrow> read_status \<Rightarrow> pystr option \<Rightarrow> (py_exc + read_result) option" where
  "missing_or r status cursor =
     (case reply_exists r of
        None \<Rightarrow> None
      | Some exists \<Rightarrow>
          Some (if \<not> exists then make_read_result Read_stream_missing [] None None
                else make_read_result status [] cursor None))"

text \<open>\<^verbatim>\<open>_read_after\<close>; \<^const>\<open>None\<close> is an exception of the server.\<close>

definition read_after_unguarded ::
    "(json \<Rightarrow> int option) \<Rightarrow> stream_replies \<Rightarrow> int \<Rightarrow> pystr option \<Rightarrow> (py_exc + read_result) option" where
  "read_after_unguarded lax_int r e cursor =
     (case cursor of
        None \<Rightarrow>
          (case reply_first r AGENT_RUN_LIVE_STREAM_MAXLEN of
             None \<Rightarrow> None
           | Some [] \<Rightarrow> missing_or r Read_attempt_absent None
           | Some raw \<Rightarrow> Some (entries_result lax_int raw e None))
      | Some c \<Rightarrow>
          (case reply_first r 1 of
             None \<Rightarrow> None
           | Some [] \<Rightarrow> missing_or r Read_empty (Some c)
           | Some ((earliest, _) # _) \<Rightarrow>
               (case is_stream_id_before c earliest of
                  Inl x \<Rightarrow> Some (Inl x)
                | Inr True \<Rightarrow> Some (make_read_result Read_cursor_trimmed [] None None)
                | Inr False \<Rightarrow>
                    (case reply_after r c AGENT_RUN_LIVE_STREAM_PAGE_SIZE of
                       None \<Rightarrow> None
                     | Some [] \<Rightarrow> Some (make_read_result Read_empty [] (Some c) None)
                     | Some raw \<Rightarrow> Some (entries_result lax_int raw e (Some c))))))"

definition read_after ::
    "(json \<Rightarrow> int option) \<Rightarrow> stream_replies \<Rightarrow> int \<Rightarrow> pystr option \<Rightarrow> py_exc + read_result" where
  "read_after lax_int r e cursor =
     (case validate_attempt_epoch e of
        Inl x \<Rightarrow> Inl x
      | Inr _ \<Rightarrow>
          (case (if reply_late r then None else read_after_unguarded lax_int r e cursor) of
             Some (Inr result) \<Rightarrow> Inr result
           | _ \<Rightarrow> make_read_result Read_unavailable [] None None))"

end
