(* ===== verification/AnswerDelta.thy ===== *)
theory AnswerDelta
  imports LiveStream AnswerAssembly "HOL-Library.Sublist"
begin

text \<open>
  The reporter that gathers the fragments of an answer and sends them to the live stream
  (\<^verbatim>\<open>agent/live_updates/answer_delta.py\<close>). Every operation and every flush by
  the timer runs under one lock and is a function of the reporter and of the published of its
  publications, which the publisher answers by \<open>ok\<close>: whether the k-th publication yields a
  stream id. Cancellation of a call in the middle of a publication is not modelled.
\<close>

section \<open>The reporter\<close>

definition ANSWER_DELTA_MAX_CHARACTERS :: nat where "ANSWER_DELTA_MAX_CHARACTERS = 512"
definition ANSWER_DELTA_BREAKER_FAILURE_THRESHOLD :: nat where "ANSWER_DELTA_BREAKER_FAILURE_THRESHOLD = 3"

text \<open>The timer task in charge is a number with the generation it flushes.\<close>

record delta_reporter =
  reporter_buffer :: pystr
  active_generation :: "int option"
  closed_generations :: "int list"
  timer_task :: "(nat \<times> int) option"
  timers_started :: nat
  publish_failures :: nat
  breaker_open :: bool

definition new_reporter :: delta_reporter where
  "new_reporter = \<lparr>reporter_buffer = [], active_generation = None, closed_generations = [], timer_task = None,
     timers_started = 0, publish_failures = 0, breaker_open = False\<rparr>"

type_synonym delta_log = "(stream_event \<times> bool) list"
type_synonym delta_state = "delta_reporter \<times> delta_log"

definition open_breaker :: "delta_reporter \<Rightarrow> delta_reporter" where
  "open_breaker r = (if breaker_open r then r else r\<lparr>breaker_open := True, reporter_buffer := []\<rparr>)"

definition publish_event_locked :: "(nat \<Rightarrow> bool) \<Rightarrow> stream_event \<Rightarrow> delta_state \<Rightarrow> delta_state" where
  "publish_event_locked ok e st =
     (let (r, published) = st; sent = ok (length published); published' = published @ [(e, sent)] in
      if sent then (r\<lparr>publish_failures := 0\<rparr>, published')
      else
        (let r' = r\<lparr>publish_failures := publish_failures r + 1\<rparr> in
         if publish_failures r' \<ge> ANSWER_DELTA_BREAKER_FAILURE_THRESHOLD then (open_breaker r', published') else (r', published')))"

text \<open>The event is validated before it is handed to the publisher.\<close>

definition publish_checked :: "(nat \<Rightarrow> bool) \<Rightarrow> stream_event \<Rightarrow> delta_state \<Rightarrow> delta_state \<times> py_exc option" where
  "publish_checked ok e st =
     (if valid_event e then (publish_event_locked ok e st, None) else (st, Some ValidationError))"

lemma publish_event_buffer:
  "reporter_buffer (fst (publish_event_locked ok e (r, published))) = reporter_buffer r
    \<or> reporter_buffer (fst (publish_event_locked ok e (r, published))) = []"
  by (simp add: publish_event_locked_def open_breaker_def Let_def)

text \<open>
  The two flush loops: they send pieces of at most the maximal size while at least
  \<open>minimum\<close> characters are buffered, and stop when the breaker opens.
\<close>

function flush_loop :: "nat \<Rightarrow> (nat \<Rightarrow> bool) \<Rightarrow> int \<Rightarrow> delta_state \<Rightarrow> delta_state \<times> py_exc option" where
  "flush_loop minimum ok g (r, published) =
     (if length (reporter_buffer r) \<ge> max 1 minimum \<and> \<not> breaker_open r then
        (case publish_checked ok
                (Answer_delta g (take ANSWER_DELTA_MAX_CHARACTERS (reporter_buffer r)))
                (r\<lparr>reporter_buffer := drop ANSWER_DELTA_MAX_CHARACTERS (reporter_buffer r)\<rparr>, published) of
           (st, Some x) \<Rightarrow> (st, Some x)
         | (st, None) \<Rightarrow> flush_loop minimum ok g st)
      else ((r, published), None))"
  by pat_completeness auto

termination flush_loop
proof (relation "measure (\<lambda>(_, _, _, r, _). length (reporter_buffer r))", goal_cases)
  case (2 minimum ok g r published st x)
  then obtain r' published' where st: "st = (r', published')" "(r', published') = publish_event_locked ok
      (Answer_delta g (take ANSWER_DELTA_MAX_CHARACTERS (reporter_buffer r)))
      (r\<lparr>reporter_buffer := drop ANSWER_DELTA_MAX_CHARACTERS (reporter_buffer r)\<rparr>, published)"
    by (cases st) (auto simp: publish_checked_def split: if_splits)
  have "reporter_buffer r' = drop ANSWER_DELTA_MAX_CHARACTERS (reporter_buffer r) \<or> reporter_buffer r' = []"
    using publish_event_buffer st(2) by (metis (no_types, lifting) delta_reporter.select_convs(1)
      delta_reporter.surjective delta_reporter.update_convs(1) fst_conv)
  then show ?case using 2 st(1) by (auto simp: ANSWER_DELTA_MAX_CHARACTERS_def)
qed simp

declare flush_loop.simps [simp del]

definition flush_sized_chunks :: "(nat \<Rightarrow> bool) \<Rightarrow> int \<Rightarrow> delta_state \<Rightarrow> delta_state \<times> py_exc option" where
  "flush_sized_chunks = flush_loop ANSWER_DELTA_MAX_CHARACTERS"

definition flush_pending :: "(nat \<Rightarrow> bool) \<Rightarrow> int \<Rightarrow> delta_state \<Rightarrow> delta_state \<times> py_exc option" where
  "flush_pending = flush_loop 1"

definition activate_generation :: "int \<Rightarrow> delta_reporter \<Rightarrow> delta_reporter \<times> bool" where
  "activate_generation g r =
     (if g \<in> set (closed_generations r) then (r, False)
      else
        (let r' = (if active_generation r = None then r\<lparr>active_generation := Some g\<rparr> else r)
         in (r', active_generation r' = Some g)))"

definition close_generation :: "int \<Rightarrow> delta_reporter \<Rightarrow> delta_reporter" where
  "close_generation g r =
     (let r' = r\<lparr>closed_generations := List.insert g (closed_generations r)\<rparr>;
          r'' = (if active_generation r' = Some g then r'\<lparr>active_generation := None\<rparr> else r')
      in r''\<lparr>reporter_buffer := []\<rparr>)"

definition start_timer :: "int \<Rightarrow> delta_reporter \<Rightarrow> delta_reporter" where
  "start_timer g r =
     (if timer_task r \<noteq> None then r
      else r\<lparr>timer_task := Some (timers_started r, g), timers_started := timers_started r + 1\<rparr>)"

definition cancel_timer :: "delta_reporter \<Rightarrow> delta_reporter" where
  "cancel_timer r = r\<lparr>timer_task := None\<rparr>"

definition reporter_append :: "(nat \<Rightarrow> bool) \<Rightarrow> int \<Rightarrow> pystr \<Rightarrow> delta_state \<Rightarrow> delta_state \<times> py_exc option" where
  "reporter_append ok g t st =
     (let (r, published) = st in
      if t = [] \<or> breaker_open r then (st, None)
      else
        (let (r1, active) = activate_generation g r in
         if \<not> active then ((r1, published), None)
         else
           (let r2 = r1\<lparr>reporter_buffer := reporter_buffer r1 @ t\<rparr>;
                flushed = (if length (reporter_buffer r2) \<ge> ANSWER_DELTA_MAX_CHARACTERS
                           then flush_sized_chunks ok g (cancel_timer r2, published) else ((r2, published), None))
            in case flushed of
                 (st', Some x) \<Rightarrow> (st', Some x)
               | ((r3, published'), None) \<Rightarrow>
                   ((if reporter_buffer r3 \<noteq> [] \<and> \<not> breaker_open r3 then start_timer g r3 else r3, published'), None))))"

definition reporter_reset :: "(nat \<Rightarrow> bool) \<Rightarrow> int \<Rightarrow> delta_state \<Rightarrow> delta_state \<times> py_exc option" where
  "reporter_reset ok g st = (if breaker_open (fst st) then (st, None) else publish_checked ok (Answer_reset g) st)"

definition reporter_finish :: "(nat \<Rightarrow> bool) \<Rightarrow> int \<Rightarrow> delta_state \<Rightarrow> delta_state \<times> py_exc option" where
  "reporter_finish ok g st =
     (let (r, published) = st in
      if breaker_open r \<or> g \<in> set (closed_generations r) then (st, None)
      else if active_generation r \<notin> {None, Some g} then (st, None)
      else
        (let r1 = cancel_timer r;
             flushed = (if active_generation r1 = Some g \<and> reporter_buffer r1 \<noteq> []
                        then flush_pending ok g (r1, published) else ((r1, published), None))
         in case flushed of
              (st', Some x) \<Rightarrow> (st', Some x)
            | ((r2, published'), None) \<Rightarrow> ((close_generation g r2, published'), None)))"

definition reporter_abort :: "int \<Rightarrow> delta_state \<Rightarrow> delta_state" where
  "reporter_abort g st =
     (let (r, published) = st in
      if g \<in> set (closed_generations r) then st
      else if active_generation r \<notin> {None, Some g} then st
      else (close_generation g ((cancel_timer r)\<lparr>reporter_buffer := []\<rparr>), published))"

text \<open>
  \<^verbatim>\<open>_flush_after_interval\<close> after its sleep: a task that is no longer in charge does
  nothing, and an exception of the flush ends with the task.
\<close>

definition flush_after_interval :: "(nat \<Rightarrow> bool) \<Rightarrow> nat \<times> int \<Rightarrow> delta_state \<Rightarrow> delta_state" where
  "flush_after_interval ok task st =
     (let (r, published) = st in
      if timer_task r \<noteq> Some task then st
      else
        (let r1 = r\<lparr>timer_task := None\<rparr> in
         if breaker_open r1 \<or> active_generation r1 \<noteq> Some (snd task) \<or> reporter_buffer r1 = [] then (r1, published)
         else fst (flush_pending ok (snd task) (r1, published))))"

section \<open>Calls and timers\<close>

text \<open>
  \<^verbatim>\<open>BestEffortAnswerDeltaReporter\<close> (\<^verbatim>\<open>answering/live_delivery.py\<close>)
  passes a call on and swallows its exception.
\<close>

fun best_effort :: "(nat \<Rightarrow> bool) \<Rightarrow> delta_call \<Rightarrow> delta_state \<Rightarrow> delta_state" where
  "best_effort ok (DeltaAppend g t) st = fst (reporter_append ok g t st)"
| "best_effort ok (DeltaReset g) st = fst (reporter_reset ok g st)"
| "best_effort ok (DeltaFinish g) st = fst (reporter_finish ok g st)"
| "best_effort ok (DeltaAbort g) st = reporter_abort g st"

datatype reporter_op = Call delta_call | Timer "nat \<times> int"

fun run_op :: "(nat \<Rightarrow> bool) \<Rightarrow> reporter_op \<Rightarrow> delta_state \<Rightarrow> delta_state" where
  "run_op ok (Call c) st = best_effort ok c st"
| "run_op ok (Timer task) st = flush_after_interval ok task st"

definition run_ops :: "(nat \<Rightarrow> bool) \<Rightarrow> reporter_op list \<Rightarrow> delta_state \<Rightarrow> delta_state" where
  "run_ops ok ops st = fold (run_op ok) ops st"

fun calls_of :: "reporter_op list \<Rightarrow> delta_call list" where
  "calls_of [] = []"
| "calls_of (Call c # ops) = c # calls_of ops"
| "calls_of (Timer _ # ops) = calls_of ops"

section \<open>The pieces of one generation\<close>

fun delta_text :: "stream_event \<Rightarrow> pystr" where
  "delta_text (Answer_delta g t) = t"
| "delta_text _ = []"

definition texts :: "delta_log \<Rightarrow> pystr" where
  "texts published = concat (map (\<lambda>(e, _). delta_text e) published)"

definition pieces :: "int \<Rightarrow> delta_log \<Rightarrow> bool" where
  "pieces g published \<longleftrightarrow> list_all (\<lambda>(e, _). e = Answer_delta g (delta_text e) \<and> delta_text e \<noteq> []
     \<and> length (delta_text e) \<le> ANSWER_DELTA_MAX_CHARACTERS) published"

lemma texts_simps [simp]: "texts [] = []" "texts (x # p) = delta_text (fst x) @ texts p" "texts (p @ q) = texts p @ texts q"
  by (simp_all add: texts_def split: prod.splits)

lemma pieces_simps [simp]: "pieces g []" "pieces g (p @ q) \<longleftrightarrow> pieces g p \<and> pieces g q"
  by (simp_all add: pieces_def)

definition same_control :: "delta_reporter \<Rightarrow> delta_reporter \<Rightarrow> bool" where
  "same_control r r' \<longleftrightarrow> active_generation r' = active_generation r \<and> closed_generations r' = closed_generations r
     \<and> timer_task r' = timer_task r \<and> timers_started r' = timers_started r"

lemma publish_event_locked_cases:
  assumes "\<not> breaker_open r" "publish_event_locked ok e (r, published) = (r', published')"
  shows "published' = published @ [(e, ok (length published))] \<and> same_control r r'
    \<and> (if breaker_open r' then reporter_buffer r' = [] \<and> \<not> ok (length published)
       else reporter_buffer r' = reporter_buffer r)"
  using assms by (auto simp: publish_event_locked_def open_breaker_def same_control_def Let_def split: if_splits)

text \<open>
  A flush sends pieces from the front of the buffer; it leaves less than its minimum, or nothing
  when the breaker opens.
\<close>

lemma flush_loop_sends:
  assumes "1 \<le> g" "\<not> breaker_open r"
  shows "\<exists>r' new rest. flush_loop m ok g (r, published) = ((r', published @ new), None)
    \<and> pieces g new \<and> same_control r r' \<and> reporter_buffer r = texts new @ rest
    \<and> (if breaker_open r' then reporter_buffer r' = [] \<and> \<not> (\<forall>k. ok k)
       else reporter_buffer r' = rest \<and> length rest < max 1 m)"
  using assms
proof (induction "length (reporter_buffer r)" arbitrary: r published rule: less_induct)
  case less
  show ?case
  proof (cases "length (reporter_buffer r) \<ge> max 1 m")
    case False
    then have "flush_loop m ok g (r, published) = ((r, published), None)"
      by (subst flush_loop.simps) (simp only: if_False simp_thms)
    then show ?thesis
      using False less.prems(2)
      by (intro exI [of _ r] exI [of _ "[]"] exI [of _ "reporter_buffer r"]) (auto simp: same_control_def)
  next
    case True
    let ?t = "take ANSWER_DELTA_MAX_CHARACTERS (reporter_buffer r)"
    let ?r = "r\<lparr>reporter_buffer := drop ANSWER_DELTA_MAX_CHARACTERS (reporter_buffer r)\<rparr>"
    have t: "?t \<noteq> []" "length ?t \<le> ANSWER_DELTA_MAX_CHARACTERS"
      using True by (auto simp: ANSWER_DELTA_MAX_CHARACTERS_def)
    obtain r1 p1 where one: "publish_event_locked ok (Answer_delta g ?t) (?r, published) = (r1, p1)" by fastforce
    have step: "p1 = published @ [(Answer_delta g ?t, ok (length published))]" "same_control r r1"
      "if breaker_open r1 then reporter_buffer r1 = [] \<and> \<not> ok (length published)
       else reporter_buffer r1 = drop ANSWER_DELTA_MAX_CHARACTERS (reporter_buffer r)"
      using publish_event_locked_cases [OF _ one] less.prems(2) by (auto simp: same_control_def)
    have unfold: "flush_loop m ok g (r, published) = flush_loop m ok g (r1, p1)"
      using True less.prems t(1) one by (subst flush_loop.simps) (simp add: publish_checked_def)
    have piece: "pieces g [(Answer_delta g ?t, ok (length published))]"
      using t by (simp add: pieces_def)
    show ?thesis
    proof (cases "breaker_open r1")
      case True
      then have "flush_loop m ok g (r1, p1) = ((r1, p1), None)" by (simp add: flush_loop.simps)
      then show ?thesis
        using unfold step piece True
        by (intro exI [of _ r1] exI [of _ "[(Answer_delta g ?t, ok (length published))]"]
            exI [of _ "drop ANSWER_DELTA_MAX_CHARACTERS (reporter_buffer r)"]) auto
    next
      case False
      then have shorter: "length (reporter_buffer r1) < length (reporter_buffer r)"
        using step(3) \<open>length (reporter_buffer r) \<ge> max 1 m\<close> by (auto simp: ANSWER_DELTA_MAX_CHARACTERS_def)
      obtain r' new rest where rec: "flush_loop m ok g (r1, p1) = ((r', p1 @ new), None)" "pieces g new"
        "same_control r1 r'" "reporter_buffer r1 = texts new @ rest"
        "if breaker_open r' then reporter_buffer r' = [] \<and> \<not> (\<forall>k. ok k)
         else reporter_buffer r' = rest \<and> length rest < max 1 m"
        using less.hyps [OF shorter less.prems(1) False] by blast
      have "reporter_buffer r = texts ((Answer_delta g ?t, ok (length published)) # new) @ rest"
        using step(3) rec(4) False by simp
      moreover have "pieces g ((Answer_delta g ?t, ok (length published)) # new)"
        using piece rec(2) by (simp add: pieces_def)
      moreover have "same_control r r'" using step(2) rec(3) by (simp add: same_control_def)
      ultimately show ?thesis
        using unfold rec(1,5) step(1)
        by (intro exI [of _ r'] exI [of _ "(Answer_delta g ?t, ok (length published)) # new"] exI [of _ rest]) simp
    qed
  qed
qed

text \<open>
  In the middle of a generation: what was published of it and what is buffered make up the text
  received; once the breaker is open, a front part of it was published.
\<close>

definition in_generation :: "(nat \<Rightarrow> bool) \<Rightarrow> int \<Rightarrow> int list \<Rightarrow> delta_log \<Rightarrow> pystr \<Rightarrow> delta_state \<Rightarrow> bool" where
  "in_generation ok g sealed before received st \<longleftrightarrow>
     (\<exists>new. snd st = before @ new \<and> pieces g new
          \<and> (if breaker_open (fst st)
             then reporter_buffer (fst st) = [] \<and> prefix (texts new) received \<and> \<not> (\<forall>k. ok k)
             else closed_generations (fst st) = sealed \<and> g \<notin> set sealed
               \<and> received = texts new @ reporter_buffer (fst st)
               \<and> (active_generation (fst st) = Some g \<or> active_generation (fst st) = None \<and> received = [])))"

lemma in_generation_flush:
  assumes "in_generation ok g sealed before received (r, published)" "1 \<le> g" "active_generation r = Some g"
    and "\<not> breaker_open r"
  shows "\<exists>r' published'. flush_loop m ok g (r, published) = ((r', published'), None)
    \<and> in_generation ok g sealed before received (r', published') \<and> active_generation r' = Some g
    \<and> timer_task r' = timer_task r \<and> (\<not> breaker_open r' \<longrightarrow> length (reporter_buffer r') < max 1 m)"
proof -
  obtain r' new rest where f: "flush_loop m ok g (r, published) = ((r', published @ new), None)" "pieces g new"
    "same_control r r'" "reporter_buffer r = texts new @ rest"
    "if breaker_open r' then reporter_buffer r' = [] \<and> \<not> (\<forall>k. ok k)
     else reporter_buffer r' = rest \<and> length rest < max 1 m"
    using flush_loop_sends [OF assms(2,4)] by blast
  obtain old where old: "published = before @ old" "pieces g old" "received = texts old @ reporter_buffer r"
    using assms(1,4) by (auto simp: in_generation_def)
  have "closed_generations r = sealed \<and> g \<notin> set sealed" using assms(1,4) by (auto simp: in_generation_def)
  then have "in_generation ok g sealed before received (r', published @ new)"
    unfolding in_generation_def using f old assms(3)
    by (intro exI [of _ "old @ new"]) (auto simp: same_control_def)
  then show ?thesis using f assms(3) by (auto simp: same_control_def split: if_splits)
qed

lemma in_generation_control:
  "in_generation ok g sealed before received (r, published) \<Longrightarrow>
   closed_generations r' = closed_generations r \<Longrightarrow> breaker_open r' = breaker_open r \<Longrightarrow>
   reporter_buffer r' = reporter_buffer r \<Longrightarrow> active_generation r' = active_generation r \<Longrightarrow>
   in_generation ok g sealed before received (r', published)"
  by (simp only: in_generation_def fst_conv snd_conv simp_thms)

lemma in_generation_append:
  assumes "in_generation ok g sealed before received st" "1 \<le> g"
  shows "in_generation ok g sealed before (received @ t) (fst (reporter_append ok g t st))"
proof -
  obtain r published where st: "st = (r, published)" by fastforce
  show ?thesis
  proof (cases "t = [] \<or> breaker_open r")
    case True
    then have "fst (reporter_append ok g t st) = st" by (simp add: reporter_append_def st)
    then show ?thesis using assms(1) True by (auto simp: in_generation_def st split: if_splits)
  next
    case False
    define r1 where "r1 = r\<lparr>active_generation := Some g\<rparr>"
    define r2 where "r2 = r1\<lparr>reporter_buffer := reporter_buffer r1 @ t\<rparr>"
    have act: "activate_generation g r = (r1, True)"
      using assms(1) False by (auto simp: activate_generation_def in_generation_def st r1_def)
    have r2: "in_generation ok g sealed before (received @ t) (r2, published)" "active_generation r2 = Some g"
      "\<not> breaker_open r2"
      using assms(1) False by (auto simp: in_generation_def st r1_def r2_def)
    have cancelled: "in_generation ok g sealed before (received @ t) (cancel_timer r2, published)"
      using r2(1) by (rule in_generation_control) (simp_all add: cancel_timer_def)
    define flushed where "flushed = (if length (reporter_buffer r2) \<ge> ANSWER_DELTA_MAX_CHARACTERS
       then flush_sized_chunks ok g (cancel_timer r2, published) else ((r2, published), None))"
    obtain r3 p3 where r3: "flushed = ((r3, p3), None)" "in_generation ok g sealed before (received @ t) (r3, p3)"
    proof (cases "length (reporter_buffer r2) \<ge> ANSWER_DELTA_MAX_CHARACTERS")
      case True
      then show ?thesis
        using that in_generation_flush [OF cancelled assms(2), of ANSWER_DELTA_MAX_CHARACTERS] r2(2,3)
        by (auto simp: flushed_def flush_sized_chunks_def cancel_timer_def)
    next
      case False
      then show ?thesis using that r2(1) by (simp add: flushed_def)
    qed
    have "reporter_append ok g t st = ((if reporter_buffer r3 \<noteq> [] \<and> \<not> breaker_open r3 then start_timer g r3 else r3, p3), None)"
      using False act r3(1) by (simp add: reporter_append_def st Let_def r2_def [symmetric] flushed_def [symmetric])
    then show ?thesis
      using r3(2) in_generation_control [OF r3(2), of "start_timer g r3"] by (simp add: start_timer_def)
  qed
qed

lemma in_generation_timer:
  assumes "in_generation ok g sealed before received st" "1 \<le> g"
  shows "in_generation ok g sealed before received (flush_after_interval ok task st)"
proof -
  obtain r published where st: "st = (r, published)" by fastforce
  let ?r = "r\<lparr>timer_task := None\<rparr>"
  have cleared: "in_generation ok g sealed before received (?r, published)"
    using assms(1) unfolding st by (rule in_generation_control) simp_all
  show ?thesis
  proof (cases "timer_task r \<noteq> Some task \<or> breaker_open r \<or> active_generation r \<noteq> Some (snd task) \<or> reporter_buffer r = []")
    case True
    then show ?thesis using assms(1) cleared by (auto simp: flush_after_interval_def st)
  next
    case False
    then have "snd task = g" "active_generation r = Some g"
      using assms(1) by (auto simp: in_generation_def st)
    then show ?thesis
      using False in_generation_flush [OF cleared assms(2), of 1] by (auto simp: flush_after_interval_def st flush_pending_def)
  qed
qed

section \<open>Between generations\<close>

definition at_rest :: "(nat \<Rightarrow> bool) \<Rightarrow> int list \<Rightarrow> delta_log \<Rightarrow> delta_state \<Rightarrow> bool" where
  "at_rest ok sealed published st \<longleftrightarrow> snd st = published \<and> reporter_buffer (fst st) = []
     \<and> (if breaker_open (fst st) then \<not> (\<forall>k. ok k)
        else closed_generations (fst st) = sealed \<and> active_generation (fst st) = None)"

lemma at_rest_starts: "at_rest ok sealed published st \<Longrightarrow> g \<notin> set sealed \<Longrightarrow> in_generation ok g sealed published [] st"
  by (auto simp: at_rest_def in_generation_def split: if_splits)

lemma at_rest_timer: "at_rest ok sealed published st \<Longrightarrow> at_rest ok sealed published (flush_after_interval ok task st)"
  by (cases st) (auto simp: at_rest_def flush_after_interval_def Let_def split: if_splits)

lemma at_rest_reset:
  assumes "at_rest ok sealed published st" "1 \<le> g"
  shows "\<exists>published'. at_rest ok sealed published' (fst (reporter_reset ok g st))
    \<and> (if breaker_open (fst st) then published' = published \<and> breaker_open (fst (fst (reporter_reset ok g st)))
       else published' = published @ [(Answer_reset g, ok (length published))])"
proof -
  obtain r p where st: "st = (r, p)" by fastforce
  show ?thesis
  proof (cases "breaker_open r")
    case True
    then show ?thesis using assms(1) by (simp add: reporter_reset_def st)
  next
    case False
    obtain r' p' where e: "publish_event_locked ok (Answer_reset g) (r, p) = (r', p')" by fastforce
    show ?thesis
      using publish_event_locked_cases [OF False e] assms False e
      by (auto simp: reporter_reset_def st publish_checked_def at_rest_def same_control_def split: if_splits)
  qed
qed

lemma in_generation_abort:
  assumes "in_generation ok g sealed before received st"
  shows "\<exists>new. at_rest ok (List.insert g sealed) (before @ new) (reporter_abort g st)
    \<and> pieces g new \<and> prefix (texts new) received"
proof -
  obtain r p where st: "st = (r, p)" by fastforce
  obtain new where new: "p = before @ new" "pieces g new" "prefix (texts new) received"
    "breaker_open r \<longrightarrow> reporter_buffer r = [] \<and> \<not> (\<forall>k. ok k)"
    "\<not> breaker_open r \<longrightarrow> closed_generations r = sealed \<and> g \<notin> set sealed \<and> active_generation r \<in> {Some g, None}"
    using assms by (cases "breaker_open r") (auto simp: in_generation_def st)
  have "at_rest ok (List.insert g sealed) (before @ new) (reporter_abort g st)"
    using new(1,4,5)
    by (auto simp: at_rest_def reporter_abort_def st close_generation_def cancel_timer_def Let_def split: if_splits)
  then show ?thesis using new(2,3) by blast
qed

lemma in_generation_finish:
  assumes "in_generation ok g sealed before received st" "1 \<le> g"
  shows "\<exists>new. at_rest ok (List.insert g sealed) (before @ new) (fst (reporter_finish ok g st))
    \<and> pieces g new \<and> prefix (texts new) received
    \<and> (\<not> breaker_open (fst (fst (reporter_finish ok g st))) \<longrightarrow> texts new = received)"
proof -
  obtain r p where st: "st = (r, p)" by fastforce
  show ?thesis
  proof (cases "breaker_open r")
    case True
    then have "fst (reporter_finish ok g st) = st" by (simp add: reporter_finish_def st)
    then show ?thesis using assms(1) True by (auto simp: in_generation_def at_rest_def st)
  next
    case False
    define r1 where "r1 = cancel_timer r"
    have r1: "in_generation ok g sealed before received (r1, p)"
      using assms(1) unfolding st by (rule in_generation_control) (simp_all add: r1_def cancel_timer_def)
    have open1: "\<not> breaker_open r1" "g \<notin> set (closed_generations r)" "active_generation r \<in> {None, Some g}"
      using assms(1) False by (auto simp: in_generation_def st r1_def cancel_timer_def)
    define flushed where "flushed = (if active_generation r1 = Some g \<and> reporter_buffer r1 \<noteq> []
       then flush_pending ok g (r1, p) else ((r1, p), None))"
    obtain r2 p2 where r2: "flushed = ((r2, p2), None)" "in_generation ok g sealed before received (r2, p2)"
      "\<not> breaker_open r2 \<longrightarrow> reporter_buffer r2 = []" "active_generation r2 = active_generation r1"
    proof (cases "active_generation r1 = Some g \<and> reporter_buffer r1 \<noteq> []")
      case True
      then show ?thesis
        using that in_generation_flush [OF r1 assms(2) _ open1(1), of 1] by (auto simp: flushed_def flush_pending_def)
    next
      case False
      then have "reporter_buffer r1 = []" using r1 open1(1) by (auto simp: in_generation_def)
      then show ?thesis using that [of r1 p] r1 by (simp add: flushed_def)
    qed
    have fin: "reporter_finish ok g st = ((close_generation g r2, p2), None)"
      using False open1 r2(1) by (simp add: reporter_finish_def st Let_def r1_def [symmetric] flushed_def [symmetric])
    obtain new where new: "p2 = before @ new" "pieces g new"
      "breaker_open r2 \<longrightarrow> reporter_buffer r2 = [] \<and> prefix (texts new) received \<and> \<not> (\<forall>k. ok k)"
      "\<not> breaker_open r2 \<longrightarrow> closed_generations r2 = sealed \<and> received = texts new @ reporter_buffer r2
         \<and> active_generation r2 \<in> {Some g, None}"
      using r2(2) by (cases "breaker_open r2") (auto simp: in_generation_def)
    show ?thesis
      unfolding fin using new r2(3)
      by (intro exI [of _ new]) (auto simp: at_rest_def close_generation_def Let_def split: if_splits)
  qed
qed

section \<open>The calls of an answer\<close>

lemma run_ops_simps [simp]:
  "run_ops ok [] st = st" "run_ops ok (o1 # os) st = run_ops ok os (run_op ok o1 st)"
  "run_ops ok (os @ os') st = run_ops ok os' (run_ops ok os st)"
  by (simp_all add: run_ops_def)

lemma calls_of_split:
  "calls_of ops = a @ c # b \<Longrightarrow> \<exists>o1 o2. ops = o1 @ Call c # o2 \<and> calls_of o1 = a \<and> calls_of o2 = b"
proof (induction ops arbitrary: a rule: calls_of.induct)
  case (2 d ops)
  show ?case
  proof (cases a)
    case Nil
    then show ?thesis using 2(2) by (intro exI [of _ "[]"] exI [of _ ops]) simp
  next
    case (Cons x xs)
    then obtain o1 o2 where "ops = o1 @ Call c # o2" "calls_of o1 = xs" "calls_of o2 = b" using 2 by auto
    then show ?thesis using Cons 2(2) by (intro exI [of _ "Call d # o1"] exI [of _ o2]) simp
  qed
next
  case (3 t ops)
  then obtain o1 o2 where "ops = o1 @ Call c # o2" "calls_of o1 = a" "calls_of o2 = b" by auto
  then show ?case by (intro exI [of _ "Timer t # o1"] exI [of _ o2]) simp
qed simp

lemma run_appends:
  assumes "of_generation g (calls_of ops)" "1 \<le> g" "in_generation ok g sealed before received st"
  shows "in_generation ok g sealed before (received @ appended_text (calls_of ops)) (run_ops ok ops st)"
  using assms
proof (induction ops arbitrary: received st rule: calls_of.induct)
  case (2 c ops)
  then obtain t where c: "c = DeltaAppend g t" by (auto simp: of_generation_def)
  have "in_generation ok g sealed before (received @ t) (fst (reporter_append ok g t st))"
    using 2(4,3) by (rule in_generation_append)
  then have "in_generation ok g sealed before ((received @ t) @ appended_text (calls_of ops))
      (run_ops ok ops (fst (reporter_append ok g t st)))"
    by (rule 2(1) [rotated 2]) (use 2(2,3) in \<open>simp_all add: of_generation_def\<close>)
  then show ?case using c by simp
next
  case (3 task ops)
  then show ?case using in_generation_timer [OF 3(4,3)] by simp
qed simp

lemma run_timers: "calls_of ops = [] \<Longrightarrow> at_rest ok sealed p st \<Longrightarrow> at_rest ok sealed p (run_ops ok ops st)"
proof (induction ops arbitrary: st rule: calls_of.induct)
  case (3 task ops)
  then show ?case using at_rest_timer by simp
qed simp_all

lemma run_finished_generation:
  assumes "calls_of ops = appends @ [DeltaFinish g]" "of_generation g appends" "1 \<le> g" "g \<notin> set sealed"
    and "at_rest ok sealed before st"
  shows "\<exists>new. at_rest ok (List.insert g sealed) (before @ new) (run_ops ok ops st) \<and> pieces g new
    \<and> prefix (texts new) (appended_text appends)
    \<and> (\<not> breaker_open (fst (run_ops ok ops st)) \<longrightarrow> texts new = appended_text appends)"
proof -
  obtain o1 o2 where o: "ops = o1 @ Call (DeltaFinish g) # o2" "calls_of o1 = appends" "calls_of o2 = []"
    using calls_of_split [of ops appends "DeltaFinish g" "[]"] assms(1) by auto
  have "in_generation ok g sealed before (appended_text appends) (run_ops ok o1 st)"
    using run_appends [of g o1 ok sealed before "[]" st] at_rest_starts [OF assms(5,4)] assms(2,3) o(2) by simp
  from in_generation_finish [OF this assms(3)] obtain new where
    new: "at_rest ok (List.insert g sealed) (before @ new) (fst (reporter_finish ok g (run_ops ok o1 st)))"
      "pieces g new" "prefix (texts new) (appended_text appends)"
      "\<not> breaker_open (fst (fst (reporter_finish ok g (run_ops ok o1 st)))) \<longrightarrow> texts new = appended_text appends"
    by blast
  have broken: "breaker_open (fst (run_ops ok os s)) = breaker_open (fst s)" if "calls_of os = []" "at_rest ok sl q s" for os s sl q
    using that
  proof (induction os arbitrary: s rule: calls_of.induct)
    case (3 task os)
    have "breaker_open (fst (flush_after_interval ok task s)) = breaker_open (fst s)"
      using 3(3) by (cases s) (auto simp: at_rest_def flush_after_interval_def Let_def split: if_splits)
    then show ?case using 3(1) [OF _ at_rest_timer [OF 3(3)]] 3(2) by simp
  qed auto
  show ?thesis
    using new run_timers [OF o(3) new(1)] broken [OF o(3) new(1)] o(1) by auto
qed

lemma run_aborted_generation:
  assumes "calls_of ops = lost @ [DeltaAbort g]" "of_generation g lost" "1 \<le> g" "g \<notin> set sealed"
    and "at_rest ok sealed before st"
  shows "\<exists>new. at_rest ok (List.insert g sealed) (before @ new) (run_ops ok ops st) \<and> pieces g new
    \<and> prefix (texts new) (appended_text lost)"
proof -
  obtain o1 o2 where o: "ops = o1 @ Call (DeltaAbort g) # o2" "calls_of o1 = lost" "calls_of o2 = []"
    using calls_of_split [of ops lost "DeltaAbort g" "[]"] assms(1) by auto
  have "in_generation ok g sealed before (appended_text lost) (run_ops ok o1 st)"
    using run_appends [of g o1 ok sealed before "[]" st] at_rest_starts [OF assms(5,4)] assms(2,3) o(2) by simp
  from in_generation_abort [OF this] obtain new where
    "at_rest ok (List.insert g sealed) (before @ new) (reporter_abort g (run_ops ok o1 st))"
      "pieces g new" "prefix (texts new) (appended_text lost)" by blast
  moreover have "run_ops ok ops st = run_ops ok o2 (reporter_abort g (run_ops ok o1 st))" using o(1) by simp
  ultimately show ?thesis using run_timers [OF o(3)] by metis
qed

section \<open>The breaker\<close>

definition trailing_failures :: "delta_log \<Rightarrow> nat" where
  "trailing_failures published = length (takeWhile (\<lambda>(_, sent). \<not> sent) (rev published))"

definition breaker_ok :: "delta_state \<Rightarrow> bool" where
  "breaker_ok st \<longleftrightarrow> publish_failures (fst st) = trailing_failures (snd st)
     \<and> (breaker_open (fst st) \<longleftrightarrow> trailing_failures (snd st) = ANSWER_DELTA_BREAKER_FAILURE_THRESHOLD)
     \<and> trailing_failures (snd st) \<le> ANSWER_DELTA_BREAKER_FAILURE_THRESHOLD"

lemma breaker_ok_publish:
  "breaker_ok st \<Longrightarrow> \<not> breaker_open (fst st) \<Longrightarrow> breaker_ok (publish_event_locked ok e st)"
  by (cases st) (auto simp: breaker_ok_def publish_event_locked_def open_breaker_def trailing_failures_def
    ANSWER_DELTA_BREAKER_FAILURE_THRESHOLD_def Let_def)

lemma breaker_ok_control:
  "breaker_ok (r, p) \<Longrightarrow> publish_failures r' = publish_failures r \<Longrightarrow> breaker_open r' = breaker_open r \<Longrightarrow> breaker_ok (r', p)"
  by (simp add: breaker_ok_def)

lemma breaker_ok_flush: "breaker_ok (r, p) \<Longrightarrow> breaker_ok (fst (flush_loop m ok g (r, p)))"
proof (induction m ok g "(r, p)" arbitrary: r p rule: flush_loop.induct)
  case (1 m ok g r p)
  show ?case
  proof (cases "length (reporter_buffer r) \<ge> max 1 m \<and> \<not> breaker_open r")
    case True
    let ?e = "Answer_delta g (take ANSWER_DELTA_MAX_CHARACTERS (reporter_buffer r))"
    let ?r = "r\<lparr>reporter_buffer := drop ANSWER_DELTA_MAX_CHARACTERS (reporter_buffer r)\<rparr>"
    have ok: "breaker_ok (?r, p)" using 1(2) by (rule breaker_ok_control) simp_all
    show ?thesis
    proof (cases "valid_event ?e")
      case v: True
      obtain r1 p1 where e: "publish_event_locked ok ?e (?r, p) = (r1, p1)" by fastforce
      have "breaker_ok (r1, p1)" using breaker_ok_publish [OF ok, of ok ?e] True e by simp
      moreover have sent: "publish_checked ok ?e (?r, p) = ((r1, p1), None)"
        using v e by (simp add: publish_checked_def del: valid_event.simps)
      ultimately have "breaker_ok (fst (flush_loop m ok g (r1, p1)))" using 1(1) [OF True] by simp
      then show ?thesis using True sent by (subst flush_loop.simps) simp
    next
      case False
      then show ?thesis using ok True by (subst flush_loop.simps) (simp add: publish_checked_def del: valid_event.simps)
    qed
  next
    case False
    then show ?thesis using 1(2) by (subst flush_loop.simps) (simp only: if_False fst_conv)
  qed
qed

lemma breaker_ok_append:
  assumes "breaker_ok (r, p)"
  shows "breaker_ok (fst (reporter_append ok g t (r, p)))"
proof -
  obtain r1 active where act: "activate_generation g r = (r1, active)" by fastforce
  have act_ctl: "publish_failures r1 = publish_failures r" "breaker_open r1 = breaker_open r"
    using act by (auto simp: activate_generation_def Let_def split: if_splits)
  define r2 where "r2 = r1\<lparr>reporter_buffer := reporter_buffer r1 @ t\<rparr>"
  define flushed where "flushed = (if length (reporter_buffer r2) \<ge> ANSWER_DELTA_MAX_CHARACTERS
     then flush_sized_chunks ok g (cancel_timer r2, p) else ((r2, p), None))"
  obtain r3 p3 x where r3: "flushed = ((r3, p3), x)" by (metis surj_pair)
  have "breaker_ok (cancel_timer r2, p)" "breaker_ok (r2, p)" "breaker_ok (r1, p)"
    using act_ctl by (auto intro!: breaker_ok_control [OF assms] simp: r2_def cancel_timer_def)
  then have "breaker_ok (fst flushed)" by (auto simp: flushed_def flush_sized_chunks_def intro: breaker_ok_flush)
  then have ok3: "breaker_ok (r3, p3)" using r3 by simp
  then have "breaker_ok (start_timer g r3, p3)"
    by (rule breaker_ok_control) (simp_all add: start_timer_def)
  then show ?thesis
    using act assms ok3 r3 \<open>breaker_ok (r1, p)\<close>
    by (simp add: reporter_append_def Let_def r2_def [symmetric] flushed_def [symmetric] split: option.splits)
qed

lemma breaker_ok_finish:
  assumes "breaker_ok (r, p)"
  shows "breaker_ok (fst (reporter_finish ok g (r, p)))"
proof -
  define r1 where "r1 = cancel_timer r"
  define flushed where "flushed = (if active_generation r1 = Some g \<and> reporter_buffer r1 \<noteq> []
     then flush_pending ok g (r1, p) else ((r1, p), None))"
  obtain r3 p3 x where r3: "flushed = ((r3, p3), x)" by (metis surj_pair)
  have "breaker_ok (r1, p)" by (rule breaker_ok_control [OF assms]) (simp_all add: r1_def cancel_timer_def)
  then have "breaker_ok (fst flushed)" by (auto simp: flushed_def flush_pending_def intro: breaker_ok_flush)
  then have ok3: "breaker_ok (r3, p3)" using r3 by simp
  then have "breaker_ok (close_generation g r3, p3)"
    by (rule breaker_ok_control) (simp_all add: close_generation_def Let_def)
  then show ?thesis
    using assms ok3 r3
    by (simp add: reporter_finish_def Let_def r1_def [symmetric] flushed_def [symmetric] split: option.splits)
qed

lemma breaker_ok_op:
  assumes "breaker_ok st"
  shows "breaker_ok (run_op ok op st)"
proof -
  obtain r p where st: "st = (r, p)" by fastforce
  note ok = assms [unfolded st]
  show ?thesis
  proof (cases op)
    case (Call c)
    then show ?thesis
    proof (cases c)
      case (DeltaReset g)
      then show ?thesis
        using Call ok breaker_ok_publish [OF ok] by (simp add: st reporter_reset_def publish_checked_def)
    next
      case (DeltaAbort g)
      then show ?thesis
        using Call ok by (auto simp: st reporter_abort_def close_generation_def cancel_timer_def Let_def
            intro: breaker_ok_control)
    qed (use st breaker_ok_append [OF ok] breaker_ok_finish [OF ok] in simp_all)
  next
    case (Timer task)
    have "breaker_ok (r\<lparr>timer_task := None\<rparr>, p)" by (rule breaker_ok_control [OF ok]) simp_all
    then show ?thesis
      using Timer ok by (auto simp: st flush_after_interval_def flush_pending_def Let_def intro: breaker_ok_flush)
  qed
qed

lemma breaker_ok_ops: "breaker_ok st \<Longrightarrow> breaker_ok (run_ops ok ops st)"
proof (induction ops arbitrary: st)
  case (Cons op ops)
  show ?case using Cons.IH [OF breaker_ok_op [OF Cons.prems]] by simp
qed simp

lemma breaker_ok_new: "breaker_ok (new_reporter, [])"
  by (simp add: breaker_ok_def new_reporter_def trailing_failures_def ANSWER_DELTA_BREAKER_FAILURE_THRESHOLD_def)

section \<open>A ready answer in the live stream\<close>

lemma at_rest_new: "at_rest ok [] [] (new_reporter, [])"
  by (simp add: at_rest_def new_reporter_def)

lemma published_answer_first:
  assumes "calls_of ops = appends @ [DeltaFinish 1]" "of_generation 1 appends"
  shows "\<exists>new. snd (run_ops ok ops (new_reporter, [])) = new \<and> pieces 1 new
    \<and> prefix (texts new) (appended_text appends)
    \<and> (\<not> breaker_open (fst (run_ops ok ops (new_reporter, []))) \<longrightarrow> texts new = appended_text appends)"
  using run_finished_generation [OF assms _ _ at_rest_new] by (auto simp: at_rest_def)

lemma published_answer_second:
  assumes "calls_of ops = (lost @ [DeltaAbort 1, DeltaReset 2]) @ appends @ [DeltaFinish 2]"
    and "of_generation 1 lost" "of_generation 2 appends"
  shows "\<exists>new1 marks new2. snd (run_ops ok ops (new_reporter, [])) = new1 @ marks @ new2
    \<and> pieces 1 new1 \<and> prefix (texts new1) (appended_text lost) \<and> map fst marks \<in> {[], [Answer_reset 2]} \<and> pieces 2 new2
    \<and> prefix (texts new2) (appended_text appends)
    \<and> (\<not> breaker_open (fst (run_ops ok ops (new_reporter, []))) \<longrightarrow>
         map fst marks = [Answer_reset 2] \<and> texts new2 = appended_text appends)"
proof -
  obtain o1 o2 where o: "ops = o1 @ Call (DeltaReset 2) # o2" "calls_of o1 = lost @ [DeltaAbort 1]"
    "calls_of o2 = appends @ [DeltaFinish 2]"
    using calls_of_split [of ops "lost @ [DeltaAbort 1]" "DeltaReset 2" "appends @ [DeltaFinish 2]"] assms(1) by auto
  obtain new1 where n1: "at_rest ok [1] new1 (run_ops ok o1 (new_reporter, []))" "pieces 1 new1"
    "prefix (texts new1) (appended_text lost)"
    using run_aborted_generation [OF o(2) assms(2) _ _ at_rest_new, of ok] by auto
  define s1 where "s1 = run_ops ok o1 (new_reporter, [])"
  define s2 where "s2 = fst (reporter_reset ok 2 s1)"
  obtain p2 where p2: "at_rest ok [1] p2 s2"
    "if breaker_open (fst s1) then p2 = new1 \<and> breaker_open (fst s2)
     else p2 = new1 @ [(Answer_reset 2, ok (length new1))]"
    using at_rest_reset [OF n1(1), of 2] unfolding s2_def s1_def by auto
  then obtain marks where marks: "p2 = new1 @ marks" "map fst marks \<in> {[], [Answer_reset 2]}"
    "breaker_open (fst s1) \<and> breaker_open (fst s2) \<or> map fst marks = [Answer_reset 2]"
    by (cases "breaker_open (fst s1)") auto
  obtain new2 where n2: "at_rest ok (List.insert 2 [1]) (p2 @ new2) (run_ops ok o2 s2)" "pieces 2 new2"
    "prefix (texts new2) (appended_text appends)"
    "\<not> breaker_open (fst (run_ops ok o2 s2)) \<longrightarrow> texts new2 = appended_text appends"
    using run_finished_generation [OF o(3) assms(3) _ _ p2(1)] by auto
  have run: "run_ops ok ops (new_reporter, []) = run_ops ok o2 s2"
    by (simp add: o(1) s2_def s1_def)
  have stays: "breaker_open (fst (run_ops ok os s))" if "breaker_open (fst s)" for os s
    using that
  proof (induction os arbitrary: s)
    case (Cons op os)
    obtain r p where s: "s = (r, p)" by fastforce
    have "breaker_open (fst (run_op ok op s))"
    proof (cases op)
      case (Call c)
      then show ?thesis
        using Cons.prems s
        by (cases c) (simp_all add: reporter_append_def reporter_reset_def reporter_finish_def reporter_abort_def
            close_generation_def cancel_timer_def Let_def)
    next
      case (Timer task)
      then show ?thesis using Cons.prems s by (simp add: flush_after_interval_def Let_def)
    qed
    then show ?case using Cons.IH by simp
  qed simp
  have sent: "snd (run_ops ok o2 s2) = new1 @ marks @ new2" using n2(1) marks(1) by (simp add: at_rest_def)
  have whole: "\<not> breaker_open (fst (run_ops ok o2 s2)) \<longrightarrow>
      map fst marks = [Answer_reset 2] \<and> texts new2 = appended_text appends"
    using n2(4) marks(3) stays by blast
  show ?thesis
    unfolding run
    by (intro exI [of _ new1] exI [of _ marks] exI [of _ new2] conjI sent n1(2,3) n2(2,3) marks(2) whole)
qed

lemma published_in_order:
  assumes "answer_with_evidence evidence authorized stream = (AnswerReady n draft, calls)"
    and "calls_of ops = calls" "run_ops ok ops (new_reporter, []) = (r, published)"
  shows "\<exists>lost marks new. published = lost @ marks @ new
    \<and> pieces 1 lost \<and> map fst marks \<in> {[], [Answer_reset 2]} \<and> (n = 1 \<longrightarrow> lost = [] \<and> marks = []) \<and> pieces (int n) new
    \<and> prefix (texts new) (strip (strip_citation_markers (concat (fst (stream n)))))
    \<and> (\<not> breaker_open r \<longrightarrow> texts new = strip (strip_citation_markers (concat (fst (stream n))))
         \<and> (n = 2 \<longrightarrow> map fst marks = [Answer_reset 2]))
    \<and> (breaker_open r \<longleftrightarrow> trailing_failures published = ANSWER_DELTA_BREAKER_FAILURE_THRESHOLD)"
proof -
  obtain before appends where c: "calls = before @ appends @ [DeltaFinish (int n)]" "of_generation (int n) appends"
    "appended_text appends = strip (strip_citation_markers (concat (fst (stream n))))"
    "n = 1 \<and> before = [] \<or> n = 2 \<and> (\<exists>lost. of_generation 1 lost \<and> before = lost @ [DeltaAbort 1, DeltaReset 2])"
    using ready_answer_calls [OF assms(1)] by blast
  have breaker: "breaker_open r \<longleftrightarrow> trailing_failures published = ANSWER_DELTA_BREAKER_FAILURE_THRESHOLD"
    using breaker_ok_ops [OF breaker_ok_new, of ok ops] assms(3) by (simp add: breaker_ok_def)
  from c(4) show ?thesis
  proof
    assume n: "n = 1 \<and> before = []"
    then have "calls_of ops = appends @ [DeltaFinish 1]" "of_generation 1 appends" using c(1,2) assms(2) by auto
    from published_answer_first [OF this, of ok, unfolded assms(3) fst_conv snd_conv] obtain new where "published = new" "pieces 1 new"
      "prefix (texts new) (appended_text appends)" "\<not> breaker_open r \<longrightarrow> texts new = appended_text appends"
      by blast
    then show ?thesis using n c(3) breaker
      by (intro exI [of _ "[]"] exI [of _ new]) simp
  next
    assume n: "n = 2 \<and> (\<exists>lost. of_generation 1 lost \<and> before = lost @ [DeltaAbort 1, DeltaReset 2])"
    then obtain lost where l: "of_generation 1 lost" "before = lost @ [DeltaAbort 1, DeltaReset 2]" by blast
    then have "calls_of ops = (lost @ [DeltaAbort 1, DeltaReset 2]) @ appends @ [DeltaFinish 2]"
      "of_generation 2 appends" using c(1,2) assms(2) n by auto
    from published_answer_second [OF this(1) l(1) this(2), of ok, unfolded assms(3) fst_conv snd_conv] obtain new1 marks new2 where
      "published = new1 @ marks @ new2" "pieces 1 new1" "map fst marks \<in> {[], [Answer_reset 2]}" "pieces 2 new2"
      "prefix (texts new2) (appended_text appends)"
      "\<not> breaker_open r \<longrightarrow> map fst marks = [Answer_reset 2] \<and> texts new2 = appended_text appends"
      by (elim exE conjE) (rule that; assumption)
    then show ?thesis using n c(3) breaker
      by (intro exI [of _ new1] exI [of _ marks] exI [of _ new2]) simp
  qed
qed

text \<open>
  C21. However the fragments of a ready evidence answer arrive, whenever the flush timer fires and
  whichever publications fail: the publications are pieces of at most 512 characters, first of a
  lost generation, then its reset, then of the generation n of the answer. The pieces of
  generation n are the visible answer from its start, and the whole of it unless the breaker
  opened, which happens exactly when the last three publications failed.
\<close>

theorem answer_is_published_in_order:
  assumes "answer_with_evidence evidence authorized stream = (AnswerReady n draft, calls)"
    and "calls_of ops = calls" "run_ops ok ops (new_reporter, []) = (r, published)"
  shows "\<exists>lost marks new. published = lost @ marks @ new
    \<and> pieces 1 lost \<and> map fst marks \<in> {[], [Answer_reset 2]} \<and> (n = 1 \<longrightarrow> lost = [] \<and> marks = []) \<and> pieces (int n) new
    \<and> prefix (texts new) (strip (strip_citation_markers (concat (fst (stream n)))))
    \<and> (\<not> breaker_open r \<longrightarrow> texts new = strip (strip_citation_markers (concat (fst (stream n))))
         \<and> (n = 2 \<longrightarrow> map fst marks = [Answer_reset 2]))
    \<and> (breaker_open r \<longleftrightarrow> trailing_failures published = ANSWER_DELTA_BREAKER_FAILURE_THRESHOLD)"
  using assms by (rule published_in_order)

lemma two_attempts:
  "answer_with_evidence [] True (\<lambda>n. ([[65, 66]], if n = 1 then StreamTruncated else StreamDone))
     = (AnswerReady 2 \<lparr>draft_answer = [65, 66], cited_refs = []\<rparr>,
        [DeltaAppend 1 [65, 66], DeltaAbort 1, DeltaReset 2, DeltaAppend 2 [65, 66], DeltaFinish 2])"
  by (simp add: answer_with_evidence_def ANSWER_MAX_ATTEMPTS_def upt_rec generate_draft_def
      draft_append_def new_draft_def new_filter_def filter_append_def append_loop.simps
      append_step_def is_space_def draft_exit_def draft_abort_def draft_commit_def filter_finish_def
      retriable_failure_def finalize_evidence_answer_draft_def strip_def lstrip_def rstrip_def
      parse_citation_refs_def marker_refs.simps non_blank_text_def constrained_strip_def
      is_white_space_def validate_draft_citations_def)

lemma published_two_attempts:
  "run_ops (\<lambda>_. True)
     [Call (DeltaAppend 1 [65, 66]), Timer (0, 1), Call (DeltaAbort 1), Call (DeltaReset 2), Call (DeltaAppend 2 [65, 66]),
      Call (DeltaFinish 2)] (new_reporter, [])
   = (\<lparr>reporter_buffer = [], active_generation = None, closed_generations = [2, 1], timer_task = None, timers_started = 2,
       publish_failures = 0, breaker_open = False\<rparr>,
      [(Answer_delta 1 [65, 66], True), (Answer_reset 2, True), (Answer_delta 2 [65, 66], True)])"
  by (simp add: new_reporter_def reporter_append_def activate_generation_def start_timer_def flush_after_interval_def
      flush_pending_def flush_loop.simps publish_checked_def publish_event_locked_def reporter_abort_def
      close_generation_def cancel_timer_def reporter_reset_def reporter_finish_def ANSWER_DELTA_MAX_CHARACTERS_def
      ANSWER_DELTA_BREAKER_FAILURE_THRESHOLD_def)

lemma answer_is_published_in_order_witness:
  "\<exists>lost marks new. [(Answer_delta 1 [65, 66], True), (Answer_reset 2, True), (Answer_delta 2 [65, 66], True)]
     = lost @ marks @ new \<and> pieces 1 lost \<and> pieces (int 2) new"
proof -
  have "calls_of [Call (DeltaAppend 1 [65, 66]), Timer (0, 1), Call (DeltaAbort 1), Call (DeltaReset 2),
      Call (DeltaAppend 2 [65, 66]), Call (DeltaFinish 2)]
    = [DeltaAppend 1 [65, 66], DeltaAbort 1, DeltaReset 2, DeltaAppend 2 [65, 66], DeltaFinish 2]" by simp
  from answer_is_published_in_order [OF two_attempts this published_two_attempts] show ?thesis
    by (elim exE conjE) (intro exI conjI)
qed

end
