(* ===== verification/LiveReader.thy ===== *)
theory LiveReader
  imports AnswerDelta
begin

text \<open>
  What a reader sees of a stream: paging and cursors deliver every event of an attempt once and
  in order; what the publisher of an attempt appended is delivered as it was published; and the
  text of a ready answer reaches the reader.
\<close>

section \<open>The events of an attempt in a stream\<close>

definition newer_entry :: "int \<Rightarrow> raw_entry \<Rightarrow> bool" where
  "newer_entry e x = (case decode_envelope (fst x) (snd x) of None \<Rightarrow> False | Some d \<Rightarrow> decoded_epoch d > e)"

definition entry_events :: "(json \<Rightarrow> int option) \<Rightarrow> int \<Rightarrow> raw_entry \<Rightarrow> stream_entry list" where
  "entry_events lax_int e x =
     (case decode_envelope (fst x) (snd x) of
        None \<Rightarrow> []
      | Some d \<Rightarrow>
          if decoded_epoch d = e then
            (case decode_event lax_int d of
               None \<Rightarrow> []
             | Some ev \<Rightarrow> [\<lparr>entry_id = decoded_id d, entry_epoch = decoded_epoch d, entry_event = ev\<rparr>])
          else [])"

text \<open>The events of an attempt before the first entry of a newer one.\<close>

definition attempt_events :: "(json \<Rightarrow> int option) \<Rightarrow> int \<Rightarrow> raw_entry list \<Rightarrow> stream_entry list" where
  "attempt_events lax_int e es = concat (map (entry_events lax_int e) (takeWhile (\<lambda>x. \<not> newer_entry e x) es))"

lemma attempt_events_append:
  "\<forall>x \<in> set front. \<not> newer_entry e x \<Longrightarrow>
   attempt_events lax_int e (front @ rest) = concat (map (entry_events lax_int e) front) @ attempt_events lax_int e rest"
  by (simp add: attempt_events_def takeWhile_append2)

definition cursor_after :: "pystr option \<Rightarrow> raw_entry list \<Rightarrow> pystr option" where
  "cursor_after cursor front = (if front = [] then cursor else Some (fst (last front)))"

lemma cursor_after_Cons: "cursor_after (Some (fst x)) front = cursor_after cursor (x # front)"
  by (simp add: cursor_after_def)

text \<open>
  The scan consumes a front part of the page without newer entries; it stops at the end, at a
  full page, or before a newer entry.
\<close>

lemma scan_entries_spec:
  assumes "length acc < AGENT_RUN_LIVE_STREAM_PAGE_SIZE"
  shows "\<exists>front rest. raw = front @ rest \<and> (\<forall>x \<in> set front. \<not> newer_entry e x)
    \<and> (case scan_entries lax_int e raw cursor acc of
         Inl (observed, c) \<Rightarrow> acc = [] \<and> concat (map (entry_events lax_int e) front) = [] \<and> observed > e
           \<and> c = cursor_after cursor front \<and> (\<exists>x r. rest = x # r \<and> newer_entry e x)
       | Inr (events, c) \<Rightarrow> events = acc @ concat (map (entry_events lax_int e) front) \<and> c = cursor_after cursor front
           \<and> (events = [] \<longrightarrow> rest = []))"
  using assms
proof (induction raw arbitrary: cursor acc)
  case Nil
  then show ?case by (simp add: cursor_after_def)
next
  case (Cons x raw)
  obtain i fs where x: "x = (i, fs)" by fastforce
  have skip: ?case if old: "\<not> newer_entry e x" "entry_events lax_int e x = new" "length (acc @ new) < AGENT_RUN_LIVE_STREAM_PAGE_SIZE"
    "scan_entries lax_int e (x # raw) cursor acc = scan_entries lax_int e raw (Some i) (acc @ new)" for new
  proof -
    obtain front rest where u: "raw = front @ rest" "\<forall>y \<in> set front. \<not> newer_entry e y"
      "case scan_entries lax_int e raw (Some i) (acc @ new) of
         Inl (observed, c) \<Rightarrow> acc @ new = [] \<and> concat (map (entry_events lax_int e) front) = [] \<and> observed > e
           \<and> c = cursor_after (Some i) front \<and> (\<exists>x r. rest = x # r \<and> newer_entry e x)
       | Inr (events, c) \<Rightarrow> events = (acc @ new) @ concat (map (entry_events lax_int e) front) \<and> c = cursor_after (Some i) front
           \<and> (events = [] \<longrightarrow> rest = [])"
      using Cons.IH [OF old(3)] by blast
    define result where "result = scan_entries lax_int e raw (Some i) (acc @ new)"
    have events: "concat (map (entry_events lax_int e) (x # front)) = new @ concat (map (entry_events lax_int e) front)"
      using old(2) by simp
    have cursors: "cursor_after cursor (x # front) = cursor_after (Some i) front"
      using cursor_after_Cons [of x front cursor] x by simp
    show ?thesis
      unfolding old(4) result_def [symmetric]
    proof (rule exI [of _ "x # front"], rule exI [of _ rest], intro conjI)
      show "case result of
         Inl (observed, c) \<Rightarrow> acc = [] \<and> concat (map (entry_events lax_int e) (x # front)) = [] \<and> observed > e
           \<and> c = cursor_after cursor (x # front) \<and> (\<exists>x r. rest = x # r \<and> newer_entry e x)
       | Inr (events, c) \<Rightarrow> events = acc @ concat (map (entry_events lax_int e) (x # front)) \<and> c = cursor_after cursor (x # front)
           \<and> (events = [] \<longrightarrow> rest = [])"
        unfolding events cursors using u(3) unfolding result_def [symmetric]
        by (cases result) auto
    qed (use u(1,2) old(1) in auto)
  qed
  show ?case
  proof (cases "decode_envelope i fs")
    case None
    then show ?thesis using skip [of "[]"] Cons.prems by (simp add: x newer_entry_def entry_events_def)
  next
    case (Some d)
    consider (older) "decoded_epoch d < e" | (newer) "decoded_epoch d > e" | (same) "decoded_epoch d = e" by linarith
    then show ?thesis
    proof cases
      case older
      then show ?thesis using Some skip [of "[]"] Cons.prems by (simp add: x newer_entry_def entry_events_def)
    next
      case newer
      then show ?thesis
        using Some by (intro exI [of _ "[]"] exI [of _ "x # raw"]) (simp add: x newer_entry_def cursor_after_def)
    next
      case same
      define new where "new = (case decode_event lax_int d of None \<Rightarrow> []
        | Some ev \<Rightarrow> [\<lparr>entry_id = decoded_id d, entry_epoch = decoded_epoch d, entry_event = ev\<rparr>])"
      have new: "entry_events lax_int e x = new" "\<not> newer_entry e x" "length new \<le> 1"
        using Some same by (auto simp: x entry_events_def newer_entry_def new_def split: option.splits)
      have scan: "scan_entries lax_int e (x # raw) cursor acc =
          (if length (acc @ new) = AGENT_RUN_LIVE_STREAM_PAGE_SIZE then Inr (acc @ new, Some i)
           else scan_entries lax_int e raw (Some i) (acc @ new))"
        using Some same by (simp add: x new_def Let_def split: option.splits)
      show ?thesis
      proof (cases "length (acc @ new) = AGENT_RUN_LIVE_STREAM_PAGE_SIZE")
        case True
        then have "acc @ new \<noteq> []" by (auto simp: AGENT_RUN_LIVE_STREAM_PAGE_SIZE_def)
        moreover have full: "scan_entries lax_int e (x # raw) cursor acc = Inr (acc @ new, Some i)"
          using True scan by simp
        ultimately show ?thesis
          unfolding full using new(1,2)
          by - (rule exI [of _ "[x]"], rule exI [of _ raw], auto simp: cursor_after_def x)
      next
        case False
        then show ?thesis using skip [OF new(2,1)] scan new(3) Cons.prems by simp
      qed
    qed
  qed
qed

section \<open>Following a stream\<close>

text \<open>
  The documented replies of the server on an unchanging stream: its first entries, and the first
  entries behind an id. The ids of a stream increase.
\<close>

definition increasing_ids :: "raw_entry list \<Rightarrow> bool" where
  "increasing_ids es \<longleftrightarrow> (\<forall>x \<in> set es. \<exists>p. stream_id_parts (fst x) = Inr p)
     \<and> sorted_wrt (\<lambda>x y. is_stream_id_before (fst x) (fst y) = Inr True) es"

definition serves :: "stream_replies \<Rightarrow> raw_entry list \<Rightarrow> bool" where
  "serves r es \<longleftrightarrow> \<not> reply_late r \<and> reply_exists r = Some (es \<noteq> [])
     \<and> (\<forall>n. reply_first r n = Some (take n es))
     \<and> (\<forall>c n. reply_after r c n = Some (take n (filter (\<lambda>x. is_stream_id_before c (fst x) = Inr True) es)))"

text \<open>Reading again from the cursor while there are events, or only entries of older attempts.\<close>

fun follow :: "(json \<Rightarrow> int option) \<Rightarrow> stream_replies \<Rightarrow> int \<Rightarrow> nat \<Rightarrow> pystr option \<Rightarrow> stream_entry list \<times> read_status option" where
  "follow lax_int r e 0 cursor = ([], None)"
| "follow lax_int r e (Suc n) cursor =
     (case read_after lax_int r e cursor of
        Inl x \<Rightarrow> ([], None)
      | Inr res \<Rightarrow>
          if read_status res \<in> {Read_events, Read_attempt_absent}
          then apfst ((@) (read_entries res))
                 (follow lax_int r e n (if read_cursor res = None then cursor else read_cursor res))
          else ([], Some (read_status res)))"

lemma stream_id_before_total:
  assumes "stream_id_parts a = Inr p" "stream_id_parts b = Inr q"
  shows "is_stream_id_before a b = Inr (fst p < fst q \<or> fst p = fst q \<and> snd p < snd q)"
  using assms by (cases p; cases q) (simp add: is_stream_id_before_def)

lemma entries_behind:
  assumes "increasing_ids (pre @ x # post)"
  shows "filter (\<lambda>y. is_stream_id_before (fst x) (fst y) = Inr True) (pre @ x # post) = post"
proof -
  have parts: "\<exists>p. stream_id_parts (fst y) = Inr p" if "y \<in> set (pre @ x # post)" for y
    using assms that by (auto simp: increasing_ids_def)
  have "is_stream_id_before (fst x) (fst y) \<noteq> Inr True" if "y \<in> set pre \<or> y = x" for y
  proof -
    note y = that
    have before: "is_stream_id_before (fst y) (fst x) = Inr True \<or> y = x"
      using assms that by (auto simp: increasing_ids_def sorted_wrt_append)
    obtain p where p: "stream_id_parts (fst x) = Inr p" using parts [of x] by auto
    obtain q where q: "stream_id_parts (fst y) = Inr q" using parts [of y] y by auto
    show ?thesis
    proof (cases "y = x")
      case True
      then show ?thesis unfolding True stream_id_before_total [OF p p] by simp
    next
      case False
      then have "is_stream_id_before (fst y) (fst x) = Inr True" using before by simp
      then show ?thesis unfolding stream_id_before_total [OF p q] stream_id_before_total [OF q p] by auto
    qed
  qed
  then have "filter (\<lambda>y. is_stream_id_before (fst x) (fst y) = Inr True) pre = []"
    "is_stream_id_before (fst x) (fst x) \<noteq> Inr True" by (auto simp: filter_empty_conv)
  moreover have "filter (\<lambda>y. is_stream_id_before (fst x) (fst y) = Inr True) post = post"
    using assms by (auto simp: increasing_ids_def sorted_wrt_append filter_id_conv)
  ultimately show ?thesis by simp
qed

lemma not_before_earliest:
  assumes "increasing_ids es" "x \<in> set es"
  shows "is_stream_id_before (fst x) (fst (hd es)) = Inr False"
proof -
  obtain y ys where es: "es = y # ys" using assms(2) by (cases es) auto
  obtain p q where p: "stream_id_parts (fst x) = Inr p" "stream_id_parts (fst y) = Inr q"
    using assms es by (auto simp: increasing_ids_def)
  have "\<not> (fst p < fst q \<or> fst p = fst q \<and> snd p < snd q)"
  proof (cases "x = y")
    case True
    then show ?thesis using p by simp
  next
    case False
    then have "is_stream_id_before (fst y) (fst x) = Inr True"
      using assms es by (simp add: increasing_ids_def)
    then show ?thesis unfolding stream_id_before_total [OF p(2,1)] by auto
  qed
  then show ?thesis unfolding es list.sel stream_id_before_total [OF p] by simp
qed

lemma read_page:
  assumes "increasing_ids (pre @ post)" "serves r (pre @ post)" "1 \<le> e"
    and "pre = [] \<Longrightarrow> post \<noteq> [] \<and> length post \<le> AGENT_RUN_LIVE_STREAM_MAXLEN"
  shows "if post = [] then read_after lax_int r e (cursor_after None pre)
      = Inr \<lparr>read_status = Read_empty, read_entries = [], read_cursor = cursor_after None pre, observed_epoch = None\<rparr>
    else \<exists>k. take k post \<noteq> [] \<and> read_after lax_int r e (cursor_after None pre)
      = (case entries_result lax_int (take k post) e (cursor_after None pre) of
           Inr res \<Rightarrow> Inr res
         | Inl _ \<Rightarrow> make_read_result Read_unavailable [] None None)"
proof (cases pre rule: rev_cases)
  case Nil
  then have post: "post \<noteq> []" "length post \<le> AGENT_RUN_LIVE_STREAM_MAXLEN" using assms(4) by auto
  then obtain y ys where y: "post = y # ys" by (cases post) auto
  have "reply_first r AGENT_RUN_LIVE_STREAM_MAXLEN = Some post"
    using assms(2) post(2) Nil by (simp add: serves_def)
  then have "read_after lax_int r e None = (case entries_result lax_int post e None of
       Inr res \<Rightarrow> Inr res | Inl _ \<Rightarrow> make_read_result Read_unavailable [] None None)"
    using assms(2,3) y
    by (simp add: read_after_def read_after_unguarded_def validate_attempt_epoch_def serves_def split: sum.splits)
  then have "\<exists>k. take k post \<noteq> [] \<and> read_after lax_int r e None = (case entries_result lax_int (take k post) e None of
       Inr res \<Rightarrow> Inr res | Inl _ \<Rightarrow> make_read_result Read_unavailable [] None None)"
    using post(1) by (intro exI [of _ "length post"]) simp
  then show ?thesis using post(1) Nil by (simp add: cursor_after_def)
next
  case (snoc pre' x)
  have behind: "filter (\<lambda>y. is_stream_id_before (fst x) (fst y) = Inr True) (pre @ post) = post"
    using entries_behind [of pre' x post] assms(1) snoc by simp
  obtain y ys where y: "pre @ post = y # ys" using snoc by (cases "pre @ post") auto
  have first: "reply_first r 1 = Some [y]" using assms(2) y by (simp add: serves_def)
  have "x \<in> set (pre @ post)" using snoc by simp
  from not_before_earliest [OF assms(1) this] have ahead: "is_stream_id_before (fst x) (fst y) = Inr False"
    unfolding y by simp
  have after: "reply_after r (fst x) AGENT_RUN_LIVE_STREAM_PAGE_SIZE = Some (take AGENT_RUN_LIVE_STREAM_PAGE_SIZE post)"
  proof -
    have "reply_after r (fst x) AGENT_RUN_LIVE_STREAM_PAGE_SIZE = Some (take AGENT_RUN_LIVE_STREAM_PAGE_SIZE
        (filter (\<lambda>y. is_stream_id_before (fst x) (fst y) = Inr True) (pre @ post)))"
      using assms(2) unfolding serves_def by blast
    then show ?thesis unfolding behind .
  qed
  have late: "\<not> reply_late r" using assms(2) by (simp add: serves_def)
  have cursor: "cursor_after None pre = Some (fst x)" using snoc by (simp add: cursor_after_def)
  show ?thesis
  proof (cases post)
    case Nil
    then show ?thesis
      using first ahead after late assms(3)
      by (cases y) (simp add: cursor read_after_def read_after_unguarded_def validate_attempt_epoch_def make_read_result_def)
  next
    case (Cons z zs)
    have page: "take AGENT_RUN_LIVE_STREAM_PAGE_SIZE post \<noteq> []"
      using Cons by (simp add: AGENT_RUN_LIVE_STREAM_PAGE_SIZE_def)
    then obtain w ws where w: "take AGENT_RUN_LIVE_STREAM_PAGE_SIZE post = w # ws"
      by (cases "take AGENT_RUN_LIVE_STREAM_PAGE_SIZE post") auto
    have "read_after lax_int r e (Some (fst x)) =
      (case entries_result lax_int (take AGENT_RUN_LIVE_STREAM_PAGE_SIZE post) e (Some (fst x)) of
         Inr res \<Rightarrow> Inr res | Inl _ \<Rightarrow> make_read_result Read_unavailable [] None None)"
      using first ahead after late assms(3) unfolding w
      by (cases y) (simp add: read_after_def read_after_unguarded_def validate_attempt_epoch_def split: sum.split)
    then show ?thesis using page Cons unfolding cursor by auto
  qed
qed

lemma follow_from:
  assumes "increasing_ids (pre @ post)" "serves r (pre @ post)" "1 \<le> e" "\<forall>x \<in> set pre. \<not> newer_entry e x"
    and "pre = [] \<Longrightarrow> post \<noteq> [] \<and> length post \<le> AGENT_RUN_LIVE_STREAM_MAXLEN" "length post < n"
  shows "follow lax_int r e n (cursor_after None pre) =
    (attempt_events lax_int e post, Some (if \<exists>x \<in> set post. newer_entry e x then Read_attempt_advanced else Read_empty))"
  using assms
proof (induction n arbitrary: pre post)
  case (Suc n)
  show ?case
  proof (cases "post = []")
    case True
    then show ?thesis using read_page [OF Suc.prems(1-3,5), of lax_int] by (simp add: attempt_events_def)
  next
    case False
    then obtain k where k: "take k post \<noteq> []" "read_after lax_int r e (cursor_after None pre)
      = (case entries_result lax_int (take k post) e (cursor_after None pre) of
           Inr res \<Rightarrow> Inr res | Inl _ \<Rightarrow> make_read_result Read_unavailable [] None None)"
      using read_page [OF Suc.prems(1-3,5), of lax_int] by auto
    obtain front rest where f: "take k post = front @ rest" "\<forall>x \<in> set front. \<not> newer_entry e x"
      "case scan_entries lax_int e (take k post) (cursor_after None pre) [] of
         Inl (observed, c) \<Rightarrow> ([] :: stream_entry list) = [] \<and> concat (map (entry_events lax_int e) front) = [] \<and> observed > e
           \<and> c = cursor_after (cursor_after None pre) front \<and> (\<exists>x r. rest = x # r \<and> newer_entry e x)
       | Inr (events, c) \<Rightarrow> events = [] @ concat (map (entry_events lax_int e) front) \<and> c = cursor_after (cursor_after None pre) front
           \<and> (events = [] \<longrightarrow> rest = [])"
    proof -
      have "length ([] :: stream_entry list) < AGENT_RUN_LIVE_STREAM_PAGE_SIZE"
        by (simp add: AGENT_RUN_LIVE_STREAM_PAGE_SIZE_def)
      from scan_entries_spec [OF this, of "take k post" e lax_int "cursor_after None pre"]
      show ?thesis by (elim exE conjE) (rule that)
    qed
    define post' where "post' = rest @ drop k post"
    have post: "post = front @ post'" using f(1) by (metis append.assoc append_take_drop_id post'_def)
    have events: "attempt_events lax_int e post = concat (map (entry_events lax_int e) front) @ attempt_events lax_int e post'"
      unfolding post by (rule attempt_events_append [OF f(2)])
    have nxt: "cursor_after (cursor_after None pre) front = cursor_after None (pre @ front)"
      by (simp add: cursor_after_def)
    show ?thesis
    proof (cases "scan_entries lax_int e (take k post) (cursor_after None pre) []")
      case (Inl oc)
      obtain observed c where oc: "oc = (observed, c)" by fastforce
      have i: "concat (map (entry_events lax_int e) front) = []" "observed > e" "\<exists>x r. rest = x # r \<and> newer_entry e x"
        using f(3) Inl oc by auto
      then obtain x r' where x: "post' = x # r'" "newer_entry e x" by (auto simp: post'_def)
      have "read_after lax_int r e (cursor_after None pre) = Inr \<lparr>read_status = Read_attempt_advanced,
          read_entries = [], read_cursor = c, observed_epoch = Some observed\<rparr>"
        using k(2) Inl oc i(2) Suc.prems(3) by (simp add: entries_result_def make_read_result_def)
      moreover have "attempt_events lax_int e post = []" using events i(1) x by (simp add: attempt_events_def)
      ultimately show ?thesis using post x by simp
    next
      case (Inr ec)
      obtain evs c where ec: "ec = (evs, c)" by fastforce
      have i: "evs = concat (map (entry_events lax_int e) front)" "c = cursor_after None (pre @ front)" "evs = [] \<longrightarrow> rest = []"
        using f(3) Inr ec nxt by auto
      then have front: "front \<noteq> []" using k(1) f(1) by auto
      then have c: "c = Some (fst (last (pre @ front)))" using i(2) by (simp add: cursor_after_def)
      have read: "read_after lax_int r e (cursor_after None pre) = Inr \<lparr>read_status = (if evs \<noteq> [] then Read_events else Read_attempt_absent),
          read_entries = evs, read_cursor = c, observed_epoch = None\<rparr>"
        using k(2) Inr ec by (simp add: entries_result_def make_read_result_def)
      have old: "\<forall>x \<in> set (pre @ front). \<not> newer_entry e x" using Suc.prems(4) f(2) by auto
      have rec: "follow lax_int r e n (cursor_after None (pre @ front)) = (attempt_events lax_int e post',
          Some (if \<exists>x \<in> set post'. newer_entry e x then Read_attempt_advanced else Read_empty))"
      proof (intro Suc.IH old)
        show "length post' < n" using Suc.prems(6) post front by (cases front) auto
      qed (use Suc.prems front post in auto)
      have step: "follow lax_int r e (Suc n) (cursor_after None pre) = apfst ((@) evs) (follow lax_int r e n c)"
        unfolding follow.simps read sum.case by (cases "evs = []") (simp_all add: c)
      have same: "(\<exists>x \<in> set post. newer_entry e x) = (\<exists>x \<in> set post'. newer_entry e x)"
        unfolding post using f(2) by auto
      show ?thesis unfolding step i(2) rec events same i(1) by simp
    qed
  qed
qed simp

text \<open>
  C23. A reader that follows a stream of at most 4096 entries from its start, or from the id of one
  of its entries, gets every event of its attempt behind that point exactly once and in order, up
  to the first entry of a newer attempt; then it is told that the attempt advanced, or that the
  stream is empty behind it. One read per entry, and one, are enough.
\<close>

theorem reader_delivers_each_event_once:
  assumes "increasing_ids (pre @ post)" "serves replies (pre @ post)" "1 \<le> e"
    and "\<forall>x \<in> set pre. \<not> newer_entry e x" "pre = [] \<Longrightarrow> post \<noteq> [] \<and> length post \<le> AGENT_RUN_LIVE_STREAM_MAXLEN"
  shows "follow lax_int replies e (length post + 1) (cursor_after None pre) =
    (attempt_events lax_int e post, Some (if \<exists>x \<in> set post. newer_entry e x then Read_attempt_advanced else Read_empty))"
  using assms by (intro follow_from) auto

section \<open>What the publisher appends\<close>

text \<open>
  One call of the publisher with what becomes of its pipeline: the server executes it or not, all
  of it at once, and the reply arrives in time or not. An executed pipeline adds its entries
  under the ids that the server chooses.
\<close>

record publish_call =
  call_event :: stream_event
  call_clock :: "nat \<Rightarrow> pystr"
  call_ids :: "nat \<Rightarrow> pystr"
  call_executed :: bool
  call_in_time :: bool

fun added_fields :: "redis_command list \<Rightarrow> raw_fields list" where
  "added_fields [] = []"
| "added_fields (Xadd fs _ # cs) = fs # added_fields cs"
| "added_fields (Expire _ # cs) = added_fields cs"

definition publish_once :: "stream_publisher \<Rightarrow> publish_call \<Rightarrow> stream_publisher \<times> raw_entry list" where
  "publish_once p c =
     (let n = (if attempt_started_confirmed p then 1 else 2);
          ids = map (call_ids c) [0..<n];
          (p', _, commands) = publish p (call_event c) (call_clock c)
             (if call_executed c \<and> call_in_time c then Some ids else None)
      in (p', if call_executed c then zip ids (added_fields commands) else []))"

fun run_publisher :: "stream_publisher \<Rightarrow> publish_call list \<Rightarrow> raw_entry list" where
  "run_publisher p [] = []"
| "run_publisher p (c # cs) = (case publish_once p c of (p', es) \<Rightarrow> es @ run_publisher p' cs)"

lemma added_fields_append: "added_fields (xs @ ys) = added_fields xs @ added_fields ys"
  by (induction xs rule: added_fields.induct) auto

lemma entry_events_encoded:
  assumes "1 \<le> e" "valid_event ev" "reads_ints lax_int"
  shows "entry_events lax_int e (i, encode_envelope ev e t) = [\<lparr>entry_id = i, entry_epoch = e, entry_event = ev\<rparr>]"
    and "\<not> newer_entry e (i, encode_envelope ev e t)"
  using assms decode_encoded_event [of ev lax_int i e]
  by (simp_all add: entry_events_def newer_entry_def decode_encoded_envelope del: json_dumps.simps)

lemma publish_once_entries:
  assumes "1 \<le> publisher_epoch p"
  shows "\<exists>ts us. publish_once p c = (p\<lparr>attempt_started_confirmed :=
      attempt_started_confirmed p \<or> call_executed c \<and> call_in_time c\<rparr>,
    if \<not> call_executed c then []
    else (if attempt_started_confirmed p then [] else [(call_ids c 0, encode_envelope Attempt_started (publisher_epoch p) ts)])
      @ [(call_ids c (if attempt_started_confirmed p then 0 else 1), encode_envelope (call_event c) (publisher_epoch p) us)])"
  by (cases "attempt_started_confirmed p")
    (auto simp: publish_once_def publish_def append_commands_def upt_rec Let_def added_fields_append)

lemma publisher_events:
  assumes "1 \<le> publisher_epoch p" "reads_ints lax_int"
    and "\<forall>c \<in> set cs. valid_event (call_event c) \<and> call_event c \<noteq> Attempt_started"
  shows "(\<forall>x \<in> set (run_publisher p cs). \<not> newer_entry (publisher_epoch p) x)
    \<and> (let evs = map entry_event (attempt_events lax_int (publisher_epoch p) (run_publisher p cs)) in
        filter (\<lambda>ev. ev \<noteq> Attempt_started) evs = map call_event (filter call_executed cs)
        \<and> (\<not> attempt_started_confirmed p \<longrightarrow> evs \<noteq> [] \<longrightarrow> hd evs = Attempt_started))"
  using assms
proof (induction cs arbitrary: p)
  case (Cons c cs)
  let ?p = "p\<lparr>attempt_started_confirmed := attempt_started_confirmed p \<or> call_executed c \<and> call_in_time c\<rparr>"
  obtain ts us where once: "publish_once p c = (?p,
    if \<not> call_executed c then []
    else (if attempt_started_confirmed p then [] else [(call_ids c 0, encode_envelope Attempt_started (publisher_epoch p) ts)])
      @ [(call_ids c (if attempt_started_confirmed p then 0 else 1), encode_envelope (call_event c) (publisher_epoch p) us)])"
    (is "_ = (_, ?es)") using publish_once_entries [OF Cons.prems(1)] by blast
  have ev: "valid_event (call_event c)" "call_event c \<noteq> Attempt_started" "valid_event Attempt_started"
    using Cons.prems(3) by auto
  note enc = entry_events_encoded [OF Cons.prems(1) ev(1) Cons.prems(2)] entry_events_encoded [OF Cons.prems(1) ev(3) Cons.prems(2)]
  have old: "\<forall>x \<in> set ?es. \<not> newer_entry (publisher_epoch p) x" using enc(2,4) by auto
  have here: "map entry_event (concat (map (entry_events lax_int (publisher_epoch p)) ?es)) =
      (if \<not> call_executed c then []
       else (if attempt_started_confirmed p then [] else [Attempt_started]) @ [call_event c])"
    using enc(1,3) by auto
  have rest: "(\<forall>x \<in> set (run_publisher ?p cs). \<not> newer_entry (publisher_epoch p) x)
    \<and> (let evs = map entry_event (attempt_events lax_int (publisher_epoch p) (run_publisher ?p cs)) in
        filter (\<lambda>ev. ev \<noteq> Attempt_started) evs = map call_event (filter call_executed cs)
        \<and> (\<not> attempt_started_confirmed ?p \<longrightarrow> evs \<noteq> [] \<longrightarrow> hd evs = Attempt_started))"
    using Cons.IH [of ?p] Cons.prems by simp
  have split: "map entry_event (attempt_events lax_int (publisher_epoch p) (run_publisher p (c # cs))) =
      map entry_event (concat (map (entry_events lax_int (publisher_epoch p)) ?es))
      @ map entry_event (attempt_events lax_int (publisher_epoch p) (run_publisher ?p cs))"
    using once attempt_events_append [OF old] by simp
  show ?case
    unfolding split here using rest old ev(2) once by (auto simp: Let_def)
qed (simp add: attempt_events_def)

section \<open>The answer as the reader sees it\<close>

fun is_answer_event :: "stream_event \<Rightarrow> bool" where
  "is_answer_event (Answer_delta g t) = True"
| "is_answer_event (Answer_reset g) = True"
| "is_answer_event _ = False"

fun generation_piece :: "int \<Rightarrow> stream_event \<Rightarrow> pystr" where
  "generation_piece g (Answer_delta h t) = (if h = g then t else [])"
| "generation_piece g _ = []"

definition generation_text :: "int \<Rightarrow> stream_event list \<Rightarrow> pystr" where
  "generation_text g evs = concat (map (generation_piece g) evs)"

lemma generation_text_filter:
  "(\<And>e. \<not> P e \<Longrightarrow> generation_piece g e = []) \<Longrightarrow> generation_text g (filter P evs) = generation_text g evs"
  by (induction evs) (auto simp: generation_text_def)

lemma generation_text_pieces:
  "pieces h new \<Longrightarrow> generation_text g (map fst new) = (if g = h then texts new else [])"
proof (induction new)
  case (Cons x new)
  then obtain t b where "x = (Answer_delta h t, b)" by (cases x) (auto simp: pieces_def)
  then show ?case using Cons by (auto simp: generation_text_def pieces_def)
qed (simp add: generation_text_def)

lemma generation_text_append: "generation_text g (xs @ ys) = generation_text g xs @ generation_text g ys"
  by (simp add: generation_text_def)


section \<open>Witnesses\<close>

definition replies_of :: "raw_entry list \<Rightarrow> stream_replies" where
  "replies_of es = \<lparr>reply_first = (\<lambda>n. Some (take n es)),
     reply_after = (\<lambda>c n. Some (take n (filter (\<lambda>x. is_stream_id_before c (fst x) = Inr True) es))),
     reply_exists = Some (es \<noteq> []), reply_late = False\<rparr>"

definition plain_int :: "json \<Rightarrow> int option" where
  "plain_int v = (case v of JInt i \<Rightarrow> Some i | _ \<Rightarrow> None)"

lemma serves_replies_of: "serves (replies_of es) es"
  by (simp add: serves_def replies_of_def)

lemma reads_plain_ints: "reads_ints plain_int"
  by (simp add: reads_ints_def plain_int_def)

definition shown_calls :: "publish_call list" where
  "shown_calls =
     [\<lparr>call_event = Stage_event Stage_answering, call_clock = (\<lambda>_. []), call_ids = (\<lambda>i. str_of_nat (i + 1) @ [45, 48]),
       call_executed = True, call_in_time = True\<rparr>,
      \<lparr>call_event = Answer_delta 1 [65, 66], call_clock = (\<lambda>_. []), call_ids = (\<lambda>i. [51, 45, 48]),
       call_executed = True, call_in_time = True\<rparr>,
      \<lparr>call_event = Answer_reset 2, call_clock = (\<lambda>_. []), call_ids = (\<lambda>i. [52, 45, 48]),
       call_executed = True, call_in_time = True\<rparr>,
      \<lparr>call_event = Answer_delta 2 [65, 66], call_clock = (\<lambda>_. []), call_ids = (\<lambda>i. [53, 45, 48]),
       call_executed = True, call_in_time = True\<rparr>]"

lemma increasing_example:
  "increasing_ids [([49, 45, 48], a), ([50, 45, 48], b), ([51, 45, 48], c), ([52, 45, 48], d), ([53, 45, 48], f)]"
  by (simp add: increasing_ids_def is_stream_id_before_def stream_id_parts_def py_int_def is_c_space_def
      is_ascii_digit_def value_of_digits_def Let_def)

lemma shown_entries:
  assumes "make_publisher 1 = Inr p"
  shows "\<exists>a b c d f. run_publisher p shown_calls
    = [([49, 45, 48], a), ([50, 45, 48], b), ([51, 45, 48], c), ([52, 45, 48], d), ([53, 45, 48], f)]"
  using assms
  by (auto simp: make_publisher_def validate_attempt_epoch_def shown_calls_def publish_once_def publish_def
      append_commands_def upt_rec str_of_nat.simps Let_def)

lemma reader_delivers_each_event_once_witness:
  "fst (follow plain_int (replies_of [([49, 45, 48], encode_envelope (Answer_reset 1) 1 [])]) 1 2 None)
     = [\<lparr>entry_id = [49, 45, 48], entry_epoch = 1, entry_event = Answer_reset 1\<rparr>]"
proof -
  let ?es = "[([49, 45, 48] :: pystr, encode_envelope (Answer_reset 1) 1 [])]"
  have "increasing_ids ([] @ ?es)"
    by (simp add: increasing_ids_def stream_id_parts_def py_int_def is_c_space_def is_ascii_digit_def Let_def)
  moreover have "serves (replies_of ?es) ([] @ ?es)" by (simp add: serves_replies_of)
  ultimately have "follow plain_int (replies_of ?es) 1 (length ?es + 1) (cursor_after None []) =
      (attempt_events plain_int 1 ?es, Some (if \<exists>x \<in> set ?es. newer_entry 1 x then Read_attempt_advanced else Read_empty))"
    by (rule reader_delivers_each_event_once) (simp_all add: AGENT_RUN_LIVE_STREAM_MAXLEN_def)
  moreover have "attempt_events plain_int 1 ?es = [\<lparr>entry_id = [49, 45, 48], entry_epoch = 1, entry_event = Answer_reset 1\<rparr>]"
    using entry_events_encoded [of 1 "Answer_reset 1" plain_int "[49, 45, 48]" "[]"]
    by (simp add: attempt_events_def reads_plain_ints)
  ultimately show ?thesis by (simp add: cursor_after_def eval_nat_numeral)
qed


end
