(* ===== verification/SseCapacity.thy ===== *)
theory SseCapacity
  imports VectorPrelude
begin

text \<open>
  The capacity of live connections (\<^verbatim>\<open>agent/live_updates/sse.py\<close>: the classes
  \<^verbatim>\<open>AgentRunSseCapacity\<close> and \<^verbatim>\<open>AgentRunSseCapacityLease\<close>). Every
  operation runs under one lock and is a function of the state; the lease objects are a heap.
  The theory closes with the counters as counts of the leases that are open.
\<close>

section \<open>State\<close>

datatype close_reason =
    Close_terminal | Close_client_disconnect | Close_unavailable | Close_cursor_trimmed | Close_max_age
  | Close_lease_expired | Close_queued_timeout | Close_queued_terminal

datatype capacity_rejection = Rejected_run | Rejected_user

datatype sse_metric =
    Capacity_rejected string
  | Sse_opened
  | Sse_closed duration close_reason

record sse_lease =
  process_acquired_at :: time
  lease_run_id :: "uuid option"
  lease_user_id :: "uuid option"
  lease_released :: bool
  stream_started_at :: "time option"
  lease_close_reason :: close_reason

record sse_capacity =
  run_limit :: int
  user_limit :: int
  process_limit :: int
  lease_ttl :: duration
  active_process :: int
  active_by_run :: "(uuid \<times> int) list"
  active_by_user :: "(uuid \<times> int) list"
  open_leases :: "nat list"
  lease_heap :: "(nat \<times> sse_lease) list"
  sse_metrics :: "sse_metric list"

definition make_capacity :: "int \<Rightarrow> int \<Rightarrow> int \<Rightarrow> duration \<Rightarrow> py_exc + sse_capacity" where
  "make_capacity rl ul pl ttl =
     (if min (min rl ul) pl < 1 \<or> ttl \<le> 0 then Inl ValueError
      else Inr \<lparr>run_limit = rl, user_limit = ul, process_limit = pl, lease_ttl = ttl, active_process = 0,
                active_by_run = [], active_by_user = [], open_leases = [], lease_heap = [], sse_metrics = []\<rparr>)"

definition emit :: "sse_metric \<Rightarrow> sse_capacity \<Rightarrow> sse_capacity" where
  "emit m c = c\<lparr>sse_metrics := sse_metrics c @ [m]\<rparr>"

definition put_lease :: "nat \<Rightarrow> sse_lease \<Rightarrow> sse_capacity \<Rightarrow> sse_capacity" where
  "put_lease i l c = c\<lparr>lease_heap := AList.update i l (lease_heap c)\<rparr>"

text \<open>\<^verbatim>\<open>counts.get(key, 0)\<close>\<close>

definition count_of :: "(uuid \<times> int) list \<Rightarrow> uuid \<Rightarrow> int" where
  "count_of counts k = (case map_of counts k of None \<Rightarrow> 0 | Some n \<Rightarrow> n)"

definition decrement :: "(uuid \<times> int) list \<Rightarrow> uuid \<Rightarrow> py_exc + (uuid \<times> int) list" where
  "decrement counts k =
     (case map_of counts k of
        None \<Rightarrow> Inl KeyError
      | Some n \<Rightarrow> if n - 1 = 0 then Inr (AList.delete k counts) else Inr (AList.update k (n - 1) counts))"

section \<open>Releasing\<close>

definition release_process :: "nat \<Rightarrow> sse_lease \<Rightarrow> sse_capacity \<Rightarrow> py_exc + sse_capacity" where
  "release_process i l c =
     (if lease_released l then Inr c
      else if active_process c < 1 then Inl RuntimeError
      else Inr ((put_lease i (l\<lparr>lease_released := True\<rparr>) c)
                  \<lparr>active_process := active_process c - 1, open_leases := removeAll i (open_leases c)\<rparr>))"

definition release_counts :: "sse_lease \<Rightarrow> time \<Rightarrow> sse_capacity \<Rightarrow> py_exc + sse_capacity" where
  "release_counts l now c =
     (case (lease_run_id l, lease_user_id l) of
        (Some r, Some u) \<Rightarrow>
          (case decrement (active_by_run c) r of
             Inl e \<Rightarrow> Inl e
           | Inr by_run \<Rightarrow>
               (case decrement (active_by_user c) u of
                  Inl e \<Rightarrow> Inl e
                | Inr by_user \<Rightarrow>
                    (let c' = c\<lparr>active_by_run := by_run, active_by_user := by_user\<rparr> in
                     Inr (case stream_started_at l of
                            None \<Rightarrow> c'
                          | Some s \<Rightarrow> emit (Sse_closed (max 0 (now - s)) (lease_close_reason l)) c'))))
      | _ \<Rightarrow> Inr c)"

definition release_locked :: "nat \<Rightarrow> sse_lease \<Rightarrow> time \<Rightarrow> sse_capacity \<Rightarrow> py_exc + sse_capacity" where
  "release_locked i l now c =
     (if lease_released l then Inr c
      else case release_counts l now c of
        Inl e \<Rightarrow> Inl e
      | Inr c' \<Rightarrow> release_process i l c')"

text \<open>A lease that is not in the heap does not occur in Python; the model gives it no effect.\<close>

definition sse_release :: "nat \<Rightarrow> time \<Rightarrow> sse_capacity \<Rightarrow> py_exc + sse_capacity" where
  "sse_release i now c =
     (case map_of (lease_heap c) i of None \<Rightarrow> Inr c | Some l \<Rightarrow> release_locked i l now c)"

text \<open>
  \<^verbatim>\<open>_prune_expired_locked\<close>, over the leases in the arbitrary order of the set. The
  clock is read once for the comparison and again for every lease that is closed.
\<close>

fun prune_leases :: "nat list \<Rightarrow> time \<Rightarrow> (nat \<Rightarrow> time) \<Rightarrow> sse_capacity \<Rightarrow> py_exc + sse_capacity" where
  "prune_leases [] now closing c = Inr c"
| "prune_leases (i # is) now closing c =
     (case map_of (lease_heap c) i of
        None \<Rightarrow> prune_leases is now closing c
      | Some l \<Rightarrow>
          if now - process_acquired_at l < lease_ttl c then prune_leases is now closing c
          else
            (let l' = l\<lparr>lease_close_reason := Close_lease_expired\<rparr> in
             case release_locked i l' (closing i) (put_lease i l' c) of
               Inl e \<Rightarrow> Inl e
             | Inr c' \<Rightarrow> prune_leases is now closing c'))"

section \<open>Acquiring\<close>

text \<open>\<^verbatim>\<open>try_acquire_process\<close>; \<open>i\<close> is the address of the new lease.\<close>

definition try_acquire_process ::
    "nat \<Rightarrow> time \<Rightarrow> (nat \<Rightarrow> time) \<Rightarrow> time \<Rightarrow> sse_capacity \<Rightarrow> py_exc + sse_capacity \<times> nat option" where
  "try_acquire_process i now closing acquired_at c =
     (case prune_leases (open_leases c) now closing c of
        Inl e \<Rightarrow> Inl e
      | Inr c' \<Rightarrow>
          if active_process c' \<ge> process_limit c'
          then Inr (emit (Capacity_rejected ''process'') c', None)
          else Inr ((put_lease i
                 \<lparr>process_acquired_at = acquired_at, lease_run_id = None, lease_user_id = None, lease_released = False,
                  stream_started_at = None, lease_close_reason = Close_unavailable\<rparr> c')
                 \<lparr>active_process := active_process c' + 1, open_leases := open_leases c' @ [i]\<rparr>, Some i))"

definition try_acquire_owned ::
    "nat \<Rightarrow> uuid \<Rightarrow> uuid \<Rightarrow> sse_capacity \<Rightarrow> py_exc + sse_capacity \<times> capacity_rejection option" where
  "try_acquire_owned i r u c =
     (case map_of (lease_heap c) i of
        None \<Rightarrow> Inl KeyError
      | Some l \<Rightarrow>
          if lease_released l then Inl RuntimeError
          else if lease_run_id l \<noteq> None then Inl RuntimeError
          else if count_of (active_by_run c) r \<ge> run_limit c then
            map_sum id (\<lambda>c'. (c', Some Rejected_run))
              (release_process i l (emit (Capacity_rejected ''run'') c))
          else if count_of (active_by_user c) u \<ge> user_limit c then
            map_sum id (\<lambda>c'. (c', Some Rejected_user))
              (release_process i l (emit (Capacity_rejected ''user'') c))
          else Inr ((put_lease i (l\<lparr>lease_run_id := Some r, lease_user_id := Some u\<rparr>) c)
                 \<lparr>active_by_run := AList.update r (count_of (active_by_run c) r + 1) (active_by_run c),
                  active_by_user := AList.update u (count_of (active_by_user c) u + 1) (active_by_user c)\<rparr>, None))"

definition mark_stream_started :: "nat \<Rightarrow> time \<Rightarrow> sse_capacity \<Rightarrow> py_exc + sse_capacity" where
  "mark_stream_started i now c =
     (case map_of (lease_heap c) i of
        None \<Rightarrow> Inl KeyError
      | Some l \<Rightarrow>
          if lease_released l then Inl RuntimeError
          else if stream_started_at l \<noteq> None then Inr c
          else Inr (emit Sse_opened (put_lease i (l\<lparr>stream_started_at := Some now\<rparr>) c)))"

definition mark_close_reason :: "nat \<Rightarrow> close_reason \<Rightarrow> sse_capacity \<Rightarrow> sse_capacity" where
  "mark_close_reason i reason c =
     (case map_of (lease_heap c) i of
        None \<Rightarrow> c
      | Some l \<Rightarrow> put_lease i (l\<lparr>lease_close_reason := reason\<rparr>) c)"

section \<open>The counters count\<close>

text \<open>The open leases that satisfy a condition.\<close>

definition leases_where :: "(sse_lease \<Rightarrow> bool) \<Rightarrow> sse_capacity \<Rightarrow> int" where
  "leases_where P c = int (length (filter (\<lambda>(i, l). \<not> lease_released l \<and> P l) (lease_heap c)))"

definition counts_match :: "(uuid \<times> int) list \<Rightarrow> (uuid \<Rightarrow> int) \<Rightarrow> bool" where
  "counts_match counts n \<longleftrightarrow> (\<forall>k. map_of counts k = (if n k = 0 then None else Some (n k)))"

definition capacity_ok :: "sse_capacity \<Rightarrow> bool" where
  "capacity_ok c \<longleftrightarrow>
     distinct (map fst (lease_heap c))
     \<and> distinct (open_leases c)
     \<and> (\<forall>i. i \<in> set (open_leases c) \<longleftrightarrow> (\<exists>l. map_of (lease_heap c) i = Some l \<and> \<not> lease_released l))
     \<and> (\<forall>i l. map_of (lease_heap c) i = Some l \<longrightarrow> (lease_run_id l = None) = (lease_user_id l = None))
     \<and> active_process c = leases_where (\<lambda>_. True) c
     \<and> counts_match (active_by_run c) (\<lambda>r. leases_where (\<lambda>l. lease_run_id l = Some r) c)
     \<and> counts_match (active_by_user c) (\<lambda>u. leases_where (\<lambda>l. lease_user_id l = Some u) c)
     \<and> active_process c \<le> process_limit c
     \<and> (\<forall>r. leases_where (\<lambda>l. lease_run_id l = Some r) c \<le> run_limit c)
     \<and> (\<forall>u. leases_where (\<lambda>l. lease_user_id l = Some u) c \<le> user_limit c)
     \<and> 1 \<le> process_limit c \<and> 1 \<le> run_limit c \<and> 1 \<le> user_limit c \<and> 0 < lease_ttl c"

lemma count_update_list:
  assumes "distinct (map fst t)" "map_of t i = Some l"
  shows "int (length (filter (\<lambda>(j, x). P x) (AList.update i l' t)))
    = int (length (filter (\<lambda>(j, x). P x) t)) - of_bool (P l) + of_bool (P l')"
  using assms
proof (induction t)
  case (Cons a t)
  show ?case
  proof (cases "fst a = i")
    case True
    then show ?thesis using Cons.prems by (cases a) auto
  next
    case False
    then show ?thesis using Cons by (cases a) auto
  qed
qed simp

lemma count_insert_list:
  "map_of t i = None \<Longrightarrow> int (length (filter (\<lambda>(j, x). P x) (AList.update i l' t)))
    = int (length (filter (\<lambda>(j, x). P x) t)) + of_bool (P l')"
  by (induction t) (auto split: if_splits)

lemma leases_where_put:
  assumes "distinct (map fst (lease_heap c))" "map_of (lease_heap c) i = Some l"
  shows "leases_where P (put_lease i l' c)
    = leases_where P c - of_bool (\<not> lease_released l \<and> P l) + of_bool (\<not> lease_released l' \<and> P l')"
  using count_update_list [OF assms, of "\<lambda>x. \<not> lease_released x \<and> P x" l']
  by (simp add: leases_where_def put_lease_def)

lemma leases_where_new:
  "map_of (lease_heap c) i = None \<Longrightarrow> leases_where P (put_lease i l' c)
    = leases_where P c + of_bool (\<not> lease_released l' \<and> P l')"
  using count_insert_list [of "lease_heap c" i "\<lambda>x. \<not> lease_released x \<and> P x" l']
  by (simp add: leases_where_def put_lease_def)

lemma leases_where_heap: "lease_heap c' = lease_heap c \<Longrightarrow> leases_where P c' = leases_where P c"
  by (simp add: leases_where_def)

lemma leases_where_nonneg: "0 \<le> leases_where P c"
  by (simp add: leases_where_def)

lemma leases_where_pos:
  "map_of (lease_heap c) i = Some l \<Longrightarrow> \<not> lease_released l \<Longrightarrow> P l \<Longrightarrow> 1 \<le> leases_where P c"
proof -
  assume l: "map_of (lease_heap c) i = Some l" "\<not> lease_released l" "P l"
  then have "(i, l) \<in> set (filter (\<lambda>(i, l). \<not> lease_released l \<and> P l) (lease_heap c))"
    using map_of_SomeD by fastforce
  then show ?thesis unfolding leases_where_def
    by (metis One_nat_def Suc_leI length_pos_if_in_set of_nat_1 of_nat_le_iff)
qed

lemma decrement_match:
  assumes "counts_match counts n" "1 \<le> n k"
  shows "\<exists>counts'. decrement counts k = Inr counts' \<and> counts_match counts' (\<lambda>j. n j - of_bool (j = k))"
  using assms
  by (auto simp: decrement_def counts_match_def AList.delete_conv')

lemma increment_match:
  "counts_match counts n \<Longrightarrow> (\<And>j. 0 \<le> n j) \<Longrightarrow>
   counts_match (AList.update k (count_of counts k + 1) counts) (\<lambda>j. n j + of_bool (j = k))"
  by (auto simp: count_of_def counts_match_def) (smt (verit))+

lemma count_of_match: "counts_match counts n \<Longrightarrow> count_of counts k = n k"
  by (simp add: counts_match_def count_of_def)

section \<open>Every operation keeps the count\<close>

lemmas capacity_fields = put_lease_def emit_def

lemma open_lease_iff:
  "capacity_ok c \<Longrightarrow> i \<in> set (open_leases c) \<longleftrightarrow> (\<exists>l. map_of (lease_heap c) i = Some l \<and> \<not> lease_released l)"
  by (simp add: capacity_ok_def)

lemma update_same: "map_of t i = Some l \<Longrightarrow> AList.update i l t = t"
  by (induction t) (auto split: if_splits)

lemma distinct_update_keys: "distinct (map fst t) \<Longrightarrow> distinct (map fst (AList.update i v t))"
  by (rule AList.distinct_update)

text \<open>A change of a lease that leaves what is counted.\<close>

lemma put_same_ok:
  assumes "capacity_ok c" "map_of (lease_heap c) i = Some l" "lease_released l' = lease_released l"
    "lease_run_id l' = lease_run_id l" "lease_user_id l' = lease_user_id l"
  shows "capacity_ok (put_lease i l' c)"
proof -
  have d: "distinct (map fst (lease_heap c))" using assms(1) by (simp add: capacity_ok_def)
  have same: "leases_where (\<lambda>_. True) (put_lease i l' c) = leases_where (\<lambda>_. True) c"
    "leases_where (\<lambda>l. lease_run_id l = Some k) (put_lease i l' c) = leases_where (\<lambda>l. lease_run_id l = Some k) c"
    "leases_where (\<lambda>l. lease_user_id l = Some k) (put_lease i l' c) = leases_where (\<lambda>l. lease_user_id l = Some k) c" for k
    using leases_where_put [OF d assms(2)] assms(3-5) by simp_all
  show ?thesis
    using assms unfolding capacity_ok_def same
    by (auto simp: put_lease_def distinct_update_keys counts_match_def simp del: map_of_eq_Some_iff)
qed

lemma emit_ok: "capacity_ok c \<Longrightarrow> capacity_ok (emit m c)"
proof -
  have "leases_where P (emit m c) = leases_where P c" for P by (simp add: leases_where_def emit_def)
  then show "capacity_ok c \<Longrightarrow> capacity_ok (emit m c)" by (simp add: capacity_ok_def emit_def)
qed

lemma owner_pair:
  "capacity_ok c \<Longrightarrow> map_of (lease_heap c) i = Some l \<Longrightarrow> (lease_run_id l = None) = (lease_user_id l = None)"
  unfolding capacity_ok_def by blast

text \<open>Closing an open lease: the counts that it held are taken back.\<close>

lemma release_counts_ok:
  assumes "capacity_ok c" "map_of (lease_heap c) i = Some l" "\<not> lease_released l"
  shows "\<exists>by_run by_user ms. release_counts l now c
      = Inr (c\<lparr>active_by_run := by_run, active_by_user := by_user, sse_metrics := ms\<rparr>)
    \<and> counts_match by_run (\<lambda>r. leases_where (\<lambda>l. lease_run_id l = Some r) c - of_bool (lease_run_id l = Some r))
    \<and> counts_match by_user (\<lambda>u. leases_where (\<lambda>l. lease_user_id l = Some u) c - of_bool (lease_user_id l = Some u))"
proof (cases "lease_run_id l")
  case None
  then have u: "lease_user_id l = None" using owner_pair [OF assms(1,2)] by simp
  have "release_counts l now c = Inr (c\<lparr>active_by_run := active_by_run c, active_by_user := active_by_user c,
      sse_metrics := sse_metrics c\<rparr>)"
    using None by (simp add: release_counts_def)
  moreover have "counts_match (active_by_run c) (\<lambda>r. leases_where (\<lambda>l. lease_run_id l = Some r) c - of_bool (lease_run_id l = Some r))"
    "counts_match (active_by_user c) (\<lambda>u. leases_where (\<lambda>l. lease_user_id l = Some u) c - of_bool (lease_user_id l = Some u))"
    using assms(1) None u by (simp_all add: capacity_ok_def)
  ultimately show ?thesis by (intro exI conjI)
next
  case (Some r)
  then obtain u where u: "lease_user_id l = Some u" using owner_pair [OF assms(1,2)] by auto
  have pos: "1 \<le> leases_where (\<lambda>l. lease_run_id l = Some r) c" "1 \<le> leases_where (\<lambda>l. lease_user_id l = Some u) c"
    using leases_where_pos [OF assms(2,3), of "\<lambda>l. lease_run_id l = Some r"]
      leases_where_pos [OF assms(2,3), of "\<lambda>l. lease_user_id l = Some u"] Some u by simp_all
  have m: "counts_match (active_by_run c) (\<lambda>r. leases_where (\<lambda>l. lease_run_id l = Some r) c)"
    "counts_match (active_by_user c) (\<lambda>u. leases_where (\<lambda>l. lease_user_id l = Some u) c)"
    using assms(1) by (simp_all add: capacity_ok_def)
  obtain by_run by_user where d: "decrement (active_by_run c) r = Inr by_run"
      "counts_match by_run (\<lambda>j. leases_where (\<lambda>l. lease_run_id l = Some j) c - of_bool (j = r))"
      "decrement (active_by_user c) u = Inr by_user"
      "counts_match by_user (\<lambda>j. leases_where (\<lambda>l. lease_user_id l = Some j) c - of_bool (j = u))"
    using decrement_match [OF m(1), of r] decrement_match [OF m(2), of u] pos by auto
  have eq: "(r = j) = (j = r)" "(u = j) = (j = u)" for j by auto
  define ms where "ms = (case stream_started_at l of None \<Rightarrow> sse_metrics c
      | Some s \<Rightarrow> sse_metrics c @ [Sse_closed (max 0 (now - s)) (lease_close_reason l)])"
  have "release_counts l now c
      = Inr (c\<lparr>active_by_run := by_run, active_by_user := by_user, sse_metrics := ms\<rparr>)"
    using Some u d(1,3) by (cases "stream_started_at l") (simp_all add: release_counts_def Let_def emit_def ms_def)
  then show ?thesis using Some u d(2,4) by (intro exI conjI) (simp_all add: eq)
qed

lemma release_locked_ok:
  assumes ok: "capacity_ok c" and l: "map_of (lease_heap c) i = Some l"
  shows "\<exists>c'. release_locked i l now c = Inr c' \<and> capacity_ok c'
    \<and> lease_heap c' = AList.update i (l\<lparr>lease_released := True\<rparr>) (lease_heap c)
    \<and> process_limit c' = process_limit c \<and> lease_ttl c' = lease_ttl c"
proof (cases "lease_released l")
  case True
  have "l\<lparr>lease_released := True\<rparr> = l" using True by simp
  moreover have "AList.update i l (lease_heap c) = lease_heap c"
    using l by (rule update_same)
  ultimately show ?thesis using ok True by (simp only: release_locked_def if_True) simp
next
  case False
  let ?l = "l\<lparr>lease_released := True\<rparr>"
  obtain by_run by_user ms where rc: "release_counts l now c
      = Inr (c\<lparr>active_by_run := by_run, active_by_user := by_user, sse_metrics := ms\<rparr>)"
    "counts_match by_run (\<lambda>r. leases_where (\<lambda>l. lease_run_id l = Some r) c - of_bool (lease_run_id l = Some r))"
    "counts_match by_user (\<lambda>u. leases_where (\<lambda>l. lease_user_id l = Some u) c - of_bool (lease_user_id l = Some u))"
    using release_counts_ok [OF ok l False] by blast
  define c' where "c' = (put_lease i ?l (c\<lparr>active_by_run := by_run, active_by_user := by_user, sse_metrics := ms\<rparr>))
      \<lparr>active_process := active_process c - 1, open_leases := removeAll i (open_leases c)\<rparr>"
  have "1 \<le> active_process c" using ok leases_where_pos [OF l False] by (simp add: capacity_ok_def)
  then have rl: "release_locked i l now c = Inr c'"
    using False rc(1) by (simp add: release_locked_def release_process_def c'_def)
  have heap: "lease_heap c' = AList.update i ?l (lease_heap c)" by (simp add: c'_def put_lease_def)
  have d: "distinct (map fst (lease_heap c))" using ok by (simp add: capacity_ok_def)
  have count: "leases_where P c' = leases_where P c - of_bool (P l)" for P
  proof -
    have "leases_where P c' = leases_where P (put_lease i ?l c)"
      by (rule leases_where_heap) (simp add: heap put_lease_def)
    then show ?thesis using leases_where_put [OF d l, of P ?l] False by simp
  qed
  have le: "leases_where P c' \<le> leases_where P c" for P by (simp add: count)
  have "capacity_ok c'"
    unfolding capacity_ok_def
  proof (intro conjI allI)
    show "distinct (map fst (lease_heap c'))" using d by (simp add: heap distinct_update_keys)
    have "distinct (open_leases c)" using ok unfolding capacity_ok_def by blast
    then show "distinct (open_leases c')" by (simp add: c'_def distinct_removeAll)
    show "j \<in> set (open_leases c') \<longleftrightarrow> (\<exists>l. map_of (lease_heap c') j = Some l \<and> \<not> lease_released l)" for j
      using open_lease_iff [OF ok, of j] by (auto simp: heap) (auto simp: c'_def)
    show "map_of (lease_heap c') j = Some m \<longrightarrow> (lease_run_id m = None) = (lease_user_id m = None)" for j m
      using ok l by (auto simp: heap capacity_ok_def)
    show "active_process c' = leases_where (\<lambda>_. True) c'" using ok count by (simp add: capacity_ok_def c'_def)
    show "counts_match (active_by_run c') (\<lambda>r. leases_where (\<lambda>l. lease_run_id l = Some r) c')"
      using rc(2) count by (simp add: c'_def put_lease_def)
    show "counts_match (active_by_user c') (\<lambda>u. leases_where (\<lambda>l. lease_user_id l = Some u) c')"
      using rc(3) count by (simp add: c'_def put_lease_def)
    show "active_process c' \<le> process_limit c'" using ok by (simp add: c'_def put_lease_def capacity_ok_def)
    show "leases_where (\<lambda>l. lease_run_id l = Some r) c' \<le> run_limit c'" for r
      using order_trans [OF le] ok by (simp add: c'_def put_lease_def capacity_ok_def)
    show "leases_where (\<lambda>l. lease_user_id l = Some u) c' \<le> user_limit c'" for u
      using order_trans [OF le] ok by (simp add: c'_def put_lease_def capacity_ok_def)
  qed (use ok in \<open>simp_all add: c'_def put_lease_def capacity_ok_def\<close>)
  then show ?thesis using rl heap by (simp add: c'_def put_lease_def)
qed

lemma prune_leases_ok:
  assumes "capacity_ok c"
  shows "\<exists>c'. prune_leases is now closing c = Inr c' \<and> capacity_ok c'
    \<and> process_limit c' = process_limit c \<and> lease_ttl c' = lease_ttl c
    \<and> (\<forall>j. map_of (lease_heap c') j = (case map_of (lease_heap c) j of None \<Rightarrow> None
         | Some l \<Rightarrow> Some (if j \<in> set is \<and> \<not> now - process_acquired_at l < lease_ttl c
             then l\<lparr>lease_close_reason := Close_lease_expired, lease_released := True\<rparr> else l)))"
  using assms
proof (induction "is" arbitrary: c)
  case Nil
  then show ?case by (auto split: option.splits)
next
  case (Cons i "is")
  show ?case
  proof (cases "\<exists>l. map_of (lease_heap c) i = Some l \<and> \<not> now - process_acquired_at l < lease_ttl c")
    case False
    obtain c' where c': "prune_leases is now closing c = Inr c'" "capacity_ok c'"
      "process_limit c' = process_limit c \<and> lease_ttl c' = lease_ttl c"
      "\<forall>j. map_of (lease_heap c') j = (case map_of (lease_heap c) j of None \<Rightarrow> None
         | Some l \<Rightarrow> Some (if j \<in> set is \<and> \<not> now - process_acquired_at l < lease_ttl c
             then l\<lparr>lease_close_reason := Close_lease_expired, lease_released := True\<rparr> else l))"
      using Cons.IH [OF Cons.prems] by blast
    moreover have "prune_leases (i # is) now closing c = Inr c'"
      using c'(1) False by (auto split: option.splits)
    ultimately show ?thesis using False by (auto split: option.splits)
  next
    case True
    then obtain l where l: "map_of (lease_heap c) i = Some l" "\<not> now - process_acquired_at l < lease_ttl c" by blast
    define l' where "l' = l\<lparr>lease_close_reason := Close_lease_expired\<rparr>"
    have ok: "capacity_ok (put_lease i l' c)" by (rule put_same_ok [OF Cons.prems l(1)]) (simp_all add: l'_def)
    have "map_of (lease_heap (put_lease i l' c)) i = Some l'" by (simp add: put_lease_def)
    then obtain d where d: "release_locked i l' (closing i) (put_lease i l' c) = Inr d" "capacity_ok d"
      "lease_heap d = AList.update i (l'\<lparr>lease_released := True\<rparr>) (lease_heap (put_lease i l' c))"
      "process_limit d = process_limit (put_lease i l' c) \<and> lease_ttl d = lease_ttl (put_lease i l' c)"
      using release_locked_ok [OF ok] by blast
    have heap: "map_of (lease_heap d) = (map_of (lease_heap c))(i \<mapsto>
        l\<lparr>lease_close_reason := Close_lease_expired, lease_released := True\<rparr>)"
      and lim: "process_limit d = process_limit c" "lease_ttl d = lease_ttl c"
      using d(3,4) by (simp_all add: put_lease_def l'_def)
    obtain c' where c': "prune_leases is now closing d = Inr c'" "capacity_ok c'"
      "process_limit c' = process_limit d \<and> lease_ttl c' = lease_ttl d"
      "\<forall>j. map_of (lease_heap c') j = (case map_of (lease_heap d) j of None \<Rightarrow> None
         | Some l \<Rightarrow> Some (if j \<in> set is \<and> \<not> now - process_acquired_at l < lease_ttl d
             then l\<lparr>lease_close_reason := Close_lease_expired, lease_released := True\<rparr> else l))"
      using Cons.IH [OF d(2)] by blast
    have "prune_leases (i # is) now closing c = Inr c'"
      using l d(1) c'(1) by (simp add: Let_def l'_def)
    moreover have "map_of (lease_heap c') j = (case map_of (lease_heap c) j of None \<Rightarrow> None
         | Some l \<Rightarrow> Some (if j \<in> set (i # is) \<and> \<not> now - process_acquired_at l < lease_ttl c
             then l\<lparr>lease_close_reason := Close_lease_expired, lease_released := True\<rparr> else l))" for j
      using l c'(4) heap lim by (cases "j = i") (auto split: option.splits)
    ultimately show ?thesis using c'(2,3) lim by metis
  qed
qed

lemma leases_where_card:
  assumes "distinct (map fst (lease_heap c))"
  shows "leases_where P c = int (card {i. \<exists>l. map_of (lease_heap c) i = Some l \<and> \<not> lease_released l \<and> P l})"
proof -
  let ?xs = "filter (\<lambda>(i, l). \<not> lease_released l \<and> P l) (lease_heap c)"
  have "{i. \<exists>l. map_of (lease_heap c) i = Some l \<and> \<not> lease_released l \<and> P l} = fst ` set ?xs"
    using assms by (force simp: image_iff)
  moreover have "distinct (map fst ?xs)" using assms by (rule distinct_map_filter)
  moreover from this have "card (fst ` set ?xs) = length ?xs" using distinct_card by fastforce
  ultimately show ?thesis unfolding leases_where_def by (simp only:)
qed

lemma prune_all:
  assumes "capacity_ok c"
  shows "\<exists>c'. prune_leases (open_leases c) now closing c = Inr c' \<and> capacity_ok c'
    \<and> process_limit c' = process_limit c
    \<and> fst ` set (lease_heap c') = fst ` set (lease_heap c)
    \<and> active_process c' = leases_where (\<lambda>l. now - process_acquired_at l < lease_ttl c) c"
proof -
  obtain c' where c': "prune_leases (open_leases c) now closing c = Inr c'" "capacity_ok c'"
    "process_limit c' = process_limit c"
    "\<forall>j. map_of (lease_heap c') j = (case map_of (lease_heap c) j of None \<Rightarrow> None
         | Some l \<Rightarrow> Some (if j \<in> set (open_leases c) \<and> \<not> now - process_acquired_at l < lease_ttl c
             then l\<lparr>lease_close_reason := Close_lease_expired, lease_released := True\<rparr> else l))"
    using prune_leases_ok [OF assms] by blast
  have d: "distinct (map fst (lease_heap c))" "distinct (map fst (lease_heap c'))"
    using assms c'(2) by (simp_all add: capacity_ok_def)
  have "{i. \<exists>l. map_of (lease_heap c') i = Some l \<and> \<not> lease_released l \<and> True}
      = {i. \<exists>l. map_of (lease_heap c) i = Some l \<and> \<not> lease_released l \<and> now - process_acquired_at l < lease_ttl c}"
  proof (rule Collect_cong)
    fix i
    show "(\<exists>l. map_of (lease_heap c') i = Some l \<and> \<not> lease_released l \<and> True) \<longleftrightarrow>
      (\<exists>l. map_of (lease_heap c) i = Some l \<and> \<not> lease_released l \<and> now - process_acquired_at l < lease_ttl c)"
    proof (cases "map_of (lease_heap c) i")
      case None
      then show ?thesis using c'(4) [rule_format, of i] by (simp del: map_of_eq_Some_iff)
    next
      case (Some l)
      then show ?thesis using c'(4) [rule_format, of i] open_lease_iff [OF assms, of i]
        by (cases "now - process_acquired_at l < lease_ttl c"; cases "lease_released l")
          (simp_all del: map_of_eq_Some_iff)
    qed
  qed
  then have "active_process c' = leases_where (\<lambda>l. now - process_acquired_at l < lease_ttl c) c"
    using c'(2) leases_where_card [OF d(1)] leases_where_card [OF d(2)] by (simp add: capacity_ok_def)
  moreover have "i \<in> fst ` set (lease_heap c') \<longleftrightarrow> i \<in> fst ` set (lease_heap c)" for i
    using c'(4) [rule_format, of i] by (metis (no_types, lifting) map_of_eq_None_iff option.case_eq_if option.distinct(1))
  ultimately show ?thesis using c' by blast
qed

section \<open>Connections as a system\<close>

definition capacity_start :: "sse_capacity \<Rightarrow> bool" where
  "capacity_start c \<longleftrightarrow> (\<exists>rl ul pl ttl. make_capacity rl ul pl ttl = Inr c)"

inductive capacity_step :: "sse_capacity \<Rightarrow> sse_capacity \<Rightarrow> bool" where
  step_acquire: "try_acquire_process i now closing acquired_at c = Inr (c', lease) \<Longrightarrow>
    i \<notin> fst ` set (lease_heap c) \<Longrightarrow> capacity_step c c'"
| step_owned: "try_acquire_owned i r u c = Inr (c', rejection) \<Longrightarrow> capacity_step c c'"
| step_started: "mark_stream_started i now c = Inr c' \<Longrightarrow> capacity_step c c'"
| step_reason: "mark_close_reason i reason c = c' \<Longrightarrow> capacity_step c c'"
| step_release: "sse_release i now c = Inr c' \<Longrightarrow> capacity_step c c'"

lemma new_lease_ok:
  assumes "capacity_ok c" "i \<notin> fst ` set (lease_heap c)" "active_process c < process_limit c"
    and "\<not> lease_released l" "lease_run_id l = None" "lease_user_id l = None"
  shows "capacity_ok ((put_lease i l c)\<lparr>active_process := active_process c + 1, open_leases := open_leases c @ [i]\<rparr>)"
    (is "capacity_ok ?c")
proof -
  have new: "map_of (lease_heap c) i = None" using assms(2) by (simp add: map_of_eq_None_iff)
  have count: "leases_where P ?c = leases_where P c + of_bool (P l)" for P
  proof -
    have "leases_where P ?c = leases_where P (put_lease i l c)"
      by (rule leases_where_heap) (simp add: put_lease_def)
    then show ?thesis using leases_where_new [OF new, of P l] assms(4) by simp
  qed
  have notin: "i \<notin> set (open_leases c)" using open_lease_iff [OF assms(1), of i] new by simp
  have same: "leases_where (\<lambda>l. lease_run_id l = Some k) ?c = leases_where (\<lambda>l. lease_run_id l = Some k) c"
    "leases_where (\<lambda>l. lease_user_id l = Some k) ?c = leases_where (\<lambda>l. lease_user_id l = Some k) c" for k
    using count assms(5,6) by simp_all
  have one: "leases_where (\<lambda>_. True) ?c = leases_where (\<lambda>_. True) c + 1" using count by simp
  show ?thesis
    unfolding capacity_ok_def same one
  proof (intro conjI allI)
    show "distinct (open_leases ?c)" using assms(1) notin by (simp add: capacity_ok_def)
    show "j \<in> set (open_leases ?c) \<longleftrightarrow> (\<exists>l. map_of (lease_heap ?c) j = Some l \<and> \<not> lease_released l)" for j
      using open_lease_iff [OF assms(1), of j] assms(4) new
      by (auto simp: put_lease_def simp del: map_of_eq_Some_iff)
    show "map_of (lease_heap ?c) j = Some m \<longrightarrow> (lease_run_id m = None) = (lease_user_id m = None)" for j m
      using owner_pair [OF assms(1), of j m] assms(5,6) by (auto simp: put_lease_def simp del: map_of_eq_Some_iff)
  qed (use assms(1,3) in \<open>simp_all add: put_lease_def capacity_ok_def distinct_update_keys\<close>)
qed

lemma owned_lease_ok:
  assumes ok: "capacity_ok c" and l: "map_of (lease_heap c) i = Some l" "\<not> lease_released l" "lease_run_id l = None"
    and room: "count_of (active_by_run c) r < run_limit c" "count_of (active_by_user c) u < user_limit c"
  shows "capacity_ok ((put_lease i (l\<lparr>lease_run_id := Some r, lease_user_id := Some u\<rparr>) c)
     \<lparr>active_by_run := AList.update r (count_of (active_by_run c) r + 1) (active_by_run c),
      active_by_user := AList.update u (count_of (active_by_user c) u + 1) (active_by_user c)\<rparr>)"
    (is "capacity_ok ?c")
proof -
  let ?l = "l\<lparr>lease_run_id := Some r, lease_user_id := Some u\<rparr>"
  have d: "distinct (map fst (lease_heap c))" using ok by (simp add: capacity_ok_def)
  have none: "lease_user_id l = None" using owner_pair [OF ok l(1)] l(3) by simp
  have count: "leases_where P ?c = leases_where P c - of_bool (P l) + of_bool (P ?l)" for P
  proof -
    have "leases_where P ?c = leases_where P (put_lease i ?l c)"
      by (rule leases_where_heap) (simp add: put_lease_def)
    then show ?thesis using leases_where_put [OF d l(1), of P ?l] l(2) by simp
  qed
  have runs: "leases_where (\<lambda>l. lease_run_id l = Some k) ?c
      = leases_where (\<lambda>l. lease_run_id l = Some k) c + of_bool (k = r)" for k
    using count [of "\<lambda>l. lease_run_id l = Some k"] l(3) by (simp add: eq_commute)
  have users: "leases_where (\<lambda>l. lease_user_id l = Some k) ?c
      = leases_where (\<lambda>l. lease_user_id l = Some k) c + of_bool (k = u)" for k
    using count [of "\<lambda>l. lease_user_id l = Some k"] none by (simp add: eq_commute)
  have all: "leases_where (\<lambda>_. True) ?c = leases_where (\<lambda>_. True) c" using count by simp
  have m: "counts_match (active_by_run c) (\<lambda>r. leases_where (\<lambda>l. lease_run_id l = Some r) c)"
    "counts_match (active_by_user c) (\<lambda>u. leases_where (\<lambda>l. lease_user_id l = Some u) c)"
    using ok by (simp_all add: capacity_ok_def)
  note room' = room [unfolded count_of_match [OF m(1)] count_of_match [OF m(2)]]
  have lim: "\<forall>k. leases_where (\<lambda>l. lease_run_id l = Some k) c \<le> run_limit c"
    "\<forall>k. leases_where (\<lambda>l. lease_user_id l = Some k) c \<le> user_limit c"
    using ok by (simp_all add: capacity_ok_def)
  show ?thesis
    unfolding capacity_ok_def runs users all
  proof (intro conjI allI)
    show "j \<in> set (open_leases ?c) \<longleftrightarrow> (\<exists>l. map_of (lease_heap ?c) j = Some l \<and> \<not> lease_released l)" for j
      using open_lease_iff [OF ok, of j] l by (auto simp: put_lease_def simp del: map_of_eq_Some_iff)
    show "map_of (lease_heap ?c) j = Some m \<longrightarrow> (lease_run_id m = None) = (lease_user_id m = None)" for j m
      using owner_pair [OF ok, of j m] by (auto simp: put_lease_def simp del: map_of_eq_Some_iff)
    show "counts_match (active_by_run ?c) (\<lambda>k. leases_where (\<lambda>l. lease_run_id l = Some k) c + of_bool (k = r))"
      using increment_match [OF m(1) leases_where_nonneg] by simp
    show "counts_match (active_by_user ?c) (\<lambda>k. leases_where (\<lambda>l. lease_user_id l = Some k) c + of_bool (k = u))"
      using increment_match [OF m(2) leases_where_nonneg] by simp
    show "leases_where (\<lambda>l. lease_run_id l = Some k) c + of_bool (k = r) \<le> run_limit ?c" for k
      using lim(1) room'(1) by (cases "k = r") (simp_all add: put_lease_def)
    show "leases_where (\<lambda>l. lease_user_id l = Some k) c + of_bool (k = u) \<le> user_limit ?c" for k
      using lim(2) room'(2) by (cases "k = u") (simp_all add: put_lease_def)
  qed (use ok in \<open>simp_all add: put_lease_def capacity_ok_def distinct_update_keys\<close>)
qed

lemma try_acquire_process_ok:
  assumes "capacity_ok c" "i \<notin> fst ` set (lease_heap c)"
  shows "\<exists>c'. capacity_ok c' \<and> try_acquire_process i now closing acquired_at c = Inr (c',
    if leases_where (\<lambda>l. now - process_acquired_at l < lease_ttl c) c \<ge> process_limit c then None else Some i)"
proof -
  obtain c1 where c1: "prune_leases (open_leases c) now closing c = Inr c1" "capacity_ok c1"
    "process_limit c1 = process_limit c" "fst ` set (lease_heap c1) = fst ` set (lease_heap c)"
    "active_process c1 = leases_where (\<lambda>l. now - process_acquired_at l < lease_ttl c) c"
    using prune_all [OF assms(1)] by blast
  show ?thesis
  proof (cases "active_process c1 \<ge> process_limit c1")
    case True
    then show ?thesis using c1 emit_ok [OF c1(2)] by (auto simp: try_acquire_process_def)
  next
    case False
    then have room: "active_process c1 < process_limit c1" by simp
    have fresh: "i \<notin> fst ` set (lease_heap c1)" using assms(2) c1(4) by simp
    show ?thesis
      using False c1 new_lease_ok [OF c1(2) fresh room] by (auto simp: try_acquire_process_def Let_def)
  qed
qed

lemma release_unowned:
  "\<not> lease_released l \<Longrightarrow> lease_run_id l = None \<Longrightarrow> release_process i l c = release_locked i l now c"
  by (simp add: release_locked_def release_counts_def)

lemma try_acquire_owned_ok:
  assumes ok: "capacity_ok c" and l: "map_of (lease_heap c) i = Some l" "\<not> lease_released l" "lease_run_id l = None"
  shows "\<exists>c'. capacity_ok c' \<and> try_acquire_owned i r u c = Inr (c',
    if leases_where (\<lambda>l. lease_run_id l = Some r) c \<ge> run_limit c then Some Rejected_run
    else if leases_where (\<lambda>l. lease_user_id l = Some u) c \<ge> user_limit c then Some Rejected_user else None)"
proof -
  have counts: "count_of (active_by_run c) r = leases_where (\<lambda>l. lease_run_id l = Some r) c"
    "count_of (active_by_user c) u = leases_where (\<lambda>l. lease_user_id l = Some u) c"
    using ok count_of_match by (auto simp: capacity_ok_def)
  have rel: "\<exists>c'. capacity_ok c' \<and> release_process i l (emit m c) = Inr c'" for m
  proof -
    have "map_of (lease_heap (emit m c)) i = Some l" using l(1) by (simp add: emit_def)
    then show ?thesis
      using release_locked_ok [OF emit_ok [OF ok]] release_unowned [OF l(2,3)] by metis
  qed
  show ?thesis
  proof (cases "count_of (active_by_run c) r \<ge> run_limit c \<or> count_of (active_by_user c) u \<ge> user_limit c")
    case True
    then show ?thesis
      using l rel [of "Capacity_rejected ''run''"] rel [of "Capacity_rejected ''user''"]
      by (auto simp: try_acquire_owned_def counts simp del: map_of_eq_Some_iff)
  next
    case False
    then have room: "count_of (active_by_run c) r < run_limit c" "count_of (active_by_user c) u < user_limit c" by simp_all
    show ?thesis
      using l room owned_lease_ok [OF ok l room]
      by (auto simp: try_acquire_owned_def counts [symmetric] simp del: map_of_eq_Some_iff)
  qed
qed

lemma try_acquire_owned_Inr:
  "try_acquire_owned i r u c = Inr (c', rejection) \<Longrightarrow>
   \<exists>l. map_of (lease_heap c) i = Some l \<and> \<not> lease_released l \<and> lease_run_id l = None"
  by (auto simp: try_acquire_owned_def split: option.splits if_splits)

lemma mark_stream_started_ok:
  "capacity_ok c \<Longrightarrow> mark_stream_started i now c = Inr c' \<Longrightarrow> capacity_ok c'"
  by (auto simp: mark_stream_started_def split: option.splits if_splits intro!: emit_ok intro: put_same_ok
      simp del: map_of_eq_Some_iff)

lemma mark_close_reason_ok: "capacity_ok c \<Longrightarrow> capacity_ok (mark_close_reason i reason c)"
  by (auto simp: mark_close_reason_def split: option.splits intro: put_same_ok simp del: map_of_eq_Some_iff)

lemma sse_release_ok: "capacity_ok c \<Longrightarrow> \<exists>c'. sse_release i now c = Inr c' \<and> capacity_ok c'"
  using release_locked_ok [of c i _ now] by (auto simp: sse_release_def split: option.splits simp del: map_of_eq_Some_iff)

lemma make_capacity_ok: "make_capacity rl ul pl ttl = Inr c \<Longrightarrow> capacity_ok c"
  by (auto simp: make_capacity_def capacity_ok_def leases_where_def counts_match_def split: if_splits)

lemma capacity_step_ok: "capacity_step c c' \<Longrightarrow> capacity_ok c \<Longrightarrow> capacity_ok c'"
proof (induction rule: capacity_step.induct)
  case (step_acquire i now closing acquired_at c c' lease)
  then obtain d x where "capacity_ok d" "try_acquire_process i now closing acquired_at c = Inr (d, x)"
    using try_acquire_process_ok by blast
  then show ?case using step_acquire by simp
next
  case (step_owned i r u c c' rejection)
  then obtain l where "map_of (lease_heap c) i = Some l" "\<not> lease_released l" "lease_run_id l = None"
    using try_acquire_owned_Inr by blast
  then obtain d x where "capacity_ok d" "try_acquire_owned i r u c = Inr (d, x)"
    using try_acquire_owned_ok step_owned by blast
  then show ?case using step_owned by simp
next
  case (step_release i now c c')
  then obtain d where "capacity_ok d" "sse_release i now c = Inr d" using sse_release_ok by blast
  then show ?case using step_release by simp
qed (use mark_stream_started_ok mark_close_reason_ok in auto)

interpretation capacity_sys: invariant_system capacity_start capacity_step capacity_ok
  by unfold_locales (auto simp: capacity_start_def intro: make_capacity_ok capacity_step_ok)



text \<open>
  Connections that were never closed do not block new ones for good. A connection is refused
  exactly when as many leases as the process may hold are open and younger than the life of a
  lease; so it is admitted once that life has passed for all of them.
\<close>

theorem capacity_recovers:
  assumes "reach capacity_start capacity_step c" "i \<notin> fst ` set (lease_heap c)"
  shows "\<exists>c' admitted. try_acquire_process i now closing acquired_at c = Inr (c', admitted)
    \<and> (admitted = None \<longleftrightarrow> leases_where (\<lambda>l. now - process_acquired_at l < lease_ttl c) c \<ge> process_limit c)
    \<and> ((\<forall>(j, l) \<in> set (lease_heap c). process_acquired_at l + lease_ttl c \<le> now) \<longrightarrow> admitted = Some i)"
proof -
  have ok: "capacity_ok c" by (rule capacity_sys.reach_inv [OF assms(1)])
  obtain c' where c': "try_acquire_process i now closing acquired_at c = Inr (c',
    if leases_where (\<lambda>l. now - process_acquired_at l < lease_ttl c) c \<ge> process_limit c then None else Some i)"
    using try_acquire_process_ok [OF ok assms(2)] by blast
  have "leases_where (\<lambda>l. now - process_acquired_at l < lease_ttl c) c = 0"
    if "\<forall>(j, l) \<in> set (lease_heap c). process_acquired_at l + lease_ttl c \<le> now"
    using that by (fastforce simp: leases_where_def filter_empty_conv)
  moreover have "1 \<le> process_limit c" using ok by (simp add: capacity_ok_def)
  ultimately show ?thesis using c' by auto
qed

lemma capacity_recovers_witness:
  "\<exists>c c'. make_capacity 2 4 50 55 = Inr c \<and> try_acquire_process 0 0 (\<lambda>_. 0) 0 c = Inr (c', Some 0)"
proof -
  obtain c where c: "make_capacity 2 4 50 55 = Inr c" "lease_heap c = []" by (simp add: make_capacity_def)
  then have "capacity_start c" unfolding capacity_start_def by blast
  then have "reach capacity_start capacity_step c" by (rule reach_start)
  from capacity_recovers [OF this, of 0 0 "\<lambda>_. 0" 0] show ?thesis using c by auto
qed

end
