(* ===== verification/SseConnection.thy ===== *)
theory SseConnection
  imports LiveStream SseCapacity "HOL-Library.Sublist"
begin

text \<open>
  The connections that send the live stream to a browser (\<^verbatim>\<open>agent/live_updates/sse.py\<close>):
  the frames, the running connection, the connection of a queued run and the preparation of a
  running one. Clock, reader, sleeping, the client and the lease are the environment: every
  interaction consumes the next index of it, and every point that awaits may be cancelled or
  raise.
\<close>

section \<open>Frames\<close>

record sse_timing =
  follow_interval :: duration
  heartbeat_interval :: duration
  connection_max_age :: duration
  initial_stream_missing_grace :: duration
  midstream_stream_missing_grace :: duration
  repin_attempt_absent_grace :: duration
  queued_recheck_interval :: duration
  queued_wait_limit :: duration

definition default_timing :: sse_timing where
  "default_timing = \<lparr>follow_interval = 500000, heartbeat_interval = seconds 10, connection_max_age = seconds 45,
     initial_stream_missing_grace = seconds 2, midstream_stream_missing_grace = seconds 2,
     repin_attempt_absent_grace = seconds 2, queued_recheck_interval = seconds 2, queued_wait_limit = seconds 10\<rparr>"

datatype preflight_failure = Preflight_unavailable | Preflight_cursor_trimmed

definition REDIS_STREAM_ID_PART_MAX :: int where "REDIS_STREAM_ID_PART_MAX = 2 ^ 64 - 1"

text \<open>\<^verbatim>\<open>[0-9]+-[0-9]+\<close>, both parts in canonical form and within 64 bits.\<close>

definition validate_redis_stream_id :: "pystr \<Rightarrow> py_exc + pystr" where
  "validate_redis_stream_id s =
     (let ms = takeWhile (\<lambda>c. c \<noteq> 45) s; rest = dropWhile (\<lambda>c. c \<noteq> 45) s; sq = tl rest in
      if rest = [] \<or> ms = [] \<or> sq = [] \<or> \<not> list_all is_ascii_digit ms \<or> \<not> list_all is_ascii_digit sq then Inl ValueError
      else if str_of_nat (value_of_digits ms) \<noteq> ms \<or> str_of_nat (value_of_digits sq) \<noteq> sq
        \<or> int (value_of_digits ms) > REDIS_STREAM_ID_PART_MAX \<or> int (value_of_digits sq) > REDIS_STREAM_ID_PART_MAX
      then Inl ValueError
      else Inr s)"

text \<open>The renaming of keys by the validation library is a parameter: \<open>to_camel\<close>.\<close>

fun camelize :: "(pystr \<Rightarrow> pystr) \<Rightarrow> json \<Rightarrow> json" where
  "camelize to_camel (JObj ms) = JObj (py_dict (map (\<lambda>(k, v). (to_camel k, camelize to_camel v)) ms))"
| "camelize to_camel (JArr xs) = JArr (map (camelize to_camel) xs)"
| "camelize to_camel v = v"

fun frame_data :: "(pystr \<Rightarrow> pystr) \<Rightarrow> stream_event \<Rightarrow> (pystr \<times> json) list" where
  "frame_data to_camel Attempt_started = []"
| "frame_data to_camel (Stage_event s) = [(lit ''stage'', JStr (stage_name s))]"
| "frame_data to_camel (Activity_event a) = [(lit ''activity'', camelize to_camel (dump_activity a))]"
| "frame_data to_camel (Answer_delta g t) = [(lit ''generation'', JInt g), (lit ''text'', JStr t)]"
| "frame_data to_camel (Answer_reset g) = [(lit ''generation'', JInt g)]"
| "frame_data to_camel (Terminal_event s code) =
     (lit ''status'', JStr (terminal_status_name s))
     # (case code of None \<Rightarrow> [] | Some c \<Rightarrow> [(lit ''errorCode'', JStr (error_code_value c))])"

definition frame_json :: "(pystr \<Rightarrow> pystr) \<Rightarrow> stream_entry \<Rightarrow> json" where
  "frame_json to_camel entry =
     JObj ((lit ''attemptEpoch'', JInt (entry_epoch entry)) # frame_data to_camel (entry_event entry))"

text \<open>Every event class is on the list, so no entry is dropped.\<close>

definition serialize_entry :: "(pystr \<Rightarrow> pystr) \<Rightarrow> stream_entry \<Rightarrow> py_exc + nat list" where
  "serialize_entry to_camel entry =
     (case validate_redis_stream_id (entry_id entry) of
        Inl x \<Rightarrow> Inl x
      | Inr stream_id \<Rightarrow>
          utf8_encode (lit ''id: '' @ stream_id @ [10] @ lit ''event: '' @ event_type (entry_event entry) @ [10]
            @ lit ''data: '' @ json_dumps (frame_json to_camel entry) @ [10, 10]))"

section \<open>The environment and the state of a connection\<close>

datatype 'a awaited = Value 'a | Cancelled_await | Raised_await py_exc

record sse_env =
  env_clock :: "nat \<Rightarrow> time"
  env_disconnected :: "nat \<Rightarrow> bool awaited"
  env_read :: "nat \<Rightarrow> int \<Rightarrow> pystr option \<Rightarrow> read_result awaited"
  env_sleep :: "nat \<Rightarrow> duration \<Rightarrow> unit awaited"
  env_yield :: "nat \<Rightarrow> unit awaited"
  env_start :: "nat \<Rightarrow> unit awaited"
  env_context :: "nat \<Rightarrow> (run_status \<times> int) option awaited"

datatype sse_frame = Frame_retry | Frame_heartbeat | Frame_event stream_entry "nat list"

datatype lease_call = Lease_started | Lease_reason close_reason | Lease_release

text \<open>
  The field \<open>conn_results\<close> records the results read, for the statements about what is sent.
\<close>

record sse_conn =
  conn_epoch :: int
  conn_cursor :: "pystr option"
  conn_last_sent :: time
  conn_pending :: "read_result option"
  conn_missing_since :: "time option"
  conn_repinned_at :: "time option"
  conn_frames :: "sse_frame list"
  conn_lease :: "lease_call list"
  conn_step :: nat
  conn_results :: "read_result list"

datatype conn_exit = Exit_return | Exit_cancelled | Exit_raised py_exc

type_synonym 'a conn_io = "sse_conn \<Rightarrow> (conn_exit + 'a) \<times> sse_conn"

definition conn_return :: "'a \<Rightarrow> 'a conn_io" where
  "conn_return a s = (Inr a, s)"

definition conn_bind :: "'a conn_io \<Rightarrow> ('a \<Rightarrow> 'b conn_io) \<Rightarrow> 'b conn_io" where
  "conn_bind m f s = (case m s of (Inl x, s') \<Rightarrow> (Inl x, s') | (Inr a, s') \<Rightarrow> f a s')"

definition conn_update :: "(sse_conn \<Rightarrow> sse_conn) \<Rightarrow> unit conn_io" where
  "conn_update f s = (Inr (), f s)"

definition conn_get :: "(sse_conn \<Rightarrow> 'a) \<Rightarrow> 'a conn_io" where
  "conn_get f s = (Inr (f s), s)"

definition ask :: "(nat \<Rightarrow> 'a awaited) \<Rightarrow> 'a conn_io" where
  "ask f s =
     ((case f (conn_step s) of
         Value a \<Rightarrow> Inr a
       | Cancelled_await \<Rightarrow> Inl Exit_cancelled
       | Raised_await x \<Rightarrow> Inl (Exit_raised x)), s\<lparr>conn_step := conn_step s + 1\<rparr>)"

definition read_clock :: "sse_env \<Rightarrow> time conn_io" where
  "read_clock env = ask (\<lambda>k. Value (env_clock env k))"

text \<open>A frame that was handed over is sent, also when the consumer stops there.\<close>

definition send_frame :: "sse_env \<Rightarrow> sse_frame \<Rightarrow> unit conn_io" where
  "send_frame env fr =
     conn_bind (conn_update (\<lambda>s. s\<lparr>conn_frames := conn_frames s @ [fr]\<rparr>)) (\<lambda>_. ask (env_yield env))"

definition lease_call_io :: "lease_call \<Rightarrow> unit conn_io" where
  "lease_call_io c = conn_update (\<lambda>s. s\<lparr>conn_lease := conn_lease s @ [c]\<rparr>)"

definition stop_with :: "close_reason \<Rightarrow> unit conn_io" where
  "stop_with reason = conn_bind (lease_call_io (Lease_reason reason)) (\<lambda>_ s. (Inl Exit_return, s))"

section \<open>The running connection\<close>

fun is_terminal_event :: "stream_event \<Rightarrow> bool" where
  "is_terminal_event (Terminal_event _ _) = True"
| "is_terminal_event _ = False"

fun send_entries :: "(pystr \<Rightarrow> pystr) \<Rightarrow> sse_env \<Rightarrow> stream_entry list \<Rightarrow> unit conn_io" where
  "send_entries to_camel env [] = conn_return ()"
| "send_entries to_camel env (entry # rest) =
     (case serialize_entry to_camel entry of
        Inl x \<Rightarrow> (\<lambda>s. (Inl (Exit_raised x), s))
      | Inr bytes \<Rightarrow>
          conn_bind (send_frame env (Frame_event entry bytes)) (\<lambda>_.
          conn_bind (read_clock env) (\<lambda>t.
          conn_bind (conn_update (\<lambda>s. s\<lparr>conn_last_sent := t\<rparr>)) (\<lambda>_.
          if is_terminal_event (entry_event entry) then stop_with Close_terminal
          else send_entries to_camel env rest))))"

definition advance_cursor :: "pystr option \<Rightarrow> sse_conn \<Rightarrow> sse_conn" where
  "advance_cursor c s = (if c \<noteq> None then s\<lparr>conn_cursor := c\<rparr> else s)"

definition on_events :: "(pystr \<Rightarrow> pystr) \<Rightarrow> sse_env \<Rightarrow> read_result \<Rightarrow> unit conn_io" where
  "on_events to_camel env result =
     conn_bind (conn_update (\<lambda>s. advance_cursor (read_cursor result)
       (s\<lparr>conn_missing_since := None, conn_repinned_at := None\<rparr>))) (\<lambda>_.
     send_entries to_camel env (read_entries result))"

definition on_advanced :: "sse_env \<Rightarrow> read_result \<Rightarrow> unit conn_io" where
  "on_advanced env result =
     conn_bind (conn_get conn_epoch) (\<lambda>e.
     case observed_epoch result of
       None \<Rightarrow> stop_with Close_unavailable
     | Some observed \<Rightarrow>
         if observed \<le> e then stop_with Close_unavailable
         else
           conn_bind (conn_update (\<lambda>s. advance_cursor (read_cursor result) (s\<lparr>conn_epoch := observed\<rparr>))) (\<lambda>_.
           conn_bind (read_clock env) (\<lambda>t.
           conn_update (\<lambda>s. s\<lparr>conn_repinned_at := Some t\<rparr>))))"

text \<open>Whether the stream has been missing for its grace; otherwise the watch is kept or reset.\<close>

definition missing_too_long :: "sse_env \<Rightarrow> sse_timing \<Rightarrow> read_result \<Rightarrow> bool conn_io" where
  "missing_too_long env tm result =
     (if read_status result = Read_stream_missing then
        conn_bind (conn_get conn_missing_since) (\<lambda>m.
        conn_bind (case m of
            None \<Rightarrow> conn_bind (read_clock env) (\<lambda>t.
              conn_bind (conn_update (\<lambda>s. s\<lparr>conn_missing_since := Some t\<rparr>)) (\<lambda>_. conn_return t))
          | Some t \<Rightarrow> conn_return t) (\<lambda>since.
        conn_bind (read_clock env) (\<lambda>t.
        conn_return (t - since \<ge> midstream_stream_missing_grace tm))))
      else conn_bind (conn_update (\<lambda>s. s\<lparr>conn_missing_since := None\<rparr>)) (\<lambda>_. conn_return False))"

definition absent_too_long :: "sse_env \<Rightarrow> sse_timing \<Rightarrow> read_result \<Rightarrow> bool conn_io" where
  "absent_too_long env tm result =
     conn_bind (conn_get conn_repinned_at) (\<lambda>p.
     case p of
       None \<Rightarrow> conn_return False
     | Some since \<Rightarrow>
         if read_status result \<noteq> Read_attempt_absent then conn_return False
         else conn_bind (read_clock env) (\<lambda>t. conn_return (t - since \<ge> repin_attempt_absent_grace tm)))"

definition on_waiting :: "sse_env \<Rightarrow> sse_timing \<Rightarrow> time \<Rightarrow> read_result \<Rightarrow> unit conn_io" where
  "on_waiting env tm started result =
     conn_bind (conn_update (advance_cursor (read_cursor result))) (\<lambda>_.
     if read_status result = Read_cursor_trimmed then stop_with Close_cursor_trimmed
     else if read_status result = Read_unavailable then stop_with Close_unavailable
     else
       conn_bind (missing_too_long env tm result) (\<lambda>missing.
       if missing then stop_with Close_unavailable
       else
         conn_bind (absent_too_long env tm result) (\<lambda>absent.
         if absent then stop_with Close_unavailable
         else
           conn_bind (read_clock env) (\<lambda>t.
           let remaining = connection_max_age tm - (t - started) in
           if remaining \<le> 0 then stop_with Close_max_age
           else ask (\<lambda>k. env_sleep env k (min (follow_interval tm) remaining))))))"

text \<open>The pending result, or a new one.\<close>

definition next_result :: "sse_env \<Rightarrow> read_result conn_io" where
  "next_result env =
     conn_bind (conn_get (\<lambda>s. (conn_pending s, conn_epoch s, conn_cursor s))) (\<lambda>(pending, e, c).
     conn_bind (case pending of Some r \<Rightarrow> conn_return r | None \<Rightarrow> ask (\<lambda>k. env_read env k e c)) (\<lambda>r.
     conn_bind (conn_update (\<lambda>s. s\<lparr>conn_pending := None, conn_results := conn_results s @ [r]\<rparr>)) (\<lambda>_.
     conn_return r)))"

definition heartbeat_if_due :: "sse_env \<Rightarrow> sse_timing \<Rightarrow> unit conn_io" where
  "heartbeat_if_due env tm =
     conn_bind (read_clock env) (\<lambda>now.
     conn_bind (conn_get conn_last_sent) (\<lambda>sent.
     if now - sent \<ge> heartbeat_interval tm then
       conn_bind (send_frame env Frame_heartbeat) (\<lambda>_. conn_update (\<lambda>s. s\<lparr>conn_last_sent := now\<rparr>))
     else conn_return ()))"

definition conn_iteration :: "(pystr \<Rightarrow> pystr) \<Rightarrow> sse_env \<Rightarrow> sse_timing \<Rightarrow> time \<Rightarrow> unit conn_io" where
  "conn_iteration to_camel env tm started =
     conn_bind (read_clock env) (\<lambda>t.
     if \<not> t - started < connection_max_age tm then stop_with Close_max_age
     else
       conn_bind (ask (env_disconnected env)) (\<lambda>gone.
       if gone then stop_with Close_client_disconnect
       else
         conn_bind (heartbeat_if_due env tm) (\<lambda>_.
         conn_bind (next_result env) (\<lambda>result.
         if read_status result = Read_events then on_events to_camel env result
         else if read_status result = Read_attempt_advanced then on_advanced env result
         else on_waiting env tm started result))))"

text \<open>The loop with fuel; running out of it is \<^const>\<open>None\<close>.\<close>

fun conn_loop :: "(pystr \<Rightarrow> pystr) \<Rightarrow> sse_env \<Rightarrow> sse_timing \<Rightarrow> time \<Rightarrow> nat \<Rightarrow> sse_conn \<Rightarrow> (conn_exit \<times> sse_conn) option" where
  "conn_loop to_camel env tm started 0 s = None"
| "conn_loop to_camel env tm started (Suc n) s =
     (case conn_iteration to_camel env tm started s of
        (Inl x, s') \<Rightarrow> Some (x, s')
      | (Inr _, s') \<Rightarrow> conn_loop to_camel env tm started n s')"

text \<open>The handlers and the \<^verbatim>\<open>finally\<close> around a connection.\<close>

definition close_connection :: "conn_exit \<times> sse_conn \<Rightarrow> conn_exit \<times> sse_conn" where
  "close_connection xs =
     (let (x, s) = xs;
          reasons = (case x of
              Exit_return \<Rightarrow> []
            | Exit_cancelled \<Rightarrow> [Lease_reason Close_client_disconnect]
            | Exit_raised _ \<Rightarrow> [Lease_reason Close_unavailable])
      in (x, s\<lparr>conn_lease := conn_lease s @ reasons @ [Lease_release]\<rparr>))"

definition start_frames :: "sse_env \<Rightarrow> bool \<Rightarrow> unit conn_io" where
  "start_frames env include_retry =
     conn_bind (lease_call_io Lease_started) (\<lambda>_.
     conn_bind (ask (env_start env)) (\<lambda>_.
     if include_retry then send_frame env Frame_retry else conn_return ()))"

definition running_frames ::
    "(pystr \<Rightarrow> pystr) \<Rightarrow> sse_env \<Rightarrow> sse_timing \<Rightarrow> time \<Rightarrow> bool \<Rightarrow> nat \<Rightarrow> sse_conn \<Rightarrow> (conn_exit \<times> sse_conn) option" where
  "running_frames to_camel env tm started include_retry n s =
     map_option close_connection
       (case start_frames env include_retry (s\<lparr>conn_last_sent := started\<rparr>) of
          (Inl x, s') \<Rightarrow> Some (x, s')
        | (Inr _, s') \<Rightarrow> conn_loop to_camel env tm started n s')"

section \<open>The connection of a queued run\<close>

text \<open>What an iteration decides: go on, or end here, or hand over to a running connection.\<close>

datatype queued_next = Queued_again | Queued_attempt int read_result

definition queued_within :: "sse_env \<Rightarrow> sse_timing \<Rightarrow> time \<Rightarrow> time \<Rightarrow> bool conn_io" where
  "queued_within env tm started queued_at =
     conn_bind (read_clock env) (\<lambda>t.
     if \<not> t - queued_at < queued_wait_limit tm then conn_return False
     else conn_bind (read_clock env) (\<lambda>u. conn_return (u - started < connection_max_age tm)))"

definition queued_pause :: "sse_env \<Rightarrow> sse_timing \<Rightarrow> time \<Rightarrow> time \<Rightarrow> bool conn_io" where
  "queued_pause env tm started queued_at =
     conn_bind (read_clock env) (\<lambda>t.
     conn_bind (read_clock env) (\<lambda>u.
     let remaining = min (min (queued_recheck_interval tm) (queued_wait_limit tm - (t - queued_at)))
           (connection_max_age tm - (u - started))
     in if remaining \<le> 0 then conn_return False
        else conn_bind (ask (\<lambda>k. env_sleep env k remaining)) (\<lambda>_. conn_return True)))"

definition queued_heartbeat :: "sse_env \<Rightarrow> sse_timing \<Rightarrow> unit conn_io" where
  "queued_heartbeat env tm =
     conn_bind (read_clock env) (\<lambda>t.
     conn_bind (conn_get conn_last_sent) (\<lambda>sent.
     if t - sent \<ge> heartbeat_interval tm then
       conn_bind (send_frame env Frame_heartbeat) (\<lambda>_.
       conn_bind (read_clock env) (\<lambda>u. conn_update (\<lambda>s. s\<lparr>conn_last_sent := u\<rparr>)))
     else conn_return ()))"

text \<open>An exception of the query ends the connection; a cancellation passes.\<close>

definition load_context :: "sse_env \<Rightarrow> (run_status \<times> int) option conn_io" where
  "load_context env s =
     (case ask (env_context env) s of
        (Inl (Exit_raised x), s') \<Rightarrow> (case stop_with Close_unavailable s' of (r, s'') \<Rightarrow> (Inl Exit_return, s''))
      | res \<Rightarrow> res)"

definition stop_queued :: "close_reason \<Rightarrow> queued_next conn_io" where
  "stop_queued reason = conn_bind (stop_with reason) (\<lambda>_. conn_return Queued_again)"

definition queued_iteration :: "sse_env \<Rightarrow> sse_timing \<Rightarrow> time \<Rightarrow> time \<Rightarrow> queued_next conn_io" where
  "queued_iteration env tm started queued_at =
     conn_bind (queued_within env tm started queued_at) (\<lambda>within.
     if \<not> within then
       conn_bind (read_clock env) (\<lambda>t.
       if t - started \<ge> connection_max_age tm then stop_queued Close_max_age else (\<lambda>s. (Inl Exit_return, s)))
     else
       conn_bind (ask (env_disconnected env)) (\<lambda>gone.
       if gone then stop_queued Close_client_disconnect
       else
         conn_bind (queued_pause env tm started queued_at) (\<lambda>slept.
         if \<not> slept then (\<lambda>s. (Inl Exit_return, s))
         else
           conn_bind (queued_heartbeat env tm) (\<lambda>_.
           conn_bind (load_context env) (\<lambda>context.
           case context of
             None \<Rightarrow> stop_queued Close_queued_terminal
           | Some (status, e) \<Rightarrow>
               if is_finished status then stop_queued Close_queued_terminal
               else if \<not> has_attempt_started e then conn_return Queued_again
               else
                 conn_bind (conn_get conn_cursor) (\<lambda>c.
                 conn_bind (ask (\<lambda>k. env_read env k e c)) (\<lambda>r. conn_return (Queued_attempt e r))))))))"

fun queued_loop ::
    "(pystr \<Rightarrow> pystr) \<Rightarrow> sse_env \<Rightarrow> sse_timing \<Rightarrow> time \<Rightarrow> time \<Rightarrow> nat \<Rightarrow> sse_conn \<Rightarrow> (conn_exit \<times> sse_conn) option" where
  "queued_loop to_camel env tm started queued_at 0 s = None"
| "queued_loop to_camel env tm started queued_at (Suc n) s =
     (case queued_iteration env tm started queued_at s of
        (Inl x, s') \<Rightarrow> Some (x, s')
      | (Inr Queued_again, s') \<Rightarrow> queued_loop to_camel env tm started queued_at n s'
      | (Inr (Queued_attempt e r), s') \<Rightarrow>
          running_frames to_camel env tm started False n
            (s'\<lparr>conn_epoch := e, conn_pending := Some r, conn_missing_since := None, conn_repinned_at := None\<rparr>))"

definition queued_frames ::
    "(pystr \<Rightarrow> pystr) \<Rightarrow> sse_env \<Rightarrow> sse_timing \<Rightarrow> time \<Rightarrow> nat \<Rightarrow> sse_conn \<Rightarrow> (conn_exit \<times> sse_conn) option" where
  "queued_frames to_camel env tm started n s =
     (case conn_bind (lease_call_io (Lease_reason Close_queued_timeout)) (\<lambda>_. read_clock env)
             (s\<lparr>conn_last_sent := started\<rparr>) of
        (Inl x, s1) \<Rightarrow> Some (x, s1)
      | (Inr queued_at, s1) \<Rightarrow>
          map_option close_connection
            (case start_frames env True s1 of
               (Inl x, s2) \<Rightarrow> Some (x, s2)
             | (Inr _, s2) \<Rightarrow> queued_loop to_camel env tm started queued_at n s2))"

section \<open>Preparing a running connection\<close>

text \<open>
  \<^const>\<open>None\<close>: read again; otherwise the failure, or the connection whose epoch, cursor and
  first result are in the state.
\<close>

definition release_and_fail :: "preflight_failure \<Rightarrow> (preflight_failure + unit) option conn_io" where
  "release_and_fail f = conn_bind (lease_call_io Lease_release) (\<lambda>_. conn_return (Some (Inl f)))"

definition prepare_missing :: "sse_env \<Rightarrow> sse_timing \<Rightarrow> (preflight_failure + unit) option conn_io" where
  "prepare_missing env tm =
     conn_bind (conn_get conn_missing_since) (\<lambda>m.
     conn_bind (case m of
         None \<Rightarrow> conn_bind (read_clock env) (\<lambda>t.
           conn_bind (conn_update (\<lambda>s. s\<lparr>conn_missing_since := Some t\<rparr>)) (\<lambda>_. conn_return t))
       | Some t \<Rightarrow> conn_return t) (\<lambda>since.
     conn_bind (read_clock env) (\<lambda>t.
     if t - since \<ge> initial_stream_missing_grace tm then release_and_fail Preflight_unavailable
     else
       conn_bind (read_clock env) (\<lambda>u.
       conn_bind (ask (\<lambda>k. env_sleep env k (min (follow_interval tm) (initial_stream_missing_grace tm - (u - since)))))
         (\<lambda>_. conn_return None)))))"

definition prepare_iteration :: "sse_env \<Rightarrow> sse_timing \<Rightarrow> (preflight_failure + unit) option conn_io" where
  "prepare_iteration env tm =
     conn_bind (conn_get (\<lambda>s. (conn_epoch s, conn_cursor s))) (\<lambda>(e, c).
     conn_bind (ask (\<lambda>k. env_read env k e c)) (\<lambda>result.
     if read_status result = Read_unavailable then release_and_fail Preflight_unavailable
     else if read_status result = Read_cursor_trimmed then release_and_fail Preflight_cursor_trimmed
     else if read_status result = Read_attempt_advanced then
       (case observed_epoch result of
          None \<Rightarrow> release_and_fail Preflight_unavailable
        | Some observed \<Rightarrow>
            if observed \<le> e then release_and_fail Preflight_unavailable
            else conn_bind (conn_update (\<lambda>s. advance_cursor (read_cursor result) (s\<lparr>conn_epoch := observed\<rparr>)))
              (\<lambda>_. conn_return None))
     else if read_status result \<noteq> Read_stream_missing then
       conn_bind (conn_update (\<lambda>s. s\<lparr>conn_pending := Some result\<rparr>)) (\<lambda>_. conn_return (Some (Inr ())))
     else prepare_missing env tm))"

fun prepare_running_sse_connection ::
    "sse_env \<Rightarrow> sse_timing \<Rightarrow> nat \<Rightarrow> sse_conn \<Rightarrow> ((conn_exit + (preflight_failure + unit)) \<times> sse_conn) option" where
  "prepare_running_sse_connection env tm 0 s = None"
| "prepare_running_sse_connection env tm (Suc n) s =
     (case prepare_iteration env tm s of
        (Inl x, s') \<Rightarrow> Some (Inl x, s')
      | (Inr None, s') \<Rightarrow> prepare_running_sse_connection env tm n s'
      | (Inr (Some res), s') \<Rightarrow> Some (Inr res, s'\<lparr>conn_missing_since := None\<rparr>))"

section \<open>What a frame contains\<close>

lemma printable_camelize: "printable_json v \<Longrightarrow> printable_json (camelize to_camel v)"
proof (induction v)
  case (JArr xs)
  then show ?case by (auto simp: list_all_iff)
next
  case (JObj ms)
  let ?ms = "map (\<lambda>(k, v). (to_camel k, camelize to_camel v)) ms"
  have all: "printable_json (snd x)" if "x \<in> set ?ms" for x
    using that JObj by (fastforce simp: list_all_iff)
  have keys: "distinct (map fst (py_dict ?ms))" "set (py_dict ?ms) \<subseteq> set ?ms"
    using py_dict_keys [of ?ms] by blast+
  have "list_all (\<lambda>(k, v). printable_json v) (py_dict ?ms)"
  proof -
    have "printable_json v" if "(k, v) \<in> set (py_dict ?ms)" for k v
      using all [OF subsetD [OF keys(2) that]] by (simp only: snd_conv)
    then show ?thesis unfolding list_all_iff by blast
  qed
  then show ?case using keys(1) by simp
qed simp_all

lemma printable_frame: "printable_json (frame_json to_camel entry)"
proof (cases "entry_event entry")
  case (Activity_event a)
  have "printable_json (dump_activity a)"
    using printable_payload [of "Activity_event a"] by simp
  then show ?thesis using Activity_event printable_camelize by (simp add: frame_json_def)
qed (auto simp: frame_json_def split: option.splits)

lemma validated_id_is_digits:
  "validate_redis_stream_id s = Inr t \<Longrightarrow> t = s \<and> (\<forall>c \<in> set s. is_ascii_digit c \<or> c = 45)"
proof -
  assume v: "validate_redis_stream_id s = Inr t"
  let ?ms = "takeWhile (\<lambda>c. c \<noteq> 45) s" and ?rest = "dropWhile (\<lambda>c. c \<noteq> 45) s"
  have parts: "t = s" "?rest \<noteq> []" "list_all is_ascii_digit ?ms" "list_all is_ascii_digit (tl ?rest)"
    using v by (auto simp: validate_redis_stream_id_def Let_def split: if_splits)
  then obtain c r where r: "?rest = c # r" by (cases ?rest) auto
  then have "c = 45" using hd_dropWhile [OF parts(2)] by simp
  moreover have "s = ?ms @ c # r" unfolding r [symmetric] by simp
  ultimately have "set s = set ?ms \<union> insert 45 (set r)" by (metis list.set(2) set_append)
  then show "t = s \<and> (\<forall>c \<in> set s. is_ascii_digit c \<or> c = 45)"
    using parts(1,3,4) r unfolding list_all_iff by auto
qed

text \<open>
  C25. Whatever texts the model, the reviewer or the searches produced, a frame is exactly one
  identifier line, one event line and one data line: no event can end its line or forge another
  frame, and its data decodes to the object that was sent.
\<close>

theorem frames_cannot_be_forged:
  assumes "serialize_entry to_camel entry = Inr bytes"
  shows "\<exists>data. utf8_encode (lit ''id: '' @ entry_id entry @ [10] @ lit ''event: '' @ event_type (entry_event entry) @ [10]
      @ lit ''data: '' @ data @ [10, 10]) = Inr bytes
    \<and> (\<forall>c \<in> set (entry_id entry @ event_type (entry_event entry) @ data). 32 \<le> c)
    \<and> json_loads data = Some (frame_json to_camel entry)"
proof -
  let ?data = "json_dumps (frame_json to_camel entry)"
  obtain i where i: "validate_redis_stream_id (entry_id entry) = Inr i"
    using assms by (auto simp: serialize_entry_def split: sum.splits)
  have id_ok: "i = entry_id entry" "\<forall>c \<in> set (entry_id entry). 32 \<le> c"
    using validated_id_is_digits [OF i] by (auto simp: is_ascii_digit_def)
  have ty: "\<forall>c \<in> set (event_type (entry_event entry)). 32 \<le> c"
    by (cases "entry_event entry") (simp_all add: lit_def)
  have "utf8_encode (lit ''id: '' @ entry_id entry @ [10] @ lit ''event: '' @ event_type (entry_event entry) @ [10]
      @ lit ''data: '' @ ?data @ [10, 10]) = Inr bytes"
    using assms i id_ok(1) by (simp add: serialize_entry_def)
  moreover have "\<forall>c \<in> set (entry_id entry @ event_type (entry_event entry) @ ?data). 32 \<le> c"
    using id_ok(2) ty json_dumps_printable [OF printable_frame] by auto
  ultimately show ?thesis using json_loads_dumps [OF printable_frame] by blast
qed

lemma frames_cannot_be_forged_witness:
  "\<exists>bytes data. serialize_entry id \<lparr>entry_id = [49, 45, 48], entry_epoch = 1, entry_event = Answer_delta 1 [10, 34]\<rparr> = Inr bytes
     \<and> json_loads data = Some (frame_json id \<lparr>entry_id = [49, 45, 48], entry_epoch = 1, entry_event = Answer_delta 1 [10, 34]\<rparr>)"
proof -
  let ?e = "\<lparr>entry_id = [49, 45, 48], entry_epoch = 1, entry_event = Answer_delta 1 [10, 34]\<rparr>"
  obtain bytes where b: "serialize_entry id ?e = Inr bytes"
    by (simp add: serialize_entry_def validate_redis_stream_id_def REDIS_STREAM_ID_PART_MAX_def is_ascii_digit_def
        value_of_digits_def str_of_nat.simps frame_json_def dump_string_def escape_char_def str_of_int_def lit_def Let_def)
  from frames_cannot_be_forged [OF b] show ?thesis using b by blast
qed

end
