(* ===== verification/SseProperties.thy ===== *)
theory SseProperties
  imports SseConnection
begin

text \<open>
  What a connection guarantees: it ends, it returns its lease, and it sends the events it read in
  order up to the terminal event. The effects of the operations are bounded once for every
  reflexive and transitive relation that the primitive updates respect.
\<close>

section \<open>Relations that the operations respect\<close>

locale conn_quiet =
  fixes R :: "sse_conn \<Rightarrow> sse_conn \<Rightarrow> bool"
  assumes R_refl: "R s s"
    and R_trans: "R s t \<Longrightarrow> R t u \<Longrightarrow> R s u"
    and R_step: "R s (s\<lparr>conn_step := conn_step s + 1\<rparr>)"
    and R_last_sent: "R s (s\<lparr>conn_last_sent := now\<rparr>)"
    and R_missing: "R s (s\<lparr>conn_missing_since := m\<rparr>)"
    and R_repinned: "R s (s\<lparr>conn_repinned_at := m\<rparr>)"
    and R_epoch: "R s (s\<lparr>conn_epoch := e\<rparr>)"
    and R_cursor: "R s (s\<lparr>conn_cursor := c\<rparr>)"
    and R_heartbeat: "f \<in> {Frame_heartbeat, Frame_retry} \<Longrightarrow> R s (s\<lparr>conn_frames := conn_frames s @ [f]\<rparr>)"
    and R_lease: "l \<noteq> Lease_release \<Longrightarrow> R s (s\<lparr>conn_lease := conn_lease s @ [l]\<rparr>)"
begin

definition keeps :: "'a conn_io \<Rightarrow> bool" where
  "keeps m \<longleftrightarrow> (\<forall>s. R s (snd (m s)))"

lemma keepsD: "keeps m \<Longrightarrow> m s = (x, s') \<Longrightarrow> R s s'"
  unfolding keeps_def by (metis snd_conv)

lemma keeps_bind: "keeps m \<Longrightarrow> (\<And>a. keeps (f a)) \<Longrightarrow> keeps (conn_bind m f)"
  unfolding keeps_def conn_bind_def
  by (auto split: prod.splits sum.splits) (metis R_trans snd_conv)+

lemma keeps_return: "keeps (conn_return a)" by (simp add: keeps_def conn_return_def R_refl)

lemma keeps_get: "keeps (conn_get f)" by (simp add: keeps_def conn_get_def R_refl)

lemma keeps_exit: "keeps (\<lambda>s. (Inl x, s))" by (simp add: keeps_def R_refl)

lemma keeps_ask: "keeps (ask f)" using R_step by (simp add: keeps_def ask_def)

lemma keeps_clock: "keeps (read_clock env)" by (simp add: read_clock_def keeps_ask)

lemma keeps_update: "(\<And>s. R s (f s)) \<Longrightarrow> keeps (conn_update f)" by (simp add: keeps_def conn_update_def)

lemma keeps_if: "keeps m \<Longrightarrow> keeps m' \<Longrightarrow> keeps (if b then m else m')" by simp

lemma keeps_option: "keeps m \<Longrightarrow> (\<And>a. keeps (f a)) \<Longrightarrow> keeps (case x of None \<Rightarrow> m | Some a \<Rightarrow> f a)"
  by (simp split: option.split)

lemma R_advance: "R s t \<Longrightarrow> R s (advance_cursor c t)"
  using R_trans R_cursor by (auto simp: advance_cursor_def)

lemmas keeps_rules = keeps_bind keeps_return keeps_get keeps_exit keeps_ask keeps_clock keeps_if keeps_option

lemma keeps_lease_call: "l \<noteq> Lease_release \<Longrightarrow> keeps (lease_call_io l)"
  unfolding lease_call_io_def by (intro keeps_update R_lease)

lemma keeps_stop: "keeps (stop_with r)"
  unfolding stop_with_def by (intro keeps_rules keeps_lease_call) simp

lemma keeps_beat: "f \<in> {Frame_heartbeat, Frame_retry} \<Longrightarrow> keeps (send_frame env f)"
  unfolding send_frame_def by (intro keeps_rules keeps_update R_heartbeat)

lemma keeps_heartbeat: "keeps (heartbeat_if_due env tm)"
  unfolding heartbeat_if_due_def by (intro keeps_rules keeps_beat keeps_update R_last_sent) simp

lemma keeps_start: "keeps (start_frames env b)"
  unfolding start_frames_def by (intro keeps_rules keeps_beat keeps_lease_call) simp_all

lemma keeps_advanced: "keeps (on_advanced env result)"
  unfolding on_advanced_def
  by (intro keeps_rules keeps_stop keeps_update R_advance R_epoch R_repinned)

lemma keeps_missing: "keeps (missing_too_long env tm result)"
  unfolding missing_too_long_def by (intro keeps_rules keeps_update R_missing)

lemma keeps_absent: "keeps (absent_too_long env tm result)"
  unfolding absent_too_long_def by (intro keeps_rules)

lemma keeps_waiting: "keeps (on_waiting env tm started result)"
  unfolding on_waiting_def Let_def
  by (intro keeps_rules keeps_stop keeps_missing keeps_absent keeps_update R_advance R_refl)

end

text \<open>Relations that sending and reading respect as well.\<close>

locale conn_all = conn_quiet R for R :: "sse_conn \<Rightarrow> sse_conn \<Rightarrow> bool" +
  assumes R_frame: "R s (s\<lparr>conn_frames := conn_frames s @ [f]\<rparr>)"
    and R_result: "R s (s\<lparr>conn_pending := p, conn_results := rs\<rparr>)"
begin

lemma keeps_send: "keeps (send_frame env f)"
  unfolding send_frame_def by (intro keeps_rules keeps_update R_frame)

lemma keeps_entries: "keeps (send_entries to_camel env es)"
proof (induction es)
  case (Cons e es)
  then show ?case
    by (auto split: sum.split intro!: keeps_rules keeps_send keeps_update R_last_sent keeps_stop)
qed (simp add: keeps_return)

lemma keeps_events: "keeps (on_events to_camel env result)"
  unfolding on_events_def
  by (intro keeps_rules keeps_update keeps_entries R_advance R_trans [OF R_missing R_repinned])

lemma keeps_next: "keeps (next_result env)"
  unfolding next_result_def by (intro keeps_rules keeps_update) (auto intro!: keeps_rules keeps_update R_result)

lemma keeps_iteration: "keeps (conn_iteration to_camel env tm started)"
  unfolding conn_iteration_def
  by (intro keeps_rules keeps_stop keeps_heartbeat keeps_next keeps_events keeps_advanced keeps_waiting)

lemma loop_keeps: "conn_loop to_camel env tm started n s = Some (x, s') \<Longrightarrow> R s s'"
proof (induction n arbitrary: s)
  case (Suc n)
  obtain r t where r: "conn_iteration to_camel env tm started s = (r, t)" by fastforce
  then have "R s t" using keeps_iteration keepsD by blast
  then show ?case using Suc r by (auto split: sum.splits intro: R_trans)
qed simp

end

definition step_order :: "sse_conn \<Rightarrow> sse_conn \<Rightarrow> bool" where
  "step_order s s' \<longleftrightarrow> conn_step s \<le> conn_step s'"

definition lease_grows :: "sse_conn \<Rightarrow> sse_conn \<Rightarrow> bool" where
  "lease_grows s s' \<longleftrightarrow> (\<exists>calls. conn_lease s' = conn_lease s @ calls \<and> Lease_release \<notin> set calls)"

text \<open>What was sent of the stream, and what was offered by the results read.\<close>

fun frame_entry :: "sse_frame \<Rightarrow> stream_entry list" where
  "frame_entry (Frame_event entry _) = [entry]"
| "frame_entry _ = []"

definition sent_entries :: "sse_conn \<Rightarrow> stream_entry list" where
  "sent_entries s = concat (map frame_entry (conn_frames s))"

definition offered_entries :: "sse_conn \<Rightarrow> stream_entry list" where
  "offered_entries s = concat (map read_entries (filter (\<lambda>r. read_status r = Read_events) (conn_results s)))"

definition same_stream :: "sse_conn \<Rightarrow> sse_conn \<Rightarrow> bool" where
  "same_stream s s' \<longleftrightarrow> sent_entries s' = sent_entries s \<and> conn_results s' = conn_results s
     \<and> {f \<in> set (conn_frames s'). frame_entry f \<noteq> []} = {f \<in> set (conn_frames s). frame_entry f \<noteq> []}"

interpretation steps: conn_all step_order
  by unfold_locales (auto simp: step_order_def)

interpretation leases: conn_all lease_grows
proof unfold_locales
  fix s t u assume "lease_grows s t" "lease_grows t u"
  then show "lease_grows s u" by (auto simp: lease_grows_def)
qed (auto simp: lease_grows_def)

interpretation streams: conn_quiet same_stream
  by unfold_locales (auto simp: same_stream_def sent_entries_def)

section \<open>Every connection ends\<close>

lemma bind_clock: "conn_bind (read_clock env) f s = f (env_clock env (conn_step s)) (s\<lparr>conn_step := conn_step s + 1\<rparr>)"
  by (simp add: conn_bind_def read_clock_def ask_def)

lemma iteration_advances:
  assumes "conn_iteration to_camel env tm started s = (Inr x, s')"
  shows "conn_step s < conn_step s' \<and> env_clock env (conn_step s) - started < connection_max_age tm"
proof -
  let ?t = "env_clock env (conn_step s)" and ?s = "s\<lparr>conn_step := conn_step s + 1\<rparr>"
  define rest where "rest = conn_bind (ask (env_disconnected env)) (\<lambda>gone.
       if gone then stop_with Close_client_disconnect
       else
         conn_bind (heartbeat_if_due env tm) (\<lambda>_.
         conn_bind (next_result env) (\<lambda>result.
         if read_status result = Read_events then on_events to_camel env result
         else if read_status result = Read_attempt_advanced then on_advanced env result
         else on_waiting env tm started result)))"
  have young: "?t - started < connection_max_age tm"
    using assms unfolding conn_iteration_def bind_clock
    by (auto simp: stop_with_def lease_call_io_def conn_update_def conn_bind_def split: if_splits)
  then have "rest ?s = (Inr x, s')"
    using assms unfolding conn_iteration_def bind_clock rest_def by simp
  moreover have "steps.keeps rest"
    unfolding rest_def
    by (intro steps.keeps_rules steps.keeps_stop steps.keeps_heartbeat steps.keeps_next steps.keeps_events
        steps.keeps_advanced steps.keeps_waiting)
  ultimately have "step_order ?s s'" using steps.keepsD by blast
  then show ?thesis using young by (simp add: step_order_def)
qed

lemma loop_ends:
  assumes "\<forall>k \<ge> N. connection_max_age tm \<le> env_clock env k - started" "N < conn_step s + n" "0 < n"
  shows "\<exists>x s'. conn_loop to_camel env tm started n s = Some (x, s')"
  using assms(2,3)
proof (induction n arbitrary: s)
  case (Suc n)
  obtain r t where r: "conn_iteration to_camel env tm started s = (r, t)" by fastforce
  show ?case
  proof (cases r)
    case (Inl x)
    then show ?thesis using r by simp
  next
    case (Inr u)
    then have "conn_step s < conn_step t" "env_clock env (conn_step s) - started < connection_max_age tm"
      using iteration_advances r by blast+
    then have "\<not> N \<le> conn_step s" using assms(1) by (metis not_less)
    then have "N < conn_step t + n \<and> 0 < n" using Suc.prems \<open>conn_step s < conn_step t\<close> by (cases n) auto
    then show ?thesis using Suc.IH [of t] r Inr by simp
  qed
qed simp

lemma running_ends:
  assumes "\<forall>k \<ge> N. connection_max_age tm \<le> env_clock env k - started" "N < conn_step s + n" "0 < n"
  shows "\<exists>x s'. running_frames to_camel env tm started b n s = Some (x, s')"
proof -
  obtain r t where r: "start_frames env b (s\<lparr>conn_last_sent := started\<rparr>) = (r, t)" by fastforce
  then have "conn_step s \<le> conn_step t" using steps.keepsD [OF steps.keeps_start] by (force simp: step_order_def)
  then obtain x s' where "r = Inr () \<Longrightarrow> conn_loop to_camel env tm started n t = Some (x, s')"
    using loop_ends [OF assms(1), of t n to_camel] assms(2,3) by force
  then show ?thesis using r by (cases r) (auto simp: running_frames_def)
qed

lemma steps_keeps_queued:
  "steps.keeps (queued_within env tm started q)" "steps.keeps (queued_pause env tm started q)"
  "steps.keeps (queued_heartbeat env tm)" "steps.keeps (load_context env)" "steps.keeps (stop_queued reason)"
proof -
  show "steps.keeps (queued_within env tm started q)"
    unfolding queued_within_def by (intro steps.keeps_rules)
  show "steps.keeps (queued_pause env tm started q)"
    unfolding queued_pause_def Let_def by (intro steps.keeps_rules)
  show "steps.keeps (queued_heartbeat env tm)"
    unfolding queued_heartbeat_def by (intro steps.keeps_rules steps.keeps_send steps.keeps_update steps.R_last_sent)
  show "steps.keeps (load_context env)"
    by (auto simp: steps.keeps_def load_context_def ask_def stop_with_def lease_call_io_def conn_update_def conn_bind_def
        step_order_def split: awaited.splits)
  show "steps.keeps (stop_queued reason)"
    unfolding stop_queued_def by (intro steps.keeps_rules steps.keeps_stop)
qed

lemma queued_iteration_advances:
  assumes "queued_iteration env tm started q s = (Inr x, s')"
  shows "conn_step s < conn_step s' \<and> env_clock env (conn_step s + 1) - started < connection_max_age tm"
proof -
  let ?t = "env_clock env (conn_step s)" and ?u = "env_clock env (conn_step s + 1)"
  have stops: "fst (stop_queued reason t) \<noteq> Inr y" for reason t y
    by (simp add: stop_queued_def stop_with_def lease_call_io_def conn_update_def conn_bind_def)
  have young: "?t - q < queued_wait_limit tm \<and> ?u - started < connection_max_age tm"
  proof (rule ccontr)
    assume old: "\<not> ?thesis"
    obtain t where "queued_within env tm started q s = (Inr False, t)"
    proof (cases "?t - q < queued_wait_limit tm")
      case True
      then have "\<not> ?u - started < connection_max_age tm" using old by simp
      then show ?thesis using that True by (simp add: queued_within_def bind_clock conn_return_def)
    next
      case False
      then show ?thesis using that by (simp add: queued_within_def bind_clock conn_return_def)
    qed
    then have "queued_iteration env tm started q s =
        conn_bind (read_clock env) (\<lambda>t. if t - started \<ge> connection_max_age tm then stop_queued Close_max_age
          else (\<lambda>s. (Inl Exit_return, s))) t"
      by (simp add: queued_iteration_def conn_bind_def [of "queued_within env tm started q"])
    then show False using assms stops by (auto simp: bind_clock split: if_splits) (metis fst_conv)
  qed
  then have within: "queued_within env tm started q s = (Inr True, s\<lparr>conn_step := conn_step s + 2\<rparr>)"
    by (simp add: queued_within_def bind_clock conn_return_def)
  define rest where "rest = conn_bind (ask (env_disconnected env)) (\<lambda>gone.
       if gone then stop_queued Close_client_disconnect
       else
         conn_bind (queued_pause env tm started q) (\<lambda>slept.
         if \<not> slept then (\<lambda>s. (Inl Exit_return, s))
         else
           conn_bind (queued_heartbeat env tm) (\<lambda>_.
           conn_bind (load_context env) (\<lambda>context.
           case context of
             None \<Rightarrow> stop_queued Close_queued_terminal
           | Some (status, e) \<Rightarrow>
               if is_finished status then stop_queued Close_queued_terminal
               else if \<not> has_attempt_started e then conn_return Queued_again
               else
                 conn_bind (conn_get conn_cursor) (\<lambda>c.
                 conn_bind (ask (\<lambda>k. env_read env k e c)) (\<lambda>r. conn_return (Queued_attempt e r)))))))"
  have "rest (s\<lparr>conn_step := conn_step s + 2\<rparr>) = (Inr x, s')"
    using assms within by (simp add: queued_iteration_def conn_bind_def [of "queued_within env tm started q"] rest_def)
  moreover have "steps.keeps rest"
    unfolding rest_def
    by (intro steps.keeps_bind steps.keeps_if steps.keeps_option steps_keeps_queued steps.keeps_ask steps.keeps_exit)
      (auto split: prod.split intro!: steps.keeps_rules steps_keeps_queued)
  ultimately have "step_order (s\<lparr>conn_step := conn_step s + 2\<rparr>) s'" using steps.keepsD by blast
  then show ?thesis using young by (simp add: step_order_def)
qed

lemma queued_ends:
  assumes "\<forall>k \<ge> N. connection_max_age tm \<le> env_clock env k - started" "N < conn_step s + n" "1 < n"
  shows "\<exists>x s'. queued_loop to_camel env tm started q n s = Some (x, s')"
  using assms(2,3)
proof (induction n arbitrary: s)
  case (Suc n)
  obtain r t where r: "queued_iteration env tm started q s = (r, t)" by fastforce
  show ?case
  proof (cases r)
    case (Inl x)
    then show ?thesis using r by simp
  next
    case (Inr next_step)
    then have step: "conn_step s < conn_step t" "env_clock env (conn_step s + 1) - started < connection_max_age tm"
      using queued_iteration_advances r by blast+
    then have young: "\<not> N \<le> conn_step s + 1" using assms(1) by (metis not_less)
    then have fuel: "N < conn_step t + n" "1 < n" using Suc.prems step(1) by auto
    show ?thesis
    proof (cases next_step)
      case Queued_again
      then show ?thesis using Suc.IH [OF fuel] r Inr by simp
    next
      case (Queued_attempt e res)
      then show ?thesis
        using running_ends [OF assms(1), of "t\<lparr>conn_epoch := e, conn_pending := Some res, conn_missing_since := None,
            conn_repinned_at := None\<rparr>" n to_camel False] fuel r Inr by simp
    qed
  qed
qed simp

section \<open>Events are sent in order, up to the terminal one\<close>

abbreviation terminal_entry :: "stream_entry \<Rightarrow> bool" where
  "terminal_entry x \<equiv> is_terminal_event (entry_event x)"

definition delivering :: "sse_conn \<Rightarrow> bool" where
  "delivering s \<longleftrightarrow> sent_entries s = offered_entries s \<and> (\<forall>x \<in> set (sent_entries s). \<not> terminal_entry x)"

definition delivered :: "conn_exit \<Rightarrow> sse_conn \<Rightarrow> bool" where
  "delivered x s \<longleftrightarrow> prefix (sent_entries s) (offered_entries s)
     \<and> (\<forall>y \<in> set (butlast (sent_entries s)). \<not> terminal_entry y)
     \<and> (x = Exit_return \<longrightarrow> sent_entries s = offered_entries s \<or> sent_entries s \<noteq> [] \<and> terminal_entry (last (sent_entries s)))"

definition goes_on :: "'a conn_io \<Rightarrow> bool" where
  "goes_on m \<longleftrightarrow> (\<forall>s. delivering s \<longrightarrow> (case m s of (Inr _, t) \<Rightarrow> delivering t | (Inl x, t) \<Rightarrow> delivered x t))"

lemma delivering_delivered: "delivering s \<Longrightarrow> delivered x s"
  by (auto simp: delivering_def delivered_def dest: in_set_butlastD)

lemma same_stream_delivering: "same_stream s t \<Longrightarrow> delivering s \<Longrightarrow> delivering t"
  by (simp add: same_stream_def delivering_def offered_entries_def)

lemma same_stream_delivered: "same_stream s t \<Longrightarrow> delivered x s \<Longrightarrow> delivered x t"
  by (simp add: same_stream_def delivered_def offered_entries_def)

lemma goes_on_quiet: "streams.keeps m \<Longrightarrow> goes_on m"
  unfolding goes_on_def
  by (auto split: prod.splits sum.splits dest: streams.keepsD same_stream_delivering intro!: delivering_delivered)

lemma goes_onD:
  assumes "goes_on m" "delivering s" "m s = (r, t)"
  shows "case r of Inr _ \<Rightarrow> delivering t | Inl x \<Rightarrow> delivered x t"
  using assms(1) [unfolded goes_on_def, rule_format, OF assms(2)] assms(3) by (cases r) simp_all

lemma goes_on_bind:
  assumes "goes_on m" "\<And>a. goes_on (f a)"
  shows "goes_on (conn_bind m f)"
  unfolding goes_on_def
proof (intro allI impI)
  fix s assume s: "delivering s"
  obtain r t where r: "m s = (r, t)" by fastforce
  note first = goes_onD [OF assms(1) s r]
  show "case conn_bind m f s of (Inr _, t) \<Rightarrow> delivering t | (Inl x, t) \<Rightarrow> delivered x t"
  proof (cases r)
    case (Inl x)
    then show ?thesis using first r by (simp add: conn_bind_def)
  next
    case (Inr a)
    then show ?thesis using first r assms(2) [of a] by (simp add: conn_bind_def goes_on_def)
  qed
qed

lemma send_entries_spec:
  assumes "send_entries to_camel env es s = (r, t)"
  shows "\<exists>part rest. es = part @ rest \<and> sent_entries t = sent_entries s @ part \<and> conn_results t = conn_results s
    \<and> (\<forall>x \<in> set (butlast part). \<not> terminal_entry x)
    \<and> (r = Inr () \<longrightarrow> rest = [] \<and> (\<forall>x \<in> set part. \<not> terminal_entry x))
    \<and> (r = Inl Exit_return \<longrightarrow> part \<noteq> [] \<and> terminal_entry (last part))"
  using assms
proof (induction es arbitrary: s)
  case Nil
  then show ?case by (auto simp: conn_return_def)
next
  case (Cons e es)
  show ?case
  proof (cases "serialize_entry to_camel e")
    case (Inl x)
    then show ?thesis using Cons.prems by (intro exI [of _ "[]"] exI [of _ "e # es"]) auto
  next
    case (Inr bytes)
    define u where "u = s\<lparr>conn_frames := conn_frames s @ [Frame_event e bytes], conn_step := conn_step s + 1\<rparr>"
    have u: "sent_entries u = sent_entries s @ [e]" "conn_results u = conn_results s" "conn_step u = conn_step s + 1"
      by (simp_all add: u_def sent_entries_def)
    have send: "send_frame env (Frame_event e bytes) s = (case env_yield env (conn_step s) of
        Value a \<Rightarrow> (Inr a, u) | Cancelled_await \<Rightarrow> (Inl Exit_cancelled, u) | Raised_await x \<Rightarrow> (Inl (Exit_raised x), u))"
      by (simp add: send_frame_def conn_bind_def conn_update_def ask_def u_def split: awaited.split)
    show ?thesis
    proof (cases "env_yield env (conn_step s)")
      case (Value a)
      define v where "v = u\<lparr>conn_step := conn_step u + 1, conn_last_sent := env_clock env (conn_step u)\<rparr>"
      have v: "sent_entries v = sent_entries s @ [e]" "conn_results v = conn_results s"
        using u by (simp_all add: v_def sent_entries_def)
      have rest: "send_entries to_camel env (e # es) s =
          (if terminal_entry e then stop_with Close_terminal else send_entries to_camel env es) v"
        using Inr Value send by (simp add: conn_bind_def read_clock_def ask_def conn_update_def v_def)
      show ?thesis
      proof (cases "terminal_entry e")
        case True
        then show ?thesis
          using Cons.prems v unfolding rest
          by - (rule exI [of _ "[e]"], rule exI [of _ es],
            auto simp: stop_with_def lease_call_io_def conn_update_def conn_bind_def sent_entries_def)
      next
        case False
        then obtain part rest' where "es = part @ rest'" "sent_entries t = sent_entries v @ part" "conn_results t = conn_results v"
          "\<forall>x \<in> set (butlast part). \<not> terminal_entry x"
          "r = Inr () \<longrightarrow> rest' = [] \<and> (\<forall>x \<in> set part. \<not> terminal_entry x)"
          "r = Inl Exit_return \<longrightarrow> part \<noteq> [] \<and> terminal_entry (last part)"
          using Cons.IH [of v] Cons.prems unfolding rest by auto
        then show ?thesis
          using False v by - (rule exI [of _ "e # part"], rule exI [of _ rest'], auto)
      qed
    qed (use Cons.prems Inr send u in \<open>auto simp: conn_bind_def\<close>)
  qed
qed

lemma goes_on_result:
  assumes "\<And>r. read_status r = Read_events \<Longrightarrow> f r = on_events to_camel env r"
    and "\<And>r. read_status r \<noteq> Read_events \<Longrightarrow> streams.keeps (f r)"
  shows "goes_on (conn_bind (next_result env) f)"
  unfolding goes_on_def
proof (intro allI impI)
  fix s assume s: "delivering s"
  obtain q u where q: "next_result env s = (q, u)" by fastforce
  have next_q: "sent_entries u = sent_entries s" "\<And>x. q = Inl x \<Longrightarrow> conn_results u = conn_results s"
    "\<And>r. q = Inr r \<Longrightarrow> conn_results u = conn_results s @ [r]"
    using q by (auto simp: next_result_def conn_bind_def conn_get_def conn_return_def conn_update_def ask_def sent_entries_def
        split: option.splits awaited.splits)
  show "case conn_bind (next_result env) f s of (Inr _, t) \<Rightarrow> delivering t | (Inl x, t) \<Rightarrow> delivered x t"
  proof (cases q)
    case (Inl x)
    then have "delivering u" using s next_q by (simp add: delivering_def offered_entries_def)
    then show ?thesis using q Inl by (simp add: conn_bind_def delivering_delivered)
  next
    case (Inr r)
    have offered: "offered_entries u = offered_entries s @ (if read_status r = Read_events then read_entries r else [])"
      using next_q(3) [OF Inr] by (simp add: offered_entries_def)
    show ?thesis
    proof (cases "read_status r = Read_events")
      case False
      then have "delivering u" using s next_q(1) offered by (simp add: delivering_def)
      then show ?thesis
        using goes_on_quiet [OF assms(2) [OF False]] q Inr by (simp add: conn_bind_def goes_on_def)
    next
      case True
      define v where "v = advance_cursor (read_cursor r) (u\<lparr>conn_missing_since := None, conn_repinned_at := None\<rparr>)"
      have v: "sent_entries v = sent_entries s" "offered_entries v = offered_entries u"
        using next_q(1) by (simp_all add: v_def advance_cursor_def sent_entries_def offered_entries_def)
      obtain z t where z: "send_entries to_camel env (read_entries r) v = (z, t)" by fastforce
      have run: "conn_bind (next_result env) f s = (z, t)"
        using q Inr z assms(1) [OF True] by (simp add: conn_bind_def on_events_def conn_update_def v_def)
      obtain part rest where p: "read_entries r = part @ rest" "sent_entries t = sent_entries v @ part"
        "conn_results t = conn_results v" "\<forall>x \<in> set (butlast part). \<not> terminal_entry x"
        "z = Inr () \<longrightarrow> rest = [] \<and> (\<forall>x \<in> set part. \<not> terminal_entry x)"
        "z = Inl Exit_return \<longrightarrow> part \<noteq> [] \<and> terminal_entry (last part)"
        using send_entries_spec [OF z] by blast
      have off: "offered_entries t = offered_entries s @ part @ rest" "sent_entries t = offered_entries s @ part"
        using p v offered s True by (simp_all add: delivering_def offered_entries_def)
      have old: "\<forall>x \<in> set (offered_entries s). \<not> terminal_entry x" using s by (simp add: delivering_def)
      show ?thesis
      proof (cases z)
        case (Inl x)
        have "\<forall>y \<in> set (butlast (offered_entries s @ part)). \<not> terminal_entry y"
          using old p(4) by (auto simp: butlast_append dest: in_set_butlastD)
        then show ?thesis using run Inl off p(6) by (simp add: delivered_def)
      next
        case (Inr w)
        then show ?thesis using run off p(5) old by (auto simp: delivering_def)
      qed
    qed
  qed
qed

lemma goes_on_iteration: "goes_on (conn_iteration to_camel env tm started)"
proof -
  have result: "goes_on (conn_bind (next_result env) (\<lambda>result.
         if read_status result = Read_events then on_events to_camel env result
         else if read_status result = Read_attempt_advanced then on_advanced env result
         else on_waiting env tm started result))"
    by (rule goes_on_result) (auto intro: streams.keeps_advanced streams.keeps_waiting)
  have choose: "goes_on m \<Longrightarrow> goes_on m' \<Longrightarrow> goes_on (if b then m else m')" for b and m m' :: "unit conn_io" by simp
  show ?thesis
    unfolding conn_iteration_def
    by (intro goes_on_bind choose result goes_on_quiet [OF streams.keeps_clock] goes_on_quiet [OF streams.keeps_ask]
        goes_on_quiet [OF streams.keeps_stop] goes_on_quiet [OF streams.keeps_heartbeat])
qed

lemma loop_delivers:
  "conn_loop to_camel env tm started n s = Some (x, t) \<Longrightarrow> delivering s \<Longrightarrow> delivered x t"
proof (induction n arbitrary: s)
  case (Suc n)
  obtain r u where r: "conn_iteration to_camel env tm started s = (r, u)" by fastforce
  have "case r of Inr _ \<Rightarrow> delivering u | Inl x \<Rightarrow> delivered x u"
    by (rule goes_onD [OF goes_on_iteration Suc.prems(2) r])
  then show ?case using Suc r by (cases r) auto
qed simp

lemma running_delivers:
  assumes "running_frames to_camel env tm started b n s = Some (x, t)" "delivering s"
  shows "delivered x t \<and> (\<exists>calls. conn_lease t = conn_lease s @ calls @ [Lease_release] \<and> Lease_release \<notin> set calls)"
proof -
  let ?s = "s\<lparr>conn_last_sent := started\<rparr>"
  have ok: "delivering ?s" using streams.R_last_sent assms(2) by (rule same_stream_delivering)
  obtain r u where r: "start_frames env b ?s = (r, u)" by fastforce
  then obtain y v where v: "close_connection (y, v) = (x, t)"
    "(case r of Inl z \<Rightarrow> Some (z, u) | Inr _ \<Rightarrow> conn_loop to_camel env tm started n u) = Some (y, v)"
    using assms(1) by (auto simp: running_frames_def split: sum.splits)
  have started: "same_stream ?s u" "lease_grows ?s u"
    using streams.keepsD [OF streams.keeps_start r] leases.keepsD [OF leases.keeps_start r] .
  have "delivered y v \<and> lease_grows u v"
  proof (cases r)
    case (Inl z)
    then show ?thesis
      using v(2) same_stream_delivering [OF started(1) ok] delivering_delivered leases.R_refl by auto
  next
    case (Inr w)
    then show ?thesis
      using v(2) loop_delivers [OF _ same_stream_delivering [OF started(1) ok]] leases.loop_keeps by auto
  qed
  then have end_: "delivered y v" "lease_grows s v"
    using started(2) leases.R_trans leases.R_last_sent by blast+
  have closed: "same_stream v t" "x = y"
    using v(1) by (auto simp: close_connection_def Let_def same_stream_def sent_entries_def)
  obtain calls where calls: "conn_lease v = conn_lease s @ calls" "Lease_release \<notin> set calls"
    using end_(2) by (auto simp: lease_grows_def)
  have "\<exists>calls. conn_lease t = conn_lease s @ calls @ [Lease_release] \<and> Lease_release \<notin> set calls"
    using v(1) calls
    by (cases y) (auto simp: close_connection_def Let_def intro!: exI [of _ "calls @ _"])
  then show ?thesis using same_stream_delivered [OF closed(1) end_(1)] closed(2) by simp
qed

lemma streams_keeps_queued:
  "streams.keeps (queued_within env tm started q)" "streams.keeps (queued_pause env tm started q)"
  "streams.keeps (queued_heartbeat env tm)" "streams.keeps (load_context env)" "streams.keeps (stop_queued reason)"
proof -
  show "streams.keeps (queued_within env tm started q)"
    unfolding queued_within_def by (intro streams.keeps_rules)
  show "streams.keeps (queued_pause env tm started q)"
    unfolding queued_pause_def Let_def by (intro streams.keeps_rules)
  show "streams.keeps (queued_heartbeat env tm)"
    unfolding queued_heartbeat_def by (intro streams.keeps_rules streams.keeps_beat streams.keeps_update streams.R_last_sent) simp
  show "streams.keeps (load_context env)"
    by (auto simp: streams.keeps_def load_context_def ask_def stop_with_def lease_call_io_def conn_update_def conn_bind_def
        same_stream_def sent_entries_def split: awaited.splits)
  show "streams.keeps (stop_queued reason)"
    unfolding stop_queued_def by (intro streams.keeps_rules streams.keeps_stop)
qed

lemma streams_keeps_queued_iteration: "streams.keeps (queued_iteration env tm started q)"
  unfolding queued_iteration_def
  by (intro streams.keeps_bind streams.keeps_if streams.keeps_option streams_keeps_queued streams.keeps_ask
      streams.keeps_exit streams.keeps_clock)
    (auto split: prod.split intro!: streams.keeps_rules streams_keeps_queued)

lemma queued_delivers:
  assumes "queued_loop to_camel env tm started q n s = Some (x, t)" "delivering s"
  shows "delivered x t"
  using assms
proof (induction n arbitrary: s)
  case (Suc n)
  obtain r u where r: "queued_iteration env tm started q s = (r, u)" by fastforce
  have u: "delivering u"
    using streams.keepsD [OF streams_keeps_queued_iteration r] Suc.prems(2) by (rule same_stream_delivering)
  show ?case
  proof (cases r)
    case (Inl z)
    then show ?thesis using Suc.prems r u delivering_delivered by auto
  next
    case (Inr next_step)
    show ?thesis
    proof (cases next_step)
      case Queued_again
      then show ?thesis using Suc.IH Suc.prems(1) r Inr u by simp
    next
      case (Queued_attempt e res)
      then have "running_frames to_camel env tm started False n (u\<lparr>conn_epoch := e, conn_pending := Some res,
          conn_missing_since := None, conn_repinned_at := None\<rparr>) = Some (x, t)"
        using Suc.prems(1) r Inr by simp
      moreover have "delivering (u\<lparr>conn_epoch := e, conn_pending := Some res, conn_missing_since := None,
          conn_repinned_at := None\<rparr>)"
        (is "delivering ?w")
      proof -
        have "sent_entries ?w = sent_entries u" "offered_entries ?w = offered_entries u"
          by (simp_all add: sent_entries_def offered_entries_def)
        then show ?thesis using u by (simp add: delivering_def)
      qed
      ultimately show ?thesis using running_delivers by blast
    qed
  qed
qed simp

text \<open>A new connection, with the first result of a running one.\<close>

definition fresh_connection :: "int \<Rightarrow> pystr option \<Rightarrow> read_result option \<Rightarrow> sse_conn" where
  "fresh_connection e c pending = \<lparr>conn_epoch = e, conn_cursor = c, conn_last_sent = 0, conn_pending = pending,
     conn_missing_since = None, conn_repinned_at = None, conn_frames = [], conn_lease = [], conn_step = 0,
     conn_results = []\<rparr>"

lemma fresh_delivering: "delivering (fresh_connection e c p)"
  by (simp add: delivering_def fresh_connection_def sent_entries_def offered_entries_def)

text \<open>
  C22. As time passes, every connection of a running or a queued run ends, whatever the reader, the
  client and the database do, and its last act is the release of its lease. It has sent the events
  it read in order and without gaps, none behind a terminal one; if it ended by itself, it sent
  all of them or up to the terminal event.
\<close>

theorem connections_end_and_deliver:
  assumes "mono (env_clock env)" "started + connection_max_age tm \<le> env_clock env k"
  shows "(\<exists>n x t. running_frames to_camel env tm started True n (fresh_connection e c (Some first)) = Some (x, t)
      \<and> delivered x t \<and> (\<exists>calls. conn_lease t = calls @ [Lease_release] \<and> Lease_release \<notin> set calls))
    \<and> (\<exists>n x t. queued_frames to_camel env tm started n (fresh_connection e c None) = Some (x, t)
      \<and> delivered x t \<and> (\<exists>calls. conn_lease t = calls @ [Lease_release]))"
proof -
  have late: "\<forall>j \<ge> k. connection_max_age tm \<le> env_clock env j - started"
    using assms by (auto dest: monoD)
  let ?r = "fresh_connection e c (Some first)"
  obtain x t where run: "running_frames to_camel env tm started True (k + 2) ?r = Some (x, t)"
  proof -
    have "k < conn_step ?r + (k + 2)" "0 < k + 2" by simp_all
    from running_ends [OF late this] that show ?thesis by blast
  qed
  then have running: "\<exists>n x t. running_frames to_camel env tm started True n ?r = Some (x, t)
      \<and> delivered x t \<and> (\<exists>calls. conn_lease t = calls @ [Lease_release] \<and> Lease_release \<notin> set calls)"
    using running_delivers [OF run fresh_delivering] by (auto simp: fresh_connection_def)
  let ?q = "fresh_connection e c None"
  define q where "q = env_clock env (conn_step ?q)"
  define s1 where "s1 = ?q\<lparr>conn_last_sent := started, conn_lease := [Lease_reason Close_queued_timeout], conn_step := 1\<rparr>"
  have first: "conn_bind (lease_call_io (Lease_reason Close_queued_timeout)) (\<lambda>_. read_clock env)
      (?q\<lparr>conn_last_sent := started\<rparr>) = (Inr q, s1)"
    by (simp add: conn_bind_def lease_call_io_def conn_update_def read_clock_def ask_def s1_def q_def fresh_connection_def)
  have ok1: "delivering s1" using fresh_delivering [of e c None]
    by (simp add: delivering_def s1_def sent_entries_def offered_entries_def fresh_connection_def)
  obtain r u where r: "start_frames env True s1 = (r, u)" by fastforce
  have ok2: "delivering u" using streams.keepsD [OF streams.keeps_start r] ok1 by (rule same_stream_delivering)
  have "\<exists>y v. (case r of Inl z \<Rightarrow> Some (z, u) | Inr _ \<Rightarrow> queued_loop to_camel env tm started q (k + 2) u) = Some (y, v)
      \<and> delivered y v"
  proof (cases r)
    case (Inl z)
    then show ?thesis using delivering_delivered [OF ok2] by auto
  next
    case (Inr w)
    obtain y v where v: "queued_loop to_camel env tm started q (k + 2) u = Some (y, v)"
    proof -
      have "k < conn_step u + (k + 2)" "1 < k + 2" by simp_all
      from queued_ends [OF late this] that show ?thesis by blast
    qed
    then show ?thesis using queued_delivers [OF v ok2] Inr by auto
  qed
  then obtain y v where v: "(case r of Inl z \<Rightarrow> Some (z, u) | Inr _ \<Rightarrow> queued_loop to_camel env tm started q (k + 2) u)
      = Some (y, v)" "delivered y v" by blast
  have run: "queued_frames to_camel env tm started (k + 2) ?q = Some (close_connection (y, v))"
    using v(1) first r unfolding queued_frames_def by (cases r) simp_all
  have "same_stream v (snd (close_connection (y, v)))" "fst (close_connection (y, v)) = y"
    by (auto simp: close_connection_def Let_def same_stream_def sent_entries_def)
  then have "delivered (fst (close_connection (y, v))) (snd (close_connection (y, v)))"
    using same_stream_delivered v(2) by simp
  moreover have "\<exists>calls. conn_lease (snd (close_connection (y, v))) = calls @ [Lease_release]"
    by (simp add: close_connection_def Let_def)
  ultimately have "\<exists>n x t. queued_frames to_camel env tm started n ?q = Some (x, t)
      \<and> delivered x t \<and> (\<exists>calls. conn_lease t = calls @ [Lease_release])"
    using run by (metis prod.collapse)
  with running show ?thesis by (rule conjI)
qed

text \<open>A client that stays, a clock that counts seconds, and a reader that has nothing.\<close>

definition quiet_env :: sse_env where
  "quiet_env = \<lparr>env_clock = (\<lambda>k. seconds (int k)), env_disconnected = (\<lambda>_. Value False),
     env_read = (\<lambda>_ _ c. Value \<lparr>read_status = Read_empty, read_entries = [], read_cursor = c, observed_epoch = None\<rparr>),
     env_sleep = (\<lambda>_ _. Value ()), env_yield = (\<lambda>_. Value ()), env_start = (\<lambda>_. Value ()),
     env_context = (\<lambda>_. Value (Some (Queued, 0)))\<rparr>"

lemma connections_end_and_deliver_witness:
  "\<exists>n x t. queued_frames id quiet_env default_timing 0 n (fresh_connection 1 None None) = Some (x, t)"
proof -
  have "mono (env_clock quiet_env)" by (auto simp: mono_def quiet_env_def seconds_def)
  moreover have "0 + connection_max_age default_timing \<le> env_clock quiet_env 45"
    by (simp add: quiet_env_def default_timing_def seconds_def)
  ultimately show ?thesis using connections_end_and_deliver by blast
qed

end
