(* ===== verification/ResearchHandoff.thy ===== *)
theory ResearchHandoff
  imports EvidenceReview PyJson
begin

text \<open>
  The research handoff of a thread (\<^verbatim>\<open>agent/research_handoff/\<close>): the records of what
  earlier runs searched for, the input of the organizing call, the handoff that comes out of it,
  and the JSON in which the thread keeps it. The organizing model and pydantic's conversion of
  instants to and from JSON are parameters.
\<close>

section \<open>Records\<close>

definition ORGANIZED_TEXT_MAX_CHARS :: nat where "ORGANIZED_TEXT_MAX_CHARS = 600"

record handoff_draft =
  draft_collected_overview :: pystr
  draft_unresolved_points :: pystr
  draft_next_search_guidance :: pystr

record task_record =
  record_goal :: pystr
  record_queries :: "pystr list"

record search_record =
  record_as_of :: time
  record_tasks :: "task_record list"

text \<open>\<^verbatim>\<open>schema_version\<close> is always 1 and only appears in the JSON.\<close>

record handoff =
  handoff_updated_at :: time
  handoff_runs :: "search_record list"
  collected_overview :: pystr
  unresolved_points :: pystr
  next_search_guidance :: pystr

definition valid_task_record :: "task_record \<Rightarrow> bool" where
  "valid_task_record t \<longleftrightarrow> 1 \<le> length (record_goal t) \<and> length (record_goal t) \<le> RESEARCH_GOAL_MAX_CHARS
     \<and> 1 \<le> length (record_queries t) \<and> length (record_queries t) \<le> EXTERNAL_TASK_QUERY_LIMIT
     \<and> list_all (\<lambda>q. 1 \<le> length q \<and> length q \<le> EXTERNAL_QUERY_MAX_CHARS) (record_queries t)"

definition valid_search_record :: "search_record \<Rightarrow> bool" where
  "valid_search_record r \<longleftrightarrow> 1 \<le> length (record_tasks r) \<and> length (record_tasks r) \<le> RESEARCH_TASK_LIMIT
     \<and> list_all valid_task_record (record_tasks r)"

definition valid_handoff :: "handoff \<Rightarrow> bool" where
  "valid_handoff h \<longleftrightarrow> handoff_runs h \<noteq> [] \<and> list_all valid_search_record (handoff_runs h)
     \<and> length (collected_overview h) \<le> ORGANIZED_TEXT_MAX_CHARS
     \<and> length (unresolved_points h) \<le> ORGANIZED_TEXT_MAX_CHARS
     \<and> length (next_search_guidance h) \<le> ORGANIZED_TEXT_MAX_CHARS"

text \<open>The constructors: the fields are checked, nested records were checked on their own.\<close>

definition make_task_record :: "pystr \<Rightarrow> pystr list \<Rightarrow> py_exc + task_record" where
  "make_task_record goal queries =
     (let t = \<lparr>record_goal = goal, record_queries = queries\<rparr>
      in if valid_task_record t then Inr t else Inl ValidationError)"

definition make_search_record :: "time \<Rightarrow> task_record list \<Rightarrow> py_exc + search_record" where
  "make_search_record as_of tasks =
     (if 1 \<le> length tasks \<and> length tasks \<le> RESEARCH_TASK_LIMIT
      then Inr \<lparr>record_as_of = as_of, record_tasks = tasks\<rparr> else Inl ValidationError)"

definition make_handoff ::
    "time \<Rightarrow> search_record list \<Rightarrow> pystr \<Rightarrow> pystr \<Rightarrow> pystr \<Rightarrow> py_exc + handoff" where
  "make_handoff updated_at records overview unresolved guidance =
     (if records = [] \<or> list_ex (\<lambda>x. length x > ORGANIZED_TEXT_MAX_CHARS) [overview, unresolved, guidance]
      then Inl ValidationError
      else Inr \<lparr>handoff_updated_at = updated_at, handoff_runs = records, collected_overview = overview,
                unresolved_points = unresolved, next_search_guidance = guidance\<rparr>)"

definition with_run :: "handoff option \<Rightarrow> search_record \<Rightarrow> py_exc + handoff" where
  "with_run previous r =
     (case previous of
        None \<Rightarrow> make_handoff (record_as_of r) [r] [] [] []
      | Some h \<Rightarrow> make_handoff (record_as_of r) (handoff_runs h @ [r]) (collected_overview h)
                   (unresolved_points h) (next_search_guidance h))"

definition clean_organized :: "pystr \<Rightarrow> pystr" where
  "clean_organized value = strip (take ORGANIZED_TEXT_MAX_CHARS (strip value))"

definition handoff_from_draft :: "handoff \<Rightarrow> handoff_draft \<Rightarrow> py_exc + handoff" where
  "handoff_from_draft h d =
     make_handoff (handoff_updated_at h) (handoff_runs h) (clean_organized (draft_collected_overview d))
       (clean_organized (draft_unresolved_points d)) (clean_organized (draft_next_search_guidance d))"

section \<open>The input of the organizing call\<close>

record searched_task =
  searched_goal :: pystr
  searched_queries :: "pystr list"
  searched_external_collection :: external_status
  hit_headlines :: "pystr list"
  adopted_claims :: "(pystr \<times> pystr) list"

record handoff_input =
  input_handoff :: handoff
  input_question :: pystr
  input_as_of :: time
  input_tasks :: "searched_task list"
  input_review_missing :: "pystr list"

definition tasks_in_index_order :: "collected_task list \<Rightarrow> collected_task list" where
  "tasks_in_index_order tasks = sort_key ct_task_index tasks"

fun make_task_records :: "collected_task list \<Rightarrow> py_exc + task_record list" where
  "make_task_records [] = Inr []"
| "make_task_records (c # cs) =
     (case make_task_record (ct_research_goal c) (ct_executed_queries c) of
        Inl x \<Rightarrow> Inl x
      | Inr t \<Rightarrow> (case make_task_records cs of Inl x \<Rightarrow> Inl x | Inr ts \<Rightarrow> Inr (t # ts)))"

definition build_search_record :: "collected_task list \<Rightarrow> time \<Rightarrow> py_exc + search_record option" where
  "build_search_record tasks as_of =
     (case make_task_records (filter (\<lambda>c. ct_executed_queries c \<noteq> []) (tasks_in_index_order tasks)) of
        Inl x \<Rightarrow> Inl x
      | Inr [] \<Rightarrow> Inr None
      | Inr ts \<Rightarrow> (case make_search_record as_of ts of Inl x \<Rightarrow> Inl x | Inr r \<Rightarrow> Inr (Some r)))"

definition adopted_by_task :: "answer_evidence \<Rightarrow> int \<Rightarrow> (pystr \<times> pystr) list" where
  "adopted_by_task e task_index =
     map snd (filter (\<lambda>(i, _). i = task_index)
       (map (\<lambda>x. (ie_task_index x, ie_claim x, ie_why x)) (internal_evidence e)
        @ map (\<lambda>x. (ee_task_index x, ee_claim x, ee_why x)) (external_evidence e)))"

definition headlines_of :: "collected_task \<Rightarrow> pystr list" where
  "headlines_of c = map ih_title (ct_internal_hits c) @ map eh_title (ct_external_hits c)"

definition searched_task_of :: "answer_evidence \<Rightarrow> collected_task \<Rightarrow> searched_task" where
  "searched_task_of e c =
     \<lparr>searched_goal = ct_research_goal c, searched_queries = ct_executed_queries c,
      searched_external_collection = external_collection (ct_report c), hit_headlines = headlines_of c,
      adopted_claims = adopted_by_task e (ct_task_index c)\<rparr>"

definition handoff_input_from_run ::
    "handoff option \<Rightarrow> pystr \<Rightarrow> collected_task list \<Rightarrow> 'c evidence_run \<Rightarrow> time
       \<Rightarrow> py_exc + handoff_input option" where
  "handoff_input_from_run previous question tasks run as_of =
     (case run of
        EvidenceRunFailed _ \<Rightarrow> Inr None
      | EvidenceRunCompleted e missing \<Rightarrow>
          (case build_search_record tasks as_of of
             Inl _ \<Rightarrow> Inr None
           | Inr None \<Rightarrow> Inr None
           | Inr (Some r) \<Rightarrow>
               (case with_run previous r of
                  Inl x \<Rightarrow> Inl x
                | Inr h \<Rightarrow> Inr (Some
                    \<lparr>input_handoff = h, input_question = question, input_as_of = as_of,
                     input_tasks = map (searched_task_of e) (tasks_in_index_order tasks),
                     input_review_missing = missing\<rparr>))))"

section \<open>Organizing\<close>

text \<open>
  The organizing call gives a draft, a classified failure, or another exception; or it is still
  running when the answer has waited long enough for it.
\<close>

datatype organize_call = Organized handoff_draft | Organize_classified | Organize_raised | Organize_late

definition organize :: "handoff_input \<Rightarrow> organize_call \<Rightarrow> (py_exc + handoff) option" where
  "organize input call =
     (case call of
        Organized d \<Rightarrow> Some (handoff_from_draft (input_handoff input) d)
      | Organize_classified \<Rightarrow> Some (Inr (input_handoff input))
      | Organize_raised \<Rightarrow> Some (Inl RuntimeError)
      | Organize_late \<Rightarrow> None)"

text \<open>\<^verbatim>\<open>_answer_while_organizing\<close>: every exception and the time limit keep the records.\<close>

definition organized_or_records :: "handoff_input \<Rightarrow> organize_call \<Rightarrow> handoff" where
  "organized_or_records input call =
     (case organize input call of Some (Inr h) \<Rightarrow> h | _ \<Rightarrow> input_handoff input)"

section \<open>JSON\<close>

definition task_record_json :: "task_record \<Rightarrow> json" where
  "task_record_json t = JObj
     [(lit ''research_goal'', JStr (record_goal t)),
      (lit ''executed_queries'', JArr (map JStr (record_queries t)))]"

definition search_record_json :: "(time \<Rightarrow> pystr) \<Rightarrow> search_record \<Rightarrow> json" where
  "search_record_json iso_time r = JObj
     [(lit ''as_of'', JStr (iso_time (record_as_of r))),
      (lit ''tasks'', JArr (map task_record_json (record_tasks r)))]"

definition handoff_json :: "(time \<Rightarrow> pystr) \<Rightarrow> handoff \<Rightarrow> json" where
  "handoff_json iso_time h = JObj
     [(lit ''schema_version'', JInt 1),
      (lit ''updated_at'', JStr (iso_time (handoff_updated_at h))),
      (lit ''runs'', JArr (map (search_record_json iso_time) (handoff_runs h))),
      (lit ''collected_overview'', JStr (collected_overview h)),
      (lit ''unresolved_points'', JStr (unresolved_points h)),
      (lit ''next_search_guidance'', JStr (next_search_guidance h))]"

text \<open>Validation; \<^const>\<open>None\<close> is a \<^verbatim>\<open>ValidationError\<close>. No field beyond the declared ones is accepted.\<close>

definition declared_fields :: "string list \<Rightarrow> (pystr \<times> json) list \<Rightarrow> bool" where
  "declared_fields names ms \<longleftrightarrow> fst ` set ms \<subseteq> lit ` set names"

fun str_value :: "json \<Rightarrow> pystr option" where
  "str_value (JStr s) = Some s"
| "str_value _ = None"

fun list_values :: "(json \<Rightarrow> 'a option) \<Rightarrow> json \<Rightarrow> 'a list option" where
  "list_values f (JArr xs) = those (map f xs)"
| "list_values f _ = None"

definition required :: "(pystr \<times> json) list \<Rightarrow> string \<Rightarrow> (json \<Rightarrow> 'a option) \<Rightarrow> 'a option" where
  "required ms name f = Option.bind (map_of ms (lit name)) f"

definition organized_text :: "(pystr \<times> json) list \<Rightarrow> string \<Rightarrow> pystr option" where
  "organized_text ms name =
     (case map_of ms (lit name) of
        None \<Rightarrow> Some []
      | Some v \<Rightarrow> Option.bind (str_value v)
                   (\<lambda>s. if length s \<le> ORGANIZED_TEXT_MAX_CHARS then Some s else None))"

fun validate_task_record :: "json \<Rightarrow> task_record option" where
  "validate_task_record (JObj ms) =
     (case (required ms ''research_goal'' str_value, required ms ''executed_queries'' (list_values str_value)) of
        (Some g, Some qs) \<Rightarrow>
          let t = \<lparr>record_goal = g, record_queries = qs\<rparr>
          in if declared_fields [''research_goal'', ''executed_queries''] ms \<and> valid_task_record t
             then Some t else None
      | _ \<Rightarrow> None)"
| "validate_task_record _ = None"

fun validate_search_record :: "(json \<Rightarrow> time option) \<Rightarrow> json \<Rightarrow> search_record option" where
  "validate_search_record parse_time (JObj ms) =
     (case (required ms ''as_of'' parse_time, required ms ''tasks'' (list_values validate_task_record)) of
        (Some t, Some ts) \<Rightarrow>
          if declared_fields [''as_of'', ''tasks''] ms \<and> 1 \<le> length ts \<and> length ts \<le> RESEARCH_TASK_LIMIT
          then Some \<lparr>record_as_of = t, record_tasks = ts\<rparr> else None
      | _ \<Rightarrow> None)"
| "validate_search_record _ _ = None"

fun validate_handoff :: "(json \<Rightarrow> time option) \<Rightarrow> json \<Rightarrow> handoff option" where
  "validate_handoff parse_time (JObj ms) =
     (case (required ms ''updated_at'' parse_time,
            required ms ''runs'' (list_values (validate_search_record parse_time)),
            organized_text ms ''collected_overview'', organized_text ms ''unresolved_points'',
            organized_text ms ''next_search_guidance'') of
        (Some t, Some rs, Some overview, Some unresolved, Some guidance) \<Rightarrow>
          if declared_fields [''schema_version'', ''updated_at'', ''runs'', ''collected_overview'',
                ''unresolved_points'', ''next_search_guidance''] ms
             \<and> map_of ms (lit ''schema_version'') \<in> {None, Some (JInt 1)} \<and> rs \<noteq> []
          then Some \<lparr>handoff_updated_at = t, handoff_runs = rs, collected_overview = overview,
                     unresolved_points = unresolved, next_search_guidance = guidance\<rparr>
          else None
      | _ \<Rightarrow> None)"
| "validate_handoff _ _ = None"

definition recall_research_handoff :: "(json \<Rightarrow> time option) \<Rightarrow> json option \<Rightarrow> handoff option" where
  "recall_research_handoff parse_time raw = Option.bind raw (validate_handoff parse_time)"

section \<open>Building\<close>

lemma make_handoff_ok:
  "length overview \<le> ORGANIZED_TEXT_MAX_CHARS \<Longrightarrow> length unresolved \<le> ORGANIZED_TEXT_MAX_CHARS \<Longrightarrow>
   length guidance \<le> ORGANIZED_TEXT_MAX_CHARS \<Longrightarrow> rs \<noteq> [] \<Longrightarrow>
   make_handoff t rs overview unresolved guidance =
     Inr \<lparr>handoff_updated_at = t, handoff_runs = rs, collected_overview = overview,
          unresolved_points = unresolved, next_search_guidance = guidance\<rparr>"
  by (simp add: make_handoff_def)

lemma with_run_ok:
  assumes "valid_search_record r" "case previous of None \<Rightarrow> True | Some h \<Rightarrow> valid_handoff h"
  shows "\<exists>h. with_run previous r = Inr h \<and> valid_handoff h \<and> handoff_updated_at h = record_as_of r
    \<and> handoff_runs h = (case previous of None \<Rightarrow> [] | Some p \<Rightarrow> handoff_runs p) @ [r]
    \<and> (\<forall>p. previous = Some p \<longrightarrow> collected_overview h = collected_overview p
         \<and> unresolved_points h = unresolved_points p \<and> next_search_guidance h = next_search_guidance p)"
  using assms by (cases previous) (simp_all add: with_run_def make_handoff_ok valid_handoff_def)

lemma clean_organized_short: "length (clean_organized value) \<le> ORGANIZED_TEXT_MAX_CHARS"
proof -
  have "length (strip s) \<le> length s" for s
    by (simp add: strip_def lstrip_def rstrip_def)
      (metis length_dropWhile_le length_rev order_trans)
  then have "length (clean_organized value) \<le> length (take ORGANIZED_TEXT_MAX_CHARS (strip value))"
    unfolding clean_organized_def .
  then show ?thesis by simp
qed

lemma handoff_from_draft_ok:
  assumes "valid_handoff h"
  shows "\<exists>h'. handoff_from_draft h d = Inr h' \<and> valid_handoff h' \<and> handoff_runs h' = handoff_runs h
    \<and> handoff_updated_at h' = handoff_updated_at h"
  using assms clean_organized_short by (simp add: handoff_from_draft_def make_handoff_ok valid_handoff_def)

lemma organized_ok:
  assumes "valid_handoff (input_handoff input)"
  shows "valid_handoff (organized_or_records input call)
    \<and> handoff_runs (organized_or_records input call) = handoff_runs (input_handoff input)
    \<and> handoff_updated_at (organized_or_records input call) = handoff_updated_at (input_handoff input)"
proof (cases call)
  case (Organized d)
  then show ?thesis using handoff_from_draft_ok [OF assms, of d] by (auto simp: organized_or_records_def organize_def)
qed (use assms in \<open>simp_all add: organized_or_records_def organize_def\<close>)

lemma make_task_records_ok:
  "\<forall>c \<in> set cs. valid_task_record \<lparr>record_goal = ct_research_goal c, record_queries = ct_executed_queries c\<rparr> \<Longrightarrow>
   make_task_records cs = Inr (map (\<lambda>c. \<lparr>record_goal = ct_research_goal c, record_queries = ct_executed_queries c\<rparr>) cs)"
  by (induction cs) (simp_all add: make_task_record_def Let_def)

lemma make_task_records_valid:
  "make_task_records cs = Inr ts \<Longrightarrow> list_all valid_task_record ts"
  by (induction cs arbitrary: ts)
    (auto simp: make_task_record_def Let_def split: if_splits sum.splits)

lemma build_search_record_valid:
  assumes "build_search_record tasks as_of = Inr (Some r)"
  shows "valid_search_record r" "record_as_of r = as_of"
    "make_task_records (filter (\<lambda>c. ct_executed_queries c \<noteq> []) (tasks_in_index_order tasks)) = Inr (record_tasks r)"
proof -
  obtain ts where ts: "make_task_records (filter (\<lambda>c. ct_executed_queries c \<noteq> []) (tasks_in_index_order tasks)) = Inr ts"
    "make_search_record as_of ts = Inr r"
    using assms by (simp add: build_search_record_def split: sum.splits list.splits)
  then show "valid_search_record r" "record_as_of r = as_of"
    "make_task_records (filter (\<lambda>c. ct_executed_queries c \<noteq> []) (tasks_in_index_order tasks)) = Inr (record_tasks r)"
    using make_task_records_valid [OF ts(1)]
    by (auto simp: make_search_record_def valid_search_record_def split: if_splits)
qed

lemma handoff_input_valid:
  assumes "handoff_input_from_run previous question tasks run as_of = Inr (Some input)"
    and "case previous of None \<Rightarrow> True | Some h \<Rightarrow> valid_handoff h"
  shows "valid_handoff (input_handoff input)"
proof -
  obtain e missing r where r: "run = EvidenceRunCompleted e missing"
    "build_search_record tasks as_of = Inr (Some r)" "with_run previous r = Inr (input_handoff input)"
    using assms(1) by (auto simp: handoff_input_from_run_def split: evidence_run.splits sum.splits option.splits)
  then show ?thesis using with_run_ok [OF build_search_record_valid(1) assms(2)] by fastforce
qed

lemma handoff_input_never_raises:
  assumes "case previous of None \<Rightarrow> True | Some h \<Rightarrow> valid_handoff h"
  shows "\<exists>x. handoff_input_from_run previous question tasks run as_of = Inr x"
proof (cases run)
  case (EvidenceRunCompleted e missing)
  show ?thesis
  proof (cases "build_search_record tasks as_of")
    case (Inr x)
    show ?thesis
    proof (cases x)
      case (Some r)
      then have "valid_search_record r" using Inr build_search_record_valid(1) by blast
      then obtain h where "with_run previous r = Inr h" using with_run_ok [OF _ assms] by blast
      then show ?thesis using EvidenceRunCompleted Inr Some by (simp add: handoff_input_from_run_def)
    qed (simp add: EvidenceRunCompleted Inr handoff_input_from_run_def)
  qed (simp add: EvidenceRunCompleted handoff_input_from_run_def)
qed (simp add: handoff_input_from_run_def)

section \<open>Searches are handed on\<close>

lemma collected_in_order:
  assumes "map ct_task_index cs = map int [0..<n]"
  shows "tasks_in_index_order cs = cs"
proof -
  have "sorted (map int [0..<n])" by (simp add: sorted_iff_nth_mono)
  then show ?thesis using assms by (simp add: tasks_in_index_order_def sort_key_id_if_sorted)
qed

lemma collected_record:
  assumes "plan_from_draft casefold d = Inr (SearchPlan p)"
    and "collect internal (\<lambda>i. external_search (generate i) (gateway i)) p = Inr cs"
  shows "build_search_record cs as_of = Inr
    (if \<forall>c \<in> set cs. ct_executed_queries c = [] then None
     else Some \<lparr>record_as_of = as_of, record_tasks =
       map (\<lambda>c. \<lparr>record_goal = ct_research_goal c, record_queries = ct_executed_queries c\<rparr>)
         (filter (\<lambda>c. ct_executed_queries c \<noteq> []) cs)\<rparr>)"
proof -
  have cs: "map ct_task_index cs = map int [0..<length (research_tasks p)]"
    "map ct_research_goal cs = map research_goal (research_tasks p)"
    "\<forall>c \<in> set cs. recordable_queries (ct_executed_queries c)"
    using collected_ok [OF assms(1), of internal generate gateway] assms(2) by auto
  have goals: "\<exists>t \<in> set (research_tasks p). ct_research_goal c = research_goal t" if "c \<in> set cs" for c
    using cs(2) that by (metis (mono_tags, opaque_lifting) image_iff image_set)
  have valid: "valid_task_record \<lparr>record_goal = ct_research_goal c, record_queries = ct_executed_queries c\<rparr>"
    if "c \<in> set cs" "ct_executed_queries c \<noteq> []" for c
  proof -
    note member = that
    obtain t where t: "t \<in> set (research_tasks p)" "ct_research_goal c = research_goal t"
      using goals [OF member(1)] by blast
    note shape = plan_task_shape [OF assms(1) t(1)]
    have "research_goal t \<noteq> []" using shape(1) by auto
    then show ?thesis
      using member cs(3) shape(4) t(2)
      by (auto simp: valid_task_record_def recordable_queries_def search_query_text_def list_all_iff Suc_le_eq)
  qed
  have "length cs \<le> RESEARCH_TASK_LIMIT"
    using cs(2) plan_task_count [OF assms(1)] by (metis length_map)
  then have "length (filter (\<lambda>c. ct_executed_queries c \<noteq> []) cs) \<le> RESEARCH_TASK_LIMIT"
    by (meson length_filter_le order_trans)
  moreover have "filter (\<lambda>c. ct_executed_queries c \<noteq> []) cs = [] \<longleftrightarrow> (\<forall>c \<in> set cs. ct_executed_queries c = [])"
    by (auto simp: filter_empty_conv)
  moreover have "make_task_records (filter (\<lambda>c. ct_executed_queries c \<noteq> []) cs) =
      Inr (map (\<lambda>c. \<lparr>record_goal = ct_research_goal c, record_queries = ct_executed_queries c\<rparr>)
        (filter (\<lambda>c. ct_executed_queries c \<noteq> []) cs))"
    using valid by (intro make_task_records_ok) auto
  ultimately show ?thesis
    by (cases "filter (\<lambda>c. ct_executed_queries c \<noteq> []) cs")
      (simp_all add: build_search_record_def collected_in_order [OF cs(1)] make_search_record_def)
qed

text \<open>
  C27. No search is forgotten: after a completed review, the handoff of the thread is extended by one
  record with exactly the tasks that executed a query, their goals and their queries in the order
  of the plan, and by none if no query was executed. Whatever the organizing model returns, fails
  with or takes too long for, all earlier records stay and the handoff is valid.
\<close>

theorem executed_searches_are_handed_on:
  assumes "plan_from_draft casefold d = Inr (SearchPlan p)"
    and "collect internal (\<lambda>i. external_search (generate i) (gateway i)) p = Inr cs"
    and "previous = None \<or> previous = Some h \<and> valid_handoff h"
  shows "\<exists>input. handoff_input_from_run previous question cs (EvidenceRunCompleted e missing) as_of = Inr input
    \<and> (input = None \<longleftrightarrow> (\<forall>c \<in> set cs. ct_executed_queries c = []))
    \<and> (\<forall>x. input = Some x \<longrightarrow>
         valid_handoff (organized_or_records x call)
         \<and> handoff_updated_at (organized_or_records x call) = as_of
         \<and> handoff_runs (organized_or_records x call) =
             (if previous = None then [] else handoff_runs h) @
             [\<lparr>record_as_of = as_of, record_tasks =
               map (\<lambda>c. \<lparr>record_goal = ct_research_goal c, record_queries = ct_executed_queries c\<rparr>)
                 (filter (\<lambda>c. ct_executed_queries c \<noteq> []) cs)\<rparr>])"
proof (cases "\<forall>c \<in> set cs. ct_executed_queries c = []")
  case True
  then show ?thesis
    using collected_record [OF assms(1,2), of as_of] by (simp add: handoff_input_from_run_def)
next
  case False
  let ?r = "\<lparr>record_as_of = as_of, record_tasks =
               map (\<lambda>c. \<lparr>record_goal = ct_research_goal c, record_queries = ct_executed_queries c\<rparr>)
                 (filter (\<lambda>c. ct_executed_queries c \<noteq> []) cs)\<rparr>"
  have built: "build_search_record cs as_of = Inr (Some ?r)"
    using collected_record [OF assms(1,2), of as_of] False by simp
  have prev: "case previous of None \<Rightarrow> True | Some h \<Rightarrow> valid_handoff h" using assms(3) by auto
  obtain h' where h': "with_run previous ?r = Inr h'" "valid_handoff h'" "handoff_updated_at h' = as_of"
    "handoff_runs h' = (case previous of None \<Rightarrow> [] | Some p \<Rightarrow> handoff_runs p) @ [?r]"
    using with_run_ok [OF build_search_record_valid(1) [OF built] prev] by auto
  have runs: "(case previous of None \<Rightarrow> [] | Some p \<Rightarrow> handoff_runs p)
      = (if previous = None then [] else handoff_runs h)"
    using assms(3) by auto
  show ?thesis
    using organized_ok [of _ call] h' built False
    by (simp add: handoff_input_from_run_def runs)
qed

lemma executed_searches_are_handed_on_witness:
  "\<exists>p cs x. plan_from_draft (\<lambda>s. s) sample_draft = Inr (SearchPlan p)
     \<and> collect (\<lambda>_ _. Inl QueryEmbeddingFailed)
         (\<lambda>i. external_search (\<lambda>_. Some [[120]]) (\<lambda>_. Some [])) p = Inr cs
     \<and> handoff_input_from_run None [65] cs (EvidenceRunCompleted \<lparr>internal_evidence = [], external_evidence = []\<rparr> []
          :: nat evidence_run) 7 = Inr x"
proof -
  let ?p = "\<lparr>research_tasks =
      [\<lparr>research_goal = [65], article_search_queries = [[1], [2]]\<rparr>,
       \<lparr>research_goal = [66], article_search_queries = [[4]]\<rparr>],
      plan_time_window = None\<rparr>"
  have run: "plan_from_draft (\<lambda>s. s) sample_draft = Inr (SearchPlan ?p)"
    by (simp add: sample_draft_def plan_eval)
  obtain cs where cs: "collect (\<lambda>_ _. Inl QueryEmbeddingFailed)
      (\<lambda>i. external_search (\<lambda>_. Some [[120]]) (\<lambda>_. Some [])) ?p = Inr cs"
    using collected_ok [OF run, of "\<lambda>_ _. Inl QueryEmbeddingFailed" "\<lambda>_ _. Some [[120]]" "\<lambda>_ _. Some []"] by auto
  show ?thesis
    using run cs executed_searches_are_handed_on [OF run cs, of None _ "[65]" _ "[]" 7 Organize_raised] by blast
qed

section \<open>The stored handoff\<close>

lemma those_map_Some: "\<forall>x \<in> set xs. f (g x) = Some x \<Longrightarrow> those (map f (map g xs)) = Some xs"
  by (induction xs) simp_all

lemma those_list_all: "those (map f xs) = Some ys \<Longrightarrow> (\<And>x y. f x = Some y \<Longrightarrow> P y) \<Longrightarrow> list_all P ys"
  by (induction xs arbitrary: ys) (auto split: option.splits)

lemma list_values_list_all: "list_values f v = Some ys \<Longrightarrow> (\<And>x y. f x = Some y \<Longrightarrow> P y) \<Longrightarrow> list_all P ys"
  by (cases v) (auto elim!: those_list_all)

lemmas required_simps = required_def organized_text_def declared_fields_def lit_def

lemma validate_task_record_json:
  assumes "valid_task_record t"
  shows "validate_task_record (task_record_json t) = Some t"
proof -
  have "those (map str_value (map JStr (record_queries t))) = Some (record_queries t)"
    by (intro those_map_Some) simp
  then show ?thesis using assms by (cases t) (simp add: task_record_json_def required_simps Let_def)
qed

lemma validate_search_record_json:
  assumes "valid_search_record r" "\<forall>t. parse_time (JStr (iso_time t)) = Some t"
  shows "validate_search_record parse_time (search_record_json iso_time r) = Some r"
proof -
  have "those (map validate_task_record (map task_record_json (record_tasks r))) = Some (record_tasks r)"
    using assms(1) by (intro those_map_Some) (simp add: valid_search_record_def list_all_iff validate_task_record_json)
  then show ?thesis
    using assms by (simp add: search_record_json_def required_simps valid_search_record_def)
qed

lemma validate_handoff_json:
  assumes "valid_handoff h" "\<forall>t. parse_time (JStr (iso_time t)) = Some t"
  shows "validate_handoff parse_time (handoff_json iso_time h) = Some h"
proof -
  have "those (map (validate_search_record parse_time) (map (search_record_json iso_time) (handoff_runs h)))
      = Some (handoff_runs h)"
    using assms by (intro those_map_Some) (simp add: valid_handoff_def list_all_iff validate_search_record_json)
  then show ?thesis
    using assms by (simp add: handoff_json_def required_simps valid_handoff_def)
qed

lemma printable_handoff: "printable_json (handoff_json iso_time h)"
  by (simp add: handoff_json_def search_record_json_def task_record_json_def lit_def list_all_iff)

lemma validated_task_record: "validate_task_record v = Some t \<Longrightarrow> valid_task_record t"
  by (cases v) (auto simp: Let_def split: option.splits if_splits)

lemma validated_search_record:
  assumes "validate_search_record parse_time v = Some r"
  shows "valid_search_record r"
proof -
  obtain ms t ts where ts: "required ms ''tasks'' (list_values validate_task_record) = Some ts"
    "1 \<le> length ts" "length ts \<le> RESEARCH_TASK_LIMIT" "r = \<lparr>record_as_of = t, record_tasks = ts\<rparr>"
    using assms by (cases v) (auto split: option.splits if_splits)
  then obtain x where "list_values validate_task_record x = Some ts"
    by (auto simp: required_def bind_eq_Some_conv)
  then have "list_all valid_task_record ts" using validated_task_record by (rule list_values_list_all)
  then show ?thesis using ts by (simp add: valid_search_record_def)
qed

lemma organized_text_short: "organized_text ms name = Some s \<Longrightarrow> length s \<le> ORGANIZED_TEXT_MAX_CHARS"
  by (auto simp: organized_text_def bind_eq_Some_conv split: option.splits if_splits)

lemma validated_handoff:
  assumes "validate_handoff parse_time v = Some h"
  shows "valid_handoff h"
proof -
  obtain ms t rs a b c where h: "required ms ''runs'' (list_values (validate_search_record parse_time)) = Some rs"
    "organized_text ms ''collected_overview'' = Some a" "organized_text ms ''unresolved_points'' = Some b"
    "organized_text ms ''next_search_guidance'' = Some c" "rs \<noteq> []"
    "h = \<lparr>handoff_updated_at = t, handoff_runs = rs, collected_overview = a, unresolved_points = b,
          next_search_guidance = c\<rparr>"
    using assms by (cases v) (auto split: option.splits if_splits)
  obtain x where "list_values (validate_search_record parse_time) x = Some rs"
    using h(1) by (auto simp: required_def bind_eq_Some_conv)
  then have "list_all valid_search_record rs" using validated_search_record by (rule list_values_list_all)
  then show ?thesis using h organized_text_short by (simp add: valid_handoff_def)
qed

text \<open>
  The handoff that a run stores comes back unchanged from the JSON text of the thread when the
  next run reads it; and whatever the column holds, a handoff that is recalled is valid, everything
  else is treated as no handoff.
\<close>

theorem handoff_survives_storage:
  assumes "valid_handoff h" "\<forall>t. parse_time (JStr (iso_time t)) = Some t"
  shows "recall_research_handoff parse_time (json_loads (json_dumps (handoff_json iso_time h))) = Some h
    \<and> (\<forall>raw. case recall_research_handoff parse_time raw of None \<Rightarrow> True | Some h' \<Rightarrow> valid_handoff h')"
proof
  show "recall_research_handoff parse_time (json_loads (json_dumps (handoff_json iso_time h))) = Some h"
    using validate_handoff_json [OF assms]
    by (simp add: recall_research_handoff_def json_loads_dumps [OF printable_handoff])
  show "\<forall>raw. case recall_research_handoff parse_time raw of None \<Rightarrow> True | Some h' \<Rightarrow> valid_handoff h'"
    using validated_handoff by (auto simp: recall_research_handoff_def bind_eq_Some_conv split: option.split)
qed

definition sample_handoff :: handoff where
  "sample_handoff = \<lparr>handoff_updated_at = 3, handoff_runs = [\<lparr>record_as_of = 3,
     record_tasks = [\<lparr>record_goal = [65], record_queries = [[66]]\<rparr>]\<rparr>],
     collected_overview = [67], unresolved_points = [], next_search_guidance = []\<rparr>"

definition sample_parse_time :: "json \<Rightarrow> time option" where
  "sample_parse_time v =
     (case v of JStr s \<Rightarrow> (case json_loads s of Some (JInt t) \<Rightarrow> Some t | _ \<Rightarrow> None) | _ \<Rightarrow> None)"

lemma sample_parse_str: "sample_parse_time (JStr (str_of_int t)) = Some t"
  using json_loads_dumps [of "JInt t"] by (simp add: sample_parse_time_def)

lemma sample_handoff_valid: "valid_handoff sample_handoff"
  by (simp add: sample_handoff_def valid_handoff_def valid_search_record_def valid_task_record_def
      RESEARCH_GOAL_MAX_CHARS_def EXTERNAL_TASK_QUERY_LIMIT_def EXTERNAL_QUERY_MAX_CHARS_def
      RESEARCH_TASK_LIMIT_def ORGANIZED_TEXT_MAX_CHARS_def)

lemma handoff_survives_storage_witness:
  "recall_research_handoff sample_parse_time (json_loads (json_dumps (handoff_json str_of_int sample_handoff)))
     = Some sample_handoff"
  using handoff_survives_storage [OF sample_handoff_valid, of sample_parse_time str_of_int] sample_parse_str
  by simp

end
