(* ===== verification/ThreadReads.thy ===== *)
theory ThreadReads
  imports RunStore PyJson
begin

text \<open>
  What a worker reads of a thread before an attempt (\<^verbatim>\<open>running/question_reading.py\<close>,
  \<^verbatim>\<open>threads/repository.py\<close>, \<^verbatim>\<open>threads/history.py\<close>): the question,
  the messages before it and the stored handoff. Reads do not change the database.
\<close>

section \<open>Queries\<close>

record user_question =
  question_content :: pystr
  question_seq :: int

definition read_user_question_for_run :: "run_db \<Rightarrow> uuid \<Rightarrow> (uuid \<times> uuid \<times> user_question) option" where
  "read_user_question_for_run db i =
     (case map_of (runs db) i of
        None \<Rightarrow> None
      | Some r \<Rightarrow>
          (case (map_of (messages db) (run_user_message_id r), map_of (threads db) (run_thread_id r)) of
             (Some m, Some t) \<Rightarrow> Some (thr_user_id t, run_thread_id r,
                \<lparr>question_content = msg_content m, question_seq = msg_seq m\<rparr>)
           | _ \<Rightarrow> None))"

record message_snapshot =
  snapshot_role :: message_role
  snapshot_content :: pystr
  snapshot_missing :: "pystr list"

definition snapshot_of :: "message_row \<Rightarrow> message_snapshot" where
  "snapshot_of m = \<lparr>snapshot_role = msg_role m, snapshot_content = msg_content m,
     snapshot_missing = (if msg_role m = Assistant_role then filter (\<lambda>x. x \<noteq> []) (msg_missing_aspects m) else [])\<rparr>"

definition messages_before :: "run_db \<Rightarrow> uuid \<Rightarrow> int \<Rightarrow> message_row list" where
  "messages_before db thread_id before_seq =
     filter (\<lambda>m. msg_thread_id m = thread_id \<and> msg_seq m < before_seq) (map snd (messages db))"

definition read_recent_messages_before :: "run_db \<Rightarrow> uuid \<Rightarrow> int \<Rightarrow> int \<Rightarrow> message_snapshot list" where
  "read_recent_messages_before db thread_id before_seq limit =
     (if limit \<le> 0 then []
      else map snapshot_of (rev (take (nat limit)
        (sort_key (\<lambda>m. - msg_seq m) (messages_before db thread_id before_seq)))))"

definition read_research_handoff_for_user :: "run_db \<Rightarrow> uuid \<Rightarrow> uuid \<Rightarrow> json option" where
  "read_research_handoff_for_user db thread_id user =
     (case map_of (threads db) thread_id of
        None \<Rightarrow> None
      | Some t \<Rightarrow> if thr_user_id t = user then Option.bind (thr_research_handoff t) json_loads else None)"

section \<open>The history of a run\<close>

definition HISTORY_MESSAGE_LIMIT :: int where "HISTORY_MESSAGE_LIMIT = 6"
definition HISTORY_MESSAGE_CHAR_CAP :: nat where "HISTORY_MESSAGE_CHAR_CAP = 2000"
definition MISSING_ASPECT_CHAR_CAP :: nat where "MISSING_ASPECT_CHAR_CAP = 300"
definition MISSING_ASPECT_LIMIT :: nat where "MISSING_ASPECT_LIMIT = 8"

definition normalize_missing_aspect :: "pystr \<Rightarrow> pystr" where
  "normalize_missing_aspect value = strip (take MISSING_ASPECT_CHAR_CAP (strip value))"

text \<open>The inner loop over the missing aspects of a message; \<open>seen\<close> is shared by all messages.\<close>

fun keep_missing_aspects :: "pystr list \<Rightarrow> pystr list \<Rightarrow> pystr list \<Rightarrow> pystr list \<times> pystr list" where
  "keep_missing_aspects [] seen kept = (seen, kept)"
| "keep_missing_aspects (a # as) seen kept =
     (let value = normalize_missing_aspect a in
      if value \<noteq> [] \<and> value \<notin> set seen \<and> length seen < MISSING_ASPECT_LIMIT
      then keep_missing_aspects as (seen @ [value]) (kept @ [value])
      else keep_missing_aspects as seen kept)"

fun normalize_messages :: "message_snapshot list \<Rightarrow> pystr list \<Rightarrow> message_snapshot list" where
  "normalize_messages [] seen = []"
| "normalize_messages (m # ms) seen =
     (case (if snapshot_role m = Assistant_role then keep_missing_aspects (snapshot_missing m) seen []
            else (seen, [])) of
        (seen', kept) \<Rightarrow>
          \<lparr>snapshot_role = snapshot_role m, snapshot_content = take HISTORY_MESSAGE_CHAR_CAP (snapshot_content m),
           snapshot_missing = kept\<rparr> # normalize_messages ms seen')"

definition normalize_run_history :: "message_snapshot list \<Rightarrow> message_snapshot list" where
  "normalize_run_history history = normalize_messages history []"

definition read_history :: "run_db \<Rightarrow> uuid \<Rightarrow> int \<Rightarrow> message_snapshot list" where
  "read_history db thread_id before_seq =
     normalize_run_history (read_recent_messages_before db thread_id before_seq HISTORY_MESSAGE_LIMIT)"

section \<open>What the model sees of the past\<close>

text \<open>The order in which the values were seen is that of their occurrence in the result.\<close>

lemma keep_missing_aspects_ok:
  assumes "keep_missing_aspects as seen kept = (seen', kept')" "distinct seen" "length seen \<le> MISSING_ASPECT_LIMIT"
  shows "\<exists>new. seen' = seen @ new \<and> kept' = kept @ new \<and> distinct seen' \<and> length seen' \<le> MISSING_ASPECT_LIMIT
    \<and> (\<forall>x \<in> set new. x \<noteq> [] \<and> (\<exists>a \<in> set as. x = normalize_missing_aspect a))"
  using assms
proof (induction as seen kept rule: keep_missing_aspects.induct)
  case (2 a as seen kept)
  let ?v = "normalize_missing_aspect a"
  show ?case
  proof (cases "?v \<noteq> [] \<and> ?v \<notin> set seen \<and> length seen < MISSING_ASPECT_LIMIT")
    case True
    then have "\<exists>new. seen' = (seen @ [?v]) @ new \<and> kept' = (kept @ [?v]) @ new \<and> distinct seen'
      \<and> length seen' \<le> MISSING_ASPECT_LIMIT
      \<and> (\<forall>x \<in> set new. x \<noteq> [] \<and> (\<exists>a \<in> set as. x = normalize_missing_aspect a))"
      using 2 by (auto simp: Let_def)
    then obtain new where new: "seen' = seen @ ?v # new" "kept' = kept @ ?v # new" "distinct seen'"
      "length seen' \<le> MISSING_ASPECT_LIMIT"
      "\<forall>x \<in> set new. x \<noteq> [] \<and> (\<exists>a \<in> set as. x = normalize_missing_aspect a)"
      by auto
    then show ?thesis using True by (intro exI [of _ "?v # new"]) auto
  next
    case False
    then show ?thesis using 2 by (auto simp: Let_def)
  qed
qed simp

lemma normalize_messages_ok:
  assumes "distinct seen" "length seen \<le> MISSING_ASPECT_LIMIT"
  shows "map snapshot_role (normalize_messages ms seen) = map snapshot_role ms
    \<and> map snapshot_content (normalize_messages ms seen)
        = map (take HISTORY_MESSAGE_CHAR_CAP \<circ> snapshot_content) ms
    \<and> distinct (seen @ concat (map snapshot_missing (normalize_messages ms seen)))
    \<and> length (seen @ concat (map snapshot_missing (normalize_messages ms seen))) \<le> MISSING_ASPECT_LIMIT
    \<and> (\<forall>x \<in> set (concat (map snapshot_missing (normalize_messages ms seen))). x \<noteq> [] \<and> (\<exists>a. x = normalize_missing_aspect a))"
  using assms
proof (induction ms arbitrary: seen)
  case (Cons m ms)
  obtain seen' kept where k: "(if snapshot_role m = Assistant_role
      then keep_missing_aspects (snapshot_missing m) seen [] else (seen, [])) = (seen', kept)"
    by fastforce
  have new: "seen' = seen @ kept \<and> distinct seen' \<and> length seen' \<le> MISSING_ASPECT_LIMIT
    \<and> (\<forall>x \<in> set kept. x \<noteq> [] \<and> (\<exists>a. x = normalize_missing_aspect a))"
  proof (cases "snapshot_role m = Assistant_role")
    case True
    then show ?thesis
      using keep_missing_aspects_ok [of "snapshot_missing m" seen "[]" seen' kept] k Cons.prems by auto
  qed (use k Cons.prems in auto)
  have eq: "normalize_messages (m # ms) seen = \<lparr>snapshot_role = snapshot_role m,
      snapshot_content = take HISTORY_MESSAGE_CHAR_CAP (snapshot_content m), snapshot_missing = kept\<rparr>
      # normalize_messages ms seen'"
    using k by simp
  have rest: "\<forall>x \<in> set (kept @ concat (map snapshot_missing (normalize_messages ms seen'))).
      x \<noteq> [] \<and> (\<exists>a. x = normalize_missing_aspect a)"
    using Cons.IH [of seen'] new unfolding set_append by blast
  have seen': "seen' = seen @ kept" "distinct seen'" "length seen' \<le> MISSING_ASPECT_LIMIT" using new by blast+
  show ?case using Cons.IH [OF seen'(2,3)] rest unfolding eq seen'(1) by simp
qed simp

lemma length_strip_le: "length (strip s) \<le> length s"
  by (simp add: strip_def lstrip_def rstrip_def) (metis length_dropWhile_le length_rev order_trans)

lemma normalize_missing_aspect_short: "length (normalize_missing_aspect a) \<le> MISSING_ASPECT_CHAR_CAP"
  using length_strip_le [of "take MISSING_ASPECT_CHAR_CAP (strip a)"]
  by (simp add: normalize_missing_aspect_def)

text \<open>
  What the models see of a thread is bounded, whatever it holds: the last six messages before the
  question, oldest first and with nothing left out between them, each cut at 2000 characters, and
  in all of them at most eight missing aspects, none blank, none twice, none over 300 characters.
\<close>

theorem history_is_recent_and_bounded:
  assumes "messages_constraints ths (messages db)"
  shows "\<exists>rows. length rows = min 6 (length (messages_before db t seq))
    \<and> sorted_wrt (<) (map msg_seq rows) \<and> set rows \<subseteq> set (messages_before db t seq)
    \<and> (\<forall>m \<in> set (messages_before db t seq) - set rows. \<forall>r \<in> set rows. msg_seq m < msg_seq r)
    \<and> map snapshot_role (read_history db t seq) = map msg_role rows
    \<and> map snapshot_content (read_history db t seq) = map (take 2000 \<circ> msg_content) rows
    \<and> (let aspects = concat (map snapshot_missing (read_history db t seq)) in
        length aspects \<le> 8 \<and> distinct aspects \<and> (\<forall>a \<in> set aspects. a \<noteq> [] \<and> length a \<le> 300))"
proof -
  let ?ms = "messages_before db t seq"
  let ?sorted = "sort_key (\<lambda>m. - msg_seq m) ?ms"
  let ?rows = "rev (take 6 ?sorted)"
  have "distinct (map msg_seq ?ms)"
  proof -
    have "distinct (map (\<lambda>(i, m). (msg_thread_id m, msg_seq m)) (messages db))"
      using assms by (simp add: messages_constraints_def)
    then have "distinct (map (\<lambda>m. (msg_thread_id m, msg_seq m)) (map snd (messages db)))"
      by (simp add: comp_def case_prod_beta')
    then have "distinct (map (\<lambda>m. (msg_thread_id m, msg_seq m)) ?ms)"
      unfolding messages_before_def by (rule distinct_map_filter)
    then show ?thesis
      by (auto simp: distinct_map inj_on_def messages_before_def)
  qed
  then have "distinct (map (\<lambda>m. - msg_seq m) ?sorted)"
    by (simp add: distinct_map inj_on_def)
  then have strict: "sorted_wrt (<) (map (\<lambda>m. - msg_seq m) ?sorted)"
    by (simp add: strict_sorted_iff)
  have read: "read_recent_messages_before db t seq HISTORY_MESSAGE_LIMIT = map snapshot_of ?rows"
    by (simp add: read_recent_messages_before_def HISTORY_MESSAGE_LIMIT_def)
  note norm = normalize_messages_ok [of "[]" "map snapshot_of ?rows", simplified]
  let ?aspects = "concat (map snapshot_missing (read_history db t seq))"
  have hist: "read_history db t seq = normalize_messages (map snapshot_of ?rows) []"
    by (simp add: read_history_def normalize_run_history_def read)
  have "\<forall>x \<in> set ?aspects. x \<noteq> [] \<and> (\<exists>a. x = normalize_missing_aspect a)"
    "distinct ?aspects" "length ?aspects \<le> MISSING_ASPECT_LIMIT"
    unfolding hist using norm by (simp_all add: rev_map)
  then have aspects: "length ?aspects \<le> 8" "distinct ?aspects" "\<forall>a \<in> set ?aspects. a \<noteq> [] \<and> length a \<le> 300"
    using normalize_missing_aspect_short unfolding MISSING_ASPECT_LIMIT_def MISSING_ASPECT_CHAR_CAP_def by metis+
  have "?sorted = take 6 ?sorted @ drop 6 ?sorted" by simp
  then have "sorted_wrt (<) (map (\<lambda>m. - msg_seq m) (take 6 ?sorted @ drop 6 ?sorted))" using strict by simp
  then have parts: "sorted_wrt (<) (map (\<lambda>m. - msg_seq m) (take 6 ?sorted))"
    "\<forall>r \<in> set (take 6 ?sorted). \<forall>m \<in> set (drop 6 ?sorted). msg_seq m < msg_seq r"
    unfolding map_append sorted_wrt_append by auto
  have members: "set ?sorted = set (take 6 ?sorted) \<union> set (drop 6 ?sorted)"
    by (metis append_take_drop_id set_append)
  show ?thesis
  proof (rule exI [of _ ?rows], intro conjI)
    show "length ?rows = min 6 (length ?ms)" by simp
    show "sorted_wrt (<) (map msg_seq ?rows)"
      using parts(1) by (simp add: sorted_wrt_rev sorted_wrt_map)
    show "set ?rows \<subseteq> set ?ms" using members by (metis set_rev set_sort sup_ge1)
    show "\<forall>m \<in> set ?ms - set ?rows. \<forall>r \<in> set ?rows. msg_seq m < msg_seq r"
      using parts(2) members by (metis DiffE UnE set_rev set_sort)
    show "map snapshot_role (read_history db t seq) = map msg_role ?rows"
      unfolding hist using norm by (simp add: snapshot_of_def comp_def)
    show "map snapshot_content (read_history db t seq) = map (take 2000 \<circ> msg_content) ?rows"
      unfolding hist using norm by (simp add: snapshot_of_def comp_def HISTORY_MESSAGE_CHAR_CAP_def)
    show "let aspects = ?aspects in length aspects \<le> 8 \<and> distinct aspects \<and> (\<forall>a \<in> set aspects. a \<noteq> [] \<and> length a \<le> 300)"
      unfolding Let_def using aspects by blast
  qed
qed

lemma history_is_recent_and_bounded_witness:
  "map snapshot_content (read_history
     \<lparr>threads = [(1, \<lparr>thr_user_id = 2, thr_title = [65], thr_updated_at = 0, thr_research_handoff = None\<rparr>)],
      messages = [(3, \<lparr>msg_thread_id = 1, msg_seq = 1, msg_role = User_role, msg_content = [66], msg_missing_aspects = []\<rparr>),
        (4, \<lparr>msg_thread_id = 1, msg_seq = 2, msg_role = Assistant_role, msg_content = [67], msg_missing_aspects = [[68]]\<rparr>)],
      sources = [], runs = [], quotas = []\<rparr> 1 2) = [[66]]"
proof -
  let ?ths = "[(1, \<lparr>thr_user_id = 2, thr_title = [65], thr_updated_at = 0, thr_research_handoff = None\<rparr>)]"
  let ?user = "\<lparr>msg_thread_id = 1, msg_seq = 1, msg_role = User_role, msg_content = [66], msg_missing_aspects = []\<rparr>"
  let ?ms = "[(3, ?user),
        (4, \<lparr>msg_thread_id = 1, msg_seq = 2, msg_role = Assistant_role, msg_content = [67], msg_missing_aspects = [[68]]\<rparr>)]"
  let ?db = "\<lparr>threads = ?ths, messages = ?ms, sources = [], runs = [], quotas = []\<rparr>"
  have "messages_constraints ?ths (messages ?db)"
    by (simp add: messages_constraints_def message_constraint_def)
  from history_is_recent_and_bounded [OF this, of 1 2] obtain rows where rows:
    "length rows = min 6 (length (messages_before ?db 1 2))" "set rows \<subseteq> set (messages_before ?db 1 2)"
    "map snapshot_content (read_history ?db 1 2) = map (take 2000 \<circ> msg_content) rows"
    by blast
  have "messages_before ?db 1 2 = [?user]" by (simp add: messages_before_def)
  then have "rows = [?user]" using rows(1,2) by (cases rows) auto
  then show ?thesis using rows(3) by simp
qed

end
