(* ===== verification/ThreadViews.thy ===== *)
theory ThreadViews
  imports ThreadReads RunGuarantees
begin

text \<open>
  What a client sees of its threads: the paged list and the detail of a thread
  (\<^verbatim>\<open>agent/threads/repository.py\<close>, \<^verbatim>\<open>threads/projection.py\<close>,
  \<^verbatim>\<open>schemas/base.py\<close>, \<^verbatim>\<open>schemas/research.py\<close>). The instants at which
  messages were created are not kept in the rows of the model and are left out of the views; the
  validation of a URL is a parameter.
\<close>

section \<open>The list of threads\<close>

record pagination =
  page_number :: nat
  page_size :: nat

definition MAX_PAGE :: nat where "MAX_PAGE = 10000"
definition MAX_PER_PAGE :: nat where "MAX_PER_PAGE = 100"

definition valid_pagination :: "pagination \<Rightarrow> bool" where
  "valid_pagination p \<longleftrightarrow> 1 \<le> page_number p \<and> page_number p \<le> MAX_PAGE \<and> 1 \<le> page_size p \<and> page_size p \<le> MAX_PER_PAGE"

definition page_offset :: "pagination \<Rightarrow> nat" where
  "page_offset p = (page_number p - 1) * page_size p"

text \<open>The quotient of the source is a float; below \<open>2^45\<close> threads it has this ceiling.\<close>

definition total_pages :: "pagination \<Rightarrow> nat \<Rightarrow> nat" where
  "total_pages p n = (if n > 0 then (n + page_size p - 1) div page_size p else 0)"

record thread_list_item =
  item_thread_id :: uuid
  item_title :: pystr
  item_updated_at :: time
  item_has_active_run :: bool

record thread_page =
  page_items :: "thread_list_item list"
  page_total :: nat
  page_page :: nat
  page_per_page :: nat
  page_total_pages :: nat

definition threads_of_user :: "run_db \<Rightarrow> uuid \<Rightarrow> (uuid \<times> thread_row) list" where
  "threads_of_user db user = filter (\<lambda>(i, t). thr_user_id t = user) (threads db)"

text \<open>Two stable sorts are the order by both keys.\<close>

definition newest_first :: "(uuid \<times> thread_row) list \<Rightarrow> (uuid \<times> thread_row) list" where
  "newest_first rows = sort_key (\<lambda>(i, t). - thr_updated_at t) (sort_key (\<lambda>(i, t). - int i) rows)"

definition list_item :: "run_db \<Rightarrow> uuid \<times> thread_row \<Rightarrow> thread_list_item" where
  "list_item db x =
     \<lparr>item_thread_id = fst x, item_title = thr_title (snd x), item_updated_at = thr_updated_at (snd x),
      item_has_active_run = has_active_run db (fst x)\<rparr>"

definition list_threads_for_user :: "run_db \<Rightarrow> uuid \<Rightarrow> pagination \<Rightarrow> thread_page" where
  "list_threads_for_user db user p =
     \<lparr>page_items = map (list_item db) (take (page_size p) (drop (page_offset p) (newest_first (threads_of_user db user)))),
      page_total = length (threads_of_user db user), page_page = page_number p, page_per_page = page_size p,
      page_total_pages = total_pages p (length (threads_of_user db user))\<rparr>"

section \<open>The detail of a thread\<close>

datatype view_source =
    View_internal pystr "int option" pystr "time option"
  | View_external pystr pystr pystr "pystr option" "time option" pystr

datatype view_message =
    View_user int pystr uuid run_status "run_error_code option"
  | View_assistant int pystr "view_source list" "pystr list"

record thread_detail =
  detail_thread_id :: uuid
  detail_title :: pystr
  detail_messages :: "view_message list"

text \<open>The list of the results, or the first exception.\<close>

fun each :: "('a \<Rightarrow> py_exc + 'b) \<Rightarrow> 'a list \<Rightarrow> py_exc + 'b list" where
  "each f [] = Inr []"
| "each f (x # xs) =
     (case f x of
        Inl e \<Rightarrow> Inl e
      | Inr y \<Rightarrow> (case each f xs of Inl e \<Rightarrow> Inl e | Inr ys \<Rightarrow> Inr (y # ys)))"

definition source_response :: "(pystr \<Rightarrow> pystr option) \<Rightarrow> source_row \<Rightarrow> py_exc + view_source" where
  "source_response web_url s =
     (case src_kind s of
        Internal_article \<Rightarrow> Inr (View_internal (src_ref s) (src_article_id s) (src_title s) (src_published_at s))
      | External_url \<Rightarrow>
          (case (src_url s, src_evidence_claim s) of
             (Some u, Some claim) \<Rightarrow>
               (case web_url u of
                  None \<Rightarrow> Inl ValidationError
                | Some v \<Rightarrow> Inr (View_external (src_ref s) v (src_title s) (src_source_name s) (src_published_at s) claim))
           | _ \<Rightarrow> Inl ValueError))"

definition message_response ::
    "(pystr \<Rightarrow> pystr option) \<Rightarrow> (uuid \<Rightarrow> (uuid \<times> run_row) option) \<Rightarrow> (uuid \<Rightarrow> source_row list)
       \<Rightarrow> uuid \<times> message_row \<Rightarrow> py_exc + view_message" where
  "message_response web_url runs_by_user_message_id sources_by_message_id x =
     (case x of (m, row) \<Rightarrow>
        case msg_role row of
          User_role \<Rightarrow>
            (case runs_by_user_message_id m of
               None \<Rightarrow> Inl ValueError
             | Some (i, r) \<Rightarrow> Inr (View_user (msg_seq row) (msg_content row) i (run_status r) (run_error_code r)))
        | Assistant_role \<Rightarrow>
            map_sum id (\<lambda>ss. View_assistant (msg_seq row) (msg_content row) ss (msg_missing_aspects row))
              (each (source_response web_url) (sources_by_message_id m)))"

definition messages_of_thread :: "run_db \<Rightarrow> uuid \<Rightarrow> (uuid \<times> message_row) list" where
  "messages_of_thread db t =
     sort_key (\<lambda>(m, row). msg_seq row) (filter (\<lambda>(m, row). msg_thread_id row = t) (messages db))"

text \<open>A later run of the comprehension would replace an earlier one with the same message.\<close>

definition runs_by_user_message :: "run_db \<Rightarrow> uuid \<Rightarrow> uuid list \<Rightarrow> uuid \<Rightarrow> (uuid \<times> run_row) option" where
  "runs_by_user_message db t user_messages =
     map_of (rev (map (\<lambda>(i, r). (run_user_message_id r, (i, r)))
       (filter (\<lambda>(i, r). run_thread_id r = t \<and> run_user_message_id r \<in> set user_messages) (runs db))))"

definition sources_by_message :: "run_db \<Rightarrow> uuid list \<Rightarrow> uuid \<Rightarrow> source_row list" where
  "sources_by_message db assistant_messages m =
     filter (\<lambda>s. src_message_id s = m)
       (sort_key src_message_id (sort_key src_ordinal
         (filter (\<lambda>s. src_message_id s \<in> set assistant_messages) (sources db))))"

definition read_thread_detail_for_user ::
    "(pystr \<Rightarrow> pystr option) \<Rightarrow> run_db \<Rightarrow> uuid \<Rightarrow> uuid \<Rightarrow> py_exc + thread_detail option" where
  "read_thread_detail_for_user web_url db t user =
     (case map_of (threads db) t of
        None \<Rightarrow> Inr None
      | Some thread \<Rightarrow>
          if thr_user_id thread \<noteq> user then Inr None
          else
            (let ms = messages_of_thread db t;
                 users = map fst (filter (\<lambda>(m, row). msg_role row = User_role) ms);
                 assistants = map fst (filter (\<lambda>(m, row). msg_role row = Assistant_role) ms)
             in map_sum id (\<lambda>vs. Some \<lparr>detail_thread_id = t, detail_title = thr_title thread, detail_messages = vs\<rparr>)
                  (each (message_response web_url (runs_by_user_message db t users) (sources_by_message db assistants)) ms)))"

section \<open>Pages\<close>

lemma sorted_sort_key_stable:
  assumes "sorted_wrt R xs" "transp R"
  shows "sorted_wrt (\<lambda>a b. f a < f b \<or> f a = f b \<and> R a b) (sort_key f xs)"
  using assms(1)
proof (induction xs)
  case (Cons x xs)
  let ?S = "\<lambda>a b. f a < f b \<or> f a = f b \<and> R a b"
  have "sorted_wrt ?S (insort_key f x ys)" if "sorted_wrt ?S ys" "\<forall>y \<in> set ys. R x y" for ys
    using that
  proof (induction ys)
    case (Cons y ys)
    then show ?case by (cases "f x \<le> f y") (auto simp: set_insort_key)
  qed simp
  then show ?case using Cons by simp
qed simp

lemma chunks: "0 < n \<Longrightarrow> concat (map (\<lambda>k. take n (drop (k * n) xs)) [0..<m]) = take (m * n) xs"
proof (induction m)
  case (Suc m)
  then have "concat (map (\<lambda>k. take n (drop (k * n) xs)) [0..<Suc m]) = take (m * n) xs @ take n (drop (m * n) xs)"
    by simp
  also have "\<dots> = take (m * n + n) xs" by (rule take_add [symmetric])
  finally show ?case by (simp add: add.commute)
qed simp

lemma pages_enough: "0 < page_size p \<Longrightarrow> n \<le> total_pages p n * page_size p"
proof (cases "n = 0")
  case False
  assume "0 < page_size p"
  then have "n + page_size p - 1 < (n + page_size p - 1) div page_size p * page_size p + page_size p"
    using div_mult_mod_eq [of "n + page_size p - 1" "page_size p"]
      mod_less_divisor [of "page_size p" "n + page_size p - 1"] by linarith
  then show ?thesis using False by (simp add: total_pages_def)
qed simp

lemma newest_first_set [simp]: "set (newest_first rows) = set rows" "length (newest_first rows) = length rows"
  by (simp_all add: newest_first_def)

lemma newest_first_sorted:
  assumes "distinct (map fst rows)"
  shows "sorted_wrt (\<lambda>a b. thr_updated_at (snd a) > thr_updated_at (snd b)
    \<or> thr_updated_at (snd a) = thr_updated_at (snd b) \<and> fst a > fst b) (newest_first rows)"
proof -
  let ?ids = "sort_key (\<lambda>(i, t). - int i) rows"
  have "sorted (map (\<lambda>(i, t). - int i) ?ids)" by (rule sorted_sort_key)
  moreover have "distinct (map (\<lambda>(i, t). - int i) ?ids)"
    using assms by (force simp: distinct_map inj_on_def)
  ultimately have "sorted_wrt (<) (map (\<lambda>(i, t). - int i) ?ids)" using strict_sorted_iff by blast
  then have "sorted_wrt (\<lambda>a b. fst a > fst b) ?ids"
    unfolding sorted_wrt_map by (rule sorted_wrt_mono_rel [rotated]) auto
  then have "sorted_wrt (\<lambda>a b. (case a of (i, t) \<Rightarrow> - thr_updated_at t) < (case b of (i, t) \<Rightarrow> - thr_updated_at t)
      \<or> (case a of (i, t) \<Rightarrow> - thr_updated_at t) = (case b of (i, t) \<Rightarrow> - thr_updated_at t) \<and> fst a > fst b) (newest_first rows)"
    unfolding newest_first_def by (rule sorted_sort_key_stable) (auto simp: transp_def)
  then show ?thesis by (rule sorted_wrt_mono_rel [rotated]) auto
qed


section \<open>Every question has its run\<close>

definition questions_ok :: "run_db \<Rightarrow> bool" where
  "questions_ok db \<longleftrightarrow> (\<forall>(m, row) \<in> set (messages db). msg_role row = User_role \<longrightarrow>
     (\<exists>(i, r) \<in> set (runs db). run_user_message_id r = m \<and> run_thread_id r = msg_thread_id row))"

text \<open>What a change of the tables needs to keep the questions with their runs.\<close>

lemma questions_ok_change:
  assumes "questions_ok db" "messages db' = messages db @ ms" "\<forall>(m, row) \<in> set ms. msg_role row = Assistant_role"
    and "\<And>i r. (i, r) \<in> set (runs db) \<Longrightarrow> \<exists>r'. (i, r') \<in> set (runs db')
      \<and> run_user_message_id r' = run_user_message_id r \<and> run_thread_id r' = run_thread_id r"
  shows "questions_ok db'"
proof -
  have "\<exists>(i, r) \<in> set (runs db'). run_user_message_id r = m \<and> run_thread_id r = msg_thread_id row"
    if "(m, row) \<in> set (messages db')" "msg_role row = User_role" for m row
  proof -
    have "(m, row) \<in> set (messages db)" using that assms(2,3) by auto
    then obtain i r where "(i, r) \<in> set (runs db)" "run_user_message_id r = m" "run_thread_id r = msg_thread_id row"
      using assms(1) \<open>msg_role row = User_role\<close> unfolding questions_ok_def by fastforce
    then show ?thesis using assms(4) by fastforce
  qed
  then show ?thesis by (auto simp: questions_ok_def)
qed

definition adds_answers :: "run_db \<Rightarrow> run_db \<Rightarrow> bool" where
  "adds_answers db db' \<longleftrightarrow> (\<exists>ms. messages db' = messages db @ ms \<and> (\<forall>(m, row) \<in> set ms. msg_role row = Assistant_role))"

lemma adds_answers_refl [simp]: "messages db' = messages db \<Longrightarrow> adds_answers db db'"
  by (auto simp: adds_answers_def)

lemma finish_run_adds: "finish_run db lk status code m = Inr (db', out) \<Longrightarrow> messages db' = messages db"
  by (auto simp: finish_run_def update_run_def put_runs_def map_sum_def split: if_splits sum.splits prod.splits)

lemma unless_rejected_adds:
  assumes "unless_rejected db lk verdict acc = Inr (db', out)"
    and "\<And>out. acc = Inr (db', out) \<Longrightarrow> adds_answers db db'"
  shows "adds_answers db db'"
  using assms by (auto simp: unless_rejected_def map_sum_def split: sum.splits option.splits if_splits
      dest!: finish_run_adds)

lemma update_run_adds: "update_run db i f = Inr db' \<Longrightarrow> messages db' = messages db"
  by (auto simp: update_run_def put_runs_def split: if_splits)

lemma complete_run_adds:
  assumes "(let t = run_thread_id r in
             case put_messages db (messages db @
                    [(m, \<lparr>msg_thread_id = t, msg_seq = next_message_seq db t,
                       msg_role = Assistant_role, msg_content = result_answer result,
                       msg_missing_aspects = result_missing_aspects result\<rparr>)]) of
               Inl e \<Rightarrow> Inl e
             | Inr db1 \<Rightarrow>
                 (case put_sources db1 (sources db1 @ build_source_rows m result) of
                    Inl e \<Rightarrow> Inl e
                  | Inr db2 \<Rightarrow>
                      (case finish_run db2 lk Completed None (Some m) of
                         Inl e \<Rightarrow> Inl e
                       | Inr (db3, out) \<Rightarrow> Inr (update_thread db3 t f, out)))) = Inr (db', out)"
  shows "adds_answers db db'"
  using assms by (auto simp: Let_def adds_answers_def put_messages_def put_sources_def update_thread_def
      split: sum.splits if_splits prod.splits dest!: finish_run_adds)

lemma perform_adds:
  assumes "perform db i op now = Inr (db', out)"
  shows "adds_answers db db'"
proof -
  note defs = start_attempt_def check_continuation_def start_answer_generation_def
    authorize_answer_regeneration_def record_failure_def record_policy_block_def cancel_for_user_def
    record_enqueue_failure_def
  show ?thesis
  proof (cases op)
    case (CompleteRun e result handoff m)
    show ?thesis
    proof (cases "lock_run db i None now")
      case (Some lk)
      show ?thesis
        by (rule unless_rejected_adds [OF assms [unfolded CompleteRun perform.simps complete_run_def Some option.case]])
          (rule complete_run_adds)
    qed (use assms CompleteRun in \<open>simp add: complete_run_def\<close>)
  next
    case (CancelForUser u)
    then show ?thesis
      using assms by (auto simp: defs split: option.splits elim!: unless_rejected_adds dest: finish_run_adds)
  qed (use assms in \<open>auto simp: defs Let_def map_sum_def split: option.splits elim!: unless_rejected_adds
      dest: finish_run_adds update_run_adds split: sum.splits\<close>)
qed

lemma questions_ok_perform:
  assumes "db_ok db" "questions_ok db" "perform db i op now = Inr (db', out)"
  shows "questions_ok db'"
proof -
  obtain ms where ms: "messages db' = messages db @ ms" "\<forall>(m, row) \<in> set ms. msg_role row = Assistant_role"
    using perform_adds [OF assms(3)] by (auto simp: adds_answers_def)
  obtain f where f: "runs db' = change_row i f (runs db)" "\<forall>r. map_of (runs db) i = Some r \<longrightarrow> row_le r (f r)"
    using perform_effect [OF assms(1,3)] by (auto simp: run_effect_def)
  show ?thesis
  proof (rule questions_ok_change [OF assms(2) ms])
    fix j r assume r: "(j, r) \<in> set (runs db)"
    then have "j = i \<Longrightarrow> row_le r (f r)" using f(2) db_okD(6) [OF assms(1)] by simp
    then show "\<exists>r'. (j, r') \<in> set (runs db') \<and> run_user_message_id r' = run_user_message_id r
        \<and> run_thread_id r' = run_thread_id r"
      using r unfolding f(1) change_row_def
      by (intro exI [of _ "if j = i then f r else r"]) (force simp: row_le_def)
  qed
qed

lemma created_message:
  assumes "db_ok db" "create_user_run db user q tid qt now nt nm nr = Inr (db', c)"
  shows "\<exists>n. messages db' = messages db @ [(nm, \<lparr>msg_thread_id = created_thread_id c, msg_seq = n,
      msg_role = User_role, msg_content = q, msg_missing_aspects = []\<rparr>)]"
proof -
  obtain db1 t n where r1: "resolve_thread db user q tid nt now = Inr (db1, t, n)"
    using assms(2) by (auto simp: create_user_run_def split: sum.splits)
  then show ?thesis
    using assms(2) resolve_thread_ok(3) [OF assms(1) r1]
    by (auto simp: create_user_run_def Let_def put_messages_def put_runs_def update_thread_def split: sum.splits if_splits)
qed

lemma questions_ok_step:
  assumes "run_step s t" "run_inv s" "questions_ok (fst s)"
  shows "questions_ok (fst t)"
  using assms(1)
proof cases
  case (step_create db user q tid qt now nt nm nr db' c ids)
  then have ok: "db_ok db" using assms(2) by (simp add: run_inv_def)
  obtain n where ms: "messages db' = messages db @ [(nm, \<lparr>msg_thread_id = created_thread_id c, msg_seq = n,
      msg_role = User_role, msg_content = q, msg_missing_aspects = []\<rparr>)]"
    using created_message [OF ok step_create(3)] by blast
  show ?thesis
    using assms(3) ms create_user_run_ok(2) [OF ok step_create(3)] step_create(1,2)
    by (fastforce simp: questions_ok_def)
next
  case (step_perform db i op now db' out ids)
  then show ?thesis using questions_ok_perform [OF _ _ step_perform(3)] assms(2,3) by (simp add: run_inv_def)
next
  case (step_sweep db tid rid clock now db' res ids)
  then have ok: "db_ok db" using assms(2) by (simp add: run_inv_def)
  note res = recover_result [OF ok step_sweep(3)]
  have "questions_ok db'"
  proof (rule questions_ok_change [where db = db and ms = "[]"])
    fix i r assume "(i, r) \<in> set (runs db)"
    then show "\<exists>r'. (i, r') \<in> set (runs db') \<and> run_user_message_id r' = run_user_message_id r
        \<and> run_thread_id r' = run_thread_id r"
      unfolding res(2) sweep_rows_def
      by (intro exI [of _ "if selects tid rid clock i r then r\<lparr>run_status := Deadline_exceeded\<rparr> else r"]) force
  qed (use assms(3) step_sweep(1) res(4) in simp_all)
  then show ?thesis using step_sweep(2) by simp
next
  case (step_delete db th user db' deleted ids)
  have "db' = db \<or> db' = delete_thread db th" using delete_thread_cases [OF step_delete(3)] by blast
  then show ?thesis
    using assms(3) step_delete(1,2) by (fastforce simp: questions_ok_def delete_thread_def Let_def)
qed

lemma questions_ok_reached:
  assumes "reach run_start run_step s"
  shows "run_inv s \<and> questions_ok (fst s)"
  using assms
proof (induction rule: reach.induct)
  case (reach_start s)
  then show ?case using run_sys.reach_inv [OF reach.reach_start] by (auto simp: run_start_def questions_ok_def empty_db_def)
next
  case (reach_step s t)
  then show ?case using questions_ok_step run_step_effect by blast
qed

section \<open>The detail\<close>

lemma each_all: "each f xs = Inr ys \<longleftrightarrow> list_all2 (\<lambda>x y. f x = Inr y) xs ys"
proof (induction xs arbitrary: ys)
  case (Cons x xs)
  note IH = Cons.IH
  show ?case
  proof (cases ys)
    case (Cons y zs)
    have "each f (x # xs) = Inr (y # zs) \<longleftrightarrow> f x = Inr y \<and> each f xs = Inr zs" by (simp split: sum.splits)
    then show ?thesis using IH [of zs] Cons by simp
  qed (simp split: sum.splits)
qed auto

lemma image_pairs: "(\<lambda>(m, row). f row) ` {(m, row). P m row} = {f row | m row. P m row}"
  by force

lemma list_all2_member: "list_all2 P xs ys \<Longrightarrow> x \<in> set xs \<Longrightarrow> \<exists>y \<in> set ys. P x y"
  by (induction rule: list_all2_induct) auto

lemma each_map: "\<forall>x \<in> set xs. f x = Inr (g x) \<Longrightarrow> each f xs = Inr (map g xs)"
  by (induction xs) auto

lemma each_total: "\<forall>x \<in> set xs. \<exists>y. f x = Inr y \<Longrightarrow> \<exists>ys. each f xs = Inr ys"
  by (induction xs) fastforce+

fun view_seq :: "view_message \<Rightarrow> int" where
  "view_seq (View_user n content i status code) = n"
| "view_seq (View_assistant n content ss missing) = n"

lemma found_run:
  assumes "db_ok db" "questions_ok db" "(m, row) \<in> set (messages db)" "msg_role row = User_role" "m \<in> set users"
  shows "\<exists>i r. runs_by_user_message db (msg_thread_id row) users m = Some (i, r)
    \<and> map_of (runs db) i = Some r \<and> run_user_message_id r = m"
proof -
  let ?al = "rev (map (\<lambda>(i, r). (run_user_message_id r, (i, r)))
       (filter (\<lambda>(i, r). run_thread_id r = msg_thread_id row \<and> run_user_message_id r \<in> set users) (runs db)))"
  obtain i r where "(i, r) \<in> set (runs db)" "run_user_message_id r = m" "run_thread_id r = msg_thread_id row"
    using assms(2-4) unfolding questions_ok_def by fastforce
  then have "(m, (i, r)) \<in> set ?al" using assms(5) by force
  then obtain x where x: "map_of ?al m = Some x" using weak_map_of_SomeI by fastforce
  then have "(m, x) \<in> set ?al" by (rule map_of_SomeD)
  then obtain j q where q: "x = (j, q)" "(j, q) \<in> set (runs db)" "run_user_message_id q = m" by auto
  then have "map_of (runs db) j = Some q" using db_okD(6) [OF assms(1)] by (simp add: map_of_is_SomeI)
  then show ?thesis using x q unfolding runs_by_user_message_def by blast
qed

lemma source_shown:
  assumes "source_constraint s" "\<forall>u. src_url s = Some u \<longrightarrow> web_url u = Some u"
  shows "\<exists>v. source_response web_url s = Inr v"
  using assms by (cases "src_kind s") (auto simp: source_response_def source_constraint_def split: option.splits)

lemma message_shown:
  assumes "db_ok db" "questions_ok db" "(m, row) \<in> set (messages db)" "msg_role row = User_role \<Longrightarrow> m \<in> set users"
    and "\<forall>s \<in> set (sources db). \<forall>u. src_url s = Some u \<longrightarrow> web_url u = Some u"
  shows "\<exists>v. message_response web_url (runs_by_user_message db (msg_thread_id row) users) (sources_by_message db assistants) (m, row) = Inr v"
proof (cases "msg_role row")
  case User_role
  then show ?thesis
    using found_run [OF assms(1-3) User_role assms(4) [OF User_role]] by (auto simp: message_response_def)
next
  case Assistant_role
  have "\<exists>ss. each (source_response web_url) (sources_by_message db assistants m) = Inr ss"
  proof (rule each_total, intro ballI)
    fix s assume "s \<in> set (sources_by_message db assistants m)"
    then have s: "s \<in> set (sources db)" by (simp add: sources_by_message_def)
    then have "source_constraint s"
      using db_okD(3) [OF assms(1)] by (simp add: sources_constraints_def list_all_iff)
    then show "\<exists>y. source_response web_url s = Inr y" using source_shown assms(5) s by blast
  qed
  then show ?thesis using Assistant_role by (auto simp: message_response_def)
qed

lemma thread_messages:
  assumes "db_ok db"
  shows "set (messages_of_thread db t) = {(m, row). (m, row) \<in> set (messages db) \<and> msg_thread_id row = t}"
    and "sorted_wrt (<) (map (\<lambda>(m, row). msg_seq row) (messages_of_thread db t))"
proof -
  let ?ms = "filter (\<lambda>(m, row). msg_thread_id row = t) (messages db)"
  show "set (messages_of_thread db t) = {(m, row). (m, row) \<in> set (messages db) \<and> msg_thread_id row = t}"
    by (auto simp: messages_of_thread_def)
  have "distinct (map (\<lambda>(i, m). (msg_thread_id m, msg_seq m)) ?ms)"
    using db_okD(2) [OF assms] by (simp add: messages_constraints_def distinct_map_filterI)
  then have "distinct (map (\<lambda>(m, row). msg_seq row) ?ms)"
    by (force simp: distinct_map inj_on_def)
  then have "distinct (map (\<lambda>(m, row). msg_seq row) (messages_of_thread db t))"
    by (simp add: messages_of_thread_def distinct_map)
  moreover have "sorted (map (\<lambda>(m, row). msg_seq row) (messages_of_thread db t))"
    unfolding messages_of_thread_def by (rule sorted_sort_key)
  ultimately show "sorted_wrt (<) (map (\<lambda>(m, row). msg_seq row) (messages_of_thread db t))"
    using strict_sorted_iff by blast
qed

lemma response_fields:
  assumes "message_response web_url runs_by sources_by (m, row) = Inr v"
  shows "view_seq v = msg_seq row"
    and "msg_role row = User_role \<Longrightarrow> \<exists>i r. runs_by m = Some (i, r)
      \<and> v = View_user (msg_seq row) (msg_content row) i (run_status r) (run_error_code r)"
    and "msg_role row = Assistant_role \<Longrightarrow> \<exists>ss. each (source_response web_url) (sources_by m) = Inr ss
      \<and> v = View_assistant (msg_seq row) (msg_content row) ss (msg_missing_aspects row)"
  using assms by (auto simp: message_response_def map_sum_def split: message_role.splits option.splits sum.splits)

text \<open>The detail of a thread of the user, message by message.\<close>

lemma detail_built:
  assumes "reach run_start run_step (db, ids)"
    and "\<forall>s \<in> set (sources db). \<forall>u. src_url s = Some u \<longrightarrow> web_url u = Some u"
    and "map_of (threads db) t = Some thread" "thr_user_id thread = user"
  shows "\<exists>vs. read_thread_detail_for_user web_url db t user
      = Inr (Some \<lparr>detail_thread_id = t, detail_title = thr_title thread, detail_messages = vs\<rparr>)
    \<and> list_all2 (\<lambda>x v. message_response web_url
        (runs_by_user_message db t (map fst (filter (\<lambda>(m, row). msg_role row = User_role) (messages_of_thread db t))))
        (sources_by_message db (map fst (filter (\<lambda>(m, row). msg_role row = Assistant_role) (messages_of_thread db t)))) x = Inr v)
      (messages_of_thread db t) vs"
proof -
  have ok: "db_ok db" "questions_ok db" using questions_ok_reached [OF assms(1)] by (simp_all add: run_inv_def)
  let ?ms = "messages_of_thread db t"
  let ?users = "map fst (filter (\<lambda>(m, row). msg_role row = User_role) ?ms)"
  let ?assistants = "map fst (filter (\<lambda>(m, row). msg_role row = Assistant_role) ?ms)"
  let ?f = "message_response web_url (runs_by_user_message db t ?users) (sources_by_message db ?assistants)"
  have "\<exists>vs. each ?f ?ms = Inr vs"
  proof (rule each_total, intro ballI)
    fix x assume x: "x \<in> set ?ms"
    obtain m row where mrow: "x = (m, row)" by fastforce
    then have in_db: "(m, row) \<in> set (messages db)" "msg_thread_id row = t"
      using x thread_messages(1) [OF ok(1)] by auto
    have "msg_role row = User_role \<Longrightarrow> m \<in> set ?users" using x mrow by force
    from message_shown [OF ok in_db(1) this assms(2), of ?assistants]
    show "\<exists>y. ?f x = Inr y" using in_db(2) mrow by simp
  qed
  then obtain vs where vs: "each ?f ?ms = Inr vs" by blast
  show ?thesis
    using vs each_all [THEN iffD1, OF vs] assms(3,4)
    by (intro exI [of _ vs]) (simp add: read_thread_detail_for_user_def Let_def)
qed

text \<open>
  C29. On every database the program can reach the detail of a user's own thread is built without an
  exception, given that the stored URLs pass the validation they have passed before: it shows
  every message of the thread once, in the order of their numbers, and every question with the
  status and the error code of its run.
\<close>

theorem thread_detail_always_builds:
  assumes "reach run_start run_step (db, ids)"
    and "\<forall>s \<in> set (sources db). \<forall>u. src_url s = Some u \<longrightarrow> web_url u = Some u"
    and "map_of (threads db) t = Some thread" "thr_user_id thread = user"
  shows "\<exists>vs. read_thread_detail_for_user web_url db t user
      = Inr (Some \<lparr>detail_thread_id = t, detail_title = thr_title thread, detail_messages = vs\<rparr>)
    \<and> sorted_wrt (<) (map view_seq vs)
    \<and> set (map view_seq vs) = {msg_seq row | m row. map_of (messages db) m = Some row \<and> msg_thread_id row = t}
    \<and> (\<forall>m row. map_of (messages db) m = Some row \<and> msg_thread_id row = t \<and> msg_role row = User_role \<longrightarrow>
        (\<exists>i r. map_of (runs db) i = Some r \<and> run_user_message_id r = m
          \<and> View_user (msg_seq row) (msg_content row) i (run_status r) (run_error_code r) \<in> set vs))"
proof -
  have ok: "db_ok db" "questions_ok db" using questions_ok_reached [OF assms(1)] by (simp_all add: run_inv_def)
  let ?ms = "messages_of_thread db t"
  let ?users = "map fst (filter (\<lambda>(m, row). msg_role row = User_role) ?ms)"
  obtain vs where vs: "read_thread_detail_for_user web_url db t user
      = Inr (Some \<lparr>detail_thread_id = t, detail_title = thr_title thread, detail_messages = vs\<rparr>)"
    and shown: "list_all2 (\<lambda>x v. message_response web_url (runs_by_user_message db t ?users)
        (sources_by_message db (map fst (filter (\<lambda>(m, row). msg_role row = Assistant_role) ?ms))) x = Inr v) ?ms vs"
    using detail_built [OF assms] by blast
  have seqs: "map view_seq vs = map (\<lambda>(m, row). msg_seq row) ?ms"
    using shown by (induction rule: list_all2_induct) (auto dest: response_fields(1))
  have keys: "map_of (messages db) m = Some row \<longleftrightarrow> (m, row) \<in> set (messages db)" for m row
    using db_okD(2) [OF ok(1)] by (simp add: messages_constraints_def)
  have users: "\<exists>i r. map_of (runs db) i = Some r \<and> run_user_message_id r = m
      \<and> View_user (msg_seq row) (msg_content row) i (run_status r) (run_error_code r) \<in> set vs"
    if "(m, row) \<in> set (messages db)" "msg_thread_id row = t" "msg_role row = User_role" for m row
  proof -
    note user = that
    have ms: "(m, row) \<in> set ?ms" using that thread_messages(1) [OF ok(1)] by blast
    then obtain v where v: "v \<in> set vs" "message_response web_url (runs_by_user_message db t ?users)
        (sources_by_message db (map fst (filter (\<lambda>(m, row). msg_role row = Assistant_role) ?ms))) (m, row) = Inr v"
      using list_all2_member [OF shown ms] by blast
    have "m \<in> set ?users" using ms that(3) by force
    from found_run [OF ok that(1,3) this] obtain i r where run: "runs_by_user_message db t ?users m = Some (i, r)"
      "map_of (runs db) i = Some r" "run_user_message_id r = m" using user(2) by blast
    then have "v = View_user (msg_seq row) (msg_content row) i (run_status r) (run_error_code r)"
      using response_fields(2) [OF v(2) that(3)] by simp
    then show ?thesis using run(2,3) v(1) by blast
  qed
  have seqs': "set (map view_seq vs) = {msg_seq row | m row. map_of (messages db) m = Some row \<and> msg_thread_id row = t}"
  proof -
    have "set (map view_seq vs) = (\<lambda>(m, row). msg_seq row) ` {(m, row). (m, row) \<in> set (messages db) \<and> msg_thread_id row = t}"
      unfolding seqs set_map thread_messages(1) [OF ok(1)] ..
    then show ?thesis unfolding keys image_pairs .
  qed
  show ?thesis
  proof (intro exI [of _ vs] conjI)
    show "sorted_wrt (<) (map view_seq vs)" unfolding seqs by (rule thread_messages(2) [OF ok(1)])
  qed (use vs seqs' users in \<open>simp_all only: keys, blast\<close>)
qed

section \<open>A saved answer is shown\<close>

fun shown_source :: "answer_source \<Rightarrow> view_source" where
  "shown_source (InternalArticleSource ref article title published) = View_internal ref (Some article) title published"
| "shown_source (ExternalUrlSource ref url title claim published name) = View_external ref url title name published claim"

lemma source_roundtrip:
  "\<forall>u. src_url (source_row_of m k s) = Some u \<longrightarrow> web_url u = Some u \<Longrightarrow>
   source_response web_url (source_row_of m k s) = Inr (shown_source s)"
  by (cases s) (simp_all add: source_response_def source_row_of_def)

lemma each_sources:
  assumes "\<forall>s \<in> set (build_source_rows m result). \<forall>u. src_url s = Some u \<longrightarrow> web_url u = Some u"
  shows "each (source_response web_url) (build_source_rows m result) = Inr (map shown_source (result_sources result))"
proof -
  have "each (source_response web_url) (map (\<lambda>(k, s). source_row_of m k s) (enumerate n ss)) = Inr (map shown_source ss)"
    if "\<forall>s \<in> set (map (\<lambda>(k, s). source_row_of m k s) (enumerate n ss)). \<forall>u. src_url s = Some u \<longrightarrow> web_url u = Some u"
    for n ss
    using that by (induction ss arbitrary: n) (auto simp: source_roundtrip)
  then show ?thesis using assms by (simp add: build_source_rows_def)
qed

lemma built_rows:
  "sorted (map src_ordinal (build_source_rows m result))" "\<forall>s \<in> set (build_source_rows m result). src_message_id s = m"
proof -
  have "map src_ordinal (build_source_rows m result) = [1..<1 + length (result_sources result)]"
    using map_fst_enumerate [of 1 "result_sources result"]
    by (simp add: build_source_rows_def comp_def case_prod_unfold add.commute del: upt_Suc map_fst_enumerate)
  then show "sorted (map src_ordinal (build_source_rows m result))" by (simp del: upt_Suc)
  show "\<forall>s \<in> set (build_source_rows m result). src_message_id s = m"
    by (auto simp: build_source_rows_def)
qed

lemma sort_key_snoc_max:
  assumes "\<forall>y \<in> set (filter P xs). f y < f x" "P x"
  shows "sort_key f (filter P (xs @ [x])) = sort_key f (filter P xs) @ [x]"
proof -
  have "sort_key f (ys @ [x]) = sort_key f ys @ [x]" if "\<forall>y \<in> set ys. f y < f x" for ys
    using that
  proof (induction ys)
    case (Cons y ys)
    have "insort_key f y (zs @ [x]) = insort_key f y zs @ [x]" for zs
      using Cons.prems by (induction zs) auto
    then show ?case using Cons by simp
  qed simp
  then show ?thesis using assms by simp
qed

lemma complete_run_threads:
  assumes "db_ok db" "complete_run db i e result handoff m now = Inr (db', out)" "map_of (threads db) t = Some row"
  shows "\<exists>row'. map_of (threads db') t = Some row' \<and> thr_user_id row' = thr_user_id row"
proof -
  have finish: "threads db2 = threads db1" if "finish_run db1 lk status code x = Inr (db2, out')" for db1 db2 lk status code x out'
    using that by (auto simp: finish_run_def update_run_def put_runs_def map_sum_def split: if_splits sum.splits prod.splits)
  have accepted: "\<exists>u g. threads db' = change_row u g (threads db) \<and> (\<forall>q. thr_user_id (g q) = thr_user_id q)"
    if "(case put_messages db ms of Inl e \<Rightarrow> Inl e
         | Inr db1 \<Rightarrow> (case put_sources db1 (ss db1) of Inl e \<Rightarrow> Inl e
           | Inr db2 \<Rightarrow> (case finish_run db2 lk Completed None x of Inl e \<Rightarrow> Inl e
             | Inr (db3, out') \<Rightarrow> Inr (update_thread db3 u (\<lambda>q. q\<lparr>thr_updated_at := now',
                  thr_research_handoff := h q\<rparr>), out')))) = Inr (db', out)" for ms ss lk x u now' h
    using that by (auto simp: put_messages_def put_sources_def update_thread_def split: sum.splits if_splits prod.splits
        dest!: finish intro!: exI)
  have "threads db' = threads db \<or> (\<exists>u g. threads db' = change_row u g (threads db) \<and> (\<forall>q. thr_user_id (g q) = thr_user_id q))"
    using assms(2) accepted
    by (auto simp: complete_run_def unless_rejected_def Let_def map_sum_def split: option.splits sum.splits if_splits dest: finish)
  then show ?thesis using assms(3) by (auto simp: map_of_change_row)
qed

lemma new_message_sources:
  assumes "\<forall>s \<in> set old. src_message_id s \<noteq> m" "sources db = old @ build_source_rows m result" "m \<in> set assistants"
  shows "sources_by_message db assistants m = build_source_rows m result"
proof -
  let ?new = "build_source_rows m result"
  have "filter (\<lambda>s. src_message_id s = m) (filter (\<lambda>s. src_message_id s \<in> set assistants) (sources db)) = ?new"
    using assms built_rows(2) [of m result] by (auto simp: filter_empty_conv intro: filter_True)
  then have "sources_by_message db assistants m = sort_key src_message_id (sort_key src_ordinal ?new)"
    unfolding sources_by_message_def filter_sort by simp
  also have "sort_key src_ordinal ?new = ?new" using built_rows(1) by (rule sort_key_id_if_sorted)
  also have "sort_key src_message_id ?new = ?new"
    by (rule sort_key_id_if_sorted) (use built_rows(2) [of m result] in \<open>simp add: sorted_iff_nth_mono\<close>)
  finally show ?thesis .
qed

text \<open>
  C28. An answer that was saved within its window is what the client sees: the last message of the
  thread is the answer, with its missing aspects and with exactly its sources in their order.
\<close>

theorem saved_answer_is_shown:
  assumes "reach run_start run_step (db, ids)" "m \<notin> ids" "map_of (runs db) i = Some r"
    and "run_status r = Running" "run_attempt_epoch r = e" "run_answer_started_at r = Some a"
    and "now < a + answer_generation_recovery_window"
    and "complete_run db i e result handoff m now = Inr (db', out)"
    and "\<forall>s \<in> set (sources db'). \<forall>u. src_url s = Some u \<longrightarrow> web_url u = Some u"
    and "map_of (threads db) (run_thread_id r) = Some thread"
  shows "\<exists>d n. read_thread_detail_for_user web_url db' (run_thread_id r) (thr_user_id thread) = Inr (Some d)
    \<and> detail_messages d \<noteq> []
    \<and> last (detail_messages d) = View_assistant n (result_answer result) (map shown_source (result_sources result))
        (result_missing_aspects result)"
proof -
  have ok: "db_ok db" using reached_ok [OF assms(1)] .
  let ?t = "run_thread_id r"
  have step: "reach run_start run_step (db', ids \<union> {m})"
    using reach_step [OF assms(1) step_perform [of db i "CompleteRun e result handoff m" now db' out ids]] assms(2,8) by simp
  have ok': "db_ok db'" using reached_ok [OF step] .
  obtain lk where lk: "lock_run db i None now = Some lk" "lk_run lk = r"
    using assms(3,10) by (simp add: lock_run_def)
  let ?n = "next_message_seq db ?t"
  let ?row = "\<lparr>msg_thread_id = ?t, msg_seq = ?n, msg_role = Assistant_role,
      msg_content = result_answer result, msg_missing_aspects = result_missing_aspects result\<rparr>"
  have w: "messages db' = messages db @ [(m, ?row)]" "sources db' = sources db @ build_source_rows m result"
    using complete_run_writes(2,3) [OF ok lk(1) _ _ _ assms(7,8)] assms(4-6) lk(2) by simp_all
  obtain thread' where th: "map_of (threads db') ?t = Some thread'" "thr_user_id thread' = thr_user_id thread"
    using complete_run_threads [OF ok assms(8)] assms(10) by blast
  obtain vs where vs: "read_thread_detail_for_user web_url db' ?t (thr_user_id thread)
      = Inr (Some \<lparr>detail_thread_id = ?t, detail_title = thr_title thread', detail_messages = vs\<rparr>)"
    and shown: "list_all2 (\<lambda>x v. message_response web_url
        (runs_by_user_message db' ?t (map fst (filter (\<lambda>(m, row). msg_role row = User_role) (messages_of_thread db' ?t))))
        (sources_by_message db' (map fst (filter (\<lambda>(m, row). msg_role row = Assistant_role) (messages_of_thread db' ?t)))) x = Inr v)
      (messages_of_thread db' ?t) vs"
    using detail_built [OF step assms(9) th] by blast
  have last: "messages_of_thread db' ?t = messages_of_thread db ?t @ [(m, ?row)]"
    unfolding messages_of_thread_def w(1)
    by (rule sort_key_snoc_max) (use next_message_seq_fresh(1) [of _ _ db ?t] in \<open>auto\<close>)
  have old: "\<forall>s \<in> set (sources db). src_message_id s \<noteq> m"
  proof
    fix s assume "s \<in> set (sources db)"
    then have "src_message_id s \<in> fst ` set (messages db)"
      using db_okD(3) [OF ok] by (simp add: sources_constraints_def list_all_iff)
    moreover have "fst ` set (messages db) \<subseteq> ids" using reached_keys [OF assms(1)] by (simp add: keys_issued_def)
    ultimately show "src_message_id s \<noteq> m" using assms(2) by blast
  qed
  have "m \<in> set (map fst (filter (\<lambda>(m, row). msg_role row = Assistant_role) (messages_of_thread db' ?t)))"
    unfolding last by simp
  from new_message_sources [OF old w(2) this]
  have response_sources: "sources_by_message db' (map fst (filter (\<lambda>(m, row). msg_role row = Assistant_role)
        (messages_of_thread db' ?t))) m = build_source_rows m result" .
  have rows: "each (source_response web_url) (build_source_rows m result) = Inr (map shown_source (result_sources result))"
    by (rule each_sources) (use assms(9) w(2) in auto)
  have response: "message_response web_url runs_by (sources_by_message db' (map fst (filter (\<lambda>(m, row). msg_role row = Assistant_role)
        (messages_of_thread db' ?t)))) (m, ?row)
      = Inr (View_assistant ?n (result_answer result) (map shown_source (result_sources result)) (result_missing_aspects result))" for runs_by
    by (simp add: message_response_def response_sources rows)
  have "vs \<noteq> [] \<and> last vs = View_assistant ?n (result_answer result) (map shown_source (result_sources result)) (result_missing_aspects result)"
    using shown response unfolding last by (auto simp: list_all2_append1 list_all2_Cons1)
  then show ?thesis using vs by auto
qed

section \<open>Samples\<close>


lemma thread_detail_always_builds_witness:
  "\<exists>vs. read_thread_detail_for_user Some (sample_db sample_queued 1) 10 1
      = Inr (Some \<lparr>detail_thread_id = 10, detail_title = [97], detail_messages = vs\<rparr>)
    \<and> set (map view_seq vs) \<noteq> {}"
proof -
  let ?db = "sample_db sample_queued 1"
  have "map_of (messages ?db) 11 = Some \<lparr>msg_thread_id = 10, msg_seq = 1, msg_role = User_role, msg_content = [97],
      msg_missing_aspects = []\<rparr>" by (simp add: sample_db_def)
  then have "{msg_seq row | m row. map_of (messages ?db) m = Some row \<and> msg_thread_id row = 10} \<noteq> {}" by fastforce
  moreover have "map_of (threads ?db) 10 = Some \<lparr>thr_user_id = 1, thr_title = [97], thr_updated_at = 1000, thr_research_handoff = None\<rparr>"
    by (simp add: sample_db_def)
  ultimately show ?thesis
    using thread_detail_always_builds [OF sample_reached, of Some 10 "\<lparr>thr_user_id = 1, thr_title = [97], thr_updated_at = 1000,
      thr_research_handoff = None\<rparr>" 1] by auto
qed

lemma saved_answer_is_shown_witness:
  "\<exists>db' out d n. complete_run (sample_db sample_answering 1) 12 1
       \<lparr>result_status = Answered, result_answer = [104], result_sources = [], result_missing_aspects = [],
        result_plan_type = Direct_answer\<rparr> None 13 4000 = Inr (db', out)
     \<and> read_thread_detail_for_user Some db' 10 1 = Inr (Some d)
     \<and> last (detail_messages d) = View_assistant n [104] [] []"
proof -
  let ?r = "\<lparr>result_status = Answered, result_answer = [104], result_sources = [],
    result_missing_aspects = [], result_plan_type = Direct_answer\<rparr>"
  have "\<exists>x. perform (sample_db sample_answering 1) 12 (CompleteRun 1 ?r None 13) 4000 = Inr x"
    by (rule perform_total [OF reached_ok [OF sample_answering_reached]])
      (auto simp: persistable_def sample_db_def)
  then obtain db' out where run: "complete_run (sample_db sample_answering 1) 12 1 ?r None 13 4000 = Inr (db', out)" by auto
  have "\<exists>d n. read_thread_detail_for_user Some db' (run_thread_id sample_answering)
      (thr_user_id \<lparr>thr_user_id = 1, thr_title = [97], thr_updated_at = 1000, thr_research_handoff = None\<rparr>) = Inr (Some d)
    \<and> detail_messages d \<noteq> []
    \<and> last (detail_messages d) = View_assistant n (result_answer ?r) (map shown_source (result_sources ?r)) (result_missing_aspects ?r)"
    by (rule saved_answer_is_shown [OF sample_answering_reached _ _ _ _ _ _ run, where a = 3000])
      (simp_all add: sample_db_def sample_answering_def sample_running_def sample_queued_def
        answer_generation_recovery_window_def seconds_def)
  then obtain d n where "read_thread_detail_for_user Some db' 10 1 = Inr (Some d)"
    "last (detail_messages d) = View_assistant n [104] [] []"
    by (auto simp: sample_answering_def sample_running_def sample_queued_def)
  then show ?thesis using run by blast
qed

end
