(* ===== verification/RunWorker.thy ===== *)
theory RunWorker
  imports RunProperties LiveStream VisibleText
begin

text \<open>
  The world of a worker that executes an attempt: the run database that other transactions change
  between its own, the clock, the live stream of the run and the schedule of the deadline checks.
  A worker is a sequential program over this world whose exceptions are values. The database
  accesses of \<^verbatim>\<open>running/answer_generation.py\<close> and the probe of
  \<^verbatim>\<open>running/continuation.py\<close> are the first such programs.
\<close>

section \<open>Environment and state\<close>

text \<open>
  A transaction commits, fails without an effect, or commits although the worker sees an error
  (a lost connection). The transactions of a worker are counted; what the others did before
  the \<open>k\<close>-th one, its instant and the identifier of a message that it adds are parameters.
\<close>

datatype tx_fate = Tx_commits | Tx_fails | Tx_unknown

record run_env =
  env_others :: "nat \<Rightarrow> run_system \<Rightarrow> run_system"
  env_now :: "nat \<Rightarrow> time"
  env_fate :: "nat \<Rightarrow> tx_fate"
  env_message :: "nat \<Rightarrow> uuid"
  env_schedules :: bool

text \<open>
  Calls to the live stream; none of them raises in the worker, since every caller discards the
  failure of a publication. They come with the attempt whose publisher is called.
\<close>

datatype live_call = Live_begin | Live_publish stream_event | Live_delta delta_call

record exec =
  exec_system :: run_system
  exec_count :: nat
  exec_live :: "(int \<times> live_call) list"
  exec_checks :: "(uuid \<times> time) list"

text \<open>
  The exceptions of a worker: a failed database access, \<^verbatim>\<open>AnswerGenerationStopped\<close>,
  a classified failure of a phase (the runner wraps it in \<^verbatim>\<open>AnsweringRunError\<close>),
  \<^verbatim>\<open>EvidenceAnswerDraftInvalidError\<close> outside the answering phase, and any other.
\<close>

datatype exec_exc =
    Exec_database
  | Exec_stopped run_outcome
  | Exec_unavailable
  | Exec_draft_invalid
  | Exec_raised py_exc

type_synonym 'a run_io = "exec \<Rightarrow> (exec_exc + 'a) \<times> exec"

definition run_return :: "'a \<Rightarrow> 'a run_io" where
  "run_return a s = (Inr a, s)"

definition run_raise :: "exec_exc \<Rightarrow> 'a run_io" where
  "run_raise x s = (Inl x, s)"

definition run_bind :: "'a run_io \<Rightarrow> ('a \<Rightarrow> 'b run_io) \<Rightarrow> 'b run_io" where
  "run_bind m f s = (case m s of (Inl x, s') \<Rightarrow> (Inl x, s') | (Inr a, s') \<Rightarrow> f a s')"

definition run_catch :: "'a run_io \<Rightarrow> (exec_exc \<Rightarrow> 'a run_io) \<Rightarrow> 'a run_io" where
  "run_catch m h s = (case m s of (Inl x, s') \<Rightarrow> h x s' | (Inr a, s') \<Rightarrow> (Inr a, s'))"

definition run_value :: "py_exc + 'a \<Rightarrow> 'a run_io" where
  "run_value v = (case v of Inl x \<Rightarrow> run_raise (Exec_raised x) | Inr a \<Rightarrow> run_return a)"

definition live :: "int \<Rightarrow> live_call \<Rightarrow> unit run_io" where
  "live e c s = (Inr (), s\<lparr>exec_live := exec_live s @ [(e, c)]\<rparr>)"

fun live_deltas :: "int \<Rightarrow> delta_call list \<Rightarrow> unit run_io" where
  "live_deltas e [] = run_return ()"
| "live_deltas e (c # cs) = run_bind (live e (Live_delta c)) (\<lambda>_. live_deltas e cs)"

section \<open>Transactions\<close>

definition transact :: "run_env \<Rightarrow> uuid \<Rightarrow> run_operation \<Rightarrow> run_outcome run_io" where
  "transact env i op s =
     (let k = exec_count s; (db, ids) = env_others env k (exec_system s);
          s' = s\<lparr>exec_system := (db, ids), exec_count := k + 1\<rparr> in
      if env_fate env k = Tx_fails then (Inl Exec_database, s')
      else
        (case perform db i op (env_now env k) of
           Inl x \<Rightarrow> (Inl (Exec_raised x), s')
         | Inr (db', out) \<Rightarrow>
             (if env_fate env k = Tx_unknown then Inl Exec_database else Inr out,
              s'\<lparr>exec_system := (db', ids \<union> set (new_messages op))\<rparr>)))"

definition read_database :: "run_env \<Rightarrow> (run_db \<Rightarrow> 'a) \<Rightarrow> 'a run_io" where
  "read_database env f s =
     (let k = exec_count s; sys = env_others env k (exec_system s) in
      (if env_fate env k = Tx_commits then Inr (f (fst sys)) else Inl Exec_database,
       s\<lparr>exec_system := sys, exec_count := k + 1\<rparr>))"

text \<open>The repository that the answering phases share; the transaction is closed before it raises.\<close>

definition start_generation :: "run_env \<Rightarrow> uuid \<Rightarrow> int \<Rightarrow> (uuid \<times> time) run_io" where
  "start_generation env i e =
     run_bind (transact env i (StartAnswerGeneration e)) (\<lambda>out.
       case out of AnswerGenerationStarted r t \<Rightarrow> run_return (r, t) | _ \<Rightarrow> run_raise (Exec_stopped out))"

definition authorize_regeneration :: "run_env \<Rightarrow> uuid \<Rightarrow> int \<Rightarrow> unit run_io" where
  "authorize_regeneration env i e =
     run_bind (transact env i (AuthorizeAnswerRegeneration e)) (\<lambda>out.
       case out of Continues \<Rightarrow> run_return () | _ \<Rightarrow> run_raise (Exec_stopped out))"

section \<open>The continuation probe\<close>

definition AGENT_RUN_EXECUTION_PROBE_INTERVAL :: duration where
  "AGENT_RUN_EXECUTION_PROBE_INTERVAL = seconds 2"

record execution_probe =
  probe_stopped :: "run_outcome option"
  probe_last_check :: "time option"

definition new_probe :: execution_probe where
  "new_probe = \<lparr>probe_stopped = None, probe_last_check = None\<rparr>"

text \<open>
  \<^verbatim>\<open>ensure_can_continue\<close> under its lock: \<open>t\<close> is the clock for the interval and
  \<open>checked_at\<close> the clock before the check. A failed check lets the attempt go on.
\<close>

definition ensure_can_continue ::
    "run_env \<Rightarrow> time \<Rightarrow> time \<Rightarrow> uuid \<Rightarrow> int \<Rightarrow> execution_probe \<Rightarrow> exec
       \<Rightarrow> (exec_exc + unit) \<times> execution_probe \<times> exec" where
  "ensure_can_continue env t checked_at i e p s =
     (case probe_stopped p of
        Some out \<Rightarrow> (Inl (Exec_stopped out), p, s)
      | None \<Rightarrow>
          if (case probe_last_check p of
                None \<Rightarrow> False | Some t0 \<Rightarrow> t - t0 < AGENT_RUN_EXECUTION_PROBE_INTERVAL)
          then (Inr (), p, s)
          else
            (case transact env i (CheckContinuation e) s of
               (Inl _, s') \<Rightarrow> (Inr (), p\<lparr>probe_stopped := None, probe_last_check := Some checked_at\<rparr>, s')
             | (Inr out, s') \<Rightarrow>
                 if out = Continues
                 then (Inr (), p\<lparr>probe_stopped := None, probe_last_check := Some checked_at\<rparr>, s')
                 else (Inl (Exec_stopped out),
                       p\<lparr>probe_stopped := Some out, probe_last_check := Some checked_at\<rparr>, s')))"

section \<open>Rules\<close>

definition ensures ::
    "(exec \<Rightarrow> bool) \<Rightarrow> 'a run_io \<Rightarrow> ('a \<Rightarrow> exec \<Rightarrow> bool) \<Rightarrow> (exec_exc \<Rightarrow> exec \<Rightarrow> bool) \<Rightarrow> bool" where
  "ensures P m Q E \<longleftrightarrow> (\<forall>s. P s \<longrightarrow> (case m s of (Inr a, s') \<Rightarrow> Q a s' | (Inl x, s') \<Rightarrow> E x s'))"

lemma ensures_iff:
  "ensures P m Q E \<longleftrightarrow> (\<forall>s r s'. P s \<longrightarrow> m s = (r, s') \<longrightarrow> (case r of Inr a \<Rightarrow> Q a s' | Inl x \<Rightarrow> E x s'))"
  by (simp add: ensures_def split: prod.split) (metis (mono_tags, lifting) old.sum.exhaust sum.case)

lemma ensuresD:
  assumes "ensures P m Q E" "P s"
  shows "m s = (Inr a, s') \<Longrightarrow> Q a s'" and "m s = (Inl x, s') \<Longrightarrow> E x s'"
  using assms unfolding ensures_iff by (metis sum.case(2), metis sum.case(1))

lemma ensures_return: "(\<And>s. P s \<Longrightarrow> Q a s) \<Longrightarrow> ensures P (run_return a) Q E"
  by (simp add: ensures_def run_return_def)

lemma ensures_raise: "(\<And>s. P s \<Longrightarrow> E x s) \<Longrightarrow> ensures P (run_raise x) Q E"
  by (simp add: ensures_def run_raise_def)

lemma ensures_bind:
  assumes "ensures P m R E" "\<And>a. ensures (R a) (f a) Q E"
  shows "ensures P (run_bind m f) Q E"
  unfolding ensures_def
proof (intro allI impI)
  fix s assume "P s"
  obtain r t where t: "m s = (r, t)" by fastforce
  show "case run_bind m f s of (Inr a, s') \<Rightarrow> Q a s' | (Inl x, s') \<Rightarrow> E x s'"
  proof (cases r)
    case (Inl x)
    then show ?thesis using ensuresD(2) [OF assms(1) \<open>P s\<close>] t by (simp add: run_bind_def)
  next
    case (Inr a)
    then have "R a t" using ensuresD(1) [OF assms(1) \<open>P s\<close>] t by simp
    then show ?thesis using assms(2) [of a] t Inr by (simp add: run_bind_def ensures_def)
  qed
qed

lemma ensures_catch:
  assumes "ensures P m Q R" "\<And>x. ensures (R x) (h x) Q E"
  shows "ensures P (run_catch m h) Q E"
  unfolding ensures_def
proof (intro allI impI)
  fix s assume "P s"
  obtain r t where t: "m s = (r, t)" by fastforce
  show "case run_catch m h s of (Inr a, s') \<Rightarrow> Q a s' | (Inl x, s') \<Rightarrow> E x s'"
  proof (cases r)
    case (Inl x)
    then have "R x t" using ensuresD(2) [OF assms(1) \<open>P s\<close>] t by simp
    then show ?thesis using assms(2) [of x] t Inl by (simp add: run_catch_def ensures_def)
  next
    case (Inr a)
    then show ?thesis using ensuresD(1) [OF assms(1) \<open>P s\<close>] t by (simp add: run_catch_def)
  qed
qed

lemma ensures_conseq:
  assumes "ensures P m Q E" "\<And>s. P' s \<Longrightarrow> P s" "\<And>a s. Q a s \<Longrightarrow> Q' a s" "\<And>x s. E x s \<Longrightarrow> E' x s"
  shows "ensures P' m Q' E'"
  unfolding ensures_iff
proof (intro allI impI)
  fix s r s' assume run: "P' s" "m s = (r, s')"
  show "case r of Inr a \<Rightarrow> Q' a s' | Inl x \<Rightarrow> E' x s'"
    using ensuresD [OF assms(1) assms(2) [OF run(1)], of _ s'] run(2) assms(3,4) by (cases r) auto
qed

lemma ensures_live: "(\<And>s. P s \<Longrightarrow> Q () (s\<lparr>exec_live := exec_live s @ [(e, c)]\<rparr>)) \<Longrightarrow> ensures P (live e c) Q E"
  by (simp add: ensures_def live_def)

end
