(* ===== verification/AnsweringRunner.thy ===== *)
theory AnsweringRunner
  imports RunWorker RunGuarantees AnswerAssembly ResearchHandoff ThreadReads
begin

text \<open>
  One answering run (\<^verbatim>\<open>agent/answering_runner.py\<close>): planning, then the direct
  answer, or collection, review and the evidence answer, composed of the modelled services. The
  models and the providers are functions of the inputs they get, and of the attempt number.
\<close>

section \<open>Inputs and phases\<close>

record run_input =
  ri_question :: pystr
  ri_history :: "message_snapshot list"
  ri_handoff :: "handoff option"
  ri_as_of :: time

datatype scope = Planning_scope | Review_scope | Answer_scope

text \<open>
  The field \<open>ph_closed\<close> tells which runtime scopes fail to open (an AI provider error outside the
  services), and \<open>ph_order\<close> in which order the activity events of the concurrent searches of the
  tasks arrive.
\<close>

record 'c phases =
  ph_casefold :: "pystr \<Rightarrow> pystr"
  ph_mismatch :: 'c
  ph_timeout :: 'c
  ph_plan :: "run_input \<Rightarrow> nat \<Rightarrow> (question_plan_draft, 'c) call_outcome"
  ph_internal :: "int \<Rightarrow> pystr list \<Rightarrow> internal_failure + internal_hit list"
  ph_generate :: "int \<Rightarrow> pystr \<Rightarrow> pystr list option"
  ph_gateway :: "int \<Rightarrow> pystr \<Rightarrow> external_hit list option"
  ph_order :: "collection_event list list \<Rightarrow> collection_event list"
  ph_review :: "collected_task list \<Rightarrow> time \<Rightarrow> nat \<Rightarrow> (reviewer_selection list \<times> pystr list, 'c) call_outcome"
  ph_direct :: "run_input \<Rightarrow> pystr \<Rightarrow> nat \<Rightarrow> pystr list \<times> stream_end"
  ph_evidence :: "run_input \<Rightarrow> answer_input_evidence list \<Rightarrow> target_time_window option \<Rightarrow> pystr list
    \<Rightarrow> nat \<Rightarrow> pystr list \<times> stream_end"
  ph_organize :: "handoff_input \<Rightarrow> organize_call"
  ph_closed :: "scope \<Rightarrow> bool"

record run_result =
  final_output :: question_result
  result_handoff :: "handoff option"

fun latest_assistant_answer :: "message_snapshot list \<Rightarrow> pystr" where
  "latest_assistant_answer [] = []"
| "latest_assistant_answer (m # ms) =
     (if list_ex (\<lambda>x. snapshot_role x = Assistant_role) ms then latest_assistant_answer ms
      else if snapshot_role m = Assistant_role then snapshot_content m else [])"

section \<open>Progress\<close>

definition report_stage :: "int \<Rightarrow> progress_stage \<Rightarrow> unit run_io" where
  "report_stage e stage = live e (Live_publish (Stage_event stage))"

definition report_event :: "int \<Rightarrow> progress_event \<Rightarrow> unit run_io" where
  "report_event e a = live e (Live_publish (Activity_event a))"

fun report_events :: "int \<Rightarrow> progress_event list \<Rightarrow> unit run_io" where
  "report_events e [] = run_return ()"
| "report_events e (a # as) = run_bind (report_event e a) (\<lambda>_. report_events e as)"

fun progress_of :: "collection_event \<Rightarrow> progress_event" where
  "progress_of (InternalSearchStarted t n) = Internal_search_started t n"
| "progress_of (InternalSearchCompleted t n) = Internal_search_completed t n"
| "progress_of (ExternalSearchQueriesGenerated t qs) = External_queries_generated t qs"
| "progress_of (ExternalSearchHitsFetched t n) = External_hits_fetched t n"

section \<open>Answer generation\<close>

definition schedule_check :: "run_env \<Rightarrow> uuid \<Rightarrow> time \<Rightarrow> unit run_io" where
  "schedule_check env r t s =
     (if env_schedules env then (Inr (), s\<lparr>exec_checks := exec_checks s @ [(r, t)]\<rparr>)
      else (Inl (Exec_raised RuntimeError), s))"

text \<open>The attempts with the authorization as a transaction; the loops always end before the last clause.\<close>

fun attempt_answers ::
    "run_env \<Rightarrow> uuid \<Rightarrow> int \<Rightarrow> (pystr \<Rightarrow> answer_exc + 'd) \<Rightarrow> bool \<Rightarrow> (nat \<Rightarrow> pystr list \<times> stream_end)
       \<Rightarrow> nat list \<Rightarrow> 'd run_io" where
  "attempt_answers env i e finalize announce stream [] = run_raise (Exec_raised RuntimeError)"
| "attempt_answers env i e finalize announce stream (n # ns) =
     (case stream n of (fragments, outcome) \<Rightarrow>
      case generate_draft finalize (int n) fragments outcome of (result, calls) \<Rightarrow>
        run_bind (live_deltas e calls) (\<lambda>_.
          case result of
            Inr draft \<Rightarrow> run_return draft
          | Inl f \<Rightarrow>
              if retriable_failure f \<and> n < ANSWER_MAX_ATTEMPTS then
                run_bind (authorize_regeneration env i e) (\<lambda>_.
                run_bind (live_deltas e (if announce then [DeltaReset (int n + 1)] else [])) (\<lambda>_.
                attempt_answers env i e finalize announce stream ns))
              else run_raise (case f of FailedRaised x \<Rightarrow> Exec_raised x | _ \<Rightarrow> Exec_unavailable)))"

definition generate_answer ::
    "run_env \<Rightarrow> 'c phases \<Rightarrow> uuid \<Rightarrow> int \<Rightarrow> (pystr \<Rightarrow> answer_exc + 'd) \<Rightarrow> bool
       \<Rightarrow> (nat \<Rightarrow> pystr list \<times> stream_end) \<Rightarrow> 'd run_io" where
  "generate_answer env ph i e finalize announce stream =
     run_bind (start_generation env i e) (\<lambda>(r, started).
     run_bind (schedule_check env r (started + answer_generation_recovery_window)) (\<lambda>_.
     run_bind (report_stage e Stage_answering) (\<lambda>_.
       if ph_closed ph Answer_scope then run_raise Exec_unavailable
       else attempt_answers env i e finalize announce stream [1..<ANSWER_MAX_ATTEMPTS + 1])))"

definition answer_directly_phase ::
    "run_env \<Rightarrow> 'c phases \<Rightarrow> uuid \<Rightarrow> int \<Rightarrow> run_input \<Rightarrow> question_result run_io" where
  "answer_directly_phase env ph i e input =
     run_bind (generate_answer env ph i e finalize_direct_answer False
       (ph_direct ph input (latest_assistant_answer (ri_history input)))) (\<lambda>answer.
     run_value (make_question_result Answered answer [] [] Direct_answer))"

section \<open>Evidence\<close>

definition external_of_phases :: "'c phases \<Rightarrow> int \<Rightarrow> pystr \<Rightarrow> external_execution" where
  "external_of_phases ph = (\<lambda>i. external_search (ph_generate ph i) (ph_gateway ph i))"

text \<open>The events of the two searches of a task, as far as the task gets.\<close>

definition task_events :: "'c phases \<Rightarrow> int \<Rightarrow> research_task \<Rightarrow> collection_event list list" where
  "task_events ph i task =
     [case collect_internal (ph_internal ph i) i task of Inr (_, _, evs) \<Rightarrow> evs | Inl _ \<Rightarrow> [],
      case collect_external (external_of_phases ph i) i task of
        Inr (_, _, _, _, _, evs) \<Rightarrow> evs | Inl _ \<Rightarrow> []]"

definition collection_events :: "'c phases \<Rightarrow> search_plan \<Rightarrow> collection_event list list" where
  "collection_events ph plan =
     concat (map (\<lambda>(k, t). task_events ph (int k) t) (enumerate 0 (research_tasks plan)))"

definition collect_phase :: "'c phases \<Rightarrow> int \<Rightarrow> search_plan \<Rightarrow> collected_task list run_io" where
  "collect_phase ph e plan =
     run_bind (report_events e (map progress_of (ph_order ph (collection_events ph plan)))) (\<lambda>_.
     run_value (collect (ph_internal ph) (external_of_phases ph) plan))"

definition NO_EVIDENCE :: answer_evidence where
  "NO_EVIDENCE = \<lparr>internal_evidence = [], external_evidence = []\<rparr>"

definition review_phase ::
    "'c phases \<Rightarrow> int \<Rightarrow> collected_task list \<Rightarrow> time \<Rightarrow> 'c evidence_run run_io" where
  "review_phase ph e tasks as_of =
     (if \<not> has_hits tasks then run_return (EvidenceRunCompleted NO_EVIDENCE [])
      else
        run_bind (report_stage e Stage_evidence_review) (\<lambda>_.
          if ph_closed ph Review_scope then run_raise Exec_unavailable
          else
            run_bind (run_value (review_evidence (ph_mismatch ph) (ph_timeout ph) (ph_review ph tasks as_of) tasks))
              (\<lambda>run. case run of
                 EvidenceRunFailed _ \<Rightarrow> run_return run
               | EvidenceRunCompleted evidence _ \<Rightarrow>
                   run_bind (report_event e (Evidence_selected (int (evidence_count evidence))))
                     (\<lambda>_. run_return run))))"

definition answer_from_evidence ::
    "run_env \<Rightarrow> 'c phases \<Rightarrow> uuid \<Rightarrow> int \<Rightarrow> run_input \<Rightarrow> search_plan \<Rightarrow> collected_task list \<Rightarrow> 'c evidence_run
       \<Rightarrow> question_result run_io" where
  "answer_from_evidence env ph i e input plan tasks run =
     run_bind (run_value (run_input_evidence run)) (\<lambda>evidence.
     run_bind (generate_answer env ph i e (\<lambda>a. finalize_evidence_answer_draft a evidence) True
       (ph_evidence ph input evidence (plan_time_window plan) (run_review_missing run))) (\<lambda>draft.
     case assemble_evidence_result tasks run evidence draft of
       Inl DraftInvalid \<Rightarrow> run_raise Exec_draft_invalid
     | Inl (AnswerRaised x) \<Rightarrow> run_raise (Exec_raised x)
     | Inr result \<Rightarrow> run_return result))"

text \<open>The organizing runs beside the answer and changes no state of the worker; a failed answer cancels it.\<close>

definition answer_while_organizing ::
    "run_env \<Rightarrow> 'c phases \<Rightarrow> uuid \<Rightarrow> int \<Rightarrow> run_input \<Rightarrow> search_plan \<Rightarrow> collected_task list \<Rightarrow> 'c evidence_run
       \<Rightarrow> handoff_input option \<Rightarrow> (question_result \<times> handoff option) run_io" where
  "answer_while_organizing env ph i e input plan tasks run organizing =
     run_bind (answer_from_evidence env ph i e input plan tasks run) (\<lambda>answer.
       run_return (answer, map_option (\<lambda>x. organized_or_records x (ph_organize ph x)) organizing))"

section \<open>The run\<close>

definition search_and_answer ::
    "run_env \<Rightarrow> 'c phases \<Rightarrow> uuid \<Rightarrow> int \<Rightarrow> run_input \<Rightarrow> search_plan \<Rightarrow> (question_result \<times> handoff option) run_io" where
  "search_and_answer env ph i e input plan =
     run_bind (report_stage e Stage_evidence_collection) (\<lambda>_.
     run_bind (collect_phase ph e plan) (\<lambda>tasks.
     run_bind (review_phase ph e tasks (ri_as_of input)) (\<lambda>run.
     run_bind (run_value (handoff_input_from_run (ri_handoff input) (ri_question input) tasks run (ri_as_of input)))
       (\<lambda>organizing. answer_while_organizing env ph i e input plan tasks run organizing))))"

definition run_answering ::
    "run_env \<Rightarrow> 'c phases \<Rightarrow> uuid \<Rightarrow> int \<Rightarrow> run_input \<Rightarrow> run_result run_io" where
  "run_answering env ph i e input =
     run_bind (report_stage e Stage_planning) (\<lambda>_.
       if ph_closed ph Planning_scope then run_raise Exec_unavailable
       else
         case fst (plan_question (ph_casefold ph) (ph_mismatch ph) (ph_plan ph input)) of
           PlanningError _ \<Rightarrow> run_raise Exec_unavailable
         | PlanRaised x \<Rightarrow> run_raise (Exec_raised x)
         | PlanReady DirectAnswerPlan \<Rightarrow>
             run_bind (answer_directly_phase env ph i e input) (\<lambda>answer.
               run_return \<lparr>final_output = answer, result_handoff = None\<rparr>)
         | PlanReady (SearchPlan plan) \<Rightarrow>
             run_bind (search_and_answer env ph i e input plan) (\<lambda>(answer, h).
               run_return \<lparr>final_output = answer, result_handoff = h\<rparr>))"

end
