(* ===== verification/RunExecution.thy ===== *)
theory RunExecution
  imports AnsweringRunner
begin

text \<open>
  One attempt of a run in a worker (\<^verbatim>\<open>agent/run_execution.py\<close>,
  \<^verbatim>\<open>running/finish_notice.py\<close>): start, question, stream, history, probe, answering run,
  completion, and the failure paths of each. Logging has no effect and is left out.
\<close>

section \<open>The notice of a finished run\<close>

fun terminal_status_of :: "run_status \<Rightarrow> terminal_status option" where
  "terminal_status_of Completed = Some Terminal_completed"
| "terminal_status_of Policy_blocked = Some Terminal_policy_blocked"
| "terminal_status_of Deadline_exceeded = Some Terminal_deadline_exceeded"
| "terminal_status_of Failed = Some Terminal_failed"
| "terminal_status_of _ = None"

definition make_terminal :: "run_status \<Rightarrow> run_error_code option \<Rightarrow> py_exc + stream_event" where
  "make_terminal status code =
     (case terminal_status_of status of
        None \<Rightarrow> Inl ValidationError
      | Some st \<Rightarrow> if valid_event (Terminal_event st code) then Inr (Terminal_event st code)
                   else Inl ValidationError)"

text \<open>A run finished from the queue has no attempt to notify; its released quota is only observed.\<close>

definition notify_run_finished :: "(int \<Rightarrow> int) \<Rightarrow> run_finished \<Rightarrow> unit run_io" where
  "notify_run_finished publisher_for f =
     (case fin_running_attempt_epoch f of
        None \<Rightarrow> run_return ()
      | Some e \<Rightarrow>
          run_bind (run_value (make_terminal (fin_status f) (fin_error_code f))) (\<lambda>ev.
            live (publisher_for e) (Live_publish ev)))"

section \<open>Failure of the attempt\<close>

definition mark_failed :: "run_env \<Rightarrow> uuid \<Rightarrow> int \<Rightarrow> run_error_code \<Rightarrow> unit run_io" where
  "mark_failed env i e code =
     run_bind (transact env i (RecordFailure e code)) (\<lambda>out.
       case out of RunFinished f \<Rightarrow> notify_run_finished (\<lambda>_. e) f | _ \<Rightarrow> run_return ())"

section \<open>The attempt\<close>

text \<open>
  What the worker gets from outside the database: pydantic's conversion of instants to and from
  JSON, whether the dump of the handoff succeeds, and its own clock.
\<close>

record worker =
  wk_iso_time :: "time \<Rightarrow> pystr"
  wk_parse_time :: "json \<Rightarrow> time option"
  wk_dumps :: bool
  wk_now :: time

definition read_handoff :: "run_env \<Rightarrow> worker \<Rightarrow> uuid \<Rightarrow> uuid \<Rightarrow> handoff option run_io" where
  "read_handoff env w thread user =
     run_catch
       (run_bind (read_database env (\<lambda>db. read_research_handoff_for_user db thread user)) (\<lambda>raw.
         run_return (recall_research_handoff (wk_parse_time w) raw)))
       (\<lambda>_. run_return None)"

text \<open>The column holds JSON; its text stands for the dumped value.\<close>

definition serialize_handoff :: "worker \<Rightarrow> handoff option \<Rightarrow> pystr option" where
  "serialize_handoff w h =
     (case h of None \<Rightarrow> None
      | Some x \<Rightarrow> if wk_dumps w then Some (json_dumps (handoff_json (wk_iso_time w) x)) else None)"

definition probe_once :: "run_env \<Rightarrow> worker \<Rightarrow> uuid \<Rightarrow> int \<Rightarrow> unit run_io" where
  "probe_once env w i e s =
     (case ensure_can_continue env (wk_now w) (wk_now w) i e new_probe s of (r, _, s') \<Rightarrow> (r, s'))"

definition attempt_body ::
    "run_env \<Rightarrow> 'c phases \<Rightarrow> worker \<Rightarrow> uuid \<Rightarrow> int \<Rightarrow> uuid \<Rightarrow> uuid \<Rightarrow> user_question \<Rightarrow> run_result run_io" where
  "attempt_body env ph w i e user thread q =
     run_bind (read_database env (\<lambda>db. read_history db thread (question_seq q))) (\<lambda>history.
     run_bind (read_handoff env w thread user) (\<lambda>h.
     run_bind (probe_once env w i e) (\<lambda>_.
     run_answering env ph i e
       \<lparr>ri_question = question_content q, ri_history = history, ri_handoff = h, ri_as_of = wk_now w\<rparr>)))"

definition complete_attempt :: "run_env \<Rightarrow> worker \<Rightarrow> uuid \<Rightarrow> int \<Rightarrow> run_result \<Rightarrow> unit run_io" where
  "complete_attempt env w i e r =
     run_catch
       (\<lambda>s. run_bind (transact env i
           (CompleteRun e (final_output r) (serialize_handoff w (result_handoff r)) (env_message env (exec_count s))))
         (\<lambda>out. case out of RunFinished f \<Rightarrow> notify_run_finished (\<lambda>_. e) f | _ \<Rightarrow> run_return ()) s)
       (\<lambda>_. mark_failed env i e Internal_error)"

text \<open>The handlers around the body: \<^verbatim>\<open>AnswerGenerationStopped\<close> carries the outcome that stopped it.\<close>

definition attempt_failed :: "run_env \<Rightarrow> uuid \<Rightarrow> int \<Rightarrow> exec_exc \<Rightarrow> unit run_io" where
  "attempt_failed env i e x =
     (case x of
        Exec_stopped out \<Rightarrow>
          (case out of RunFinished f \<Rightarrow> notify_run_finished (\<lambda>_. e) f | _ \<Rightarrow> run_return ())
      | Exec_unavailable \<Rightarrow> mark_failed env i e Generation_unavailable
      | _ \<Rightarrow> mark_failed env i e Internal_error)"

definition run_attempt :: "run_env \<Rightarrow> 'c phases \<Rightarrow> worker \<Rightarrow> uuid \<Rightarrow> int \<Rightarrow> unit run_io" where
  "run_attempt env ph w i e =
     run_bind (run_catch (read_database env (\<lambda>db. read_user_question_for_run db i)) (\<lambda>_. run_return None)) (\<lambda>row.
       case row of
         None \<Rightarrow> mark_failed env i e Internal_error
       | Some (user, thread, q) \<Rightarrow>
           run_bind (live e Live_begin) (\<lambda>_.
           run_bind
             (run_catch (run_bind (attempt_body env ph w i e user thread q) (\<lambda>r. run_return (Some r)))
               (\<lambda>x. run_bind (attempt_failed env i e x) (\<lambda>_. run_return None)))
             (\<lambda>r. case r of None \<Rightarrow> run_return () | Some result \<Rightarrow> complete_attempt env w i e result)))"

definition execute_run_attempt :: "run_env \<Rightarrow> 'c phases \<Rightarrow> worker \<Rightarrow> uuid \<Rightarrow> unit run_io" where
  "execute_run_attempt env ph w i =
     run_bind (transact env i StartAttempt) (\<lambda>out.
       case out of
         AttemptStarted e \<Rightarrow> run_attempt env ph w i e
       | RunFinished f \<Rightarrow> notify_run_finished id f
       | _ \<Rightarrow> run_return ())"

end
