(* ===== verification/AttemptSteps.thy ===== *)
theory AttemptSteps
  imports RunWorker RunGuarantees
begin

text \<open>
  What the operations on a run do to its row, seen from an attempt: the cases of every operation,
  the steps of the other transactions, and the assertion about the attempt that both respect.
\<close>

section \<open>The cases of an operation\<close>

text \<open>A finished run is recorded with the status and the error code of the outcome.\<close>

definition recorded :: "run_db \<Rightarrow> uuid \<Rightarrow> run_finished \<Rightarrow> bool" where
  "recorded db i f \<longleftrightarrow> (\<exists>r. map_of (runs db) i = Some r \<and> is_finished (run_status r)
     \<and> run_status r = fin_status f \<and> run_error_code r = fin_error_code f)"

datatype op_case = Op_rejected | Op_finished run_finished | Op_started int | Op_continues | Op_answering

fun op_effect :: "run_db \<Rightarrow> uuid \<Rightarrow> run_operation \<Rightarrow> time \<Rightarrow> run_db \<Rightarrow> run_outcome \<Rightarrow> op_case \<Rightarrow> bool" where
  "op_effect db i op now db' out Op_rejected = ((\<exists>rej. out = RunRejected rej) \<and> db' = db)"
| "op_effect db i op now db' out (Op_finished f) = (out = RunFinished f \<and> recorded db' i f
     \<and> (\<exists>r. map_of (runs db) i = Some r \<and> \<not> is_finished (run_status r)
          \<and> fin_running_attempt_epoch f = (if run_status r = Queued then None else Some (run_attempt_epoch r))))"
| "op_effect db i op now db' out (Op_started e) = (op = StartAttempt \<and> out = AttemptStarted e
     \<and> (\<exists>r. map_of (runs db) i = Some r \<and> e = run_attempt_epoch r + 1 \<and> run_answer_started_at r = None
          \<and> map_of (runs db') i = Some (r\<lparr>run_status := Running, run_attempt_epoch := e\<rparr>)))"
| "op_effect db i op now db' out Op_continues = (out = Continues \<and> db' = db
     \<and> (\<exists>e. op = CheckContinuation e \<or> op = AuthorizeAnswerRegeneration e))"
| "op_effect db i op now db' out Op_answering = (out = AnswerGenerationStarted i now
     \<and> (\<exists>r. op = StartAnswerGeneration (run_attempt_epoch r) \<and> map_of (runs db) i = Some r
          \<and> run_status r = Running \<and> map_of (runs db') i = Some (r\<lparr>run_answer_started_at := Some now\<rparr>)))"

lemma active_no_error:
  assumes "db_ok db" "map_of (runs db) i = Some r" "\<not> is_finished (run_status r)"
  shows "run_error_code r = None"
  using db_okD(9) [OF assms(1,2)] assms(3) by (auto simp: run_constraint_def is_finished_iff)

lemma finish_case:
  assumes "db_ok db" "locked db lk" "lk_id lk = i" "\<not> is_finished (run_status (lk_run lk))"
    and "is_finished status" "status = Completed \<Longrightarrow> run_answer_started_at (lk_run lk) \<noteq> None"
    and "finish_run db lk status code m = Inr (db', out)"
  shows "op_effect db i op n db' out (Op_finished (finish_summary lk status code))"
proof -
  have row: "map_of (runs db) i = Some (lk_run lk)" using assms(2,3) by (simp add: locked_def)
  note res = finish_run_result [OF assms(1,2,4-7)]
  have "run_error_code (lk_run lk) = None" using active_no_error [OF assms(1) row assms(4)] .
  then show ?thesis
    using res(2,6) row assms(3,4,5)
    by (cases code) (auto simp: recorded_def map_of_change_row finish_summary_def)
qed

lemma guarded_case:
  assumes "db_ok db" "lock_run db i owner now = Some lk"
    and "unless_rejected db lk (check (lk_state lk) phases deadline epoch n) acc = Inr (db', out)"
    and "\<lbrakk>acc = Inr (db', out); \<not> is_finished (run_status (lk_run lk)); phase (lk_state lk) \<in> set phases;
          \<And>e. epoch = Some e \<Longrightarrow> run_status (lk_run lk) = Running \<and> run_attempt_epoch (lk_run lk) = e\<rbrakk>
          \<Longrightarrow> \<exists>c. op_effect db i op now db' out c"
  shows "\<exists>c. op_effect db i op now db' out c"
  using assms(3)
proof (cases rule: unless_rejected_cases)
  case accepted
  note v = check_None [OF accepted(1)]
  show ?thesis
    using assms(4) [OF accepted(2)] v lock_runD(3) [OF assms(2)] by (simp add: phase_finished_iff)
next
  case deadline
  have open_run: "\<not> is_finished (run_status (lk_run lk))"
    using check_deadline [OF deadline(1)] lock_runD(3) [OF assms(2)] by (simp add: phase_finished_iff)
  show ?thesis
    by (rule exI, rule finish_case [OF assms(1) lock_run_locked [OF assms(2)] lock_runD(1) [OF assms(2)] open_run _ _ deadline(2)]) (simp_all add: is_finished_iff)
next
  case (rejected reason)
  then show ?thesis by (intro exI [of _ Op_rejected]) simp
qed

lemma not_found_case: "(db, NOT_FOUND) = (db', out) \<Longrightarrow> \<exists>c. op_effect db i op now db' out c"
  by (intro exI [of _ Op_rejected]) (auto simp: NOT_FOUND_def)

lemma finishing_op_case:
  assumes "db_ok db" "is_finished status" "status \<noteq> Completed"
    and "(case lock_run db i owner now of None \<Rightarrow> Inr (db, NOT_FOUND)
      | Some lk \<Rightarrow> unless_rejected db lk
          (check (lk_state lk) phases (recovery_deadline (lk_state lk)) epoch (lk_now lk))
          (finish_run db lk status code None)) = Inr (db', out)"
  shows "\<exists>c. op_effect db i op now db' out c"
proof (cases "lock_run db i owner now")
  case None
  then show ?thesis using assms(4) by (intro exI [of _ Op_rejected]) (auto simp: NOT_FOUND_def)
next
  case (Some lk)
  have "unless_rejected db lk (check (lk_state lk) phases (recovery_deadline (lk_state lk)) epoch (lk_now lk))
      (finish_run db lk status code None) = Inr (db', out)" using assms(4) Some by simp
  then show ?thesis
    by (rule guarded_case [OF assms(1) Some]) (use finish_case [OF assms(1) lock_run_locked [OF Some] lock_runD(1) [OF Some] _ assms(2)] assms(3) in blast)
qed

lemma start_attempt_case:
  assumes "db_ok db" "start_attempt db i now = Inr (db', out)"
  shows "\<exists>c. op_effect db i StartAttempt now db' out c"
proof (cases "lock_run db i None now")
  case None
  then show ?thesis using assms(2) not_found_case by (simp add: start_attempt_def)
next
  case (Some lk)
  note lock = lock_runD [OF Some]
  let ?f = "\<lambda>r. r\<lparr>run_status := Running, run_attempt_epoch := run_attempt_epoch (lk_run lk) + 1\<rparr>"
  let ?acc = "(let epoch = run_attempt_epoch (lk_run lk) + 1 in
             case update_run db i (\<lambda>r. r\<lparr>run_status := Running, run_attempt_epoch := epoch\<rparr>) of
               Inl e \<Rightarrow> Inl e
             | Inr db' \<Rightarrow> map_sum id (\<lambda>o'. (db', o')) (make_attempt_started epoch))"
  have "unless_rejected db lk (check (lk_state lk) STARTABLE_PHASES (state_deadline_at (lk_state lk)) None (lk_now lk)) ?acc
      = Inr (db', out)" using assms(2) Some by (simp add: start_attempt_def check_start_def)
  then show ?thesis
  proof (rule guarded_case [OF assms(1) Some])
    assume acc: "?acc = Inr (db', out)" and p: "phase (lk_state lk) \<in> set STARTABLE_PHASES"
      and open_run: "\<not> is_finished (run_status (lk_run lk))"
    have up: "update_run db i ?f = Inr db'" and out: "out = AttemptStarted (run_attempt_epoch (lk_run lk) + 1)"
      using acc by (cases "update_run db i ?f"; auto simp: Let_def make_attempt_started_def split: if_splits)+
    have "run_answer_started_at (lk_run lk) = None"
      using p db_okD(8) [OF assms(1) lock(2)] open_run
      by (auto simp: STARTABLE_PHASES_def lock(3) phase_preparing_iff queued_phase row_ok_def)
    moreover have "map_of (runs db') i = Some (?f (lk_run lk))"
      using up lock(2) put_runsD [of db "change_row i ?f (runs db)" db']
      by (auto simp: update_run_def map_of_change_row)
    ultimately show "\<exists>c. op_effect db i StartAttempt now db' out c"
      using out lock(2) by (intro exI [of _ "Op_started (run_attempt_epoch (lk_run lk) + 1)"]) simp
  qed
qed

lemma start_answer_case:
  assumes "db_ok db" "start_answer_generation db i e now = Inr (db', out)"
  shows "\<exists>c. op_effect db i (StartAnswerGeneration e) now db' out c"
proof (cases "lock_run db i None now")
  case None
  then show ?thesis using assms(2) not_found_case by (simp add: start_answer_generation_def)
next
  case (Some lk)
  note lock = lock_runD [OF Some]
  let ?f = "\<lambda>r. r\<lparr>run_answer_started_at := Some (lk_now lk)\<rparr>"
  let ?acc = "case update_run db i ?f of Inl e \<Rightarrow> Inl e | Inr db' \<Rightarrow> Inr (db', AnswerGenerationStarted i (lk_now lk))"
  have "unless_rejected db lk (check (lk_state lk) [Preparing] (state_deadline_at (lk_state lk)) (Some e) (lk_now lk)) ?acc
      = Inr (db', out)" using assms(2) Some by (simp add: start_answer_generation_def check_progress_def)
  then show ?thesis
  proof (rule guarded_case [OF assms(1) Some])
    assume acc: "?acc = Inr (db', out)"
      and mine: "\<And>x. Some e = Some x \<Longrightarrow> run_status (lk_run lk) = Running \<and> run_attempt_epoch (lk_run lk) = x"
    have up: "update_run db i ?f = Inr db'" and out: "out = AnswerGenerationStarted i now"
      using acc lock(4) by (cases "update_run db i ?f"; simp)+
    have "map_of (runs db') i = Some (?f (lk_run lk))"
      using up lock(2) put_runsD [of db "change_row i ?f (runs db)" db']
      by (auto simp: update_run_def map_of_change_row)
    then show "\<exists>c. op_effect db i (StartAnswerGeneration e) now db' out c"
      using out lock(2,4) mine by (intro exI [of _ Op_answering]) auto
  qed
qed

lemma checking_case:
  assumes "db_ok db"
  shows "check_continuation db i e now = Inr (db', out) \<Longrightarrow> \<exists>c. op_effect db i (CheckContinuation e) now db' out c"
    and "authorize_answer_regeneration db i e now = Inr (db', out) \<Longrightarrow>
      \<exists>c. op_effect db i (AuthorizeAnswerRegeneration e) now db' out c"
proof -
  have continues: "\<exists>c. op_effect db i op now db' out c"
    if "(case lock_run db i None now of None \<Rightarrow> Inr (db, NOT_FOUND)
      | Some lk \<Rightarrow> unless_rejected db lk
          (check (lk_state lk) phases (state_deadline_at (lk_state lk)) (Some e) (lk_now lk)) (Inr (db, Continues)))
        = Inr (db', out)"
      "op = CheckContinuation e \<or> op = AuthorizeAnswerRegeneration e" for op phases
  proof (cases "lock_run db i None now")
    case None
    then show ?thesis using that(1) not_found_case by simp
  next
    case (Some lk)
    have "unless_rejected db lk (check (lk_state lk) phases (state_deadline_at (lk_state lk)) (Some e) (lk_now lk))
        (Inr (db, Continues)) = Inr (db', out)" using that(1) Some by simp
    then show ?thesis
      by (rule guarded_case [OF assms Some]) (use that(2) in \<open>auto intro!: exI [of _ Op_continues]\<close>)
  qed
  show "check_continuation db i e now = Inr (db', out) \<Longrightarrow> \<exists>c. op_effect db i (CheckContinuation e) now db' out c"
    unfolding check_continuation_def check_progress_def by (rule continues) auto
  show "authorize_answer_regeneration db i e now = Inr (db', out) \<Longrightarrow>
      \<exists>c. op_effect db i (AuthorizeAnswerRegeneration e) now db' out c"
    unfolding authorize_answer_regeneration_def check_progress_def by (rule continues) auto
qed

lemma complete_accepted_case:
  assumes "db_ok db" "lock_run db i None now = Some lk" "\<not> is_finished (run_status (lk_run lk))"
    and "phase (lk_state lk) \<in> set [Answering]"
    and "(let t = run_thread_id (lk_run lk) in
             case put_messages db (messages db @
                    [(m, \<lparr>msg_thread_id = t, msg_seq = next_message_seq db t,
                       msg_role = Assistant_role, msg_content = result_answer result,
                       msg_missing_aspects = result_missing_aspects result\<rparr>)]) of
               Inl e \<Rightarrow> Inl e
             | Inr db1 \<Rightarrow>
                 (case put_sources db1 (sources db1 @ build_source_rows m result) of
                    Inl e \<Rightarrow> Inl e
                  | Inr db2 \<Rightarrow>
                      (case finish_run db2 lk Completed None (Some m) of
                         Inl e \<Rightarrow> Inl e
                       | Inr (db3, out) \<Rightarrow>
                           Inr (update_thread db3 t (\<lambda>r. r\<lparr>thr_updated_at := lk_now lk,
                                  thr_research_handoff :=
                                    (case handoff of None \<Rightarrow> thr_research_handoff r
                                                   | Some h \<Rightarrow> Some h)\<rparr>), out)))) = Inr (db', out)"
  shows "\<exists>c. op_effect db i (CompleteRun e result handoff m) now db' out c"
proof -
  note lock = lock_runD [OF assms(2)]
  obtain db1 db2 db3 ms g where m1: "put_messages db (messages db @ ms) = Inr db1"
    and m2: "put_sources db1 (sources db1 @ build_source_rows m result) = Inr db2"
    and m3: "finish_run db2 lk Completed None (Some m) = Inr (db3, out)"
    and m4: "db' = update_thread db3 (run_thread_id (lk_run lk)) g"
    using assms(5) by (auto simp: Let_def split: sum.splits)
  note p1 = put_messages_ok [OF assms(1) m1] and p2 = put_sources_ok [OF put_messages_ok(1) [OF assms(1) m1] m2]
  have lk2: "locked db2 lk" using lock_run_locked [OF assms(2)] p1(2) p2(2) by (simp add: locked_def)
  have answered: "run_answer_started_at (lk_run lk) \<noteq> None"
    using assms(4) lock(3) by (simp add: phase_answering_iff)
  have "op_effect db2 i StartAttempt now db3 out (Op_finished (finish_summary lk Completed None))"
    by (rule finish_case [OF p2(1) lk2 lock(1) assms(3) _ _ m3]) (simp_all add: is_finished_iff answered)
  then show ?thesis
    using p1(2) p2(2) m4
    by (intro exI [of _ "Op_finished (finish_summary lk Completed None)"])
      (auto simp: recorded_def update_thread_def)
qed

lemma complete_case:
  assumes "db_ok db" "complete_run db i e result handoff m now = Inr (db', out)"
  shows "\<exists>c. op_effect db i (CompleteRun e result handoff m) now db' out c"
proof (cases "lock_run db i None now")
  case None
  then show ?thesis using assms(2) not_found_case by (simp add: complete_run_def)
next
  case (Some lk)
  show ?thesis
    by (rule guarded_case [OF assms(1) Some assms(2) [unfolded complete_run_def check_attempt_finish_def Some option.case]])
      (use complete_accepted_case [OF assms(1) Some] in blast)
qed

lemma perform_case:
  assumes "db_ok db" "perform db i op now = Inr (db', out)"
  shows "\<exists>c. op_effect db i op now db' out c"
proof -
  note fin = finishing_op_case [OF assms(1)]
  show ?thesis
  proof (cases op)
    case StartAttempt
    then show ?thesis using start_attempt_case [OF assms(1)] assms(2) by simp
  next
    case (CheckContinuation e)
    then show ?thesis using checking_case(1) [OF assms(1)] assms(2) by simp
  next
    case (StartAnswerGeneration e)
    then show ?thesis using start_answer_case [OF assms(1)] assms(2) by simp
  next
    case (AuthorizeAnswerRegeneration e)
    then show ?thesis using checking_case(2) [OF assms(1)] assms(2) by simp
  next
    case (CompleteRun e result handoff m)
    then show ?thesis using complete_case [OF assms(1)] assms(2) by simp
  next
    case (RecordFailure e code)
    show ?thesis
      by (rule fin [OF _ _ assms(2) [unfolded RecordFailure perform.simps record_failure_def check_attempt_finish_def]])
        (simp_all add: is_finished_iff)
  next
    case (RecordPolicyBlock e)
    show ?thesis
      by (rule fin [OF _ _ assms(2) [unfolded RecordPolicyBlock perform.simps record_policy_block_def check_attempt_finish_def]])
        (simp_all add: is_finished_iff)
  next
    case (CancelForUser u)
    show ?thesis
      by (rule fin [OF _ _ assms(2) [unfolded CancelForUser perform.simps cancel_for_user_def check_finish_def]])
        (simp_all add: is_finished_iff)
  next
    case RecordEnqueueFailure
    show ?thesis
      by (rule fin [OF _ _ assms(2) [unfolded RecordEnqueueFailure perform.simps record_enqueue_failure_def check_finish_def]])
        (simp_all add: is_finished_iff)
  qed
qed

section \<open>The other transactions\<close>

text \<open>Every step of the system but those that an attempt of the run, with this epoch, makes itself.\<close>

inductive other_step :: "uuid \<Rightarrow> int \<Rightarrow> run_system \<Rightarrow> run_system \<Rightarrow> bool" for i e where
  other_create: "create_user_run db user q tid qt now nt nm nr = Inr (db', c) \<Longrightarrow>
    nt \<notin> ids \<Longrightarrow> nm \<notin> ids \<Longrightarrow> nr \<notin> ids \<Longrightarrow> other_step i e (db, ids) (db', ids \<union> {nt, nm, nr})"
| other_perform: "perform db j op now = Inr (db', out) \<Longrightarrow> set (new_messages op) \<inter> ids = {} \<Longrightarrow>
    j \<noteq> i \<or> operation_epoch op \<noteq> Some e \<Longrightarrow> other_step i e (db, ids) (db', ids \<union> set (new_messages op))"
| other_sweep: "recover_deadline_exceeded_runs db tid rid clock now = Inr (db', res) \<Longrightarrow>
    other_step i e (db, ids) (db', ids)"
| other_delete: "delete_thread_for_user db t user = (db', deleted) \<Longrightarrow> other_step i e (db, ids) (db', ids)"

lemma other_step_run_step: "other_step i e s t \<Longrightarrow> run_step s t"
proof (induction rule: other_step.induct)
  case (other_create db user q tid qt now nt nm nr db' c ids)
  then show ?case by (rule step_create)
qed (rule step_perform step_sweep step_delete; assumption)+

lemma other_steps_run_steps: "leads_to (other_step i e) s t \<Longrightarrow> leads_to run_step s t"
  by (induction rule: reach.induct) (auto intro: reach.intros other_step_run_step)

text \<open>
  The attempt in the system: the run was started with this epoch, and as long as it still runs with
  it, \<open>A\<close> holds of the instant its answer started. With \<open>A\<close> false, the attempt is fenced.
\<close>

definition attempt_at :: "uuid \<Rightarrow> int \<Rightarrow> (time option \<Rightarrow> bool) \<Rightarrow> run_system \<Rightarrow> bool" where
  "attempt_at i e A s \<longleftrightarrow> run_inv s \<and> i \<in> snd s
     \<and> (\<forall>r. map_of (runs (fst s)) i = Some r \<longrightarrow> e \<le> run_attempt_epoch r
          \<and> (run_status r = Running \<and> run_attempt_epoch r = e \<longrightarrow> A (run_answer_started_at r)))"

lemma attempt_at_mono: "attempt_at i e A s \<Longrightarrow> (\<And>a. A a \<Longrightarrow> B a) \<Longrightarrow> attempt_at i e B s"
  by (auto simp: attempt_at_def)

text \<open>A step of another transaction does not change a row that still runs with the epoch of the attempt.\<close>

lemma other_perform_row:
  assumes "db_ok db" "perform db i op now = Inr (db', out)" "operation_epoch op \<noteq> Some e"
    and "\<And>r. map_of (runs db) i = Some r \<Longrightarrow> e \<le> run_attempt_epoch r"
    and "map_of (runs db') i = Some r'" "run_status r' = Running" "run_attempt_epoch r' = e"
  shows "map_of (runs db) i = Some r'"
proof -
  obtain c where c: "op_effect db i op now db' out c" using perform_case [OF assms(1,2)] by blast
  show ?thesis
  proof (cases c)
    case (Op_finished f)
    then show ?thesis using c assms(5,6) by (auto simp: recorded_def is_finished_iff)
  next
    case (Op_started n)
    then show ?thesis using c assms(4,5,7) by auto
  next
    case Op_answering
    then show ?thesis using c assms(3,5,7) by auto
  qed (use c assms(5) in auto)
qed

lemma other_step_row:
  assumes "other_step i e s t" "run_inv s" "i \<in> snd s"
    and "\<And>r. map_of (runs (fst s)) i = Some r \<Longrightarrow> e \<le> run_attempt_epoch r"
    and "map_of (runs (fst t)) i = Some r'" "run_status r' = Running" "run_attempt_epoch r' = e"
  shows "map_of (runs (fst s)) i = Some r'"
  using assms(1)
proof cases
  case (other_create db user q tid qt now nt nm nr db' c ids)
  then have ok: "db_ok db" using assms(2) by (simp add: run_inv_def)
  have "nr \<noteq> i" using other_create assms(3) by auto
  then show ?thesis
    using create_user_run_ok(2) [OF ok other_create(3)] other_create assms(5)
    by (auto simp: map_add_def split: option.splits)
next
  case (other_perform db j op now db' out ids)
  then have ok: "db_ok db" using assms(2) by (simp add: run_inv_def)
  show ?thesis
  proof (cases "j = i")
    case True
    then show ?thesis
      using other_perform_row [OF ok, of i op now db' out e r'] other_perform assms(4-7) by simp
  next
    case False
    obtain f where "runs db' = change_row j f (runs db)"
      using perform_effect [OF ok other_perform(3)] by (auto simp: run_effect_def)
    then show ?thesis using other_perform assms(5) False by (simp add: map_of_change_row)
  qed
next
  case (other_sweep db tid rid clock now db' res ids)
  then have "db_ok db" using assms(2) by (simp add: run_inv_def)
  from recover_result(2) [OF this other_sweep(3)] show ?thesis
    using other_sweep assms(5,6) by (auto simp: map_of_sweep_rows split: if_splits)
next
  case (other_delete db t' user db' deleted ids)
  then have "db_ok db" using assms(2) by (simp add: run_inv_def)
  then show ?thesis
    using delete_thread_cases [OF other_delete(3)] other_delete assms(5)
    by (auto simp: map_of_deleted split: option.splits if_splits)
qed

lemma attempt_at_other:
  assumes "other_step i e s t" "attempt_at i e A s"
  shows "attempt_at i e A t"
proof -
  have inv: "run_inv s" and i: "i \<in> snd s" using assms(2) by (simp_all add: attempt_at_def)
  have inv': "run_inv t" and le: "run_le s t"
    using run_step_effect [OF other_step_run_step [OF assms(1)] inv] by auto
  have row: "e \<le> run_attempt_epoch r' \<and> (run_status r' = Running \<and> run_attempt_epoch r' = e \<longrightarrow> A (run_answer_started_at r'))"
    if r': "map_of (runs (fst t)) i = Some r'" for r'
  proof -
    have "case map_of (runs (fst t)) i of None \<Rightarrow> True
        | Some r' \<Rightarrow> \<exists>r. map_of (runs (fst s)) i = Some r \<and> row_le r r'"
      using le i by (simp add: run_le_def db_le_def)
    then obtain r where r: "map_of (runs (fst s)) i = Some r" "row_le r r'"
      using r' by auto
    have "e \<le> run_attempt_epoch r" using assms(2) r(1) by (simp add: attempt_at_def)
    then have "e \<le> run_attempt_epoch r'" using r(2) by (simp add: row_le_def)
    moreover have "A (run_answer_started_at r')" if "run_status r' = Running" "run_attempt_epoch r' = e"
    proof -
      have "map_of (runs (fst s)) i = Some r'"
        by (rule other_step_row [OF assms(1) inv i _ r' that]) (use assms(2) in \<open>simp add: attempt_at_def\<close>)
      then show ?thesis using assms(2) that by (simp add: attempt_at_def)
    qed
    ultimately show ?thesis by blast
  qed
  show ?thesis using inv' le i row by (auto simp: attempt_at_def run_le_def)
qed

lemma attempt_at_others: "leads_to (other_step i e) s t \<Longrightarrow> attempt_at i e A s \<Longrightarrow> attempt_at i e A t"
  by (induction rule: reach.induct) (auto intro: attempt_at_other)

section \<open>The operations of the attempt\<close>

text \<open>The operations an attempt may use while \<open>A\<close> holds of the start of its answer.\<close>

fun in_turn :: "run_operation \<Rightarrow> int \<Rightarrow> (time option \<Rightarrow> bool) \<Rightarrow> bool" where
  "in_turn (CheckContinuation x) e A = (x = e)"
| "in_turn (RecordFailure x code) e A = (x = e)"
| "in_turn (StartAnswerGeneration x) e A = (x = e \<and> (\<forall>a. A a \<longrightarrow> a = None))"
| "in_turn (AuthorizeAnswerRegeneration x) e A = (x = e \<and> (\<forall>a. A a \<longrightarrow> a \<noteq> None))"
| "in_turn (CompleteRun x result handoff m) e A = (x = e \<and> (\<forall>a. A a \<longrightarrow> a \<noteq> None))"
| "in_turn _ e A = False"

lemma in_turn_epoch: "in_turn op e A \<Longrightarrow> operation_epoch op = Some e"
  by (cases op) simp_all

lemma finish_run_finishes: "finish_run db lk status code m = Inr (db', out) \<Longrightarrow> \<exists>f. out = RunFinished f"
  by (auto simp: finish_run_def map_sum_def split: sum.splits if_splits prod.splits)

lemma check_in_phase:
  assumes "state_status s = Running" "state_attempt_epoch s = e" "phase s \<in> set phases"
  shows "check s phases deadline (Some e) now =
    Inr (if now < deadline then None else Some Deadline_exceeded_reason)"
  using assms by (auto simp: check_def Let_def phase_finished_iff is_finished_iff)

lemma guarded_not_rejected:
  assumes "unless_rejected db lk (check s phases deadline (Some e) n) acc = Inr (db', out)"
    and "state_status s = Running" "state_attempt_epoch s = e" "phase s \<in> set phases"
    and "acc = Inr (db', out) \<Longrightarrow> \<not> (\<exists>rej. out = RunRejected rej)"
  shows "\<not> (\<exists>rej. out = RunRejected rej)"
  using assms(1)
proof (cases rule: unless_rejected_cases)
  case accepted
  then show ?thesis using assms(5) by blast
next
  case deadline
  then show ?thesis using finish_run_finishes by blast
next
  case (rejected reason)
  then show ?thesis using check_in_phase [OF assms(2-4)] by (auto split: if_splits)
qed

lemma own_not_rejected:
  assumes "db_ok db" "map_of (runs db) i = Some r" "run_status r = Running" "run_attempt_epoch r = e"
    and "A (run_answer_started_at r)" "in_turn op e A" "perform db i op now = Inr (db', out)"
  shows "\<not> (\<exists>rej. out = RunRejected rej)"
proof -
  have "run_thread_id r \<in> fst ` set (threads db)"
    using run_threads [OF assms(1)] assms(2) by (meson map_of_SomeD)
  then obtain t where t: "map_of (threads db) (run_thread_id r) = Some t"
    using weak_map_of_SomeI by force
  let ?lk = "\<lparr>lk_id = i, lk_run = r, lk_user = thr_user_id t, lk_state = state_of_run r, lk_now = now\<rparr>"
  have lk: "lock_run db i None now = Some ?lk" using assms(2) t by (simp add: lock_run_def)
  have state: "state_status (state_of_run r) = Running" "state_attempt_epoch (state_of_run r) = e"
    using assms(3,4) by simp_all
  have phase: "phase (state_of_run r) = (if run_answer_started_at r = None then Preparing else Answering)"
    using assms(3) by (simp add: phase_def is_finished_iff)
  show ?thesis
  proof (cases op)
    case (CheckContinuation x)
    then show ?thesis
      using assms(6,7) guarded_not_rejected [OF _ state, of db ?lk "[Preparing, Answering]" _ now "Inr (db, Continues)" db' out]
      by (auto simp: check_continuation_def check_progress_def lk phase)
  next
    case (RecordFailure x code)
    then have run: "unless_rejected db ?lk (check (state_of_run r) [Preparing, Answering] (recovery_deadline (state_of_run r))
        (Some e) now) (finish_run db ?lk Failed (Some code) None) = Inr (db', out)"
      using assms(6,7) by (simp add: record_failure_def check_attempt_finish_def lk)
    show ?thesis by (rule guarded_not_rejected [OF run state]) (auto simp: phase dest: finish_run_finishes)
  next
    case (StartAnswerGeneration x)
    then have "run_answer_started_at r = None" "x = e" using assms(5,6) by auto
    then have p: "phase (state_of_run r) \<in> set [Preparing]" using phase by simp
    note run = assms(7) [unfolded StartAnswerGeneration \<open>x = e\<close> perform.simps start_answer_generation_def
        check_progress_def lk option.case locked_run.select_convs]
    show ?thesis
    proof (rule guarded_not_rejected [OF run state p], goal_cases)
      case 1
      then show ?case
        by (cases "update_run db i (\<lambda>r. r\<lparr>run_answer_started_at := Some now\<rparr>)") auto
    qed
  next
    case (AuthorizeAnswerRegeneration x)
    then show ?thesis
      using assms(5-7) guarded_not_rejected [OF _ state, of db ?lk "[Answering]" _ now "Inr (db, Continues)" db' out]
      by (auto simp: authorize_answer_regeneration_def check_progress_def lk phase)
  next
    case (CompleteRun x result handoff m)
    then have "run_answer_started_at r \<noteq> None" "x = e" using assms(5,6) by auto
    then have p: "phase (state_of_run r) \<in> set [Answering]" using phase by simp
    note run = assms(7) [unfolded CompleteRun \<open>x = e\<close> perform.simps complete_run_def check_attempt_finish_def lk
        option.case locked_run.select_convs]
    show ?thesis
    proof (rule guarded_not_rejected [OF run state p], goal_cases)
      case 1
      then obtain db2 db3 where "finish_run db2 ?lk Completed None (Some m) = Inr (db3, out)"
        by (auto simp: Let_def split: sum.splits)
      then show ?case using finish_run_finishes by blast
    qed
  qed (use assms(6) in simp_all)
qed

lemma fenced_rejected:
  assumes "in_turn op e A" "\<And>r. map_of (runs db) i = Some r \<Longrightarrow> run_status r = Running \<Longrightarrow> run_attempt_epoch r \<noteq> e"
    and "perform db i op now = Inr (db', out)"
  shows "db' = db \<and> (\<exists>rej. out = RunRejected rej)"
proof -
  obtain rej where "perform db i op now = Inr (db, RunRejected rej)"
    using perform_fenced [OF in_turn_epoch [OF assms(1)], of db i now] assms(2) by metis
  then show ?thesis using assms(3) by simp
qed

lemma attempt_at_perform:
  assumes "attempt_at i e A (db, ids)" "in_turn op e A" "perform db i op now = Inr (db', out)"
  shows "attempt_at i e (\<lambda>_. True) (db', ids \<union> set (new_messages op))"
proof -
  have ok: "db_ok db" and keys: "keys_issued db ids" and i: "i \<in> ids"
    using assms(1) by (simp_all add: attempt_at_def run_inv_def)
  note eff = perform_effect [OF ok assms(3)]
  obtain f where f: "runs db' = change_row i f (runs db)"
    "\<forall>r. map_of (runs db) i = Some r \<longrightarrow> row_le r (f r)" using eff by (auto simp: run_effect_def)
  have "e \<le> run_attempt_epoch r'" if "map_of (runs db') i = Some r'" for r'
  proof -
    note row = that
    obtain r where r: "map_of (runs db) i = Some r" "r' = f r"
      using row f(1) by (cases "map_of (runs db) i") (simp_all add: map_of_change_row)
    then have "e \<le> run_attempt_epoch r" "row_le r r'" using assms(1) f(2) by (simp_all add: attempt_at_def)
    then show ?thesis by (simp add: row_le_def)
  qed
  moreover have "run_inv (db', ids \<union> set (new_messages op))"
    using eff run_effect_keys [OF eff keys] by (simp add: run_inv_def run_effect_def)
  ultimately show ?thesis using i by (auto simp: attempt_at_def)
qed

definition runs_as :: "run_db \<Rightarrow> uuid \<Rightarrow> int \<Rightarrow> bool" where
  "runs_as db i e \<longleftrightarrow> (\<exists>r. map_of (runs db) i = Some r \<and> run_status r = Running \<and> run_attempt_epoch r = e)"

text \<open>
  What an operation in its turn returns: it goes on, or the attempt is fenced, and then the run is
  either recorded as finished with the outcome, or was no longer that of the attempt.
\<close>

lemma own_operation:
  assumes "attempt_at i e A (db, ids)" "in_turn op e A" "perform db i op now = Inr (db', out)"
  shows "out = Continues \<and> attempt_at i e A (db', ids \<union> set (new_messages op)) \<and> db' = db
       \<and> (\<exists>x. op = CheckContinuation x \<or> op = AuthorizeAnswerRegeneration x)
     \<or> out = AnswerGenerationStarted i now \<and> op = StartAnswerGeneration e
         \<and> attempt_at i e (\<lambda>a. a = Some now) (db', ids \<union> set (new_messages op)) \<and> runs_as db' i e
     \<or> \<not> runs_as db i e \<and> (\<exists>rej. out = RunRejected rej) \<and> attempt_at i e (\<lambda>_. False) (db', ids \<union> set (new_messages op))
     \<or> (\<exists>f. out = RunFinished f \<and> recorded db' i f \<and> fin_running_attempt_epoch f = Some e
          \<and> attempt_at i e (\<lambda>_. False) (db', ids \<union> set (new_messages op)))"
proof -
  let ?s = "(db', ids \<union> set (new_messages op))"
  have ok: "db_ok db" using assms(1) by (simp add: attempt_at_def run_inv_def)
  have keep: "attempt_at i e B ?s" if "\<And>r. map_of (runs db') i = Some r \<Longrightarrow> run_status r = Running \<Longrightarrow>
      run_attempt_epoch r = e \<Longrightarrow> B (run_answer_started_at r)" for B
    using attempt_at_perform [OF assms] that by (auto simp: attempt_at_def)
  show ?thesis
  proof (cases "runs_as db i e")
    case False
    then have "db' = db \<and> (\<exists>rej. out = RunRejected rej)"
      using fenced_rejected [OF assms(2) _ assms(3)] unfolding runs_as_def by blast
    then show ?thesis using keep [of "\<lambda>_. False"] False by (auto simp: runs_as_def)
  next
    case True
    then obtain r where r: "map_of (runs db) i = Some r" "run_status r = Running" "run_attempt_epoch r = e"
      unfolding runs_as_def by blast
    then have A: "A (run_answer_started_at r)" using assms(1) by (simp add: attempt_at_def)
    note own = own_not_rejected [OF ok r A assms(2,3)]
    obtain c where c: "op_effect db i op now db' out c" using perform_case [OF ok assms(3)] by blast
    show ?thesis
    proof (cases c)
      case Op_rejected
      then show ?thesis using c own by simp
    next
      case (Op_finished f)
      then have f: "out = RunFinished f" "recorded db' i f" "fin_running_attempt_epoch f = Some e"
        using c r by auto
      then have "attempt_at i e (\<lambda>_. False) ?s" using keep [of "\<lambda>_. False"] by (auto simp: recorded_def is_finished_iff)
      then show ?thesis using f by blast
    next
      case (Op_started n)
      then show ?thesis using c assms(2) by simp
    next
      case Op_continues
      then show ?thesis using c r A keep [of A] by auto
    next
      case Op_answering
      then have "out = AnswerGenerationStarted i now" "op = StartAnswerGeneration e"
        "map_of (runs db') i = Some (r\<lparr>run_answer_started_at := Some now\<rparr>)"
        using c r assms(2) by auto
      then show ?thesis using keep [of "\<lambda>a. a = Some now"] r by (auto simp: runs_as_def)
    qed
  qed
qed

end
