(* ===== verification/StorableAnswers.thy ===== *)
theory StorableAnswers
  imports AnsweringRunner
begin

text \<open>
  The result of an answering run fits the tables of the answer: from the hits of the searches through
  review, input evidence and assembly to the rows, for every behaviour of the models.
\<close>

section \<open>Hits\<close>

text \<open>What the types of the hits promise: their fields, and a \<^verbatim>\<open>WebUrl\<close> as URL.\<close>

definition web_url :: "pystr \<Rightarrow> bool" where
  "web_url u \<longleftrightarrow> http_scheme u \<and> length u \<le> 2048"

definition typed_hits :: "'c phases \<Rightarrow> bool" where
  "typed_hits ph \<longleftrightarrow>
     (\<forall>k qs hs. ph_internal ph k qs = Inr hs \<longrightarrow> (\<forall>h \<in> set hs. valid_internal_hit h))
     \<and> (\<forall>k q hs. ph_gateway ph k q = Some hs \<longrightarrow> (\<forall>h \<in> set hs. valid_external_hit h \<and> web_url (eh_url h)))"

lemma settled_hits:
  "settle_queries rs = (hbq, executed, failures) \<Longrightarrow> hits \<in> set hbq \<Longrightarrow>
   hits = [] \<or> (\<exists>q failed. (q, hits, failed) \<in> set rs)"
proof (induction rs arbitrary: hbq executed failures rule: settle_queries.induct)
  case (2 query hits' failed rs)
  obtain hs ex n where rest: "settle_queries rs = (hs, ex, n)" by (metis prod_cases3)
  then have "hits \<in> set hs \<or> hits = [] \<or> hits = hits'" using 2(2,3) by (auto split: if_splits)
  then show ?case using 2(1) [OF rest] by auto
qed simp

lemma pool_from_lists: "set (build_hit_pool xss) \<subseteq> \<Union> (set ` set xss)"
  using set_take_subset first_by_url_props [of "round_robin xss"]
  unfolding build_hit_pool_eq set_round_robin [symmetric] by (meson order_trans)

lemma searched_hits:
  assumes "h \<in> set (ex_hits (external_search generate gateway goal))"
  shows "\<exists>q hs. gateway q = Some hs \<and> h \<in> set hs"
proof -
  obtain qs where h: "h \<in> set (ex_hits (search_queries gateway qs))"
    using assms by (auto simp: external_search_def Let_def split: option.splits if_splits)
  obtain hbq executed failures where settle: "settle_queries (map (\<lambda>q. (q, search_query gateway q)) qs) = (hbq, executed, failures)"
    by (metis prod_cases3)
  have "h \<in> set (build_hit_pool hbq)" using h settle by (simp add: search_queries_def)
  then obtain hits where hits: "hits \<in> set hbq" "h \<in> set hits" using pool_from_lists by blast
  obtain q failed where "(hits, failed) = search_query gateway q"
    using settled_hits [OF settle hits(1)] hits(2) by auto
  then show ?thesis
    using hits(2) set_take_subset by (cases "gateway q") (auto simp: search_query_def dest: in_set_takeD)
qed

lemma collected_typed:
  assumes "typed_hits ph" "plan_from_draft casefold d = Inr (SearchPlan p)"
    and "collect (ph_internal ph) (external_of_phases ph) p = Inr tasks"
  shows "\<forall>t \<in> set tasks. valid_task t \<and> (\<forall>h \<in> set (ct_external_hits t). web_url (eh_url h))"
    and "distinct (map ct_task_index tasks)"
proof -
  obtain cs where cs: "collect (ph_internal ph) (external_of_phases ph) p = Inr cs"
    "map ct_task_index cs = map int [0..<length (research_tasks p)]"
    "\<forall>c \<in> set cs. recordable_queries (ct_executed_queries c)
          \<and> (\<exists>k goal. set (ct_external_hits c) \<subseteq> set (ex_hits (external_search (ph_generate ph k) (ph_gateway ph k) goal)))
          \<and> (ct_internal_hits c = [] \<or> (\<exists>k qs. ph_internal ph k qs = Inr (ct_internal_hits c)))"
    using collected_ok [OF assms(2), of "ph_internal ph" "ph_generate ph" "ph_gateway ph"]
    unfolding external_of_phases_def by blast
  then have eq: "cs = tasks" using assms(3) by simp
  show "distinct (map ct_task_index tasks)" using cs(2) by (simp add: eq distinct_map)
  show "\<forall>t \<in> set tasks. valid_task t \<and> (\<forall>h \<in> set (ct_external_hits t). web_url (eh_url h))"
  proof
    fix t assume t: "t \<in> set tasks"
    then have "ct_task_index t \<in> set (map int [0..<length (research_tasks p)])"
      using cs(2) eq by (metis image_eqI list.set_map)
    then have idx: "0 \<le> ct_task_index t" by auto
    obtain k goal where "set (ct_external_hits t) \<subseteq> set (ex_hits (external_search (ph_generate ph k) (ph_gateway ph k) goal))"
      using cs(3) t eq by blast
    then have ext: "\<forall>h \<in> set (ct_external_hits t). valid_external_hit h \<and> web_url (eh_url h)"
      using assms(1) searched_hits unfolding typed_hits_def by (meson subsetD)
    have "\<forall>h \<in> set (ct_internal_hits t). valid_internal_hit h"
      using cs(3) t eq assms(1) unfolding typed_hits_def by (metis empty_iff list.set(1))
    then show "valid_task t \<and> (\<forall>h \<in> set (ct_external_hits t). web_url (eh_url h))"
      using idx ext by (simp add: valid_task_def)
  qed
qed

section \<open>Evidence\<close>

lemma origin_of_external:
  assumes "origin \<in> set (option_origins (prepare_review tasks))" "origin_hit origin = External h"
  shows "\<exists>t \<in> set tasks. h \<in> set (ct_external_hits t)"
proof -
  have "(origin_task_index origin, External h)
      \<in> set (map (\<lambda>x. (origin_task_index x, origin_hit x)) (option_origins (prepare_review tasks)))"
    using assms by force
  then obtain t where "t \<in> set tasks" "External h \<in> set (hits_to_show t)"
    unfolding prepare_review_result(2) by auto
  then show ?thesis
    using unseen_external_distinct [of "{}" "ct_external_hits t"] by (auto simp: hits_to_show_def)
qed

lemma review_attempts_evidence:
  "review_attempts p mismatch timeout runtime_call ns = Inr (EvidenceRunCompleted e missing) \<Longrightarrow>
   \<exists>r. valid_response r \<and> answer_evidence_from_response p r = Inr e"
proof (induction ns)
  case (Cons n ns)
  then show ?case
    by (auto simp: Let_def complete_evidence_run_def split: call_outcome.splits prod.splits sum.splits if_splits
        dest: response_from_draft_valid)
qed simp

lemma reviewed_evidence:
  assumes "\<forall>t \<in> set tasks. valid_task t \<and> (\<forall>h \<in> set (ct_external_hits t). web_url (eh_url h))"
    and "distinct (map ct_task_index tasks)"
    and "review_evidence mismatch timeout runtime_call tasks = Inr (EvidenceRunCompleted e missing)"
  shows "valid_evidence e" "\<forall>x \<in> set (external_evidence e). web_url (ee_url x)"
proof -
  have tasks: "\<forall>t \<in> set tasks. valid_task t" using assms(1) by blast
  from review_attempts_evidence [OF assms(3) [unfolded review_evidence_def]]
  obtain r where r: "valid_response r" "answer_evidence_from_response (prepare_review tasks) r = Inr e"
    by blast
  let ?p = "prepare_review tasks"
  obtain items where items: "e = restored ?p items"
    and sel: "\<forall>(i, s) \<in> set items. s \<in> set (response_selections r) \<and> sel_option_index s = i"
    by (rule answer_evidence_restored [OF tasks assms(2) r(1)]) (use r(2) in auto)
  have claim: "sel_claim s \<noteq> []" if "(i, s) \<in> set items" for i s
    using sel that r(1) by (force simp: valid_response_def valid_selection_def list_all_iff)
  have origin: "origin \<in> set (option_origins ?p)" if "resolve_option_origin ?p i = Some origin" for i origin
    using that by (auto simp: resolve_Some_iff)
  note hit = origins_valid(1) [OF tasks origin]
  have ints: "ie_assessment_id x > 0 \<and> ie_title x \<noteq> [] \<and> ie_claim x \<noteq> []" if "x \<in> set (internal_evidence e)" for x
  proof -
    from restored_internal [OF that [unfolded items]]
    obtain i s origin h where x: "(i, s) \<in> set items" "resolve_option_origin ?p i = Some origin"
      "origin_hit origin = Internal h" "ie_assessment_id x = ih_assessment_id h" "ie_title x = ih_title h"
      "ie_claim x = sel_claim s" by blast
    then show ?thesis using hit [OF x(2)] claim [OF x(1)] by (simp add: valid_hit_def valid_internal_hit_def)
  qed
  have exts: "ee_title x \<noteq> [] \<and> ee_claim x \<noteq> [] \<and> web_url (ee_url x)" if "x \<in> set (external_evidence e)" for x
  proof -
    from restored_external [OF that [unfolded items]]
    obtain i s origin h where x: "(i, s) \<in> set items" "resolve_option_origin ?p i = Some origin"
      "origin_hit origin = External h" "ee_url x = eh_url h" "ee_title x = eh_title h" "ee_claim x = sel_claim s"
      by blast
    moreover obtain t where "t \<in> set tasks" "h \<in> set (ct_external_hits t)"
      using origin_of_external [OF origin [OF x(2)] x(3)] by blast
    ultimately show ?thesis
      using hit [OF x(2)] claim [OF x(1)] assms(1) by (simp add: valid_hit_def valid_external_hit_def)
  qed
  show "valid_evidence e" "\<forall>x \<in> set (external_evidence e). web_url (ee_url x)"
    using ints exts by (simp_all add: valid_evidence_def)
qed

section \<open>Input evidence\<close>

definition storable_source :: "answer_source \<Rightarrow> bool" where
  "storable_source s \<longleftrightarrow> source_constraint (source_row_of 0 1 s)"

lemma numbered_sources:
  "number_evidence project n es = Inr items \<Longrightarrow> x \<in> set items \<Longrightarrow> \<exists>e \<in> set es. \<exists>ref. project e ref = Inr x"
proof (induction es arbitrary: n items)
  case (Cons a es)
  then obtain i rest where "project a (str_of_nat n) = Inr i" "number_evidence project (n + 1) es = Inr rest"
    "x = i \<or> x \<in> set rest" by (auto split: sum.splits)
  then show ?case using Cons.IH [of "n + 1" rest] by auto
qed simp

lemma normalized_storable:
  "normalize_internal_evidence e ref = Inr x \<Longrightarrow> storable_source (input_source x)"
  "normalize_external_evidence y ref = Inr x \<Longrightarrow> web_url (ee_url y) \<Longrightarrow> storable_source (input_source x)"
  by (auto simp: normalize_internal_evidence_def normalize_external_evidence_def make_input_evidence_def
      non_blank_text_def storable_source_def source_constraint_def source_row_of_def web_url_def
      split: if_splits sum.splits)

lemma input_evidence_storable:
  assumes "valid_evidence e" "\<forall>x \<in> set (external_evidence e). web_url (ee_url x)"
    and "build_answer_input_evidence e = Inr items"
  shows "\<forall>x \<in> set items. storable_source (input_source x)" "distinct (map (source_ref \<circ> input_source) items)"
proof -
  obtain ints exts where parts: "number_evidence normalize_internal_evidence 1 (internal_evidence e) = Inr ints"
    "number_evidence normalize_external_evidence (1 + length (internal_evidence e)) (external_evidence e) = Inr exts"
    "items = ints @ exts"
    using assms(3) by (auto simp: build_answer_input_evidence_def split: sum.splits)
  show "\<forall>x \<in> set items. storable_source (input_source x)"
    using numbered_sources [OF parts(1)] numbered_sources [OF parts(2)] normalized_storable assms(2)
    unfolding parts(3) by (metis Un_iff set_append)
  have "evidence_refs items = map str_of_nat [1..<1 + evidence_count e]"
    using build_input_evidence_result [OF assms(1)] assms(3) by fastforce
  then show "distinct (map (source_ref \<circ> input_source) items)"
    by (simp add: evidence_refs_def distinct_map inj_on_def del: upt_Suc)
qed

section \<open>Results\<close>

lemma made_result:
  assumes "make_question_result status answer ss missing pt = Inr result"
  shows "result_answer result \<noteq> []" "result_sources result = ss"
  using assms by (auto simp: make_question_result_def non_blank_text_def split: sum.splits if_splits)

lemma direct_storable:
  "make_question_result Answered answer [] [] Direct_answer = Inr result \<Longrightarrow> persistable result"
  using made_result [of Answered answer "[]" "[]" Direct_answer result] by (simp add: persistable_def)

lemma assembled_storable:
  assumes "\<forall>x \<in> set evidence. storable_source (input_source x)" "distinct (map (source_ref \<circ> input_source) evidence)"
    and "assemble_evidence_result tasks run evidence draft = Inr result"
  shows "persistable result"
proof -
  obtain status missing where made: "make_question_result status (draft_answer draft)
      (sources_for_citations evidence (cited_refs draft)) missing Search = Inr result"
    using assms(3) by (auto simp: assemble_evidence_result_def Let_def split: if_splits sum.splits)
  have "distinct (map source_ref (sources_for_citations evidence (cited_refs draft)))"
    using distinct_map_filter [OF assms(2)] by (simp add: sources_for_citations_def)
  moreover have "\<forall>s \<in> set (sources_for_citations evidence (cited_refs draft)). storable_source s"
    using assms(1) by (auto simp: sources_for_citations_def)
  ultimately show ?thesis
    using made_result [OF made] by (simp add: persistable_def storable_source_def list_all_iff)
qed

section \<open>The run\<close>

definition handoff_ok :: "handoff option \<Rightarrow> bool" where
  "handoff_ok h \<longleftrightarrow> (case h of None \<Rightarrow> True | Some x \<Rightarrow> valid_handoff x)"

lemma handoff_none [simp]: "handoff_ok None"
  by (simp add: handoff_ok_def)

abbreviation returns :: "'a run_io \<Rightarrow> ('a \<Rightarrow> bool) \<Rightarrow> bool" where
  "returns m Q \<equiv> ensures (\<lambda>_. True) m (\<lambda>a _. Q a) (\<lambda>_ _. True)"

lemma returns_bind: "returns m R \<Longrightarrow> (\<And>a. R a \<Longrightarrow> returns (f a) Q) \<Longrightarrow> returns (run_bind m f) Q"
  by (rule ensures_bind [where R = "\<lambda>a _. R a"]) (auto simp: ensures_def)

lemma returns_any: "returns m (\<lambda>_. True)"
  by (simp add: ensures_def split: prod.split sum.split)

lemma returns_value: "(\<And>a. v = Inr a \<Longrightarrow> Q a) \<Longrightarrow> returns (run_value v) Q"
  by (cases v) (simp_all add: run_value_def ensures_def run_raise_def run_return_def)

lemma returns_value_eq: "returns (run_value v) (\<lambda>a. v = Inr a)"
  by (rule returns_value)

lemma returns_return: "Q a \<Longrightarrow> returns (run_return a) Q"
  by (simp add: ensures_def run_return_def)

lemma returns_raise: "returns (run_raise x) Q"
  by (simp add: ensures_def run_raise_def)

lemma returns_after: "(\<And>a. returns (f a) Q) \<Longrightarrow> returns (run_bind m f) Q"
  by (rule returns_bind [OF returns_any])

definition typed_run :: "'c evidence_run \<Rightarrow> bool" where
  "typed_run run \<longleftrightarrow> (\<forall>e missing. run = EvidenceRunCompleted e missing \<longrightarrow>
     valid_evidence e \<and> (\<forall>x \<in> set (external_evidence e). web_url (ee_url x)))"

lemma review_phase_typed:
  assumes "\<forall>t \<in> set tasks. valid_task t \<and> (\<forall>h \<in> set (ct_external_hits t). web_url (eh_url h))"
    and "distinct (map ct_task_index tasks)"
  shows "returns (review_phase ph e tasks as_of) typed_run"
proof -
  have "typed_run (EvidenceRunCompleted NO_EVIDENCE [])"
    by (simp add: typed_run_def NO_EVIDENCE_def valid_evidence_def)
  moreover have "typed_run run"
    if "review_evidence (ph_mismatch ph) (ph_timeout ph) (ph_review ph tasks as_of) tasks = Inr run" for run
    using reviewed_evidence [OF assms, of "ph_mismatch ph" "ph_timeout ph" "ph_review ph tasks as_of"] that
    by (auto simp: typed_run_def)
  moreover have "returns (run_bind (run_value (review_evidence (ph_mismatch ph) (ph_timeout ph) (ph_review ph tasks as_of) tasks))
      (\<lambda>run. case run of
         EvidenceRunFailed _ \<Rightarrow> run_return run
       | EvidenceRunCompleted evidence _ \<Rightarrow>
           run_bind (report_event e (Evidence_selected (int (evidence_count evidence)))) (\<lambda>_. run_return run))) typed_run"
    by (rule returns_bind [OF returns_value [where Q = typed_run]])
      (auto intro!: returns_return returns_after calculation(2) split: evidence_run.split)
  ultimately show ?thesis
    unfolding review_phase_def by (auto intro!: returns_return returns_raise returns_after)
qed

lemma answer_from_evidence_storable:
  assumes "typed_run run"
  shows "returns (answer_from_evidence env ph i e input plan tasks run) persistable"
  unfolding answer_from_evidence_def
proof (rule returns_bind [OF returns_value])
  fix evidence assume ev: "run_input_evidence run = Inr evidence"
  have ok: "\<forall>x \<in> set evidence. storable_source (input_source x)" "distinct (map (source_ref \<circ> input_source) evidence)"
    using ev assms input_evidence_storable
    by (cases run; force simp: run_input_evidence_def typed_run_def)+
  show "returns (run_bind (generate_answer env ph i e (\<lambda>a. finalize_evidence_answer_draft a evidence) True
       (ph_evidence ph input evidence (plan_time_window plan) (run_review_missing run))) (\<lambda>draft.
     case assemble_evidence_result tasks run evidence draft of
       Inl DraftInvalid \<Rightarrow> run_raise Exec_draft_invalid
     | Inl (AnswerRaised x) \<Rightarrow> run_raise (Exec_raised x)
     | Inr result \<Rightarrow> run_return result)) persistable"
    by (rule returns_after)
      (auto intro!: returns_raise returns_return assembled_storable [OF ok] split: sum.split answer_exc.split)
qed

lemma organizing_storable:
  assumes "handoff_ok previous" "typed_run run"
    and "handoff_input_from_run previous question tasks run as_of = Inr organizing"
  shows "returns (answer_while_organizing env ph i e input plan tasks run organizing)
    (\<lambda>(answer, h). persistable answer \<and> handoff_ok h)"
  unfolding answer_while_organizing_def
proof (rule returns_bind [OF answer_from_evidence_storable [OF assms(2)]])
  fix answer assume "persistable answer"
  moreover have "handoff_ok (map_option (\<lambda>x. organized_or_records x (ph_organize ph x)) organizing)"
    using assms(1) handoff_input_valid [of previous question tasks run as_of] assms(3)
    by (cases organizing) (auto simp: handoff_ok_def intro: organized_ok [THEN conjunct1])
  ultimately show "returns (run_return (answer, map_option (\<lambda>x. organized_or_records x (ph_organize ph x)) organizing))
      (\<lambda>(answer, h). persistable answer \<and> handoff_ok h)"
    by (intro returns_return) simp
qed

lemma search_and_answer_storable:
  assumes "typed_hits ph" "plan_from_draft casefold d = Inr (SearchPlan plan)" "handoff_ok (ri_handoff input)"
  shows "returns (search_and_answer env ph i e input plan) (\<lambda>(answer, h). persistable answer \<and> handoff_ok h)"
  unfolding search_and_answer_def collect_phase_def
  by (rule returns_after, rule returns_bind [OF returns_after [OF returns_value_eq]],
      rule returns_bind [OF review_phase_typed [OF collected_typed [OF assms(1,2)]]], assumption+,
      rule returns_bind [OF returns_value_eq], rule organizing_storable [OF assms(3)])

lemma planned_from_draft:
  "fst (plan_attempts casefold mismatch runtime_call ns k) = PlanReady p \<Longrightarrow>
   \<exists>d. plan_from_draft casefold d = Inr p"
  by (induction ns arbitrary: k) (auto split: call_outcome.splits sum.splits plan_exc.splits if_splits)

lemma run_answering_storable:
  assumes "typed_hits ph" "handoff_ok (ri_handoff input)"
  shows "returns (run_answering env ph i e input) (\<lambda>r. persistable (final_output r) \<and> handoff_ok (result_handoff r))"
proof -
  have keep: "final_output \<lparr>final_output = a, result_handoff = h\<rparr> = a" for a h by simp
  have direct: "returns (answer_directly_phase env ph i e input) persistable"
    unfolding answer_directly_phase_def
    by (intro returns_after returns_value) (rule direct_storable)
  have search: "returns (run_bind (search_and_answer env ph i e input plan) (\<lambda>(answer, h).
        run_return \<lparr>final_output = answer, result_handoff = h\<rparr>))
      (\<lambda>r. persistable (final_output r) \<and> handoff_ok (result_handoff r))"
    if "fst (plan_question (ph_casefold ph) (ph_mismatch ph) (ph_plan ph input)) = PlanReady (SearchPlan plan)" for plan
  proof -
    from planned_from_draft [OF that [unfolded plan_question_def]]
    obtain d where "plan_from_draft (ph_casefold ph) d = Inr (SearchPlan plan)" by blast
    then show ?thesis
      by (intro returns_bind [OF search_and_answer_storable [OF assms(1) _ assms(2)]])
        (auto intro: returns_return)
  qed
  show ?thesis
    unfolding run_answering_def
    by (rule returns_after)
      (auto intro!: returns_raise returns_bind [OF direct] returns_return search 
        split: plan_result.split question_plan.split)
qed

section \<open>Saving\<close>


definition sample_phases :: "nat phases" where
  "sample_phases =
     \<lparr>ph_casefold = (\<lambda>s. s), ph_mismatch = 0, ph_timeout = 1,
      ph_plan = (\<lambda>_ _. CallDraft \<lparr>draft_plan_type = Direct_answer, draft_research_tasks = [], draft_time_window = None\<rparr>),
      ph_internal = (\<lambda>_ _. Inl ArticleSearchFailed), ph_generate = (\<lambda>_ _. None), ph_gateway = (\<lambda>_ _. None),
      ph_order = concat, ph_review = (\<lambda>_ _ _. CallTimedOut),
      ph_direct = (\<lambda>_ _ _. ([[104, 105]], StreamDone)), ph_evidence = (\<lambda>_ _ _ _ _. ([], StreamTimedOut)),
      ph_organize = (\<lambda>_. Organize_late), ph_closed = (\<lambda>_. False)\<rparr>"

definition sample_env :: run_env where
  "sample_env = \<lparr>env_others = (\<lambda>_ sys. sys), env_now = (\<lambda>_. 3000), env_fate = (\<lambda>_. Tx_commits),
     env_message = (\<lambda>k. 13 + k), env_schedules = True\<rparr>"

definition sample_input :: run_input where
  "sample_input = \<lparr>ri_question = [97], ri_history = [], ri_handoff = None, ri_as_of = 2500\<rparr>"

definition sample_exec :: exec where
  "sample_exec = \<lparr>exec_system = (sample_db (sample_running 1) 1, {10, 11, 12}), exec_count = 1,
     exec_live = [], exec_checks = []\<rparr>"

lemma sample_typed: "typed_hits sample_phases"
  by (simp add: typed_hits_def sample_phases_def)

lemma sample_answer_start:
  "perform (sample_db (sample_running 1) 1) 12 (StartAnswerGeneration 1) 3000
     = Inr (sample_db sample_answering 1, AnswerGenerationStarted 12 3000)"
  by (simp add: start_answer_generation_def lock_run_def state_of_run_def check_progress_def check_def
      phase_def is_finished_def ACTIVE_STATUSES_def unless_rejected_def update_run_def change_row_def
      put_runs_def runs_constraints_def answer_ids_def is_active_def run_constraint_def
      message_in_thread_def deadline_for_run_def seconds_def Let_def sample_defs sample_answering_def)

lemma sample_answering_run:
  "fst (run_answering sample_env sample_phases 12 1 sample_input sample_exec)
     = Inr \<lparr>final_output = \<lparr>result_status = Answered, result_answer = [104, 105], result_sources = [],
         result_missing_aspects = [], result_plan_type = Direct_answer\<rparr>, result_handoff = None\<rparr>"
proof -
  have plan: "fst (plan_question (\<lambda>s. s) (0 :: nat) (\<lambda>_. CallDraft \<lparr>draft_plan_type = Direct_answer,
      draft_research_tasks = [], draft_time_window = None\<rparr>)) = PlanReady DirectAnswerPlan"
    by (simp add: plan_question_def PLAN_MAX_ATTEMPTS_def upt_rec plan_from_draft_def clean_research_tasks_def)
  have draft: "generate_draft finalize_direct_answer 1 [[104, 105]] StreamDone
      = (Inr [104, 105], [DeltaAppend 1 [104, 105], DeltaFinish 1])"
    by (simp add: generate_draft_def draft_append_def new_draft_def new_filter_def filter_append_def
        append_loop.simps append_step_def is_space_def draft_commit_def filter_finish_def
        finalize_direct_answer_def strip_citation_markers.simps strip_def lstrip_def rstrip_def non_blank_text_def
        constrained_strip_def is_white_space_def)
  note start = sample_answer_start [simplified]
  show ?thesis
    by (simp add: run_answering_def sample_phases_def sample_input_def plan draft answer_directly_phase_def
        generate_answer_def start_generation_def transact_def sample_env_def sample_exec_def start
        run_bind_def run_return_def live_def report_stage_def schedule_check_def ANSWER_MAX_ATTEMPTS_def upt_rec
        make_question_result_def non_blank_text_def constrained_strip_def is_white_space_def is_space_def run_value_def)
qed


end
