(* ===== verification/ExecutionProperties.thy ===== *)
theory ExecutionProperties
  imports RunExecution AttemptSteps StorableAnswers
begin

text \<open>
  What an attempt guarantees, whatever the models return, the other transactions do and the
  database refuses: it leaves its run settled unless the database failed, and publishes at most
  one terminal event, the last one of the attempt, which agrees with the row of the run.
\<close>

section \<open>Assertions about the attempt\<close>

text \<open>The other transactions are steps of the system; the first access of a worker is the start itself.\<close>

definition well_behaved :: "run_env \<Rightarrow> uuid \<Rightarrow> int \<Rightarrow> bool" where
  "well_behaved env i e \<longleftrightarrow> (\<forall>k sys. leads_to (other_step i e) sys (env_others env (Suc k) sys))"

text \<open>Nobody else works on the database and no access fails.\<close>

definition undisturbed :: "run_env \<Rightarrow> bool" where
  "undisturbed env \<longleftrightarrow> (\<forall>k. env_fate env (Suc k) = Tx_commits) \<and> (\<forall>k sys. env_others env (Suc k) sys = sys)"

fun ends_attempt :: "live_call \<Rightarrow> bool" where
  "ends_attempt (Live_publish (Terminal_event _ _)) = True"
| "ends_attempt _ = False"

definition quiet :: "int \<Rightarrow> (int \<times> live_call) list \<Rightarrow> bool" where
  "quiet e calls \<longleftrightarrow> (\<forall>(x, c) \<in> set calls. x = e \<and> \<not> ends_attempt c)"

lemma quiet_append: "quiet e (xs @ ys) \<longleftrightarrow> quiet e xs \<and> quiet e ys"
  by (auto simp: quiet_def)

definition working :: "run_env \<Rightarrow> uuid \<Rightarrow> int \<Rightarrow> (time option \<Rightarrow> bool) \<Rightarrow> exec \<Rightarrow> bool" where
  "working env i e A s \<longleftrightarrow> attempt_at i e A (exec_system s) \<and> exec_count s \<noteq> 0 \<and> quiet e (exec_live s)
     \<and> (undisturbed env \<longrightarrow> runs_as (fst (exec_system s)) i e)"

definition stopped :: "run_env \<Rightarrow> uuid \<Rightarrow> int \<Rightarrow> run_outcome \<Rightarrow> exec \<Rightarrow> bool" where
  "stopped env i e out s \<longleftrightarrow> attempt_at i e (\<lambda>_. False) (exec_system s) \<and> exec_count s \<noteq> 0 \<and> quiet e (exec_live s)
     \<and> (case out of
          RunFinished f \<Rightarrow> recorded (fst (exec_system s)) i f \<and> fin_running_attempt_epoch f = Some e
        | RunRejected _ \<Rightarrow> \<not> undisturbed env
        | _ \<Rightarrow> False)"

definition broken :: "run_env \<Rightarrow> uuid \<Rightarrow> int \<Rightarrow> exec_exc \<Rightarrow> exec \<Rightarrow> bool" where
  "broken env i e x s \<longleftrightarrow>
     (case x of Exec_stopped out \<Rightarrow> stopped env i e out s | _ \<Rightarrow> working env i e (\<lambda>_. True) s)"

text \<open>The end of an attempt: fenced, with a terminal event that tells the row, or with none.\<close>

definition announced :: "uuid \<Rightarrow> int \<Rightarrow> exec \<Rightarrow> bool" where
  "announced i e s \<longleftrightarrow> (\<exists>calls st r. exec_live s = calls @ [(e, Live_publish (Terminal_event st (run_error_code r)))]
     \<and> quiet e calls \<and> map_of (runs (fst (exec_system s))) i = Some r \<and> terminal_status_of (run_status r) = Some st)"

definition ended :: "run_env \<Rightarrow> uuid \<Rightarrow> int \<Rightarrow> exec \<Rightarrow> bool" where
  "ended env i e s \<longleftrightarrow> attempt_at i e (\<lambda>_. False) (exec_system s)
     \<and> (announced i e s \<or> quiet e (exec_live s) \<and> \<not> undisturbed env)"

definition lost :: "run_env \<Rightarrow> int \<Rightarrow> exec_exc \<Rightarrow> exec \<Rightarrow> bool" where
  "lost env e x s \<longleftrightarrow> x = Exec_database \<and> env_fate env (exec_count s - 1) \<noteq> Tx_commits
     \<and> exec_count s \<noteq> 0 \<and> quiet e (exec_live s) \<and> \<not> undisturbed env"

lemma working_mono: "working env i e A s \<Longrightarrow> (\<And>a. A a \<Longrightarrow> B a) \<Longrightarrow> working env i e B s"
  unfolding working_def using attempt_at_mono by blast

lemma working_broken: "working env i e A s \<Longrightarrow> \<forall>out. x \<noteq> Exec_stopped out \<Longrightarrow> broken env i e x s"
  unfolding broken_def by (cases x) (auto intro: working_mono)

section \<open>Accesses to the database\<close>

definition own_result :: "run_env \<Rightarrow> uuid \<Rightarrow> int \<Rightarrow> (time option \<Rightarrow> bool) \<Rightarrow> run_operation \<Rightarrow> run_outcome \<Rightarrow> exec \<Rightarrow> bool" where
  "own_result env i e A op out s \<longleftrightarrow>
     out = Continues \<and> (op = CheckContinuation e \<or> op = AuthorizeAnswerRegeneration e) \<and> working env i e A s
   \<or> (\<exists>t. out = AnswerGenerationStarted i t \<and> op = StartAnswerGeneration e \<and> working env i e (\<lambda>a. a = Some t) s)
   \<or> stopped env i e out s"

definition own_failure :: "run_env \<Rightarrow> uuid \<Rightarrow> int \<Rightarrow> (time option \<Rightarrow> bool) \<Rightarrow> run_operation \<Rightarrow> exec_exc \<Rightarrow> exec \<Rightarrow> bool" where
  "own_failure env i e A op x s \<longleftrightarrow> working env i e (\<lambda>_. True) s \<and> (op = CheckContinuation e \<longrightarrow> working env i e A s)
     \<and> (x = Exec_database \<and> env_fate env (exec_count s - 1) \<noteq> Tx_commits \<and> \<not> undisturbed env
        \<or> (\<exists>y result handoff m. x = Exec_raised y \<and> op = CompleteRun e result handoff m))"

lemma others_keep:
  assumes "well_behaved env i e" "working env i e A s" "env_others env (exec_count s) (exec_system s) = t"
  shows "attempt_at i e A t" "undisturbed env \<Longrightarrow> t = exec_system s"
proof -
  obtain k where "exec_count s = Suc k" using assms(2) by (cases "exec_count s") (auto simp: working_def)
  then have "leads_to (other_step i e) (exec_system s) t" "undisturbed env \<Longrightarrow> t = exec_system s"
    using assms(1) unfolding assms(3) [symmetric] by (simp_all add: well_behaved_def undisturbed_def del: split_paired_All)
  then show "attempt_at i e A t" "undisturbed env \<Longrightarrow> t = exec_system s"
    using attempt_at_others assms(2) by (auto simp: working_def)
qed

lemma read_database_keeps:
  assumes "well_behaved env i e"
  shows "ensures (working env i e A) (read_database env f) (\<lambda>_. working env i e A)
     (\<lambda>x s. x = Exec_database \<and> working env i e A s)"
  unfolding ensures_def
proof (intro allI impI)
  fix s assume w: "working env i e A s"
  note keep = others_keep [OF assms w refl]
  show "case read_database env f s of (Inr a, s') \<Rightarrow> working env i e A s'
      | (Inl x, s') \<Rightarrow> x = Exec_database \<and> working env i e A s'"
    using w keep by (auto simp: read_database_def Let_def working_def)
qed

lemma record_never_raises:
  assumes "db_ok db" "in_turn op e A" "perform db i op now = Inl x"
  shows "\<exists>result handoff m. op = CompleteRun e result handoff m"
proof (rule ccontr)
  assume "\<not> ?thesis"
  then have "\<exists>y. perform db i op now = Inr y"
    by (intro perform_total [OF assms(1)]) (use assms(2) in auto)
  then show False using assms(3) by auto
qed

lemma transact_own:
  assumes "well_behaved env i e" "in_turn op e A"
  shows "ensures (working env i e A) (transact env i op) (own_result env i e A op) (own_failure env i e A op)"
  unfolding ensures_def
proof (intro allI impI)
  fix s assume w: "working env i e A s"
  obtain db ids where sys: "env_others env (exec_count s) (exec_system s) = (db, ids)" by fastforce
  note keep = others_keep [OF assms(1) w sys]
  let ?s = "s\<lparr>exec_system := (db, ids), exec_count := exec_count s + 1\<rparr>"
  have fate: "env_fate env (exec_count s) \<noteq> Tx_commits \<Longrightarrow> \<not> undisturbed env"
    using w by (cases "exec_count s") (auto simp: working_def undisturbed_def)
  have same: "working env i e A ?s" using w keep by (auto simp: working_def)
  show "case transact env i op s of (Inr a, s') \<Rightarrow> own_result env i e A op a s'
      | (Inl x, s') \<Rightarrow> own_failure env i e A op x s'"
  proof (cases "env_fate env (exec_count s) = Tx_fails")
    case True
    then show ?thesis
      using same fate working_mono [OF same] by (simp add: transact_def sys own_failure_def)
  next
    case False
    show ?thesis
    proof (cases "perform db i op (env_now env (exec_count s))")
      case (Inl x)
      then have "\<exists>result handoff m. op = CompleteRun e result handoff m"
        using record_never_raises [OF _ assms(2) Inl] keep(1) by (simp add: attempt_at_def run_inv_def)
      then show ?thesis
        using False Inl same working_mono [OF same] by (auto simp: transact_def sys own_failure_def)
    next
      case (Inr p)
      then obtain db' out where run: "perform db i op (env_now env (exec_count s)) = Inr (db', out)"
        by (cases p) auto
      note own = own_operation [OF keep(1) assms(2) run]
      let ?t = "?s\<lparr>exec_system := (db', ids \<union> set (new_messages op))\<rparr>"
      have base: "quiet e (exec_live ?t)" "exec_count ?t \<noteq> 0" using w by (simp_all add: working_def)
      have alive: "undisturbed env \<Longrightarrow> runs_as db i e"
        using same by (auto simp: working_def)
      have res: "own_result env i e A op out ?t"
      proof -
        consider (continues) "out = Continues" "op = CheckContinuation e \<or> op = AuthorizeAnswerRegeneration e"
            "attempt_at i e A (db', ids \<union> set (new_messages op))" "db' = db"
          | (started) "out = AnswerGenerationStarted i (env_now env (exec_count s))" "op = StartAnswerGeneration e"
            "attempt_at i e (\<lambda>a. a = Some (env_now env (exec_count s))) (db', ids \<union> set (new_messages op))" "runs_as db' i e"
          | (rejected) rej where "\<not> runs_as db i e" "out = RunRejected rej"
            "attempt_at i e (\<lambda>_. False) (db', ids \<union> set (new_messages op))"
          | (finished) f where "out = RunFinished f" "recorded db' i f" "fin_running_attempt_epoch f = Some e"
            "attempt_at i e (\<lambda>_. False) (db', ids \<union> set (new_messages op))"
          using own assms(2) by fastforce
        then show ?thesis
        proof cases
          case continues
          then have "working env i e A ?t" using base alive by (simp add: working_def)
          then show ?thesis using continues by (auto simp: own_result_def)
        next
          case started
          then have "working env i e (\<lambda>a. a = Some (env_now env (exec_count s))) ?t"
            using base by (simp add: working_def)
          then show ?thesis using started by (auto simp: own_result_def)
        next
          case (rejected rej)
          then have "stopped env i e out ?t" using base alive by (auto simp: stopped_def)
          then show ?thesis by (simp add: own_result_def)
        next
          case (finished f)
          then have "stopped env i e out ?t" using base by (auto simp: stopped_def)
          then show ?thesis by (simp add: own_result_def)
        qed
      qed
      have "own_failure env i e A op Exec_database ?t" if "env_fate env (exec_count s) = Tx_unknown"
      proof -
        have "attempt_at i e A (db', ids \<union> set (new_messages op))" if "op = CheckContinuation e"
          using own that by (auto intro: attempt_at_mono)
        then show ?thesis
          using attempt_at_perform [OF keep(1) assms(2) run] base that fate
          by (simp add: own_failure_def working_def)
      qed
      then show ?thesis using False run res by (cases "env_fate env (exec_count s)") (simp_all add: transact_def sys)
    qed
  qed
qed

section \<open>The phases of the attempt\<close>

lemma live_keeps:
  assumes "\<not> ends_attempt c"
  shows "ensures (working env i e A) (live e c) (\<lambda>_. working env i e A) E"
  by (rule ensures_live) (use assms in \<open>auto simp: working_def quiet_def\<close>)

lemma return_keeps: "ensures P (run_return a) (\<lambda>_. P) E"
  by (rule ensures_return)

lemma raise_breaks: "\<forall>out. x \<noteq> Exec_stopped out \<Longrightarrow> ensures (working env i e A) (run_raise x) Q (broken env i e)"
  by (rule ensures_raise) (rule working_broken)

lemma value_keeps: "ensures (working env i e A) (run_value v) (\<lambda>_. working env i e A) (broken env i e)"
  by (cases v) (simp_all add: run_value_def raise_breaks return_keeps)

lemma live_deltas_keeps:
  "ensures (working env i e A) (live_deltas e cs) (\<lambda>_. working env i e A) E"
  by (induction cs) (auto intro!: return_keeps ensures_bind live_keeps)

lemma report_stage_keeps: "ensures (working env i e A) (report_stage e stage) (\<lambda>_. working env i e A) E"
  by (simp add: report_stage_def live_keeps)

lemma report_event_keeps: "ensures (working env i e A) (report_event e a) (\<lambda>_. working env i e A) E"
  by (simp add: report_event_def live_keeps)

lemma report_events_keeps: "ensures (working env i e A) (report_events e as) (\<lambda>_. working env i e A) E"
  by (induction as) (auto intro!: return_keeps ensures_bind report_event_keeps)

lemma schedule_check_keeps:
  "ensures (working env i e A) (schedule_check env r t) (\<lambda>_. working env i e A) (broken env i e)"
  by (auto simp: ensures_def schedule_check_def broken_def intro: working_mono)
    (auto simp: working_def)

lemmas keeps = return_keeps raise_breaks value_keeps live_deltas_keeps report_stage_keeps
  report_event_keeps report_events_keeps schedule_check_keeps

definition answering :: "time option \<Rightarrow> bool" where
  "answering a \<longleftrightarrow> a \<noteq> None"

definition before_answer :: "time option \<Rightarrow> bool" where
  "before_answer a \<longleftrightarrow> a = None"

lemma in_turn_of_phase:
  "in_turn (StartAnswerGeneration e) e before_answer" "in_turn (AuthorizeAnswerRegeneration e) e answering"
  "in_turn (CompleteRun e result handoff m) e answering" "in_turn (CheckContinuation e) e A"
  "in_turn (RecordFailure e code) e A"
  by (simp_all add: answering_def before_answer_def)

lemma stopped_raise:
  "ensures (stopped env i e out) (run_raise (Exec_stopped out)) Q (broken env i e)"
  by (rule ensures_raise) (simp add: broken_def)

lemma own_failure_broken: "own_failure env i e A op x s \<Longrightarrow> broken env i e x s"
  by (auto simp: own_failure_def broken_def)

lemma start_generation_starts:
  assumes "well_behaved env i e"
  shows "ensures (working env i e before_answer) (start_generation env i e)
    (\<lambda>_. working env i e answering) (broken env i e)"
  unfolding start_generation_def
proof (rule ensures_bind)
  show "ensures (working env i e before_answer) (transact env i (StartAnswerGeneration e))
      (own_result env i e before_answer (StartAnswerGeneration e)) (broken env i e)"
    by (rule ensures_conseq [OF transact_own [OF assms in_turn_of_phase(1)]]) (auto intro: own_failure_broken)
next
  fix out
  show "ensures (own_result env i e before_answer (StartAnswerGeneration e) out)
      (case out of AnswerGenerationStarted r t \<Rightarrow> run_return (r, t) | _ \<Rightarrow> run_raise (Exec_stopped out))
      (\<lambda>_. working env i e answering) (broken env i e)"
    by (cases out) (auto simp: ensures_def run_return_def run_raise_def own_result_def broken_def stopped_def
        answering_def intro: working_mono)
qed

lemma authorize_keeps:
  assumes "well_behaved env i e"
  shows "ensures (working env i e answering) (authorize_regeneration env i e)
    (\<lambda>_. working env i e answering) (broken env i e)"
  unfolding authorize_regeneration_def
proof (rule ensures_bind)
  show "ensures (working env i e answering) (transact env i (AuthorizeAnswerRegeneration e))
      (own_result env i e answering (AuthorizeAnswerRegeneration e)) (broken env i e)"
    by (rule ensures_conseq [OF transact_own [OF assms in_turn_of_phase(2)]]) (auto intro: own_failure_broken)
next
  fix out
  show "ensures (own_result env i e answering (AuthorizeAnswerRegeneration e) out)
      (case out of Continues \<Rightarrow> run_return () | _ \<Rightarrow> run_raise (Exec_stopped out))
      (\<lambda>_. working env i e answering) (broken env i e)"
    by (cases out) (auto simp: ensures_def run_return_def run_raise_def own_result_def broken_def stopped_def)
qed

lemma attempt_answers_keeps:
  assumes "well_behaved env i e"
  shows "ensures (working env i e answering) (attempt_answers env i e finalize announce stream ns)
    (\<lambda>_. working env i e answering) (broken env i e)"
proof (induction ns)
  case Nil
  then show ?case by (simp add: raise_breaks)
next
  case (Cons n ns)
  obtain fragments outcome where stream: "stream n = (fragments, outcome)" by fastforce
  obtain res calls where draft: "generate_draft finalize (int n) fragments outcome = (res, calls)" by fastforce
  have again: "ensures (working env i e answering)
     (run_bind (authorize_regeneration env i e) (\<lambda>_.
      run_bind (live_deltas e (if announce then [DeltaReset (int n + 1)] else [])) (\<lambda>_.
      attempt_answers env i e finalize announce stream ns)))
     (\<lambda>_. working env i e answering) (broken env i e)"
    by (intro ensures_bind [OF authorize_keeps [OF assms]] ensures_bind [OF live_deltas_keeps] Cons.IH)
  show ?case
    unfolding attempt_answers.simps stream draft prod.case
  proof (rule ensures_bind [OF live_deltas_keeps])
    show "ensures (working env i e answering)
      (case res of
          Inr draft \<Rightarrow> run_return draft
        | Inl f \<Rightarrow>
            if retriable_failure f \<and> n < ANSWER_MAX_ATTEMPTS then
              run_bind (authorize_regeneration env i e) (\<lambda>_.
              run_bind (live_deltas e (if announce then [DeltaReset (int n + 1)] else [])) (\<lambda>_.
              attempt_answers env i e finalize announce stream ns))
            else run_raise (case f of FailedRaised x \<Rightarrow> Exec_raised x | _ \<Rightarrow> Exec_unavailable))
      (\<lambda>_. working env i e answering) (broken env i e)"
      using again by (cases res) (auto intro!: keeps split: attempt_failure.split simp del: live_deltas.simps)
  qed
qed

lemma generate_answer_keeps:
  assumes "well_behaved env i e"
  shows "ensures (working env i e before_answer) (generate_answer env ph i e finalize announce stream)
    (\<lambda>_. working env i e answering) (broken env i e)"
  unfolding generate_answer_def
  by (rule ensures_bind [OF start_generation_starts [OF assms]])
    (auto intro!: keeps attempt_answers_keeps [OF assms] ensures_bind [OF schedule_check_keeps]
      ensures_bind [OF report_stage_keeps])

lemma answer_directly_keeps:
  assumes "well_behaved env i e"
  shows "ensures (working env i e before_answer) (answer_directly_phase env ph i e input)
    (\<lambda>_. working env i e answering) (broken env i e)"
  unfolding answer_directly_phase_def
  by (rule ensures_bind [OF generate_answer_keeps [OF assms] value_keeps])

lemma collect_phase_keeps:
  "ensures (working env i e A) (collect_phase ph e plan) (\<lambda>_. working env i e A) (broken env i e)"
  unfolding collect_phase_def by (rule ensures_bind [OF report_events_keeps value_keeps])

lemma review_phase_keeps:
  "ensures (working env i e A) (review_phase ph e tasks as_of) (\<lambda>_. working env i e A) (broken env i e)"
  unfolding review_phase_def
  by (auto intro!: keeps ensures_bind [OF report_stage_keeps] ensures_bind [OF value_keeps]
      ensures_bind [OF report_event_keeps] split: evidence_run.split)

lemma answer_from_evidence_keeps:
  assumes "well_behaved env i e"
  shows "ensures (working env i e before_answer) (answer_from_evidence env ph i e input plan tasks run)
    (\<lambda>_. working env i e answering) (broken env i e)"
  unfolding answer_from_evidence_def
proof (rule ensures_bind [OF value_keeps], rule ensures_bind [OF generate_answer_keeps [OF assms]])
  fix evidence draft
  show "ensures (working env i e answering)
     (case assemble_evidence_result tasks run evidence draft of
       Inl DraftInvalid \<Rightarrow> run_raise Exec_draft_invalid
     | Inl (AnswerRaised x) \<Rightarrow> run_raise (Exec_raised x)
     | Inr result \<Rightarrow> run_return result)
     (\<lambda>_. working env i e answering) (broken env i e)"
    by (auto intro!: keeps split: sum.split answer_exc.split)
qed

lemma search_and_answer_keeps:
  assumes "well_behaved env i e"
  shows "ensures (working env i e before_answer) (search_and_answer env ph i e input plan)
    (\<lambda>_. working env i e answering) (broken env i e)"
  unfolding search_and_answer_def answer_while_organizing_def
  by (intro ensures_bind [OF report_stage_keeps] ensures_bind [OF collect_phase_keeps]
      ensures_bind [OF review_phase_keeps] ensures_bind [OF value_keeps]
      ensures_bind [OF answer_from_evidence_keeps [OF assms]] return_keeps)

lemma run_answering_keeps:
  assumes "well_behaved env i e"
  shows "ensures (working env i e before_answer) (run_answering env ph i e input)
    (\<lambda>_. working env i e answering) (broken env i e)"
  unfolding run_answering_def
  by (rule ensures_bind [OF report_stage_keeps])
    (auto intro!: keeps ensures_bind [OF answer_directly_keeps [OF assms]]
      ensures_bind [OF search_and_answer_keeps [OF assms]] split: plan_result.split question_plan.split)

lemma probe_once_keeps:
  assumes "well_behaved env i e"
  shows "ensures (working env i e A) (probe_once env w i e) (\<lambda>_. working env i e A) (broken env i e)"
  unfolding ensures_iff
proof (intro allI impI)
  fix s r s'
  assume "working env i e A s" and run: "probe_once env w i e s = (r, s')"
  obtain res t where t: "transact env i (CheckContinuation e) s = (res, t)" by fastforce
  note own = ensuresD [OF transact_own [OF assms in_turn_of_phase(4)] \<open>working env i e A s\<close>]
  show "case r of Inr a \<Rightarrow> working env i e A s' | Inl x \<Rightarrow> broken env i e x s'"
  proof (cases res)
    case (Inl x)
    then show ?thesis using own(2) [of x t] t run 
      by (auto simp: probe_once_def ensure_can_continue_def new_probe_def own_failure_def)
  next
    case (Inr out)
    then show ?thesis using own(1) [of out t] t run
      by (auto simp: probe_once_def ensure_can_continue_def new_probe_def own_result_def broken_def
          stopped_def split: if_splits)
  qed
qed

section \<open>The end of the attempt\<close>

lemma read_keeps:
  assumes "well_behaved env i e"
  shows "ensures (working env i e A) (read_database env f) (\<lambda>_. working env i e A) (broken env i e)"
  by (rule ensures_conseq [OF read_database_keeps [OF assms]]) (auto intro: working_broken)

lemma read_handoff_keeps:
  assumes "well_behaved env i e"
  shows "ensures (working env i e A) (read_handoff env w thread user) (\<lambda>_. working env i e A) (broken env i e)"
  unfolding read_handoff_def
  by (rule ensures_catch [where R = "\<lambda>_. working env i e A"])
    (auto intro!: return_keeps ensures_bind [where R = "\<lambda>_. working env i e A"]
      ensures_conseq [OF read_database_keeps [OF assms]])

lemma attempt_body_keeps:
  assumes "well_behaved env i e"
  shows "ensures (working env i e before_answer) (attempt_body env ph w i e user thread q)
    (\<lambda>_. working env i e answering) (broken env i e)"
  unfolding attempt_body_def
  by (intro ensures_bind [OF read_keeps [OF assms]] ensures_bind [OF read_handoff_keeps [OF assms]]
      ensures_bind [OF probe_once_keeps [OF assms]] run_answering_keeps [OF assms])

text \<open>A recorded outcome is always a valid terminal event.\<close>

lemma notify_announces:
  assumes "stopped env i e (RunFinished f) s"
  shows "\<exists>s'. notify_run_finished (\<lambda>_. e) f s = (Inr (), s') \<and> ended env i e s'"
proof -
  have ok: "db_ok (fst (exec_system s))" and q: "quiet e (exec_live s)"
    and f: "recorded (fst (exec_system s)) i f" "fin_running_attempt_epoch f = Some e"
    and at: "attempt_at i e (\<lambda>_. False) (exec_system s)"
    using assms by (auto simp: stopped_def attempt_at_def run_inv_def)
  obtain r where r: "map_of (runs (fst (exec_system s))) i = Some r" "is_finished (run_status r)"
    "run_status r = fin_status f" "run_error_code r = fin_error_code f"
    using f(1) by (auto simp: recorded_def)
  obtain st where st: "terminal_status_of (fin_status f) = Some st"
    using r(2,3) by (cases "fin_status f") (auto simp: is_finished_iff)
  have "(st = Terminal_failed) = (fin_error_code f \<noteq> None)"
    using db_okD(9) [OF ok r(1)] r st by (cases "fin_status f") (auto simp: run_constraint_def)
  then have "make_terminal (fin_status f) (fin_error_code f) = Inr (Terminal_event st (fin_error_code f))"
    using st by (simp add: make_terminal_def)
  then have run: "notify_run_finished (\<lambda>_. e) f s
      = (Inr (), s\<lparr>exec_live := exec_live s @ [(e, Live_publish (Terminal_event st (fin_error_code f)))]\<rparr>)"
    using f(2) by (simp add: notify_run_finished_def run_bind_def run_value_def run_return_def live_def)
  show ?thesis using run at q r st by (auto simp: ended_def announced_def)
qed

text \<open>What follows an outcome that stops an attempt: its notice, or nothing for a rejection.\<close>

lemma stop_ends:
  "ensures (stopped env i e out)
     (case out of RunFinished f \<Rightarrow> notify_run_finished (\<lambda>_. e) f | _ \<Rightarrow> run_return ())
     (\<lambda>_. ended env i e) E"
  unfolding ensures_def
proof (intro allI impI)
  fix s assume st: "stopped env i e out s"
  show "case (case out of RunFinished f \<Rightarrow> notify_run_finished (\<lambda>_. e) f | _ \<Rightarrow> run_return ()) s of
      (Inr a, s') \<Rightarrow> ended env i e s' | (Inl x, s') \<Rightarrow> E x s'"
  proof (cases out)
    case (RunFinished f)
    then show ?thesis using notify_announces [of env i e f s] st by auto
  qed (use st in \<open>auto simp: stopped_def ended_def run_return_def\<close>)
qed

lemma mark_failed_ends:
  assumes "well_behaved env i e"
  shows "ensures (working env i e A) (mark_failed env i e code) (\<lambda>_. ended env i e) (lost env e)"
  unfolding mark_failed_def
proof (rule ensures_bind)
  show "ensures (working env i e A) (transact env i (RecordFailure e code))
      (stopped env i e) (lost env e)"
    by (rule ensures_conseq [OF transact_own [OF assms in_turn_of_phase(5)]])
      (auto simp: own_result_def own_failure_def lost_def working_def)
qed (rule stop_ends)

lemma attempt_failed_ends:
  assumes "well_behaved env i e"
  shows "ensures (broken env i e x) (attempt_failed env i e x) (\<lambda>_. ended env i e) (lost env e)"
proof (cases x)
  case (Exec_stopped out)
  then show ?thesis using stop_ends [of env i e out "lost env e"]
    by (simp add: attempt_failed_def broken_def [abs_def])
qed (use mark_failed_ends [OF assms] in \<open>simp_all add: attempt_failed_def broken_def [abs_def]\<close>)

lemma complete_attempt_ends:
  assumes "well_behaved env i e"
  shows "ensures (working env i e answering) (complete_attempt env w i e r) (\<lambda>_. ended env i e) (lost env e)"
  unfolding complete_attempt_def
proof (rule ensures_catch [OF _ mark_failed_ends [OF assms]])
  let ?op = "\<lambda>s. CompleteRun e (final_output r) (serialize_handoff w (result_handoff r)) (env_message env (exec_count s))"
  let ?next = "\<lambda>out. case out of RunFinished f \<Rightarrow> notify_run_finished (\<lambda>_. e) f | _ \<Rightarrow> run_return ()"
  show "ensures (working env i e answering) (\<lambda>s. run_bind (transact env i (?op s)) ?next s)
     (\<lambda>_. ended env i e) (\<lambda>x. working env i e (\<lambda>_. True))"
    unfolding ensures_def
  proof (intro allI impI)
    fix s assume w: "working env i e answering s"
    have "ensures (working env i e answering) (run_bind (transact env i (?op s)) ?next)
       (\<lambda>_. ended env i e) (\<lambda>x. working env i e (\<lambda>_. True))"
    proof (rule ensures_bind)
      show "ensures (working env i e answering) (transact env i (?op s)) (stopped env i e) (\<lambda>x. working env i e (\<lambda>_. True))"
        by (rule ensures_conseq [OF transact_own [OF assms in_turn_of_phase(3)]])
          (auto simp: own_result_def own_failure_def)
    qed (rule stop_ends)
    then show "case run_bind (transact env i (?op s)) ?next s of (Inr a, s') \<Rightarrow> ended env i e s'
        | (Inl x, s') \<Rightarrow> working env i e (\<lambda>_. True) s'"
      using w by (simp add: ensures_def)
  qed
qed

lemma run_attempt_ends:
  assumes "well_behaved env i e"
  shows "ensures (working env i e before_answer) (run_attempt env ph w i e) (\<lambda>_. ended env i e) (lost env e)"
  unfolding run_attempt_def
proof (rule ensures_bind)
  show "ensures (working env i e before_answer)
     (run_catch (read_database env (\<lambda>db. read_user_question_for_run db i)) (\<lambda>_. run_return None))
     (\<lambda>_. working env i e before_answer) (lost env e)"
    by (rule ensures_catch [where R = "\<lambda>_. working env i e before_answer"])
      (auto intro!: return_keeps ensures_conseq [OF read_database_keeps [OF assms]])
next
  fix row :: "(uuid \<times> uuid \<times> user_question) option"
  let ?body = "\<lambda>user thread q.
    run_catch (run_bind (attempt_body env ph w i e user thread q) (\<lambda>r. run_return (Some r)))
      (\<lambda>x. run_bind (attempt_failed env i e x) (\<lambda>_. run_return None))"
  have body: "ensures (working env i e before_answer) (?body user thread q)
      (\<lambda>r. case r of None \<Rightarrow> ended env i e | Some _ \<Rightarrow> working env i e answering) (lost env e)" for user thread q
    by (rule ensures_catch)
      (auto intro!: ensures_return ensures_bind [OF attempt_body_keeps [OF assms]] ensures_bind [OF attempt_failed_ends [OF assms]])
  have finish: "ensures (case r of None \<Rightarrow> ended env i e | Some _ \<Rightarrow> working env i e answering)
      (case r of None \<Rightarrow> run_return () | Some result \<Rightarrow> complete_attempt env w i e result)
      (\<lambda>_. ended env i e) (lost env e)" for r
    by (cases r) (auto intro!: return_keeps complete_attempt_ends [OF assms])
  show "ensures (working env i e before_answer)
     (case row of
         None \<Rightarrow> mark_failed env i e Internal_error
       | Some (user, thread, q) \<Rightarrow>
           run_bind (live e Live_begin) (\<lambda>_. run_bind (?body user thread q)
             (\<lambda>r. case r of None \<Rightarrow> run_return () | Some result \<Rightarrow> complete_attempt env w i e result)))
     (\<lambda>_. ended env i e) (lost env e)"
    by (auto intro!: mark_failed_ends [OF assms] ensures_bind [OF live_keeps] ensures_bind [OF body finish]
        split: option.split)
qed

section \<open>Properties\<close>

definition new_exec :: "run_system \<Rightarrow> exec" where
  "new_exec sys = \<lparr>exec_system = sys, exec_count = 0, exec_live = [], exec_checks = []\<rparr>"

lemma started_working:
  assumes "reach run_start run_step (env_others env 0 sys)"
    and "transact env i StartAttempt (new_exec sys) = (Inr (AttemptStarted e), s)"
  shows "working env i e before_answer s"
proof -
  obtain db ids where sys: "env_others env 0 sys = (db, ids)" by fastforce
  have inv: "db_ok db" "keys_issued db ids" using assms(1) reached_ok reached_keys by (simp_all add: sys)
  obtain db' where run: "perform db i StartAttempt (env_now env 0) = Inr (db', AttemptStarted e)"
    and s: "s = (new_exec sys)\<lparr>exec_system := (db', ids), exec_count := 1\<rparr>"
    using assms(2) by (auto simp: transact_def sys new_exec_def Let_def split: if_splits sum.splits)
  obtain c where "op_effect db i StartAttempt (env_now env 0) db' (AttemptStarted e) c"
    using perform_case [OF inv(1) run] by blast
  then obtain r where r: "map_of (runs db) i = Some r" "run_answer_started_at r = None"
    "map_of (runs db') i = Some (r\<lparr>run_status := Running, run_attempt_epoch := e\<rparr>)"
    by (cases c) auto
  note eff = perform_effect [OF inv(1) run]
  have "run_inv (db', ids)" using eff run_effect_keys [OF eff inv(2)] by (simp add: run_inv_def run_effect_def)
  moreover have "i \<in> ids" using inv(2) r(1) by (force simp: keys_issued_def dest: map_of_SomeD)
  ultimately show ?thesis
    using r by (simp add: working_def s new_exec_def attempt_at_def before_answer_def quiet_def runs_as_def)
qed

lemma execution_ends:
  assumes "reach run_start run_step (env_others env 0 sys)" "well_behaved env i e"
    and "fst (transact env i StartAttempt (new_exec sys)) = Inr (AttemptStarted e)"
    and "execute_run_attempt env ph w i (new_exec sys) = (r, s)"
  shows "case r of Inr _ \<Rightarrow> ended env i e s | Inl x \<Rightarrow> lost env e x s"
proof -
  obtain t where t: "transact env i StartAttempt (new_exec sys) = (Inr (AttemptStarted e), t)"
    using assms(3) by (metis prod.collapse)
  then have "run_attempt env ph w i e t = (r, s)"
    using assms(4) by (simp add: execute_run_attempt_def run_bind_def)
  then show ?thesis
    using ensuresD [OF run_attempt_ends [OF assms(2)] started_working [OF assms(1) t]] by (cases r) auto
qed

text \<open>
  C5. An attempt that was started never leaves its run behind: whatever the models, the providers,
  the other transactions and the database do, when the worker returns the run no longer runs in
  this attempt (it is finished, deleted or taken over by a later one). The worker ends with an
  exception only when its last access to the database failed, so the recovery sweep is left.
\<close>

theorem attempt_settles_its_run:
  assumes "reach run_start run_step (env_others env 0 sys)" "well_behaved env i e"
    and "fst (transact env i StartAttempt (new_exec sys)) = Inr (AttemptStarted e)"
    and "execute_run_attempt env ph w i (new_exec sys) = (r, s)"
  shows "case r of
      Inr _ \<Rightarrow> \<not> runs_as (fst (exec_system s)) i e
    | Inl x \<Rightarrow> x = Exec_database \<and> env_fate env (exec_count s - 1) \<noteq> Tx_commits"
  using execution_ends [OF assms]
  by (cases r) (auto simp: ended_def lost_def attempt_at_def runs_as_def)

text \<open>
  C6. The live stream of an attempt is its own and ends once: every publication carries its epoch,
  at most one of them is a terminal event, it is the last one, and it shows the status and the
  error code with which the run is recorded as finished.
\<close>

theorem attempt_announces_one_end:
  assumes "reach run_start run_step (env_others env 0 sys)" "well_behaved env i e"
    and "fst (transact env i StartAttempt (new_exec sys)) = Inr (AttemptStarted e)"
    and "execute_run_attempt env ph w i (new_exec sys) = (r, s)"
  shows "quiet e (exec_live s)
    \<or> (\<exists>calls st row. exec_live s = calls @ [(e, Live_publish (Terminal_event st (run_error_code row)))]
         \<and> quiet e calls \<and> map_of (runs (fst (exec_system s))) i = Some row
         \<and> terminal_status_of (run_status row) = Some st)"
  using execution_ends [OF assms]
  by (cases r) (auto simp: ended_def lost_def announced_def)

text \<open>
  C7. An attempt that nobody disturbs and whose database accesses succeed always ends its run: the
  worker returns, the run is recorded as finished, and its terminal event is published, whether
  the runner answered, failed, raised or ran into the deadline.
\<close>

theorem undisturbed_attempt_finishes:
  assumes "reach run_start run_step (env_others env 0 sys)" "undisturbed env"
    and "fst (transact env i StartAttempt (new_exec sys)) = Inr (AttemptStarted e)"
    and "execute_run_attempt env ph w i (new_exec sys) = (r, s)"
  shows "r = Inr () \<and> (\<exists>row st. map_of (runs (fst (exec_system s))) i = Some row \<and> is_finished (run_status row)
      \<and> terminal_status_of (run_status row) = Some st
      \<and> last (exec_live s) = (e, Live_publish (Terminal_event st (run_error_code row))))"
proof -
  have wb: "well_behaved env i e" using assms(2) by (simp add: well_behaved_def undisturbed_def reach_start)
  obtain u where "r = Inr u" "announced i e s"
    using execution_ends [OF assms(1) wb assms(3,4)] assms(2) by (cases r) (auto simp: ended_def lost_def)
  then obtain calls st row where "exec_live s = calls @ [(e, Live_publish (Terminal_event st (run_error_code row)))]"
    "map_of (runs (fst (exec_system s))) i = Some row" "terminal_status_of (run_status row) = Some st"
    by (auto simp: announced_def)
  moreover have "is_finished (run_status row)"
    using calculation(3) by (cases "run_status row") (simp_all add: is_finished_iff)
  ultimately show ?thesis using \<open>r = Inr u\<close> by simp
qed

section \<open>A sample attempt, for the witnesses\<close>

definition sample_worker :: worker where
  "sample_worker = \<lparr>wk_iso_time = (\<lambda>_. []), wk_parse_time = (\<lambda>_. None), wk_dumps = True, wk_now = 2500\<rparr>"

text \<open>Before the fourth access another transaction deletes the thread, and the third one fails.\<close>

definition disturbed_env :: run_env where
  "disturbed_env = sample_env\<lparr>env_others := (\<lambda>k (db, ids). if k = 4 then (fst (delete_thread_for_user db 10 1), ids) else (db, ids)),
     env_fate := (\<lambda>k. if k = 3 then Tx_fails else Tx_commits)\<rparr>"

lemma disturbed_well_behaved: "well_behaved disturbed_env i e"
proof -
  have stay: "leads_to (other_step i e) sys sys" for sys by (rule reach_start) simp
  have "leads_to (other_step i e) (db, ids) (fst (delete_thread_for_user db 10 1), ids)" for db ids
    by (rule reach_step [OF stay]) (rule other_delete [where deleted = "snd (delete_thread_for_user db 10 1)"], simp)
  then show ?thesis using stay by (auto simp: well_behaved_def disturbed_env_def)
qed

lemma sample_started:
  assumes "env = sample_env \<or> env = disturbed_env"
  shows "fst (transact env 12 StartAttempt (new_exec (sample_db sample_queued 1, {10, 11, 12}))) = Inr (AttemptStarted 1)"
    and "env_others env 0 (sample_db sample_queued 1, {10, 11, 12}) = (sample_db sample_queued 1, {10, 11, 12})"
  using assms sample_start(2) [of 3000] by (auto simp: transact_def new_exec_def sample_env_def disturbed_env_def)

lemma attempt_settles_its_run_witness:
  "case fst (execute_run_attempt disturbed_env sample_phases sample_worker 12 (new_exec (sample_db sample_queued 1, {10, 11, 12}))) of
      Inr _ \<Rightarrow> \<not> runs_as (fst (exec_system (snd (execute_run_attempt disturbed_env sample_phases sample_worker 12
        (new_exec (sample_db sample_queued 1, {10, 11, 12})))))) 12 1
    | Inl x \<Rightarrow> x = Exec_database"
  using attempt_settles_its_run [OF _ disturbed_well_behaved sample_started(1) surjective_pairing,
      of sample_phases sample_worker] sample_started(2) [of disturbed_env] sample_reached
  by (auto split: sum.splits)

lemma attempt_announces_one_end_witness:
  "\<exists>s. s = snd (execute_run_attempt disturbed_env sample_phases sample_worker 12
        (new_exec (sample_db sample_queued 1, {10, 11, 12})))
     \<and> (quiet 1 (exec_live s)
        \<or> (\<exists>calls st row. exec_live s = calls @ [(1, Live_publish (Terminal_event st (run_error_code row)))]
             \<and> quiet 1 calls \<and> map_of (runs (fst (exec_system s))) 12 = Some row
             \<and> terminal_status_of (run_status row) = Some st))"
  using attempt_announces_one_end [OF _ disturbed_well_behaved sample_started(1) surjective_pairing,
      of sample_phases sample_worker] sample_started(2) [of disturbed_env] sample_reached
  by auto

lemma undisturbed_attempt_finishes_witness:
  "fst (execute_run_attempt sample_env sample_phases sample_worker 12 (new_exec (sample_db sample_queued 1, {10, 11, 12})))
     = Inr ()"
proof -
  have "undisturbed sample_env" by (simp add: undisturbed_def sample_env_def)
  then show ?thesis
    using undisturbed_attempt_finishes [OF _ _ sample_started(1) surjective_pairing,
        of sample_env sample_phases sample_worker] sample_started(2) [of sample_env] sample_reached
    by auto
qed

end
