(* ===== verification/ResearchApi.thy ===== *)
theory ResearchApi
  imports ThreadViews RunExecution AttemptSteps
begin

text \<open>
  The request handlers over the run database (\<^verbatim>\<open>agent/router.py\<close>,
  \<^verbatim>\<open>threads/detail.py\<close>, \<^verbatim>\<open>live_updates/run_reading.py\<close>) and the
  recovery by a worker (\<^verbatim>\<open>running/deadline/recovery.py\<close>), as programs over the world
  of \<^theory_text>\<open>RunWorker\<close>: other transactions run between their accesses, and an access
  may fail. Logs and metrics are left out.
\<close>

section \<open>Replies\<close>

record run_view =
  rv_run_id :: uuid
  rv_thread_id :: uuid
  rv_status :: run_status
  rv_error_code :: "run_error_code option"
  rv_attempt_epoch :: int

datatype api_body =
    No_body
  | Started_body uuid uuid
  | Daily_limit_body int time
  | Thread_list_body thread_page
  | Thread_body thread_detail
  | Run_body run_view

datatype api_header = Retry_after int | No_store

text \<open>A response of the handler, or an \<^verbatim>\<open>HTTPException\<close> with its detail.\<close>

datatype api_reply = Reply nat api_body "api_header list" | Http_exception nat "string option"

definition ACTIVE_RUN_DETAIL :: string where
  "ACTIVE_RUN_DETAIL = ''A run is already in progress for this thread''"

definition RUN_ALREADY_COMPLETED_DETAIL :: string where
  "RUN_ALREADY_COMPLETED_DETAIL = ''Run already completed''"

definition ENQUEUE_FAILED_DETAIL :: string where
  "ENQUEUE_FAILED_DETAIL = ''Failed to enqueue research run''"

section \<open>Transactions\<close>

text \<open>\<^verbatim>\<open>session.begin()\<close> around statements that give a value; an exception rolls back.\<close>

definition in_transaction :: "run_env \<Rightarrow> (run_system \<Rightarrow> time \<Rightarrow> exec_exc + run_system \<times> 'a) \<Rightarrow> 'a run_io" where
  "in_transaction env f s =
     (let k = exec_count s; sys = env_others env k (exec_system s);
          s' = s\<lparr>exec_system := sys, exec_count := k + 1\<rparr> in
      if env_fate env k = Tx_fails then (Inl Exec_database, s')
      else
        (case f sys (env_now env k) of
           Inl x \<Rightarrow> (Inl x, s')
         | Inr (sys', a) \<Rightarrow>
             (if env_fate env k = Tx_unknown then Inl Exec_database else Inr a, s'\<lparr>exec_system := sys'\<rparr>)))"

section \<open>Creating a run\<close>

text \<open>
  The request, with what the database supplies for it: the instant of the reservation statement,
  the clock at its decision, and the identifiers of the new rows.
\<close>

record creation_request =
  req_user :: uuid
  req_question :: pystr
  req_thread :: "uuid option"
  req_quota_time :: time
  req_decided_at :: time
  req_new_thread :: uuid
  req_new_message :: uuid
  req_new_run :: uuid

definition creation_ids :: "creation_request \<Rightarrow> uuid set" where
  "creation_ids q = {req_new_thread q, req_new_message q, req_new_run q}"

text \<open>The refusals are exceptions of the transaction that the handler catches; they roll back.\<close>

definition create_in_transaction :: "creation_request \<Rightarrow> run_system \<Rightarrow> time \<Rightarrow> exec_exc + run_system \<times> (create_error + created_run)" where
  "create_in_transaction q sys now =
     (case create_user_run (fst sys) (req_user q) (req_question q) (req_thread q) (req_quota_time q) now
             (req_new_thread q) (req_new_message q) (req_new_run q) of
        Inl (CreateRaised x) \<Rightarrow> Inl (Exec_raised x)
      | Inl refusal \<Rightarrow> Inr (sys, Inl refusal)
      | Inr (db', c) \<Rightarrow> Inr ((db', snd sys \<union> creation_ids q), Inr c))"

text \<open>The next midnight at \<^verbatim>\<open>Asia/Tokyo\<close>.\<close>

definition quota_reset_at :: "int \<Rightarrow> time" where
  "quota_reset_at usage_date = (usage_date + 1) * seconds 86400 - seconds (9 * 3600)"

text \<open>
  \<^verbatim>\<open>math.ceil(total_seconds())\<close>: within a day the float quotient and the exact one have
  the same ceiling.
\<close>

definition quota_retry_after :: "time \<Rightarrow> time \<Rightarrow> int" where
  "quota_retry_after reset_at decided_at = max 0 (- ((decided_at - reset_at) div seconds 1))"

definition limit_reply :: "int \<Rightarrow> time \<Rightarrow> api_reply" where
  "limit_reply usage_date decided_at =
     Reply 429 (Daily_limit_body DAILY_REQUEST_LIMIT (quota_reset_at usage_date))
       [Retry_after (quota_retry_after (quota_reset_at usage_date) decided_at), No_store]"

text \<open>The record of a failed enqueue; a reply only when the record itself fails.\<close>

definition record_failed_enqueue :: "run_env \<Rightarrow> uuid \<Rightarrow> api_reply option run_io" where
  "record_failed_enqueue env i =
     run_bind (run_catch (run_bind (transact env i RecordEnqueueFailure) (\<lambda>out. run_return (Some out)))
       (\<lambda>_. run_return None)) (\<lambda>recorded.
     case recorded of
       None \<Rightarrow> run_return (Some (Http_exception 503 (Some ENQUEUE_FAILED_DETAIL)))
     | Some (RunFinished f) \<Rightarrow> run_bind (notify_run_finished id f) (\<lambda>_. run_return None)
     | Some _ \<Rightarrow> run_return None)"

text \<open>The background task after the response; its failures are only logged.\<close>

definition reserve_check :: "run_env \<Rightarrow> uuid \<Rightarrow> time \<Rightarrow> unit run_io" where
  "reserve_check env i deadline_at s =
     (Inr (), if env_schedules env then s\<lparr>exec_checks := exec_checks s @ [(i, deadline_check_time deadline_at)]\<rparr> else s)"

definition create_research_response :: "run_env \<Rightarrow> bool \<Rightarrow> creation_request \<Rightarrow> api_reply run_io" where
  "create_research_response env enqueues q =
     run_bind (in_transaction env (create_in_transaction q)) (\<lambda>created.
     case created of
       Inl ThreadNotFound \<Rightarrow> run_return (Http_exception 404 None)
     | Inl ActiveRunConflict \<Rightarrow> run_return (Http_exception 409 (Some ACTIVE_RUN_DETAIL))
     | Inl (DailyLimitExceeded usage_date) \<Rightarrow> run_return (limit_reply usage_date (req_decided_at q))
     | Inl (CreateRaised x) \<Rightarrow> run_raise (Exec_raised x)
     | Inr c \<Rightarrow>
         run_bind (if enqueues then run_return None else record_failed_enqueue env (created_run_id c)) (\<lambda>failure.
         case failure of
           Some reply \<Rightarrow> run_return reply
         | None \<Rightarrow>
             run_bind (reserve_check env (created_run_id c) (created_deadline_at c)) (\<lambda>_.
             run_return (Reply 202 (Started_body (created_thread_id c) (created_run_id c)) []))))"

section \<open>Cancelling, deleting and reading\<close>

definition cancel_research_run :: "run_env \<Rightarrow> uuid \<Rightarrow> uuid \<Rightarrow> api_reply run_io" where
  "cancel_research_run env user i =
     run_bind (transact env i (CancelForUser user)) (\<lambda>out.
     case out of
       RunRejected r \<Rightarrow>
         run_return
           (if rej_reason r = Run_not_found then Http_exception 404 None
            else if rej_observed_status r = Some Completed then Http_exception 409 (Some RUN_ALREADY_COMPLETED_DETAIL)
            else Reply 204 No_body [])
     | RunFinished f \<Rightarrow> run_bind (notify_run_finished id f) (\<lambda>_. run_return (Reply 204 No_body []))
     | _ \<Rightarrow> run_return (Reply 204 No_body []))"

definition delete_research_thread :: "run_env \<Rightarrow> uuid \<Rightarrow> uuid \<Rightarrow> api_reply run_io" where
  "delete_research_thread env user t =
     run_bind (in_transaction env (\<lambda>sys _. case delete_thread_for_user (fst sys) t user of
         (db', deleted) \<Rightarrow> Inr ((db', snd sys), deleted))) (\<lambda>deleted.
     run_return (if deleted then Reply 204 No_body [] else Http_exception 404 None))"

definition read_run_for_user :: "run_db \<Rightarrow> uuid \<Rightarrow> uuid \<Rightarrow> run_view option" where
  "read_run_for_user db i user =
     (case map_of (runs db) i of
        None \<Rightarrow> None
      | Some r \<Rightarrow>
          if map_option thr_user_id (map_of (threads db) (run_thread_id r)) = Some user
          then Some \<lparr>rv_run_id = i, rv_thread_id = run_thread_id r, rv_status = run_status r,
                 rv_error_code = run_error_code r, rv_attempt_epoch = run_attempt_epoch r\<rparr>
          else None)"

text \<open>What the live endpoint reads: the status and the epoch of the user's own run.\<close>

definition read_live_context_for_user :: "run_db \<Rightarrow> uuid \<Rightarrow> uuid \<Rightarrow> (run_status \<times> int) option" where
  "read_live_context_for_user db i user =
     map_option (\<lambda>v. (rv_status v, rv_attempt_epoch v)) (read_run_for_user db i user)"

definition get_research_run :: "run_env \<Rightarrow> uuid \<Rightarrow> uuid \<Rightarrow> api_reply run_io" where
  "get_research_run env user i =
     run_bind (read_database env (\<lambda>db. read_run_for_user db i user)) (\<lambda>found.
     run_return (case found of None \<Rightarrow> Http_exception 404 None | Some v \<Rightarrow> Reply 200 (Run_body v) []))"

definition list_research_threads :: "run_env \<Rightarrow> uuid \<Rightarrow> pagination \<Rightarrow> api_reply run_io" where
  "list_research_threads env user p =
     run_bind (read_database env (\<lambda>db. list_threads_for_user db user p)) (\<lambda>page.
     run_return (Reply 200 (Thread_list_body page) []))"

section \<open>Recovery on reading a thread and by a worker\<close>

type_synonym notice = "uuid \<times> int \<times> stream_event"

text \<open>The publications of \<^verbatim>\<open>_notify_recovered_running\<close>; their failures are only logged.\<close>

definition recovery_notices :: "sweep_result \<Rightarrow> notice list" where
  "recovery_notices result =
     map (\<lambda>x. (exceeded_run_id x, exceeded_attempt_epoch x, Terminal_event Terminal_deadline_exceeded None))
       (running_terminal_runs result)"

text \<open>\<open>clock\<close> is what the query of the sweep reads, the instant of the access what its decision reads.\<close>

definition sweep_owned_thread ::
    "uuid \<Rightarrow> uuid \<Rightarrow> time \<Rightarrow> run_system \<Rightarrow> time \<Rightarrow> exec_exc + run_system \<times> sweep_result option" where
  "sweep_owned_thread t user clock sys now =
     (if map_option thr_user_id (map_of (threads (fst sys)) t) \<noteq> Some user then Inr (sys, None)
      else (case sweep_deadline_exceeded_runs_for_thread (fst sys) t clock now of
         Inl x \<Rightarrow> Inl (Exec_raised x)
       | Inr (db', result) \<Rightarrow> Inr ((db', snd sys), Some result)))"

text \<open>The notices are sent before the detail is read, so they stand when the read fails.\<close>

definition outcome_of :: "'a run_io \<Rightarrow> (exec_exc + 'a) run_io" where
  "outcome_of m s = (case m s of (r, s') \<Rightarrow> (Inr r, s'))"

definition read_owned_thread_detail ::
    "run_env \<Rightarrow> (pystr \<Rightarrow> pystr option) \<Rightarrow> time \<Rightarrow> uuid \<Rightarrow> uuid
       \<Rightarrow> ((exec_exc + thread_detail option) \<times> notice list) run_io" where
  "read_owned_thread_detail env web_url clock t user =
     run_bind (in_transaction env (sweep_owned_thread t user clock)) (\<lambda>swept.
     case swept of
       None \<Rightarrow> run_return (Inr None, [])
     | Some result \<Rightarrow>
         run_bind (outcome_of (run_bind (read_database env (\<lambda>db. read_thread_detail_for_user web_url db t user)) run_value))
           (\<lambda>detail. run_return (detail, recovery_notices result)))"

definition get_research_thread ::
    "run_env \<Rightarrow> (pystr \<Rightarrow> pystr option) \<Rightarrow> time \<Rightarrow> uuid \<Rightarrow> uuid
       \<Rightarrow> ((exec_exc + api_reply) \<times> notice list) run_io" where
  "get_research_thread env web_url clock user t =
     run_bind (read_owned_thread_detail env web_url clock t user) (\<lambda>(detail, notices).
     run_return
       (map_sum id (\<lambda>found. case found of None \<Rightarrow> Http_exception 404 None | Some d \<Rightarrow> Reply 200 (Thread_body d) []) detail,
        notices))"

text \<open>The periodic sweep and the scheduled check of one run, with their notices.\<close>

definition sweep_in_transaction ::
    "uuid option \<Rightarrow> time \<Rightarrow> run_system \<Rightarrow> time \<Rightarrow> exec_exc + run_system \<times> sweep_result" where
  "sweep_in_transaction run_id clock sys now =
     (case (case run_id of
              None \<Rightarrow> sweep_deadline_exceeded_runs (fst sys) clock now
            | Some i \<Rightarrow> check_agent_run_deadline (fst sys) i clock now) of
        Inl x \<Rightarrow> Inl (Exec_raised x)
      | Inr (db', result) \<Rightarrow> Inr ((db', snd sys), result))"

definition sweep_and_report_deadline_exceeded_runs :: "run_env \<Rightarrow> time \<Rightarrow> notice list run_io" where
  "sweep_and_report_deadline_exceeded_runs env clock =
     run_bind (in_transaction env (sweep_in_transaction None clock)) (\<lambda>result. run_return (recovery_notices result))"

definition check_and_report_run_deadline :: "run_env \<Rightarrow> time \<Rightarrow> uuid \<Rightarrow> notice list run_io" where
  "check_and_report_run_deadline env clock i =
     run_bind (in_transaction env (sweep_in_transaction (Some i) clock)) (\<lambda>result. run_return (recovery_notices result))"

end
