(* ===== verification/ApiProperties.thy ===== *)
theory ApiProperties
  imports ResearchApi
begin

text \<open>
  What the replies of the API tell the client: a cancelled run, a full quota, an accepted run that
  could not be enqueued, and a thread that is opened after the deadline of its run.
\<close>

section \<open>Finishing from a request\<close>

text \<open>The operations that a request makes on a run carry no epoch.\<close>

definition request_verdict :: "run_row \<Rightarrow> run_error_code \<Rightarrow> time \<Rightarrow> run_status \<times> run_error_code option" where
  "request_verdict r code now =
     (if now < recovery_deadline (state_of_run r) then (Failed, Some code) else (Deadline_exceeded, None))"

lemma request_finish:
  assumes "db_ok db" "lock_run db i owner now = Some lk"
    and "unless_rejected db lk (check_finish (lk_state lk) phases (lk_now lk)) (finish_run db lk Failed (Some code) None)
      = Inr (db', out)"
  shows "if is_finished (run_status (lk_run lk))
      then db' = db \<and> out = RunRejected \<lparr>rej_reason = Already_finished, rej_observed_status = Some (run_status (lk_run lk))\<rparr>
      else if phase (lk_state lk) \<notin> set phases
      then db' = db \<and> (\<exists>reason. out = RunRejected \<lparr>rej_reason = reason, rej_observed_status = Some (run_status (lk_run lk))\<rparr>)
      else (case request_verdict (lk_run lk) code now of (status, error) \<Rightarrow>
        out = RunFinished (finish_summary lk status error)
        \<and> runs db' = change_row i (finished_row status error None) (runs db))"
proof -
  note lk = lock_runD [OF assms(2)] and locked = lock_run_locked [OF assms(2)]
  let ?fin = "is_finished (run_status (lk_run lk))"
  have phase: "phase (lk_state lk) = Finished \<longleftrightarrow> ?fin" using lk(3) by (simp add: phase_finished_iff)
  have done_by: "out = RunFinished (finish_summary lk status error)
      \<and> runs db' = change_row i (finished_row status error None) (runs db)"
    if "\<not> ?fin" "is_finished status" "status \<noteq> Completed" "finish_run db lk status error None = Inr (db', out)" for status error
    using finish_run_result(2,6) [OF assms(1) locked that(1,2) _ that(4)] that(3) lk(1) by simp
  from assms(3) show ?thesis
  proof (cases rule: unless_rejected_cases)
    case accepted
    then have "\<not> ?fin" "phase (lk_state lk) \<in> set phases" "now < recovery_deadline (state_of_run (lk_run lk))"
      using phase lk(3,4) check_verdict [OF accepted(1) [unfolded check_finish_def]] by auto
    then show ?thesis using done_by [OF _ _ _ accepted(2)] by (simp add: request_verdict_def is_finished_iff)
  next
    case deadline
    then have "\<not> ?fin" "phase (lk_state lk) \<in> set phases" "\<not> now < recovery_deadline (state_of_run (lk_run lk))"
      using phase lk(3,4) check_verdict [OF deadline(1) [unfolded check_finish_def]] by auto
    then show ?thesis using done_by [OF _ _ _ deadline(2)] by (simp add: request_verdict_def is_finished_iff)
  next
    case (rejected reason)
    have "reason = Already_finished" if ?fin
      using rejected(1) that phase by (simp add: check_finish_def check_def Let_def)
    moreover have "phase (lk_state lk) \<notin> set phases" if "\<not> ?fin"
      using rejected(1,2) that phase by (auto simp: check_finish_def check_def Let_def split: if_splits)
    ultimately show ?thesis using rejected lk(3) by auto
  qed
qed

lemma notify_run:
  assumes "terminal_status_of (fin_status f) = Some st" "(st = Terminal_failed) = (fin_error_code f \<noteq> None)"
  shows "notify_run_finished g f s = (Inr (), s\<lparr>exec_live := exec_live s @
    (case fin_running_attempt_epoch f of None \<Rightarrow> []
     | Some e \<Rightarrow> [(g e, Live_publish (Terminal_event st (fin_error_code f)))])\<rparr>)"
  using assms by (auto simp: notify_run_finished_def make_terminal_def run_bind_def run_value_def run_return_def live_def
      split: option.split)

lemma notify_request:
  assumes "request_verdict r code now = (status, error)"
  shows "notify_run_finished id (finish_summary lk status error) s = (Inr (), s\<lparr>exec_live := exec_live s @
    (if run_status (lk_run lk) = Queued then []
     else [(run_attempt_epoch (lk_run lk), Live_publish (Terminal_event
       (if now < recovery_deadline (state_of_run r) then Terminal_failed else Terminal_deadline_exceeded) error))])\<rparr>)"
  using assms
  by (subst notify_run [where st = "if now < recovery_deadline (state_of_run r) then Terminal_failed else Terminal_deadline_exceeded"])
    (auto simp: request_verdict_def finish_summary_def split: if_splits)

section \<open>Cancelling\<close>

text \<open>
  C13. The reply to a cancellation tells what became of the run: 404 exactly when the user has no
  such run, 409 exactly when it is completed, and 204 otherwise, after which it is finished. A run
  that had already ended keeps its row. An unfinished one ends as cancelled, or as past its
  deadline when the deadline has passed, and exactly when an attempt was running its live stream
  is told so, once and with its epoch.
\<close>

theorem cancel_reply_tells_the_run:
  assumes "reach run_start run_step (db, ids)" "env_others env (exec_count s) (exec_system s) = (db, ids)"
    and "env_fate env (exec_count s) = Tx_commits"
    and "cancel_research_run env user i s = (reply, s')"
  shows "case read_run_for_user db i user of
      None \<Rightarrow> reply = Inr (Http_exception 404 None) \<and> fst (exec_system s') = db \<and> exec_live s' = exec_live s
    | Some v \<Rightarrow>
        if is_finished (rv_status v)
        then reply = Inr (if rv_status v = Completed then Http_exception 409 (Some RUN_ALREADY_COMPLETED_DETAIL)
               else Reply 204 No_body []) \<and> fst (exec_system s') = db \<and> exec_live s' = exec_live s
        else \<exists>r status code ending. map_of (runs db) i = Some r
          \<and> (status, code, ending) = (if env_now env (exec_count s) < recovery_deadline (state_of_run r)
               then (Failed, Some Cancelled, Terminal_failed) else (Deadline_exceeded, None, Terminal_deadline_exceeded))
          \<and> reply = Inr (Reply 204 No_body [])
          \<and> map_of (runs (fst (exec_system s'))) i = Some (r\<lparr>run_status := status, run_error_code := code\<rparr>)
          \<and> exec_live s' = exec_live s @ (if run_status r = Queued then []
               else [(run_attempt_epoch r, Live_publish (Terminal_event ending code))])"
proof -
  note ok = reached_ok [OF assms(1)]
  let ?now = "env_now env (exec_count s)"
  show ?thesis
  proof (cases "lock_run db i (Some user) ?now")
    case None
    then have "read_run_for_user db i user = None"
      by (auto simp: lock_run_def read_run_for_user_def split: option.splits if_splits)
    moreover have "reply = Inr (Http_exception 404 None) \<and> fst (exec_system s') = db \<and> exec_live s' = exec_live s"
      using assms(2-4) None
      by (auto simp: cancel_research_run_def transact_def run_bind_def run_return_def cancel_for_user_def NOT_FOUND_def)
    ultimately show ?thesis by simp
  next
    case (Some lk)
    note lk = lock_runD [OF Some]
    let ?r = "lk_run lk"
    have view: "read_run_for_user db i user = Some \<lparr>rv_run_id = i, rv_thread_id = run_thread_id ?r,
        rv_status = run_status ?r, rv_error_code = run_error_code ?r, rv_attempt_epoch = run_attempt_epoch ?r\<rparr>"
      using lk(2,5) lk(6) [OF refl] by (simp add: read_run_for_user_def)
    obtain db' out where run: "perform db i (CancelForUser user) ?now = Inr (db', out)"
      using perform_total [OF ok, of "CancelForUser user" i ?now] by auto
    note cases = request_finish [OF ok Some run [unfolded perform.simps cancel_for_user_def Some option.case]]
    have phases: "phase (lk_state lk) \<in> set [Phase_queued, Preparing, Answering]" if "\<not> is_finished (run_status ?r)"
      using that lk(3) by (cases "phase (lk_state lk)") (auto simp: phase_finished_iff)
    have step: "transact env i (CancelForUser user) s
        = (Inr out, s\<lparr>exec_system := (db', ids), exec_count := exec_count s + 1\<rparr>)"
      using assms(2,3) run by (simp add: transact_def Let_def)
    show ?thesis
    proof (cases "is_finished (run_status ?r)")
      case True
      then show ?thesis
        using cases assms(4) by (auto simp: view cancel_research_run_def run_bind_def step run_return_def)
    next
      case False
      obtain status error where verdict: "request_verdict ?r Cancelled ?now = (status, error)" by fastforce
      have "case request_verdict ?r Cancelled ?now of (status, error) \<Rightarrow>
          out = RunFinished (finish_summary lk status error) \<and> runs db' = change_row i (finished_row status error None) (runs db)"
        using cases phases [OF False] False by (simp only: if_False not_not simp_thms)
      then have fin: "out = RunFinished (finish_summary lk status error)"
        "runs db' = change_row i (finished_row status error None) (runs db)"
        by (simp_all only: verdict prod.case)
      have "reply = Inr (Reply 204 No_body [])" "exec_system s' = (db', ids)"
        "exec_live s' = exec_live s @ (if run_status ?r = Queued then []
           else [(run_attempt_epoch ?r, Live_publish (Terminal_event
             (if ?now < recovery_deadline (state_of_run ?r) then Terminal_failed else Terminal_deadline_exceeded) error))])"
        using assms(4) fin(1) by (auto simp: cancel_research_run_def run_bind_def step run_return_def notify_request [OF verdict])
      moreover have "map_of (runs db') i = Some (?r\<lparr>run_status := status, run_error_code := error\<rparr>)"
        using fin(2) lk(2) active_no_error [OF ok lk(2) False] by (cases error) (simp_all add: map_of_change_row)
      ultimately show ?thesis
        using False lk(2) verdict by (auto simp: view request_verdict_def split: if_splits)
    qed
  qed
qed

section \<open>Creating\<close>

lemma refused_creation:
  assumes "db_ok db" "question \<noteq> []" "nt \<notin> fst ` set (threads db)" "nm \<notin> fst ` set (messages db)"
    "nr \<notin> fst ` set (runs db)"
    and "create_user_run db user question tid qt now nt nm nr = Inl e"
  shows "case e of CreateRaised x \<Rightarrow> False
    | DailyLimitExceeded d \<Rightarrow> d = jst_date qt \<and> used (quotas db) (user, d) = DAILY_REQUEST_LIMIT | _ \<Rightarrow> True"
proof (cases "resolve_thread db user question tid nt now")
  case (Inl e')
  then show ?thesis using assms(2,3,6)
    by (auto simp: create_user_run_def resolve_thread_def insert_thread_def thread_constraint_def split: option.splits if_splits)
next
  case (Inr x)
  obtain db1 t n where x: "x = (db1, t, n)" by (cases x) auto
  note r = Inr [unfolded x]
  note a = resolve_thread_ok [OF assms(1) r]
  show ?thesis
  proof (cases "reserve_daily_quota (quotas db1) user qt")
    case (Inl e')
    then show ?thesis
      using r reserve_refused_iff [OF db_okD(5) [OF assms(1)], of user qt] a(5) assms(6)
      by (cases e') (auto simp: create_user_run_def reserve_daily_quota_def Let_def split: option.splits if_splits)
  next
    case (Inr y)
    then obtain q' resv where "reserve_daily_quota (quotas db1) user qt = Inr (q', resv)" by (cases y) auto
    from create_after_reservation [OF assms(1) r this assms(2,4,5)] show ?thesis using assms(6) by auto
  qed
qed

text \<open>The first access of the creation, with every reply but the acceptance.\<close>

lemma creation_access:
  assumes "run_inv (db, ids)" "env_others env (exec_count s) (exec_system s) = (db, ids)"
    and "req_question q \<noteq> []" "creation_ids q \<inter> ids = {}"
    and "create_research_response env enqueues q s = (reply, s')"
  shows "(\<exists>refusal. reply = Inr refusal \<and> fst (exec_system s') = db \<and> exec_live s' = exec_live s
        \<and> refusal \<in> {Http_exception 404 None, Http_exception 409 (Some ACTIVE_RUN_DETAIL),
            limit_reply (jst_date (req_quota_time q)) (req_decided_at q)}
        \<and> (refusal = limit_reply (jst_date (req_quota_time q)) (req_decided_at q) \<longrightarrow>
            used (quotas db) (req_user q, jst_date (req_quota_time q)) = DAILY_REQUEST_LIMIT))
    \<or> reply = Inl Exec_database \<and> env_fate env (exec_count s) \<noteq> Tx_commits
    \<or> (\<exists>db1 c. create_user_run db (req_user q) (req_question q) (req_thread q) (req_quota_time q)
          (env_now env (exec_count s)) (req_new_thread q) (req_new_message q) (req_new_run q) = Inr (db1, c)
        \<and> (run_bind (if enqueues then run_return None else record_failed_enqueue env (created_run_id c)) (\<lambda>failure.
             case failure of
               Some reply \<Rightarrow> run_return reply
             | None \<Rightarrow> run_bind (reserve_check env (created_run_id c) (created_deadline_at c)) (\<lambda>_.
                 run_return (Reply 202 (Started_body (created_thread_id c) (created_run_id c)) []))))
           (s\<lparr>exec_system := (db1, ids \<union> creation_ids q), exec_count := exec_count s + 1\<rparr>) = (reply, s'))"
proof -
  have ok: "db_ok db" using assms(1) by (simp add: run_inv_def)
  let ?create = "create_user_run db (req_user q) (req_question q) (req_thread q) (req_quota_time q)
          (env_now env (exec_count s)) (req_new_thread q) (req_new_message q) (req_new_run q)"
  have fresh: "req_new_thread q \<notin> fst ` set (threads db)" "req_new_message q \<notin> fst ` set (messages db)"
    "req_new_run q \<notin> fst ` set (runs db)"
    using assms(1,4) by (auto simp: run_inv_def keys_issued_def creation_ids_def)
  show ?thesis
  proof (cases "env_fate env (exec_count s) = Tx_commits")
    case False
    then consider "env_fate env (exec_count s) = Tx_fails" | "env_fate env (exec_count s) = Tx_unknown"
      by (cases "env_fate env (exec_count s)") auto
    then show ?thesis
    proof cases
      case 1
      then show ?thesis
        using assms(2,5) by (simp add: create_research_response_def run_bind_def in_transaction_def Let_def)
    next
      case 2
      then show ?thesis
        using assms(2,5) refused_creation [OF ok assms(3) fresh, of "req_user q" "req_thread q" "req_quota_time q" "env_now env (exec_count s)"]
        by (cases ?create) (auto simp: create_research_response_def run_bind_def in_transaction_def Let_def
            create_in_transaction_def run_return_def limit_reply_def split: create_error.splits)
    qed
  next
    case True
    show ?thesis
    proof (cases ?create)
      case (Inl refusal)
      then show ?thesis
        using True assms(2,5) refused_creation [OF ok assms(3) fresh Inl]
        by (cases refusal) (auto simp: create_research_response_def run_bind_def in_transaction_def Let_def
            create_in_transaction_def run_return_def limit_reply_def)
    next
      case (Inr x)
      obtain db1 c where x: "x = (db1, c)" by fastforce
      have step: "in_transaction env (create_in_transaction q) s
          = (Inr (Inr c), s\<lparr>exec_system := (db1, ids \<union> creation_ids q), exec_count := exec_count s + 1\<rparr>)"
        using True assms(2) Inr x by (simp add: in_transaction_def Let_def create_in_transaction_def)
      note assms(5) [unfolded create_research_response_def run_bind_def [of "in_transaction env (create_in_transaction q)"]
          step prod.case sum.case]
      then show ?thesis using Inr x by blast
    qed
  qed
qed

lemma quota_seconds:
  "seconds 86400 = 86400000000" "seconds (9 * 3600) = 32400000000" "seconds 1 = 1000000"
  by (simp_all add: seconds_def)

lemma div_bounds:
  assumes "0 < (m :: int)"
  shows "m * (x div m) \<le> x" "x < m * (x div m) + m"
  using pos_mod_bound [OF assms, of x] pos_mod_sign [OF assms, of x] mult_div_mod_eq [of m x] by linarith+

lemma jst_bounds: "86400000000 * jst_date t \<le> t + 32400000000" "t + 32400000000 < 86400000000 * jst_date t + 86400000000"
  unfolding jst_date_def quota_seconds by (rule div_bounds; simp)+

lemma instant_of_day: "jst_date t \<le> d \<longleftrightarrow> t < quota_reset_at d"
proof
  assume "jst_date t \<le> d"
  then show "t < quota_reset_at d" unfolding quota_reset_at_def quota_seconds distrib_right using jst_bounds [of t] by linarith
next
  assume "t < quota_reset_at d"
  then show "jst_date t \<le> d" unfolding quota_reset_at_def quota_seconds distrib_right using jst_bounds [of t] by linarith
qed

lemma retry_bounds:
  "reset \<le> t + seconds (quota_retry_after reset t)" "0 \<le> quota_retry_after reset t"
  "t < reset \<Longrightarrow> t + seconds (quota_retry_after reset t) < reset + seconds 1"
  "reset \<le> t + seconds n \<Longrightarrow> 0 \<le> n \<Longrightarrow> quota_retry_after reset t \<le> n"
proof -
  define z where "z = (t - reset) div 1000000"
  have n: "quota_retry_after reset t = max 0 (- z)" by (simp add: quota_retry_after_def quota_seconds z_def)
  have "1000000 * z \<le> t - reset" "t - reset < 1000000 * z + 1000000"
    using div_bounds [of 1000000 "t - reset"] by (simp_all add: z_def)
  then show "reset \<le> t + seconds (quota_retry_after reset t)" "0 \<le> quota_retry_after reset t"
    "t < reset \<Longrightarrow> t + seconds (quota_retry_after reset t) < reset + seconds 1"
    "reset \<le> t + seconds n \<Longrightarrow> 0 \<le> n \<Longrightarrow> quota_retry_after reset t \<le> n"
    unfolding n seconds_def by linarith+
qed

lemma failed_enqueue_reply:
  "record_failed_enqueue env i s = (Inr (Some reply), s') \<Longrightarrow> reply = Http_exception 503 (Some ENQUEUE_FAILED_DETAIL)"
  by (auto simp: record_failed_enqueue_def run_bind_def run_catch_def run_return_def
      split: sum.splits prod.splits option.splits run_outcome.splits)

lemma accepted_replies:
  assumes "run_bind (if enqueues then run_return None else record_failed_enqueue env i) (\<lambda>failure.
      case failure of
        Some reply \<Rightarrow> run_return reply
      | None \<Rightarrow> run_bind (reserve_check env i deadline_at) (\<lambda>_. run_return (Reply 202 body []))) s = (Inr reply, s')"
  shows "reply = Reply 202 body [] \<or> reply = Http_exception 503 (Some ENQUEUE_FAILED_DETAIL)"
  using assms failed_enqueue_reply [of env i s]
  by (fastforce simp: run_bind_def run_return_def reserve_check_def split: if_splits sum.splits prod.splits option.splits)

text \<open>
  C16. A user whose requests of the day are used up is told when to come back: the reset of the
  reply is the first instant of the next day in Japan, and waiting for the seconds of
  \<^verbatim>\<open>Retry-After\<close>, at most a day, reaches it and overshoots it by less than a second.
  The reply is given only when the counter of the day stands at ten, and nothing is written.
\<close>

theorem full_quota_tells_when_to_return:
  assumes "reach run_start run_step (db, ids)" "env_others env (exec_count s) (exec_system s) = (db, ids)"
    and "req_question q \<noteq> []" "creation_ids q \<inter> ids = {}"
    and "req_quota_time q \<le> req_decided_at q"
    and "create_research_response env enqueues q s = (Inr (Reply 429 body headers), s')"
  shows "\<exists>reset n. body = Daily_limit_body 10 reset \<and> headers = [Retry_after n, No_store]
    \<and> used (quotas db) (req_user q, jst_date (req_quota_time q)) = 10 \<and> fst (exec_system s') = db
    \<and> (\<forall>t. jst_date t \<le> jst_date (req_quota_time q) \<longleftrightarrow> t < reset)
    \<and> 0 \<le> n \<and> n \<le> 86400 \<and> reset \<le> req_decided_at q + seconds n
    \<and> (req_decided_at q < reset \<longrightarrow> req_decided_at q + seconds n < reset + seconds 1)"
proof -
  let ?d = "jst_date (req_quota_time q)" and ?t = "req_decided_at q"
  let ?reset = "quota_reset_at ?d"
  have refused: "Reply 429 body headers = limit_reply ?d ?t" "fst (exec_system s') = db"
    "used (quotas db) (req_user q, ?d) = DAILY_REQUEST_LIMIT"
    using creation_access [OF reach_inv_pair [OF assms(1)] assms(2-4,6)] by (auto dest: accepted_replies)
  have "?reset \<le> req_quota_time q + seconds 86400"
    unfolding quota_reset_at_def quota_seconds distrib_right using jst_bounds [of "req_quota_time q"] by linarith
  then have wait: "0 \<le> quota_retry_after ?reset ?t" "quota_retry_after ?reset ?t \<le> 86400"
    "?reset \<le> ?t + seconds (quota_retry_after ?reset ?t)"
    "?t < ?reset \<longrightarrow> ?t + seconds (quota_retry_after ?reset ?t) < ?reset + seconds 1"
    using assms(5) by (auto intro: retry_bounds)
  show ?thesis
    using refused wait instant_of_day by (auto simp: limit_reply_def DAILY_REQUEST_LIMIT_def)
qed

section \<open>A run that could not be enqueued\<close>

lemma failed_enqueue:
  assumes "env_others env (exec_count s) (exec_system s) = (db, ids)" "db_ok db"
    and "record_failed_enqueue env i s = (r, s')"
  shows "r = Inr (Some (Http_exception 503 (Some ENQUEUE_FAILED_DETAIL))) \<and> env_fate env (exec_count s) \<noteq> Tx_commits
    \<or> r = Inr None \<and> env_fate env (exec_count s) = Tx_commits \<and> exec_live s' = exec_live s
      \<and> exec_checks s' = exec_checks s
      \<and> (\<exists>out. perform db i RecordEnqueueFailure (env_now env (exec_count s)) = Inr (fst (exec_system s'), out))
      \<and> (\<forall>row. map_of (runs (fst (exec_system s'))) i = Some row \<longrightarrow> run_status row \<noteq> Queued)
      \<and> (\<forall>row. map_of (runs db) i = Some row \<and> run_status row = Queued \<longrightarrow>
           (case request_verdict row Enqueue_failed (env_now env (exec_count s)) of (status, error) \<Rightarrow>
             map_of (runs (fst (exec_system s'))) i = Some (row\<lparr>run_status := status, run_error_code := error\<rparr>)))"
proof -
  let ?now = "env_now env (exec_count s)"
  obtain db' out where run: "perform db i RecordEnqueueFailure ?now = Inr (db', out)"
    using perform_total [OF assms(2), of RecordEnqueueFailure i ?now] by auto
  show ?thesis
  proof (cases "env_fate env (exec_count s) = Tx_commits")
    case False
    then show ?thesis
      using assms(1,3) run
      by (cases "env_fate env (exec_count s)")
        (auto simp: record_failed_enqueue_def run_bind_def run_catch_def run_return_def transact_def Let_def)
  next
    case True
    let ?s = "s\<lparr>exec_system := (db', ids), exec_count := exec_count s + 1\<rparr>"
    have step: "transact env i RecordEnqueueFailure s = (Inr out, ?s)"
      using assms(1) True run by (simp add: transact_def Let_def)
    have recorded: "record_failed_enqueue env i s = (case out of
        RunFinished f \<Rightarrow> run_bind (notify_run_finished id f) (\<lambda>_. run_return None) ?s | _ \<Rightarrow> (Inr None, ?s))"
      by (auto simp: record_failed_enqueue_def run_bind_def [of "run_catch _ _"] run_bind_def [of "transact _ _ _"]
          run_catch_def step run_return_def split: run_outcome.split)
    show ?thesis
    proof (cases "lock_run db i None ?now")
      case None
      have "map_of (runs db) i = None"
      proof (rule ccontr)
        assume "map_of (runs db) i \<noteq> None"
        then obtain row where row: "map_of (runs db) i = Some row" by blast
        then obtain t where "map_of (threads db) (run_thread_id row) = Some t"
          using run_threads [OF assms(2) map_of_SomeD [OF row]] weak_map_of_SomeI by force
        then show False using None row by (simp add: lock_run_def)
      qed
      then show ?thesis
        using None run recorded assms(3) True by (auto simp: record_enqueue_failure_def NOT_FOUND_def)
    next
      case (Some lk)
      note lk = lock_runD [OF Some]
      note cases = request_finish [OF assms(2) Some run [unfolded perform.simps record_enqueue_failure_def Some option.case]]
      show ?thesis
      proof (cases "run_status (lk_run lk) = Queued")
        case False
        then have "phase (lk_state lk) \<notin> set [Phase_queued]" using lk(3) by (simp add: queued_phase)
        then have "db' = db" "\<exists>rej. out = RunRejected rej" using cases by (auto split: if_splits)
        then show ?thesis using run recorded assms(3) True lk(2) False by auto
      next
        case queued: True
        obtain status error where verdict: "request_verdict (lk_run lk) Enqueue_failed ?now = (status, error)" by fastforce
        have "phase (lk_state lk) \<in> set [Phase_queued]" "\<not> is_finished (run_status (lk_run lk))"
          using queued lk(3) by (simp_all add: queued_phase is_finished_iff)
        with cases have "case request_verdict (lk_run lk) Enqueue_failed ?now of (status, error) \<Rightarrow>
            out = RunFinished (finish_summary lk status error) \<and> runs db' = change_row i (finished_row status error None) (runs db)"
          by (simp only: if_False not_not simp_thms)
        then have fin: "out = RunFinished (finish_summary lk status error)"
          "runs db' = change_row i (finished_row status error None) (runs db)"
          by (simp_all only: verdict prod.case)
        have "map_of (runs db') i = Some ((lk_run lk)\<lparr>run_status := status, run_error_code := error\<rparr>)"
          using fin(2) lk(2) active_no_error [OF assms(2) lk(2) \<open>\<not> is_finished _\<close>]
          by (cases error) (simp_all add: map_of_change_row)
        moreover have "status \<noteq> Queued" using verdict by (auto simp: request_verdict_def split: if_splits)
        moreover have "(r, s') = (Inr None, ?s)"
          using assms(3) recorded queued by (simp add: fin(1) run_bind_def notify_request [OF verdict] run_return_def)
        ultimately show ?thesis using run True lk(2) verdict by auto
      qed
    qed
  qed
qed

text \<open>
  C12. An accepted run never waits for a message that was not sent. The reply 202 names the new run,
  and either its message was handed to the queue or the run no longer waits: it was recorded as
  failed, or something else has started, finished or deleted it. The reply 503 is given only when
  the message was not handed over and the record of it failed as well; every other reply refuses
  the request and writes nothing; and an exception means that the first access failed.
\<close>

theorem accepted_run_is_enqueued_or_settled:
  assumes "reach run_start run_step (db, ids)" "env_others env (exec_count s) (exec_system s) = (db, ids)"
    and "\<forall>sys. leads_to run_step sys (env_others env (exec_count s + 1) sys)"
    and "req_question q \<noteq> []" "creation_ids q \<inter> ids = {}"
    and "create_research_response env enqueues q s = (reply, s')"
  shows "(\<forall>body headers. reply = Inr (Reply 202 body headers) \<longrightarrow> (\<exists>t. body = Started_body t (req_new_run q))
        \<and> (enqueues \<or> (\<forall>row. map_of (runs (fst (exec_system s'))) (req_new_run q) = Some row \<longrightarrow> run_status row \<noteq> Queued))
        \<and> (env_schedules env \<longrightarrow> last (exec_checks s')
             = (req_new_run q, deadline_check_time (env_now env (exec_count s) + seconds 60))))
    \<and> (\<forall>detail. reply = Inr (Http_exception 503 detail) \<longrightarrow> \<not> enqueues \<and> env_fate env (exec_count s + 1) \<noteq> Tx_commits)
    \<and> (\<forall>refusal. reply = Inr refusal \<and> (\<forall>body headers detail.
           refusal \<notin> {Reply 202 body headers, Http_exception 503 detail}) \<longrightarrow>
         fst (exec_system s') = db \<and> exec_live s' = exec_live s)
    \<and> (\<forall>x. reply = Inl x \<longrightarrow> x = Exec_database \<and> env_fate env (exec_count s) \<noteq> Tx_commits)"
proof -
  have inv: "run_inv (db, ids)" using reach_inv_pair [OF assms(1)] .
  let ?now = "env_now env (exec_count s)"
  from creation_access [OF inv assms(2,4-6)] show ?thesis
  proof (elim disjE exE conjE)
    fix db1 c
    let ?s = "s\<lparr>exec_system := (db1, ids \<union> creation_ids q), exec_count := exec_count s + 1\<rparr>"
    assume create: "create_user_run db (req_user q) (req_question q) (req_thread q) (req_quota_time q) ?now
        (req_new_thread q) (req_new_message q) (req_new_run q) = Inr (db1, c)"
      and rest: "run_bind (if enqueues then run_return None else record_failed_enqueue env (created_run_id c)) (\<lambda>failure.
             case failure of
               Some reply \<Rightarrow> run_return reply
             | None \<Rightarrow> run_bind (reserve_check env (created_run_id c) (created_deadline_at c)) (\<lambda>_.
                 run_return (Reply 202 (Started_body (created_thread_id c) (created_run_id c)) []))) ?s = (reply, s')"
    have "db_ok db" using inv by (simp add: run_inv_def)
    note created = create_user_run_ok(6) [OF this create]
    have c: "created_run_id c = req_new_run q" "created_deadline_at c = ?now + seconds 60"
      using arg_cong [OF created, of created_run_id] arg_cong [OF created, of created_deadline_at]
      by (simp_all add: deadline_for_run_def)
    have "run_step (db, ids) (db1, ids \<union> creation_ids q)"
      unfolding creation_ids_def by (rule step_create [OF create]) (use assms(5) in \<open>auto simp: creation_ids_def\<close>)
    then have "run_inv (db1, ids \<union> creation_ids q)" using run_step_effect inv by blast
    then have "run_inv (env_others env (exec_count s + 1) (db1, ids \<union> creation_ids q))"
      using run_sys.leads_to_inv assms(3) by blast
    then obtain db2 ids2 where others: "env_others env (exec_count ?s) (exec_system ?s) = (db2, ids2)" "db_ok db2"
      by (cases "env_others env (exec_count s + 1) (db1, ids \<union> creation_ids q)") (auto simp: run_inv_def)
    show ?thesis
    proof (cases enqueues)
      case True
      then show ?thesis using rest c by (auto simp: run_bind_def run_return_def reserve_check_def)
    next
      case False
      obtain r t where t: "record_failed_enqueue env (created_run_id c) ?s = (r, t)" by fastforce
      from failed_enqueue [OF others this] show ?thesis
      proof (elim disjE conjE)
        assume "r = Inr (Some (Http_exception 503 (Some ENQUEUE_FAILED_DETAIL)))" "env_fate env (exec_count ?s) \<noteq> Tx_commits"
        then show ?thesis using rest t False by (auto simp: run_bind_def run_return_def)
      next
        assume "r = Inr None" "\<forall>row. map_of (runs (fst (exec_system t))) (created_run_id c) = Some row \<longrightarrow> run_status row \<noteq> Queued"
        then show ?thesis using rest t False c by (auto simp: run_bind_def run_return_def reserve_check_def split: if_splits)
      qed
    qed
  qed (auto simp: limit_reply_def)
qed

text \<open>
  C15. A request whose run cannot be enqueued costs nothing: when nothing else happens in between,
  the run is recorded as failed with the code of a failed enqueue, and the counters of the daily
  quota are what they were before the request.
\<close>

theorem failed_enqueue_gives_the_request_back:
  assumes "reach run_start run_step (db, ids)" "env_others env (exec_count s) (exec_system s) = (db, ids)"
    and "\<forall>sys. env_others env (exec_count s + 1) sys = sys"
    and "env_fate env (exec_count s) = Tx_commits" "env_fate env (exec_count s + 1) = Tx_commits"
    and "env_now env (exec_count s + 1) < env_now env (exec_count s) + seconds 60"
    and "req_question q \<noteq> []" "creation_ids q \<inter> ids = {}"
    and "create_research_response env False q s = (Inr (Reply 202 body headers), s')"
  shows "\<exists>t row. body = Started_body t (req_new_run q)
    \<and> map_of (runs (fst (exec_system s'))) (req_new_run q) = Some row
    \<and> run_status row = Failed \<and> run_error_code row = Some Enqueue_failed
    \<and> used (quotas (fst (exec_system s'))) = used (quotas db) \<and> exec_live s' = exec_live s"
proof -
  have inv: "run_inv (db, ids)" using reach_inv_pair [OF assms(1)] .
  then have ok: "db_ok db" by (simp add: run_inv_def)
  let ?now = "env_now env (exec_count s)" and ?i = "req_new_run q" and ?day = "jst_date (req_quota_time q)"
  obtain db1 c where create: "create_user_run db (req_user q) (req_question q) (req_thread q) (req_quota_time q) ?now
        (req_new_thread q) (req_new_message q) ?i = Inr (db1, c)"
      and rest: "run_bind (record_failed_enqueue env (created_run_id c)) (\<lambda>failure.
             case failure of
               Some reply \<Rightarrow> run_return reply
             | None \<Rightarrow> run_bind (reserve_check env (created_run_id c) (created_deadline_at c)) (\<lambda>_.
                 run_return (Reply 202 (Started_body (created_thread_id c) (created_run_id c)) [])))
           (s\<lparr>exec_system := (db1, ids \<union> creation_ids q), exec_count := exec_count s + 1\<rparr>) = (Inr (Reply 202 body headers), s')"
    using creation_access [OF inv assms(2,7,8,9)] by (auto simp: limit_reply_def)
  note created = create_user_run_ok [OF ok create]
  have c: "created_run_id c = ?i" using arg_cong [OF created(6), of created_run_id] by simp
  let ?row = "queued_row (created_thread_id c) (req_new_message q) ?now ?day"
  let ?s = "s\<lparr>exec_system := (db1, ids \<union> creation_ids q), exec_count := exec_count s + 1\<rparr>"
  have "?i \<notin> fst ` set (runs db)" using inv assms(8) by (auto simp: run_inv_def keys_issued_def creation_ids_def)
  then have row: "map_of (runs db1) ?i = Some ?row"
    unfolding created(2) by (simp add: map_add_def iffD2 [OF map_of_eq_None_iff])
  have verdict: "request_verdict ?row Enqueue_failed (env_now env (exec_count s + 1)) = (Failed, Some Enqueue_failed)"
    using assms(6) by (simp add: request_verdict_def recovery_deadline_def state_of_run_def deadline_for_run_def)
  obtain r t where t: "record_failed_enqueue env (created_run_id c) ?s = (r, t)" by fastforce
  have others: "env_others env (exec_count ?s) (exec_system ?s) = (db1, ids \<union> creation_ids q)" using assms(3) by simp
  from failed_enqueue [OF others created(1) t] assms(5) obtain out where
    rec: "r = Inr None" "exec_live t = exec_live s" "perform db1 ?i RecordEnqueueFailure (env_now env (exec_count s + 1)) = Inr (fst (exec_system t), out)"
    "map_of (runs (fst (exec_system t))) ?i = Some (?row\<lparr>run_status := Failed, run_error_code := Some Enqueue_failed\<rparr>)"
    using row verdict by (auto simp: c)
  obtain how where "op_effect db1 ?i RecordEnqueueFailure (env_now env (exec_count s + 1)) (fst (exec_system t)) out how"
    using perform_case [OF created(1) rec(3)] by blast
  then have "\<exists>f. out = RunFinished f" using row rec(4) by (cases how) auto
  then obtain f where f: "out = RunFinished f" by blast
  obtain lk where lk: "lk_id lk = ?i" "locked db1 lk" "settled db1 lk (fst (exec_system t)) f"
    using perform_settled [OF created(1) rec(3) [unfolded f]] by blast
  have run: "lk_run lk = ?row" using lk(1,2) row by (simp add: locked_def)
  have "lk_user lk = req_user q" using lk(2) created(7) unfolding locked_def run run_row.select_convs by simp
  note lk_row = run this
  then have "used (quotas (fst (exec_system t))) = used (quotas db)"
    using lk(3) created(5) lk_row by (auto simp: settled_def fun_eq_iff)
  then show ?thesis
    using rest rec t c by (auto simp: run_bind_def run_return_def reserve_check_def)
qed

section \<open>Opening a thread\<close>

lemma swept_rows:
  assumes "db_ok db" "clock \<le> now"
  shows "\<exists>q. sweep_deadline_exceeded_runs_for_thread db t clock now
      = Inr (db\<lparr>runs := sweep_rows (selects (Some t) None clock) (runs db), quotas := q\<rparr>,
          sweep_summary (lock_runs_for_deadline_recovery db (Some t) None clock))"
proof -
  have "list_all (\<lambda>c. is_due_for_deadline_recovery (cand_state c) now) (lock_runs_for_deadline_recovery db (Some t) None clock)"
    using candidate_row_ok(3) [OF assms(1)] due_mono [OF _ assms(2)] by (auto simp: list_all_iff)
  from recover_total [OF assms(1) this] show ?thesis by (auto simp: sweep_deadline_exceeded_runs_for_thread_def)
qed

lemma swept_not_due:
  assumes "db_ok db" "map_of (sweep_rows (selects (Some t) None clock) (runs db)) i = Some r" "run_thread_id r = t"
    and "run_status r \<in> {Queued, Running}"
  shows "clock < recovery_deadline (state_of_run r)"
proof -
  obtain x where x: "map_of (runs db) i = Some x"
    "r = (if selects (Some t) None clock i x then x\<lparr>run_status := Deadline_exceeded\<rparr> else x)"
    using assms(2) by (auto simp: map_of_sweep_rows)
  then have "r = x" "\<not> selects (Some t) None clock i x" using assms(4) by (auto split: if_splits)
  then have "\<not> is_due_for_deadline_recovery (state_of_run r) clock"
    using db_okD(8) [OF assms(1) x(1)] assms(3) reached_iff_due [of r clock]
    unfolding selects_def row_ok_def by (metis not_one_le_zero option.exhaust)
  then show ?thesis
    using assms(4) by (auto simp: is_due_for_deadline_recovery_def phase_finished_iff is_finished_iff)
qed

lemma shown_run:
  assumes "db_ok db" "list_all2 (\<lambda>x v. message_response web_url (runs_by_user_message db t users) sources_by x = Inr v) ms vs"
    and "View_user n content i status code \<in> set vs"
  shows "\<exists>r. map_of (runs db) i = Some r \<and> run_thread_id r = t \<and> run_status r = status"
proof -
  obtain k where k: "k < length vs" "vs ! k = View_user n content i status code" using assms(3) by (auto simp: in_set_conv_nth)
  obtain m row where "ms ! k = (m, row)" by fastforce
  then have v: "message_response web_url (runs_by_user_message db t users) sources_by (m, row) = Inr (View_user n content i status code)"
    using list_all2_nthD2 [OF assms(2) k(1)] k(2) by simp
  then obtain r where r: "runs_by_user_message db t users m = Some (i, r)" "run_status r = status"
    using response_fields(2,3) [OF v] by (cases "msg_role row") auto
  then have "(i, r) \<in> set (runs db)" "run_thread_id r = t"
    by (auto simp: runs_by_user_message_def dest!: map_of_SomeD)
  then show ?thesis using db_okD(6) [OF assms(1)] r(2) by auto
qed


section \<open>Sample requests, for the witnesses\<close>

definition api_env :: "time \<Rightarrow> run_env" where
  "api_env now = \<lparr>env_others = (\<lambda>_ sys. sys), env_now = (\<lambda>_. now), env_fate = (\<lambda>_. Tx_commits),
     env_message = id, env_schedules = True\<rparr>"

definition api_exec :: "run_system \<Rightarrow> exec" where
  "api_exec sys = \<lparr>exec_system = sys, exec_count = 0, exec_live = [], exec_checks = []\<rparr>"

definition api_request :: "uuid \<Rightarrow> creation_request" where
  "api_request n = \<lparr>req_user = 1, req_question = [97], req_thread = None, req_quota_time = 0, req_decided_at = 500,
     req_new_thread = n, req_new_message = n + 1, req_new_run = n + 2\<rparr>"

lemmas api_sample_defs = api_env_def api_exec_def api_request_def creation_ids_def

lemma cancel_reply_tells_the_run_witness:
  "\<exists>s'. cancel_research_run (api_env 5000) 1 12 (api_exec (sample_db sample_queued 1, {10, 11, 12}))
       = (Inr (Reply 204 No_body []), s')
     \<and> map_of (runs (fst (exec_system s'))) 12 = Some (sample_queued\<lparr>run_status := Failed, run_error_code := Some Cancelled\<rparr>)
     \<and> exec_live s' = []"
proof -
  let ?s = "api_exec (sample_db sample_queued 1, {10, 11, 12})"
  obtain reply s' where run: "cancel_research_run (api_env 5000) 1 12 ?s = (reply, s')" by fastforce
  have "read_run_for_user (sample_db sample_queued 1) 12 1 = Some \<lparr>rv_run_id = 12, rv_thread_id = 10, rv_status = Queued,
      rv_error_code = None, rv_attempt_epoch = 0\<rparr>"
    by (simp add: read_run_for_user_def sample_defs)
  then show ?thesis
    using cancel_reply_tells_the_run [OF sample_reached _ _ run] run
    by (auto simp: api_sample_defs is_finished_iff sample_defs recovery_deadline_def state_of_run_def
        deadline_for_run_def seconds_def)
qed

text \<open>Ten requests of a day use its quota up.\<close>

lemma quota_fills:
  "n \<le> 10 \<Longrightarrow> \<exists>db ids. reach run_start run_step (db, ids) \<and> finite ids \<and> used (quotas db) (1, 0) = int n"
proof (induction n)
  case 0
  have "reach run_start run_step (empty_db, {})" by (rule reach_start) (simp add: run_start_def)
  then show ?case by (intro exI [of _ empty_db] exI [of _ "{}"]) (simp add: used_def empty_db_def)
next
  case (Suc n)
  then obtain db ids where db: "reach run_start run_step (db, ids)" "finite ids" "used (quotas db) (1, 0) = int n" by auto
  obtain m where m: "\<forall>k \<in> ids. k < m" using db(2) unfolding finite_nat_set_iff_bounded by blast
  have fresh: "k \<notin> ids" if "m \<le> k" for k using that m by force
  have keys: "keys_issued db ids" using reached_keys [OF db(1)] .
  let ?create = "create_user_run db 1 [97] None 0 0 m (m + 1) (m + 2)"
  have day: "jst_date 0 = 0" by (simp add: jst_date_def seconds_def)
  have "\<nexists>e. ?create = Inl e"
  proof
    assume "\<exists>e. ?create = Inl e"
    then obtain e where e: "?create = Inl e" by blast
    have "m \<notin> fst ` set (threads db)" "m + 1 \<notin> fst ` set (messages db)" "m + 2 \<notin> fst ` set (runs db)"
      using keys fresh [of m] fresh [of "m + 1"] fresh [of "m + 2"] by (auto simp: keys_issued_def)
    from refused_creation [OF reached_ok [OF db(1)] _ this e] show False
      using e db(3) Suc.prems
      by (cases e) (auto simp: day DAILY_REQUEST_LIMIT_def create_user_run_def resolve_thread_def insert_thread_def Let_def
          split: sum.splits if_splits)
  qed
  then obtain db' c where c: "?create = Inr (db', c)" by (cases ?create) auto
  have "run_step (db, ids) (db', ids \<union> {m, m + 1, m + 2})"
    by (rule step_create [OF c]) (use fresh in auto)
  then show ?case
    using reach_step [OF db(1)] create_user_run_ok(5) [OF reached_ok [OF db(1)] c] db(2,3) day
    by (intro exI [of _ db'] exI [of _ "ids \<union> {m, m + 1, m + 2}"]) simp
qed

lemma full_quota_tells_when_to_return_witness:
  "\<exists>db ids n reply s'. create_research_response (api_env 700) True (api_request n) (api_exec (db, ids)) = (Inr reply, s')
     \<and> reply = Reply 429 (Daily_limit_body 10 (quota_reset_at 0)) [Retry_after 54000, No_store]"
proof -
  obtain db ids where db: "reach run_start run_step (db, ids)" "finite ids" "used (quotas db) (1, 0) = int 10"
    using quota_fills [of 10] by auto
  obtain m where m: "\<forall>k \<in> ids. k < m" using db(2) unfolding finite_nat_set_iff_bounded by blast
  have fresh: "k \<notin> ids" if "m \<le> k" for k using that m by force
  have day: "jst_date 0 = 0" by (simp add: jst_date_def seconds_def)
  have "m \<notin> fst ` set (threads db)" using reached_keys [OF db(1)] fresh [of m] by (auto simp: keys_issued_def)
  moreover have "map_of (quotas db) (1, 0) = Some 10" using db(3) by (auto simp: used_def split: option.splits)
  ultimately have "create_user_run db 1 [97] None 0 700 m (m + 1) (m + 2) = Inl (DailyLimitExceeded 0)"
    by (simp add: create_user_run_def resolve_thread_def insert_thread_def thread_constraint_def reserve_daily_quota_def
        Let_def day DAILY_REQUEST_LIMIT_def)
  then have run: "create_research_response (api_env 700) True (api_request m) (api_exec (db, ids))
      = (Inr (limit_reply 0 500), (api_exec (db, ids))\<lparr>exec_count := 1\<rparr>)"
    by (simp add: create_research_response_def run_bind_def in_transaction_def Let_def create_in_transaction_def
        run_return_def api_sample_defs)
  have reply: "limit_reply 0 500 = Reply 429 (Daily_limit_body 10 (quota_reset_at 0)) [Retry_after 54000, No_store]"
    by (simp add: limit_reply_def DAILY_REQUEST_LIMIT_def quota_retry_after_def quota_reset_at_def seconds_def)
  have "creation_ids (api_request m) \<inter> ids = {}" using fresh by (auto simp: api_sample_defs)
  then have "fst (exec_system ((api_exec (db, ids))\<lparr>exec_count := 1\<rparr>)) = db"
    using full_quota_tells_when_to_return [OF db(1) _ _ _ _ run [unfolded reply]] by (simp add: api_sample_defs)
  then show ?thesis using run reply by blast
qed

lemma accepted_run_is_enqueued_or_settled_witness:
  "\<exists>s'. create_research_response (api_env 1000) True (api_request 10) (api_exec (empty_db, {}))
       = (Inr (Reply 202 (Started_body 10 12) []), s')
     \<and> last (exec_checks s') = (12, seconds 61)"
proof -
  have start: "reach run_start run_step (empty_db, {})" by (rule reach_start) (simp add: run_start_def)
  obtain s' where run: "create_research_response (api_env 1000) True (api_request 10) (api_exec (empty_db, {}))
       = (Inr (Reply 202 (Started_body 10 12) []), s')"
    using sample_create
    by (auto simp: create_research_response_def run_bind_def in_transaction_def Let_def create_in_transaction_def
        run_return_def reserve_check_def api_sample_defs)
  have "\<forall>sys. leads_to run_step sys (env_others (api_env 1000) (exec_count (api_exec (empty_db, {})) + 1) sys)"
    by (simp add: api_sample_defs reach_start)
  from accepted_run_is_enqueued_or_settled [OF start _ this _ _ run]
  have "last (exec_checks s') = (12, seconds 61)"
    by (simp add: api_sample_defs deadline_check_time_def seconds_def)
  then show ?thesis using run by blast
qed

lemma failed_enqueue_gives_the_request_back_witness:
  "\<exists>s' row. create_research_response (api_env 1000) False (api_request 10) (api_exec (empty_db, {}))
       = (Inr (Reply 202 (Started_body 10 12) []), s')
     \<and> map_of (runs (fst (exec_system s'))) 12 = Some row \<and> run_status row = Failed
     \<and> used (quotas (fst (exec_system s'))) (1, 0) = 0"
proof -
  have start: "reach run_start run_step (empty_db, {})" by (rule reach_start) (simp add: run_start_def)
  have empty: "used (quotas empty_db) (1, 0) = 0" by (simp add: used_def empty_db_def)
  let ?s = "(api_exec (empty_db, {}))\<lparr>exec_system := (sample_db sample_queued 1, {10, 11, 12}), exec_count := 1\<rparr>"
  obtain r t where t: "record_failed_enqueue (api_env 1000) 12 ?s = (r, t)" by fastforce
  have "r = Inr None"
    using failed_enqueue [OF _ reached_ok [OF sample_reached] t] by (auto simp: api_sample_defs)
  then obtain s' where run: "create_research_response (api_env 1000) False (api_request 10) (api_exec (empty_db, {}))
       = (Inr (Reply 202 (Started_body 10 12) []), s')"
    using sample_create t
    by (auto simp: create_research_response_def run_bind_def in_transaction_def Let_def create_in_transaction_def
        run_return_def reserve_check_def api_sample_defs insert_commute)
  show ?thesis
    using failed_enqueue_gives_the_request_back [OF start _ _ _ _ _ _ _ run] run empty
    by (auto simp: api_sample_defs seconds_def)
qed


end
