(* ===== verification/SseEndpoint.thy ===== *)
theory SseEndpoint
  imports SseConnection ResearchApi
begin

text \<open>
  The endpoint of the live events (\<^verbatim>\<open>stream_research_run_events\<close> of
  \<^verbatim>\<open>agent/router.py\<close>) and the response that owns the lease of a connection
  (\<^verbatim>\<open>live_updates/sse_response.py\<close>), over the shared capacity, which other connections
  use between any two of its operations.
\<close>

section \<open>The identifier of the run\<close>

definition hex_digit :: "nat \<Rightarrow> nat" where
  "hex_digit d = (if d < 10 then 48 + d else 87 + d)"

definition is_lower_hex :: "nat \<Rightarrow> bool" where
  "is_lower_hex c \<longleftrightarrow> is_ascii_digit c \<or> 97 \<le> c \<and> c \<le> 102"

definition uuid_value :: "pystr \<Rightarrow> nat" where
  "uuid_value = foldl (\<lambda>a c. 16 * a + (if is_ascii_digit c then c - 48 else c - 87)) 0"

fun hex_text :: "nat \<Rightarrow> nat \<Rightarrow> pystr" where
  "hex_text 0 n = []"
| "hex_text (Suc k) n = hex_text k (n div 16) @ [hex_digit (n mod 16)]"

definition uuid_text :: "uuid \<Rightarrow> pystr" where
  "uuid_text n =
     (let h = hex_text 32 n in
      take 8 h @ [45] @ take 4 (drop 8 h) @ [45] @ take 4 (drop 12 h) @ [45] @ take 4 (drop 16 h) @ [45] @ drop 20 h)"

text \<open>
  \<^verbatim>\<open>UUID\<close> accepts more spellings; the comparison with the lower case of the text leaves
  the canonical one in any case.
\<close>

definition parse_sse_run_id :: "pystr \<Rightarrow> uuid option" where
  "parse_sse_run_id value =
     (let w = map ascii_lower value; h = filter (\<lambda>c. c \<noteq> 45) w in
      if length h = 32 \<and> list_all is_lower_hex h \<and> uuid_text (uuid_value h) = w then Some (uuid_value h) else None)"

definition parse_sse_cursor :: "pystr option \<Rightarrow> py_exc + pystr option" where
  "parse_sse_cursor value =
     (case value of None \<Rightarrow> Inr None | Some v \<Rightarrow> map_sum id Some (validate_redis_stream_id v))"

section \<open>Operations on the capacity\<close>

text \<open>
  What the endpoint gets: the other connections before each of its operations, the clock, the
  address of a new lease, the row of the run, whether the live store answers in time, and the
  reader of the connection that it prepares.
\<close>

record endpoint_env =
  ep_others :: "nat \<Rightarrow> sse_capacity \<Rightarrow> sse_capacity"
  ep_clock :: "nat \<Rightarrow> time"
  ep_closing :: "nat \<Rightarrow> time"
  ep_acquired :: time
  ep_lease :: nat
  ep_context :: "(run_status \<times> int) option awaited"
  ep_exists :: "bool awaited"
  ep_sse :: sse_env
  ep_timing :: sse_timing
  ep_started :: time

type_synonym 'a cap_io = "sse_capacity \<times> nat \<Rightarrow> (conn_exit + 'a) \<times> sse_capacity \<times> nat"

definition cap_return :: "'a \<Rightarrow> 'a cap_io" where
  "cap_return a s = (Inr a, s)"

definition cap_bind :: "'a cap_io \<Rightarrow> ('a \<Rightarrow> 'b cap_io) \<Rightarrow> 'b cap_io" where
  "cap_bind m f s = (case m s of (Inl x, s') \<Rightarrow> (Inl x, s') | (Inr a, s') \<Rightarrow> f a s')"

definition cap_op ::
    "endpoint_env \<Rightarrow> (sse_capacity \<Rightarrow> time \<Rightarrow> py_exc + sse_capacity \<times> 'a) \<Rightarrow> 'a cap_io" where
  "cap_op env f = (\<lambda>(c, k).
     let d = ep_others env k c in
     case f d (ep_clock env k) of
       Inl x \<Rightarrow> (Inl (Exit_raised x), d, k + 1)
     | Inr (c', a) \<Rightarrow> (Inr a, c', k + 1))"

definition cap_await :: "'a awaited \<Rightarrow> 'a cap_io" where
  "cap_await v s =
     ((case v of Value a \<Rightarrow> Inr a | Cancelled_await \<Rightarrow> Inl Exit_cancelled | Raised_await x \<Rightarrow> Inl (Exit_raised x)), s)"

text \<open>\<^verbatim>\<open>except BaseException\<close> with a clean-up, then the exception again.\<close>

definition cap_on_error :: "'a cap_io \<Rightarrow> unit cap_io \<Rightarrow> 'a cap_io" where
  "cap_on_error m cleanup s =
     (case m s of
        (Inl x, s') \<Rightarrow> (case cleanup s' of (Inl y, s'') \<Rightarrow> (Inl y, s'') | (Inr _, s'') \<Rightarrow> (Inl x, s''))
      | (Inr a, s') \<Rightarrow> (Inr a, s'))"

definition release_lease :: "endpoint_env \<Rightarrow> unit cap_io" where
  "release_lease env = cap_op env (\<lambda>c now. map_sum id (\<lambda>c'. (c', ())) (sse_release (ep_lease env) now c))"

text \<open>The calls that a connection makes on its lease.\<close>

fun lease_io :: "endpoint_env \<Rightarrow> lease_call list \<Rightarrow> unit cap_io" where
  "lease_io env [] = cap_return ()"
| "lease_io env (Lease_started # cs) =
     cap_bind (cap_op env (\<lambda>c now. map_sum id (\<lambda>c'. (c', ())) (mark_stream_started (ep_lease env) now c)))
       (\<lambda>_. lease_io env cs)"
| "lease_io env (Lease_reason reason # cs) =
     cap_bind (cap_op env (\<lambda>c now. Inr (mark_close_reason (ep_lease env) reason c, ()))) (\<lambda>_. lease_io env cs)"
| "lease_io env (Lease_release # cs) = cap_bind (release_lease env) (\<lambda>_. lease_io env cs)"

section \<open>The endpoint\<close>

definition SSE_RETRY_AFTER :: int where "SSE_RETRY_AFTER = 5"

definition sse_error_reply :: "nat \<Rightarrow> api_reply" where
  "sse_error_reply status =
     Reply status No_body (No_store # (if status = 429 \<or> status = 503 then [Retry_after SSE_RETRY_AFTER] else []))"

text \<open>
  A stream is the connection whose frames the response sends, of a queued run or of a running one.
  While the preparation of a running connection still reads, there is no reply.
\<close>

datatype endpoint_reply = Answered_with api_reply | Streams_queued sse_conn | Streams_running sse_conn | Still_preparing

definition new_connection :: "int \<Rightarrow> pystr option \<Rightarrow> time \<Rightarrow> sse_conn" where
  "new_connection e cursor started =
     \<lparr>conn_epoch = e, conn_cursor = cursor, conn_last_sent = started, conn_pending = None, conn_missing_since = None,
      conn_repinned_at = None, conn_frames = [], conn_lease = [], conn_step = 0, conn_results = []\<rparr>"

definition open_queued :: "endpoint_env \<Rightarrow> pystr option \<Rightarrow> endpoint_reply cap_io" where
  "open_queued env cursor =
     (case ep_exists env of
        Raised_await x \<Rightarrow>
          cap_bind (release_lease env) (\<lambda>_. cap_return (Answered_with (sse_error_reply 503)))
      | found \<Rightarrow> cap_bind (cap_await found) (\<lambda>_. cap_return (Streams_queued (new_connection 0 cursor (ep_started env)))))"

definition open_running :: "endpoint_env \<Rightarrow> nat \<Rightarrow> int \<Rightarrow> pystr option \<Rightarrow> endpoint_reply cap_io" where
  "open_running env n e cursor =
     (case prepare_running_sse_connection (ep_sse env) (ep_timing env) n (new_connection e cursor (ep_started env)) of
        None \<Rightarrow> cap_return Still_preparing
      | Some (res, conn) \<Rightarrow>
          cap_bind (lease_io env (conn_lease conn)) (\<lambda>_ s.
            case res of
              Inl x \<Rightarrow> (Inl x, s)
            | Inr (Inl Preflight_cursor_trimmed) \<Rightarrow> (Inr (Answered_with (sse_error_reply 409)), s)
            | Inr (Inl Preflight_unavailable) \<Rightarrow> (Inr (Answered_with (sse_error_reply 503)), s)
            | Inr (Inr _) \<Rightarrow> (Inr (Streams_running (conn\<lparr>conn_lease := []\<rparr>)), s)))"

definition endpoint_body :: "endpoint_env \<Rightarrow> nat \<Rightarrow> uuid \<Rightarrow> uuid \<Rightarrow> pystr option \<Rightarrow> endpoint_reply cap_io" where
  "endpoint_body env n run user cursor =
     cap_bind (cap_await (ep_context env)) (\<lambda>context.
     case context of
       None \<Rightarrow> cap_bind (release_lease env) (\<lambda>_. cap_return (Answered_with (Reply 404 No_body [No_store])))
     | Some (status, e) \<Rightarrow>
         if is_finished status
         then cap_bind (release_lease env) (\<lambda>_. cap_return (Answered_with (Reply 204 No_body [No_store])))
         else
           cap_bind (cap_op env (\<lambda>c _. try_acquire_owned (ep_lease env) run user c)) (\<lambda>rejection.
           if rejection \<noteq> None then cap_return (Answered_with (sse_error_reply 429))
           else if \<not> has_attempt_started e then open_queued env cursor
           else open_running env n e cursor))"

definition stream_research_run_events ::
    "endpoint_env \<Rightarrow> nat \<Rightarrow> pystr \<Rightarrow> pystr option \<Rightarrow> uuid \<Rightarrow> endpoint_reply cap_io" where
  "stream_research_run_events env n run_id last_event_id user =
     (case parse_sse_run_id run_id of
        None \<Rightarrow> cap_return (Answered_with (Http_exception 400 None))
      | Some run \<Rightarrow>
          (case parse_sse_cursor last_event_id of
             Inl _ \<Rightarrow> cap_return (Answered_with (Http_exception 400 None))
           | Inr cursor \<Rightarrow>
               cap_bind (cap_op env (\<lambda>c now. try_acquire_process (ep_lease env) now (ep_closing env) (ep_acquired env) c)) (\<lambda>lease.
               case lease of
                 None \<Rightarrow> cap_return (Answered_with (sse_error_reply 503))
               | Some _ \<Rightarrow> cap_on_error (endpoint_body env n run user cursor) (release_lease env))))"

text \<open>The response sends the frames, whose connection makes the calls, and releases in the end.\<close>

definition serve_response :: "endpoint_env \<Rightarrow> lease_call list \<Rightarrow> unit cap_io" where
  "serve_response env calls s =
     (case lease_io env calls s of
        (r, s') \<Rightarrow> (case release_lease env s' of (Inl y, s'') \<Rightarrow> (Inl y, s'') | (Inr _, s'') \<Rightarrow> (r, s'')))"

section \<open>Canonical identifiers\<close>

lemma hex_text_props:
  "length (hex_text k n) = k" "\<forall>c \<in> set (hex_text k n). is_lower_hex c" "n < 16 ^ k \<Longrightarrow> uuid_value (hex_text k n) = n"
proof -
  have digit: "is_lower_hex (hex_digit (n mod 16))" for n
    using mod_less_divisor [of 16 n] by (auto simp: hex_digit_def is_lower_hex_def is_ascii_digit_def)
  show "length (hex_text k n) = k" by (induction k arbitrary: n) simp_all
  show "\<forall>c \<in> set (hex_text k n). is_lower_hex c" using digit by (induction k arbitrary: n) auto
  have digit_value: "(if is_ascii_digit (hex_digit (n mod 16)) then hex_digit (n mod 16) - 48 else hex_digit (n mod 16) - 87) = n mod 16" for n
    using mod_less_divisor [of 16 n] by (auto simp: hex_digit_def is_ascii_digit_def)
  show "n < 16 ^ k \<Longrightarrow> uuid_value (hex_text k n) = n"
  proof (induction k arbitrary: n)
    case (Suc k)
    then have "uuid_value (hex_text k (n div 16)) = n div 16" by (simp add: less_mult_imp_div_less)
    then show ?case using digit_value [of n] by (simp add: uuid_value_def)
  qed (simp add: uuid_value_def)
qed

lemma run_id_roundtrip:
  assumes "n < 16 ^ 32"
  shows "parse_sse_run_id (uuid_text n) = Some n"
proof -
  let ?h = "hex_text 32 n"
  have chars: "\<forall>c \<in> set ?h. is_lower_hex c \<and> c \<noteq> 45 \<and> ascii_lower c = c"
    using hex_text_props(2) [of 32 n] by (auto simp: is_lower_hex_def is_ascii_digit_def ascii_lower_def)
  have sub: "set (take i (drop j ?h)) \<subseteq> set ?h" "set (drop j ?h) \<subseteq> set ?h" "set (take i ?h) \<subseteq> set ?h" for i j
    using set_take_subset set_drop_subset by fast+
  have low: "map ascii_lower xs = xs" "filter (\<lambda>c. c \<noteq> 45) xs = xs" if "set xs \<subseteq> set ?h" for xs
    using that chars by (auto intro!: map_idI simp: filter_id_conv)
  have "ascii_lower 45 = 45" by (simp add: ascii_lower_def)
  then have lower: "map ascii_lower (uuid_text n) = uuid_text n" by (simp add: uuid_text_def Let_def low sub)
  have "filter (\<lambda>c. c \<noteq> 45) (uuid_text n)
      = take 8 ?h @ take 4 (drop 8 ?h) @ take 4 (drop 12 ?h) @ take 4 (drop 16 ?h) @ drop 20 ?h"
    by (simp add: uuid_text_def Let_def low sub)
  also have "\<dots> = ?h"
    using append_take_drop_id [of 8 ?h] append_take_drop_id [of 4 "drop 8 ?h"] append_take_drop_id [of 4 "drop 12 ?h"]
      append_take_drop_id [of 4 "drop 16 ?h"] by (simp add: add.commute)
  finally have digits: "filter (\<lambda>c. c \<noteq> 45) (uuid_text n) = ?h" .
  show ?thesis
    unfolding parse_sse_run_id_def Let_def lower digits
    using hex_text_props(1,2) [of 32 n] hex_text_props(3) [OF assms] by (simp add: list_all_iff)
qed

section \<open>Leases only go one way\<close>

text \<open>A released lease stays released, and a lease keeps the run and the user that own it.\<close>

definition lease_le :: "sse_capacity \<Rightarrow> sse_capacity \<Rightarrow> bool" where
  "lease_le c c' \<longleftrightarrow> (\<forall>i l. map_of (lease_heap c) i = Some l \<longrightarrow>
     (\<exists>l'. map_of (lease_heap c') i = Some l' \<and> (lease_released l \<longrightarrow> lease_released l')
        \<and> (lease_run_id l \<noteq> None \<longrightarrow> lease_run_id l' = lease_run_id l \<and> lease_user_id l' = lease_user_id l)))"

lemma lease_le_refl [simp]: "lease_le c c" by (simp add: lease_le_def)

lemma lease_le_trans: "lease_le c d \<Longrightarrow> lease_le d e \<Longrightarrow> lease_le c e"
  unfolding lease_le_def by (metis (no_types, lifting))

lemma lease_le_same: "lease_heap c' = lease_heap c \<Longrightarrow> lease_le c c'"
  by (simp add: lease_le_def)

lemma lease_le_put:
  assumes "map_of (lease_heap c) i = Some l" "lease_heap c' = AList.update i l' (lease_heap c)"
    and "lease_released l \<Longrightarrow> lease_released l'"
    and "lease_run_id l \<noteq> None \<Longrightarrow> lease_run_id l' = lease_run_id l \<and> lease_user_id l' = lease_user_id l"
  shows "lease_le c c'"
  using assms by (auto simp: lease_le_def update_conv)

lemma release_process_heap:
  assumes "map_of (lease_heap c) i = Some l" "release_process i l c = Inr c'" "\<not> lease_released l"
  shows "lease_heap c' = AList.update i (l\<lparr>lease_released := True\<rparr>) (lease_heap c)"
  using assms by (auto simp: release_process_def put_lease_def split: if_splits)

lemma owned_heap:
  assumes "try_acquire_owned i r u c = Inr (c', rejection)" "map_of (lease_heap c) i = Some l"
  shows "\<not> lease_released l \<and> lease_run_id l = None
    \<and> lease_heap c' = AList.update i (if rejection = None then l\<lparr>lease_run_id := Some r, lease_user_id := Some u\<rparr>
        else l\<lparr>lease_released := True\<rparr>) (lease_heap c)"
  using assms release_process_heap [of "emit _ c" i l c']
  by (auto simp: try_acquire_owned_def map_sum_def emit_def put_lease_def split: if_splits sum.splits simp del: map_of_eq_Some_iff)

lemma capacity_step_le: "capacity_step c c' \<Longrightarrow> capacity_ok c \<Longrightarrow> lease_le c c'"
proof (induction rule: capacity_step.induct)
  case (step_acquire i now closing acquired_at c c' lease)
  obtain c1 where c1: "prune_leases (open_leases c) now closing c = Inr c1"
    "\<forall>j. map_of (lease_heap c1) j = (case map_of (lease_heap c) j of None \<Rightarrow> None
         | Some l \<Rightarrow> Some (if j \<in> set (open_leases c) \<and> \<not> now - process_acquired_at l < lease_ttl c
             then l\<lparr>lease_close_reason := Close_lease_expired, lease_released := True\<rparr> else l))"
    using prune_leases_ok [OF step_acquire(3)] by blast
  have "lease_le c c1" by (auto simp: lease_le_def c1(2) simp del: map_of_eq_Some_iff)
  moreover have "map_of (lease_heap c1) i = None"
    using step_acquire(2) by (simp add: c1(2) iffD2 [OF map_of_eq_None_iff])
  then have "lease_le c1 c'"
    using step_acquire(1) c1(1)
    by (auto simp: try_acquire_process_def Let_def emit_def put_lease_def lease_le_def update_conv split: if_splits)
  ultimately show ?case by (rule lease_le_trans)
next
  case (step_owned i r u c c' rejection)
  then obtain l where l: "map_of (lease_heap c) i = Some l" using try_acquire_owned_Inr by blast
  note heap = owned_heap [OF step_owned(1) l]
  show ?case
    by (rule lease_le_put [OF l heap [THEN conjunct2, THEN conjunct2]]) (use heap in auto)
next
  case (step_started i now c c')
  then show ?case
    by (auto simp: mark_stream_started_def emit_def put_lease_def split: option.splits if_splits
        intro: lease_le_put simp del: map_of_eq_Some_iff)
next
  case (step_reason i reason c c')
  then show ?case
    by (auto simp: mark_close_reason_def put_lease_def split: option.splits intro: lease_le_put simp del: map_of_eq_Some_iff)
next
  case (step_release i now c c')
  show ?case
  proof (cases "map_of (lease_heap c) i")
    case None
    then show ?thesis using step_release(1) by (simp add: sse_release_def)
  next
    case (Some l)
    then have "lease_heap c' = AList.update i (l\<lparr>lease_released := True\<rparr>) (lease_heap c)"
      using release_locked_ok [OF step_release(2) Some, of now] step_release(1) by (auto simp: sse_release_def)
    then show ?thesis by (rule lease_le_put [OF Some]) simp_all
  qed
qed

interpretation lease_sys: monotone_system capacity_start capacity_step capacity_ok lease_le
  by unfold_locales (auto intro: capacity_step_le lease_le_trans)

section \<open>The endpoint returns its lease\<close>

definition others_behave :: "endpoint_env \<Rightarrow> bool" where
  "others_behave env \<longleftrightarrow> (\<forall>k c. leads_to capacity_step c (ep_others env k c))"

definition holds_lease :: "nat \<Rightarrow> sse_capacity \<Rightarrow> bool" where
  "holds_lease i c \<longleftrightarrow> reach capacity_start capacity_step c \<and> i \<in> fst ` set (lease_heap c)"

definition gave_back :: "nat \<Rightarrow> sse_capacity \<Rightarrow> bool" where
  "gave_back i c \<longleftrightarrow> (\<exists>l. map_of (lease_heap c) i = Some l \<and> lease_released l)"

definition owned_by :: "nat \<Rightarrow> uuid \<Rightarrow> uuid \<Rightarrow> sse_capacity \<Rightarrow> bool" where
  "owned_by i r u c \<longleftrightarrow> (\<exists>l. map_of (lease_heap c) i = Some l \<and> lease_run_id l = Some r \<and> lease_user_id l = Some u)"

lemma lease_le_facts:
  assumes "lease_le c c'"
  shows "i \<in> fst ` set (lease_heap c) \<Longrightarrow> i \<in> fst ` set (lease_heap c')"
    and "gave_back i c \<Longrightarrow> gave_back i c'" and "owned_by i r u c \<Longrightarrow> owned_by i r u c'"
proof -
  have le: "\<exists>l'. map_of (lease_heap c') i = Some l' \<and> (lease_released l \<longrightarrow> lease_released l')
      \<and> (lease_run_id l \<noteq> None \<longrightarrow> lease_run_id l' = lease_run_id l \<and> lease_user_id l' = lease_user_id l)"
    if "map_of (lease_heap c) i = Some l" for l
    using assms that by (simp add: lease_le_def)
  show "i \<in> fst ` set (lease_heap c) \<Longrightarrow> i \<in> fst ` set (lease_heap c')"
    using le by (metis domD domI dom_map_of_conv_image_fst)
  show "gave_back i c \<Longrightarrow> gave_back i c'" using le unfolding gave_back_def by blast
  show "owned_by i r u c \<Longrightarrow> owned_by i r u c'" using le unfolding owned_by_def by fastforce
qed

lemma gave_back_closed:
  assumes "reach capacity_start capacity_step c" "gave_back i c"
  shows "i \<notin> set (open_leases c)"
  using assms open_lease_iff [OF capacity_sys.reach_inv [OF assms(1)], of i] by (auto simp: gave_back_def)

text \<open>A program that only takes steps of the capacity.\<close>

definition lease_program :: "nat \<Rightarrow> 'a cap_io \<Rightarrow> bool" where
  "lease_program i m \<longleftrightarrow> (\<forall>c k r c' k'. holds_lease i c \<longrightarrow> m (c, k) = (r, c', k') \<longrightarrow> holds_lease i c' \<and> lease_le c c')"

lemma program_return: "lease_program i (cap_return a)" by (simp add: lease_program_def cap_return_def)

lemma program_bind: "lease_program i m \<Longrightarrow> (\<And>a. lease_program i (f a)) \<Longrightarrow> lease_program i (cap_bind m f)"
  unfolding lease_program_def
proof (intro allI impI)
  fix c k r c' k'
  assume m: "\<forall>c k r c' k'. holds_lease i c \<longrightarrow> m (c, k) = (r, c', k') \<longrightarrow> holds_lease i c' \<and> lease_le c c'"
    and f: "\<And>a. \<forall>c k r c' k'. holds_lease i c \<longrightarrow> f a (c, k) = (r, c', k') \<longrightarrow> holds_lease i c' \<and> lease_le c c'"
    and h: "holds_lease i c" and run: "cap_bind m f (c, k) = (r, c', k')"
  obtain x d j where x: "m (c, k) = (x, d, j)" by (metis prod.collapse)
  then have d: "holds_lease i d" "lease_le c d" using m h by blast+
  show "holds_lease i c' \<and> lease_le c c'"
  proof (cases x)
    case (Inl y)
    then show ?thesis using d run x by (simp add: cap_bind_def)
  next
    case (Inr a)
    then have "f a (d, j) = (r, c', k')" using run x by (simp add: cap_bind_def)
    then show ?thesis using f d lease_le_trans by blast
  qed
qed

lemma program_await: "lease_program i (cap_await v)" by (simp add: lease_program_def cap_await_def)

lemma reach_leads_to: "leads_to step s t \<Longrightarrow> reach start step s \<Longrightarrow> reach start step t"
  by (induction rule: reach.induct) (auto intro: reach_step)

lemma others_step:
  assumes "others_behave env" "holds_lease i c"
  shows "holds_lease i (ep_others env k c)" "lease_le c (ep_others env k c)"
proof -
  have go: "leads_to capacity_step c (ep_others env k c)" using assms(1) by (simp add: others_behave_def)
  have r: "reach capacity_start capacity_step c" using assms(2) by (simp add: holds_lease_def)
  show le: "lease_le c (ep_others env k c)" by (rule lease_sys.leads_to_le [OF go capacity_sys.reach_inv [OF r]])
  show "holds_lease i (ep_others env k c)"
    using reach_leads_to [OF go r] assms(2) lease_le_facts(1) [OF le] by (simp add: holds_lease_def)
qed

lemma program_op:
  assumes "others_behave env" "\<And>c now c' a. f c now = Inr (c', a) \<Longrightarrow> capacity_step c c'"
  shows "lease_program i (cap_op env f)"
  unfolding lease_program_def
proof (intro allI impI)
  fix c k r c' k' assume h: "holds_lease i c" and run: "cap_op env f (c, k) = (r, c', k')"
  note o = others_step [OF assms(1) h, of k]
  consider "c' = ep_others env k c" | "capacity_step (ep_others env k c) c'"
    using run assms(2) by (auto simp: cap_op_def Let_def split: sum.splits prod.splits)
  then show "holds_lease i c' \<and> lease_le c c'"
  proof cases
    case 2
    have reached: "reach capacity_start capacity_step (ep_others env k c)" using o(1) by (simp add: holds_lease_def)
    have "lease_le (ep_others env k c) c'" by (rule capacity_step_le [OF 2 capacity_sys.reach_inv [OF reached]])
    then show ?thesis
      using o reach_step [OF reached 2] lease_le_facts(1) lease_le_trans by (metis holds_lease_def)
  qed (use o in auto)
qed

lemma program_release: "others_behave env \<Longrightarrow> lease_program i (release_lease env)"
  unfolding release_lease_def by (rule program_op) (auto simp: map_sum_def intro: step_release split: sum.splits)

lemma program_lease_io:
  assumes "others_behave env"
  shows "lease_program i (lease_io env cs)"
  using assms
  by (induction env cs rule: lease_io.induct)
    (auto intro!: program_return program_bind program_release program_op
      simp: map_sum_def intro: step_started step_reason split: sum.splits)

lemma release_gives_back:
  assumes "others_behave env" "holds_lease (ep_lease env) c" "release_lease env (c, k) = (r, c', k')"
  shows "r = Inr () \<and> holds_lease (ep_lease env) c' \<and> gave_back (ep_lease env) c'"
proof -
  let ?i = "ep_lease env"
  have held: "holds_lease ?i (ep_others env k c)" by (rule others_step [OF assms(1,2)])
  have ok: "capacity_ok (ep_others env k c)" using held capacity_sys.reach_inv by (simp add: holds_lease_def)
  obtain l where l: "map_of (lease_heap (ep_others env k c)) ?i = Some l"
    using held by (metis holds_lease_def map_of_eq_None_iff not_Some_eq)
  obtain d where d: "sse_release ?i (ep_clock env k) (ep_others env k c) = Inr d"
    "lease_heap d = AList.update ?i (l\<lparr>lease_released := True\<rparr>) (lease_heap (ep_others env k c))"
    using release_locked_ok [OF ok l, of "ep_clock env k"] l by (auto simp: sse_release_def)
  then have run: "r = Inr ()" "c' = d" using assms(3) by (auto simp: release_lease_def cap_op_def Let_def)
  have "holds_lease ?i c'" using program_release [OF assms(1)] assms(2,3) unfolding lease_program_def by blast
  then show ?thesis using run d(2) by (simp add: gave_back_def)
qed

lemma lease_io_gives_back:
  assumes "others_behave env"
  shows "holds_lease (ep_lease env) c \<Longrightarrow> Lease_release \<in> set cs \<Longrightarrow> lease_io env cs (c, k) = (Inr u, c', k')
    \<Longrightarrow> gave_back (ep_lease env) c'"
proof (induction cs arbitrary: c k)
  case (Cons x cs)
  define m where "m = (case x of
      Lease_started \<Rightarrow> cap_op env (\<lambda>c now. map_sum id (\<lambda>c'. (c', ())) (mark_stream_started (ep_lease env) now c))
    | Lease_reason reason \<Rightarrow> cap_op env (\<lambda>c now. Inr (mark_close_reason (ep_lease env) reason c, ()))
    | Lease_release \<Rightarrow> release_lease env)"
  have split: "lease_io env (x # cs) = cap_bind m (\<lambda>_. lease_io env cs)" by (cases x) (simp_all add: m_def)
  have prog: "lease_program (ep_lease env) m"
    by (cases x) (auto simp: m_def map_sum_def assms intro!: program_release program_op intro: step_started step_reason split: sum.splits)
  obtain y d j where y: "m (c, k) = (y, d, j)" by (metis prod.collapse)
  then have d: "holds_lease (ep_lease env) d" using prog Cons.prems(1) unfolding lease_program_def by blast
  have rest: "lease_io env cs (d, j) = (Inr u, c', k')"
    using Cons.prems(3) y by (auto simp: split cap_bind_def split: sum.splits)
  show ?case
  proof (cases "x = Lease_release")
    case True
    then have "gave_back (ep_lease env) d" using release_gives_back [OF assms Cons.prems(1)] y by (auto simp: m_def)
    moreover have "lease_le d c'" using program_lease_io [OF assms] d rest unfolding lease_program_def by blast
    ultimately show ?thesis using lease_le_facts(2) by blast
  next
    case False
    then show ?thesis using Cons.IH [OF d _ rest] Cons.prems(2) by simp
  qed
qed simp

text \<open>A preparation that fails has released the lease.\<close>

lemma failed_iteration:
  "prepare_iteration env tm s = (Inr (Some (Inl f)), s') \<Longrightarrow> Lease_release \<in> set (conn_lease s')"
  by (auto simp: prepare_iteration_def prepare_missing_def release_and_fail_def lease_call_io_def conn_bind_def conn_get_def
      conn_return_def conn_update_def ask_def read_clock_def split: if_splits option.splits sum.splits awaited.splits prod.splits)

lemma failed_preparation:
  "prepare_running_sse_connection env tm n s = Some (Inr (Inl f), s') \<Longrightarrow> Lease_release \<in> set (conn_lease s')"
proof (induction n arbitrary: s)
  case (Suc n)
  then show ?case using failed_iteration [of env tm s]
    by (auto split: prod.splits sum.splits option.splits)
qed simp

text \<open>
  The preparation of a running connection ends when time passes and the epochs that the reader
  reports are bounded: a read again needs a newer epoch or a stream that is missing for less than
  the grace period.
\<close>

lemma missing_continues:
  assumes "prepare_missing env tm s = (Inr None, s')"
  shows "conn_epoch s' = conn_epoch s \<and> conn_step s < conn_step s'
    \<and> (\<exists>since k. conn_missing_since s' = Some since \<and> conn_step s \<le> k
         \<and> env_clock env k - since < initial_stream_missing_grace tm
         \<and> since = (case conn_missing_since s of None \<Rightarrow> env_clock env (conn_step s) | Some t \<Rightarrow> t))"
proof (cases "conn_missing_since s")
  case None
  then have "env_clock env (conn_step s + 1) - env_clock env (conn_step s) < initial_stream_missing_grace tm
      \<and> conn_epoch s' = conn_epoch s \<and> conn_step s < conn_step s' \<and> conn_missing_since s' = Some (env_clock env (conn_step s))"
    using assms
    by (auto simp: prepare_missing_def conn_bind_def conn_get_def ask_def read_clock_def release_and_fail_def lease_call_io_def
        conn_update_def conn_return_def Let_def split: if_splits awaited.splits)
  then show ?thesis using None by (auto intro!: exI [of _ "conn_step s + 1"])
next
  case (Some t)
  then have "env_clock env (conn_step s) - t < initial_stream_missing_grace tm
      \<and> conn_epoch s' = conn_epoch s \<and> conn_step s < conn_step s' \<and> conn_missing_since s' = Some t"
    using assms
    by (auto simp: prepare_missing_def conn_bind_def conn_get_def ask_def read_clock_def release_and_fail_def lease_call_io_def
        conn_update_def conn_return_def Let_def split: if_splits awaited.splits)
  then show ?thesis using Some by (auto intro!: exI [of _ "conn_step s"])
qed

lemma iteration_continues:
  assumes "prepare_iteration env tm s = (Inr None, s')"
    and "\<forall>k e c result observed. env_read env k e c = Value result \<and> observed_epoch result = Some observed \<longrightarrow> observed \<le> M"
  shows "conn_step s' = conn_step s + 1 \<and> conn_missing_since s' = conn_missing_since s
        \<and> conn_epoch s < conn_epoch s' \<and> conn_epoch s' \<le> M
    \<or> conn_epoch s' = conn_epoch s \<and> conn_step s < conn_step s'
        \<and> (\<exists>since k. conn_missing_since s' = Some since \<and> conn_step s \<le> k
             \<and> env_clock env k - since < initial_stream_missing_grace tm
             \<and> since = (case conn_missing_since s of None \<Rightarrow> env_clock env (conn_step s + 1) | Some t \<Rightarrow> t))"
proof -
  obtain result where read: "env_read env (conn_step s) (conn_epoch s) (conn_cursor s) = Value result"
    using assms(1) by (cases "env_read env (conn_step s) (conn_epoch s) (conn_cursor s)")
      (auto simp: prepare_iteration_def conn_bind_def conn_get_def ask_def)
  let ?s = "s\<lparr>conn_step := conn_step s + 1\<rparr>"
  consider (advanced) observed where "observed_epoch result = Some observed" "\<not> observed \<le> conn_epoch s"
      "s' = advance_cursor (read_cursor result) (?s\<lparr>conn_epoch := observed\<rparr>)"
    | (missing) "prepare_missing env tm ?s = (Inr None, s')"
    using assms(1) read
    by (auto simp: prepare_iteration_def conn_bind_def conn_get_def ask_def release_and_fail_def lease_call_io_def
        conn_update_def conn_return_def split: if_splits option.splits)
  then show ?thesis
  proof cases
    case (advanced observed)
    then show ?thesis using assms(2) read by (auto simp: advance_cursor_def split: option.splits)
  next
    case missing
    define s1 where "s1 = ?s"
    have s1: "conn_step s1 = conn_step s + 1" "conn_missing_since s1 = conn_missing_since s" "conn_epoch s1 = conn_epoch s"
      by (simp_all add: s1_def)
    obtain since k where "conn_missing_since s' = Some since" "conn_step s + 1 \<le> k" "conn_epoch s' = conn_epoch s"
      "conn_step s + 1 < conn_step s'" "env_clock env k - since < initial_stream_missing_grace tm"
      "since = (case conn_missing_since s of None \<Rightarrow> env_clock env (conn_step s + 1) | Some t \<Rightarrow> t)"
      using missing_continues [OF missing [folded s1_def]] unfolding s1 by blast
    then show ?thesis by (intro disjI2 conjI exI [of _ since] exI [of _ k]) simp_all
  qed
qed

lemma preparation_ends:
  assumes "\<forall>k e c result observed. env_read env k e c = Value result \<and> observed_epoch result = Some observed \<longrightarrow> observed \<le> M"
    and "mono (env_clock env)" "\<forall>k \<ge> N. T + initial_stream_missing_grace tm \<le> env_clock env k" "env_clock env B \<le> T"
    and "case conn_missing_since s of None \<Rightarrow> conn_step s + nat (M - conn_epoch s) + 1 \<le> B | Some t \<Rightarrow> t \<le> T"
    and "N - conn_step s + nat (M - conn_epoch s) < n"
  shows "prepare_running_sse_connection env tm n s \<noteq> None"
  using assms(5,6)
proof (induction n arbitrary: s)
  case (Suc n)
  obtain r t where r: "prepare_iteration env tm s = (r, t)" by fastforce
  show ?case
  proof (cases "r = Inr None")
    case False
    then show ?thesis using r by (auto split: sum.splits option.splits)
  next
    case True
    have "(case conn_missing_since t of None \<Rightarrow> conn_step t + nat (M - conn_epoch t) + 1 \<le> B | Some x \<Rightarrow> x \<le> T)
      \<and> N - conn_step t + nat (M - conn_epoch t) < n"
      using iteration_continues [OF r [unfolded True] assms(1)]
    proof (elim disjE exE conjE)
      assume "conn_step t = conn_step s + 1" "conn_missing_since t = conn_missing_since s"
        "conn_epoch s < conn_epoch t" "conn_epoch t \<le> M"
      moreover from this have "nat (M - conn_epoch t) < nat (M - conn_epoch s)" by linarith
      ultimately show ?thesis using Suc.prems by (auto split: option.splits)
    next
      fix since k
      assume e: "conn_epoch t = conn_epoch s" "conn_step s < conn_step t" "conn_missing_since t = Some since" "conn_step s \<le> k"
        "env_clock env k - since < initial_stream_missing_grace tm"
        "since = (case conn_missing_since s of None \<Rightarrow> env_clock env (conn_step s + 1) | Some t \<Rightarrow> t)"
      have "since \<le> T"
      proof (cases "conn_missing_since s")
        case None
        then have "conn_step s + 1 \<le> B" using Suc.prems(1) by simp
        then show ?thesis using None e(6) assms(2,4) by (auto dest: monoD)
      qed (use e(6) Suc.prems(1) in simp)
      then have "\<not> N \<le> k" using e(5) assms(3) by force
      then show ?thesis using \<open>since \<le> T\<close> e Suc.prems(2) by auto
    qed
    then show ?thesis using Suc.IH [of t] r True by simp
  qed
qed simp

definition endpoint_post :: "endpoint_env \<Rightarrow> uuid \<Rightarrow> uuid \<Rightarrow> conn_exit + endpoint_reply \<Rightarrow> sse_capacity \<Rightarrow> bool" where
  "endpoint_post env run user r c \<longleftrightarrow> holds_lease (ep_lease env) c \<and> (case r of
       Inr (Answered_with _) \<Rightarrow> gave_back (ep_lease env) c
     | Inr Still_preparing \<Rightarrow> True
     | Inr _ \<Rightarrow> gave_back (ep_lease env) c \<or> owned_by (ep_lease env) run user c
     | Inl _ \<Rightarrow> True)"

lemma post_bind:
  assumes "lease_program (ep_lease env) m" "holds_lease (ep_lease env) c" "cap_bind m f (c, k) = (r, c', k')"
    and "\<And>a d j. m (c, k) = (Inr a, d, j) \<Longrightarrow> holds_lease (ep_lease env) d \<Longrightarrow> f a (d, j) = (r, c', k') \<Longrightarrow>
      endpoint_post env run user r c'"
  shows "endpoint_post env run user r c'"
proof -
  obtain x d j where x: "m (c, k) = (x, d, j)" by (metis prod.collapse)
  then have d: "holds_lease (ep_lease env) d" using assms(1,2) unfolding lease_program_def by blast
  show ?thesis
  proof (cases x)
    case (Inl y)
    then have "r = Inl y" "c' = d" using assms(3) x by (auto simp: cap_bind_def)
    then show ?thesis using d by (simp add: endpoint_post_def)
  next
    case (Inr a)
    then have "f a (d, j) = (r, c', k')" using assms(3) x by (simp add: cap_bind_def)
    then show ?thesis using assms(4) x d Inr by blast
  qed
qed

lemma release_then_answer:
  assumes "others_behave env" "holds_lease (ep_lease env) c"
    and "cap_bind (release_lease env) (\<lambda>_. cap_return (Answered_with reply)) (c, k) = (r, c', k')"
  shows "endpoint_post env run user r c'"
  by (rule post_bind [OF program_release [OF assms(1)] assms(2,3)])
    (auto simp: cap_return_def endpoint_post_def dest: release_gives_back [OF assms(1,2)])

lemma queued_post:
  assumes "others_behave env" "holds_lease (ep_lease env) c" "owned_by (ep_lease env) run user c"
    and "open_queued env cursor (c, k) = (r, c', k')"
  shows "endpoint_post env run user r c'"
proof (cases "ep_exists env")
  case (Raised_await x)
  then show ?thesis using release_then_answer [OF assms(1,2)] assms(4) by (simp add: open_queued_def)
qed (use assms(2-4) in \<open>auto simp: open_queued_def cap_bind_def cap_await_def cap_return_def endpoint_post_def\<close>)

lemma running_post:
  assumes "others_behave env" "holds_lease (ep_lease env) c" "owned_by (ep_lease env) run user c"
    and "open_running env n e cursor (c, k) = (r, c', k')"
  shows "endpoint_post env run user r c'"
proof (cases "prepare_running_sse_connection (ep_sse env) (ep_timing env) n (new_connection e cursor (ep_started env))")
  case None
  then show ?thesis using assms(2,4) by (auto simp: open_running_def cap_return_def endpoint_post_def)
next
  case (Some p)
  obtain res conn where p: "p = (res, conn)" by fastforce
  note prog = program_lease_io [OF assms(1), of "ep_lease env" "conn_lease conn"]
  show ?thesis
  proof (rule post_bind [OF prog assms(2) assms(4) [unfolded open_running_def Some p option.case prod.case]])
    fix a :: unit and d j
    assume calls: "lease_io env (conn_lease conn) (c, k) = (Inr a, d, j)" and d: "holds_lease (ep_lease env) d"
      and rest: "(case res of
              Inl x \<Rightarrow> (Inl x, d, j)
            | Inr (Inl Preflight_cursor_trimmed) \<Rightarrow> (Inr (Answered_with (sse_error_reply 409)), d, j)
            | Inr (Inl Preflight_unavailable) \<Rightarrow> (Inr (Answered_with (sse_error_reply 503)), d, j)
            | Inr (Inr _) \<Rightarrow> (Inr (Streams_running (conn\<lparr>conn_lease := []\<rparr>)), d, j)) = (r, c', k')"
    have "lease_le c d" using prog assms(2) calls unfolding lease_program_def by blast
    then have "owned_by (ep_lease env) run user d" using assms(3) lease_le_facts(3) by blast
    moreover have "gave_back (ep_lease env) d" if "res = Inr (Inl f)" for f
      by (rule lease_io_gives_back [OF assms(1,2) failed_preparation [OF Some [unfolded p that]] calls])
    ultimately show "endpoint_post env run user r c'"
      using rest d by (auto simp: endpoint_post_def split: sum.splits preflight_failure.splits)
  qed
qed

lemma program_owned: "others_behave env \<Longrightarrow> lease_program i (cap_op env (\<lambda>c _. try_acquire_owned j run user c))"
  by (rule program_op) (auto intro: step_owned)

lemma body_post:
  assumes "others_behave env" "holds_lease (ep_lease env) c"
    and "endpoint_body env n run user cursor (c, k) = (r, c', k')"
  shows "endpoint_post env run user r c'"
proof (rule post_bind [OF program_await assms(2) assms(3) [unfolded endpoint_body_def]])
  fix found d j
  assume d: "holds_lease (ep_lease env) d"
    and rest: "(case found of
       None \<Rightarrow> cap_bind (release_lease env) (\<lambda>_. cap_return (Answered_with (Reply 404 No_body [No_store])))
     | Some (status, e) \<Rightarrow>
         if is_finished status
         then cap_bind (release_lease env) (\<lambda>_. cap_return (Answered_with (Reply 204 No_body [No_store])))
         else
           cap_bind (cap_op env (\<lambda>c _. try_acquire_owned (ep_lease env) run user c)) (\<lambda>rejection.
           if rejection \<noteq> None then cap_return (Answered_with (sse_error_reply 429))
           else if \<not> has_attempt_started e then open_queued env cursor
           else open_running env n e cursor)) (d, j) = (r, c', k')"
  show "endpoint_post env run user r c'"
  proof (cases "\<exists>status e. found = Some (status, e) \<and> \<not> is_finished status")
    case False
    then show ?thesis using rest release_then_answer [OF assms(1) d] by (auto split: option.splits if_splits)
  next
    case True
    then obtain status e where "found = Some (status, e)" "\<not> is_finished status" by blast
    note run = rest [unfolded this(1) option.case prod.case if_not_P [OF this(2)]]
    show ?thesis
    proof (rule post_bind [OF program_owned [OF assms(1)] d run])
      fix rejection d' j'
      assume acq: "cap_op env (\<lambda>c _. try_acquire_owned (ep_lease env) run user c) (d, j) = (Inr rejection, d', j')"
        and d': "holds_lease (ep_lease env) d'"
        and rest': "(if rejection \<noteq> None then cap_return (Answered_with (sse_error_reply 429))
           else if \<not> has_attempt_started e then open_queued env cursor
           else open_running env n e cursor) (d', j') = (r, c', k')"
      let ?o = "ep_others env j d"
      obtain l where l: "map_of (lease_heap ?o) (ep_lease env) = Some l"
        using others_step(1) [OF assms(1) d] by (metis holds_lease_def map_of_eq_None_iff not_Some_eq)
      have "try_acquire_owned (ep_lease env) run user ?o = Inr (d', rejection)"
        using acq by (auto simp: cap_op_def Let_def split: sum.splits)
      note heap = owned_heap [OF this l]
      then have "rejection \<noteq> None \<Longrightarrow> gave_back (ep_lease env) d'" "rejection = None \<Longrightarrow> owned_by (ep_lease env) run user d'"
        by (simp_all add: gave_back_def owned_by_def)
      then show ?thesis
        using rest' d' queued_post [OF assms(1) d'] running_post [OF assms(1) d']
        by (auto simp: cap_return_def endpoint_post_def split: if_splits)
    qed
  qed
qed

lemma key_updated: "i \<in> fst ` set (AList.update i v t)"
  using map_of_SomeD [of "AList.update i v t" i v] by force

lemma acquire_heap:
  assumes "capacity_ok c" "try_acquire_process i now closing acquired_at c = Inr (c', lease)" "i \<notin> fst ` set (lease_heap c)"
  shows "if lease = None then i \<notin> fst ` set (lease_heap c') else i \<in> fst ` set (lease_heap c')"
proof -
  obtain c1 where c1: "prune_leases (open_leases c) now closing c = Inr c1"
    "\<forall>j. map_of (lease_heap c1) j = (case map_of (lease_heap c) j of None \<Rightarrow> None
         | Some l \<Rightarrow> Some (if j \<in> set (open_leases c) \<and> \<not> now - process_acquired_at l < lease_ttl c
             then l\<lparr>lease_close_reason := Close_lease_expired, lease_released := True\<rparr> else l))"
    using prune_leases_ok [OF assms(1)] by blast
  then have "i \<notin> fst ` set (lease_heap c1)"
    using assms(3) by (metis (no_types, lifting) map_of_eq_None_iff option.simps(4))
  then show ?thesis
    using assms(2) c1(1)
    by (auto simp: try_acquire_process_def Let_def emit_def put_lease_def key_updated split: if_splits)
qed

lemma serve_gives_back:
  assumes "others_behave env" "holds_lease (ep_lease env) c" "serve_response env calls (c, k) = (x, c', k')"
  shows "holds_lease (ep_lease env) c' \<and> gave_back (ep_lease env) c'"
proof -
  obtain y d j where y: "lease_io env calls (c, k) = (y, d, j)" by (metis prod.collapse)
  then have d: "holds_lease (ep_lease env) d"
    using program_lease_io [OF assms(1)] assms(2) unfolding lease_program_def by blast
  obtain z e i where z: "release_lease env (d, j) = (z, e, i)" by (metis prod.collapse)
  have "c' = e" using assms(3) y z by (auto simp: serve_response_def split: sum.splits)
  then show ?thesis using release_gives_back [OF assms(1) d z] by simp
qed

text \<open>
  C17. No connection is lost: whatever the other connections, the database, the live store, the
  reader and the client do, a request for the live events that is answered without a stream, or
  that ends with an exception or a cancellation, has given its lease back. A request that is
  answered with a stream holds a lease for its own run and user (unless it has outlived its time),
  and the response gives it back, whichever calls the connection made, even when no frame was ever
  asked for.
\<close>

theorem endpoint_returns_its_lease:
  assumes "reach capacity_start capacity_step c" "others_behave env"
    and "ep_lease env \<notin> fst ` set (lease_heap (ep_others env 0 c))"
    and "stream_research_run_events env n run_id last_event_id user (c, 0) = (r, c', k)"
  shows "reach capacity_start capacity_step c'
    \<and> (case r of
         Inr (Answered_with _) \<Rightarrow> ep_lease env \<notin> set (open_leases c')
       | Inl _ \<Rightarrow> ep_lease env \<notin> set (open_leases c')
       | Inr Still_preparing \<Rightarrow> True
       | Inr _ \<Rightarrow> (\<exists>run l. parse_sse_run_id run_id = Some run \<and> map_of (lease_heap c') (ep_lease env) = Some l
           \<and> (lease_released l \<or> lease_run_id l = Some run \<and> lease_user_id l = Some user))
         \<and> (\<forall>calls x c'' k'. serve_response env calls (c', k) = (x, c'', k') \<longrightarrow>
              reach capacity_start capacity_step c'' \<and> ep_lease env \<notin> set (open_leases c'')))"
proof -
  let ?i = "ep_lease env" and ?o = "ep_others env 0 c"
  have ro: "reach capacity_start capacity_step ?o"
    by (rule reach_leads_to [OF _ assms(1)]) (use assms(2) in \<open>simp add: others_behave_def\<close>)
  have oko: "capacity_ok ?o" by (rule capacity_sys.reach_inv [OF ro])
  have closed: "?i \<notin> set (open_leases d)"
    if "reach capacity_start capacity_step d" "?i \<notin> fst ` set (lease_heap d)" for d
    using open_lease_iff [OF capacity_sys.reach_inv [OF that(1)], of ?i] that(2) by (force dest: map_of_SomeD)
  have "lease_le c ?o"
    using assms(2) lease_sys.leads_to_le capacity_sys.reach_inv [OF assms(1)] by (auto simp: others_behave_def)
  then have start: "?i \<notin> set (open_leases c)" using closed [OF assms(1)] assms(3) lease_le_facts(1) by blast
  show ?thesis
  proof (cases "\<exists>run cursor. parse_sse_run_id run_id = Some run \<and> parse_sse_cursor last_event_id = Inr cursor")
    case False
    then show ?thesis
      using assms(1,4) start
      by (auto simp: stream_research_run_events_def cap_return_def split: option.splits sum.splits)
  next
    case True
    then obtain run cursor where run: "parse_sse_run_id run_id = Some run" "parse_sse_cursor last_event_id = Inr cursor" by blast
    obtain d lease where acq: "try_acquire_process ?i (ep_clock env 0) (ep_closing env) (ep_acquired env) ?o = Inr (d, lease)"
      using try_acquire_process_ok [OF oko assms(3)] by blast
    have rd: "reach capacity_start capacity_step d" by (rule reach_step [OF ro step_acquire [OF acq assms(3)]])
    note heap = acquire_heap [OF oko acq assms(3)]
    have step: "(case lease of
                 None \<Rightarrow> cap_return (Answered_with (sse_error_reply 503))
               | Some _ \<Rightarrow> cap_on_error (endpoint_body env n run user cursor) (release_lease env)) (d, 1) = (r, c', k)"
      using assms(4) run acq by (simp add: stream_research_run_events_def cap_bind_def cap_op_def Let_def)
    show ?thesis
    proof (cases lease)
      case None
      then show ?thesis using step heap rd closed [OF rd] by (auto simp: cap_return_def)
    next
      case (Some x)
      have hd: "holds_lease ?i d" using heap rd Some by (simp add: holds_lease_def)
      obtain r1 c1 k1 where body: "endpoint_body env n run user cursor (d, 1) = (r1, c1, k1)" by (metis prod.collapse)
      note post = body_post [OF assms(2) hd body]
      then have h1: "holds_lease ?i c1" by (simp add: endpoint_post_def)
      have on_error: "cap_on_error (endpoint_body env n run user cursor) (release_lease env) (d, 1) = (r, c', k)"
        using step Some by simp
      show ?thesis
      proof (cases r1)
        case (Inl y)
        obtain r2 c2 k2 where rel: "release_lease env (c1, k1) = (r2, c2, k2)" by (metis prod.collapse)
        note given = release_gives_back [OF assms(2) h1 rel]
        then have "r = Inl y" "c' = c2" using on_error body Inl rel by (auto simp: cap_on_error_def)
        then show ?thesis using given gave_back_closed by (auto simp: holds_lease_def)
      next
        case (Inr reply)
        then have eq: "r = Inr reply" "c' = c1" using on_error body by (auto simp: cap_on_error_def)
        have served: "reach capacity_start capacity_step c'' \<and> ?i \<notin> set (open_leases c'')"
          if "serve_response env calls (c', k) = (x, c'', k')" for calls x c'' k'
          using serve_gives_back [OF assms(2) _ that] h1 eq(2) gave_back_closed by (auto simp: holds_lease_def)
        show ?thesis
          using post h1 served gave_back_closed run(1)
          by (cases reply) (auto simp: eq Inr endpoint_post_def holds_lease_def gave_back_def owned_by_def)
      qed
    qed
  qed
qed

lemma still_preparing:
  assumes "stream_research_run_events env n run_id last_event_id user s = (Inr Still_preparing, s')"
  shows "\<exists>status e cursor. ep_context env = Value (Some (status, e))
    \<and> prepare_running_sse_connection (ep_sse env) (ep_timing env) n (new_connection e cursor (ep_started env)) = None"
proof -
  obtain t run cursor where body: "endpoint_body env n run user cursor t = (Inr Still_preparing, s')"
    using assms
    by (auto simp: stream_research_run_events_def cap_bind_def cap_return_def cap_on_error_def
        split: option.splits sum.splits prod.splits)
  then obtain status e u where e: "ep_context env = Value (Some (status, e))"
    and "open_queued env cursor u = (Inr Still_preparing, s') \<or> open_running env n e cursor u = (Inr Still_preparing, s')"
    by (auto simp: endpoint_body_def cap_bind_def cap_return_def cap_await_def
        split: option.splits sum.splits prod.splits awaited.splits if_splits)
  moreover have "open_queued env cursor u \<noteq> (Inr Still_preparing, s')"
    by (auto simp: open_queued_def cap_bind_def cap_return_def split: awaited.splits sum.splits prod.splits)
  ultimately have "open_running env n e cursor u = (Inr Still_preparing, s')" by blast
  then have "prepare_running_sse_connection (ep_sse env) (ep_timing env) n (new_connection e cursor (ep_started env)) = None"
    by (auto simp: open_running_def cap_bind_def
        split: option.splits sum.splits prod.splits preflight_failure.splits)
  then show ?thesis using e by blast
qed

text \<open>
  C18. A request for the live events is always answered: as time passes, and when the epochs that
  the reader reports are bounded, a bounded number of reads is enough for every capacity, run,
  cursor and user; the preparation of a connection never goes on for ever.
\<close>

theorem endpoint_always_replies:
  assumes "mono (env_clock (ep_sse env))" "\<forall>t. \<exists>k. t \<le> env_clock (ep_sse env) k"
    and "\<forall>k e c result observed. env_read (ep_sse env) k e c = Value result \<and> observed_epoch result = Some observed
      \<longrightarrow> observed \<le> M"
  shows "\<exists>n. \<forall>run_id last_event_id user s.
    fst (stream_research_run_events env n run_id last_event_id user s) \<noteq> Inr Still_preparing"
proof -
  let ?sse = "ep_sse env" and ?e = "case ep_context env of Value (Some (status, e)) \<Rightarrow> e | _ \<Rightarrow> 0"
  define B where "B = nat (M - ?e) + 1"
  obtain N where N: "env_clock ?sse B + initial_stream_missing_grace (ep_timing env) \<le> env_clock ?sse N"
    using assms(2) by blast
  then have late: "\<forall>k \<ge> N. env_clock ?sse B + initial_stream_missing_grace (ep_timing env) \<le> env_clock ?sse k"
    using assms(1) by (meson monoD order_trans)
  have "fst (stream_research_run_events env (N + B) run_id last_event_id user s) \<noteq> Inr Still_preparing"
    for run_id last_event_id user s
  proof
    assume "fst (stream_research_run_events env (N + B) run_id last_event_id user s) = Inr Still_preparing"
    then obtain s' where "stream_research_run_events env (N + B) run_id last_event_id user s = (Inr Still_preparing, s')"
      by (metis prod.collapse)
    from still_preparing [OF this] obtain status e cursor where e: "ep_context env = Value (Some (status, e))"
      "prepare_running_sse_connection ?sse (ep_timing env) (N + B) (new_connection e cursor (ep_started env)) = None" by blast
    then have "B = nat (M - e) + 1" by (simp add: B_def)
    then show False
      using preparation_ends [OF assms(3,1) late order_refl, of "new_connection e cursor (ep_started env)" "N + B"] e(2)
      by (simp add: new_connection_def)
  qed
  then show ?thesis by blast
qed

section \<open>A sample request, for the witnesses\<close>

text \<open>A request for a queued run, on a process without connections; the client is gone at once.\<close>

definition sample_capacity :: sse_capacity where
  "sample_capacity = \<lparr>run_limit = 4, user_limit = 8, process_limit = 100, lease_ttl = seconds 120, active_process = 0,
     active_by_run = [], active_by_user = [], open_leases = [], lease_heap = [], sse_metrics = []\<rparr>"

definition sample_endpoint :: endpoint_env where
  "sample_endpoint = \<lparr>ep_others = (\<lambda>_ c. c), ep_clock = (\<lambda>k. int k), ep_closing = (\<lambda>_. 0), ep_acquired = 0, ep_lease = 7,
     ep_context = Value (Some (Queued, 0)), ep_exists = Value True,
     ep_sse = \<lparr>env_clock = (\<lambda>k. int k), env_disconnected = (\<lambda>_. Cancelled_await), env_read = (\<lambda>_ _ _. Cancelled_await),
       env_sleep = (\<lambda>_ _. Cancelled_await), env_yield = (\<lambda>_. Cancelled_await), env_start = (\<lambda>_. Cancelled_await),
       env_context = (\<lambda>_. Cancelled_await)\<rparr>,
     ep_timing = default_timing, ep_started = 0\<rparr>"

lemma endpoint_returns_its_lease_witness:
  "\<exists>conn c'. stream_research_run_events sample_endpoint 0 (uuid_text 12) None 1 (sample_capacity, 0)
       = (Inr (Streams_queued conn), c', 2)
     \<and> 7 \<in> set (open_leases c')
     \<and> (\<forall>x c'' k'. serve_response sample_endpoint [] (c', 2) = (x, c'', k') \<longrightarrow> 7 \<notin> set (open_leases c''))"
proof -
  have start: "reach capacity_start capacity_step sample_capacity"
  proof (rule reach_start)
    have "make_capacity 4 8 100 (seconds 120) = Inr sample_capacity"
      by (simp add: make_capacity_def sample_capacity_def seconds_def)
    then show "capacity_start sample_capacity" unfolding capacity_start_def by blast
  qed
  have others: "others_behave sample_endpoint" by (simp add: others_behave_def sample_endpoint_def reach_start)
  have "parse_sse_run_id (uuid_text 12) = Some 12" by (rule run_id_roundtrip) simp
  then obtain conn c' where run: "stream_research_run_events sample_endpoint 0 (uuid_text 12) None 1 (sample_capacity, 0)
       = (Inr (Streams_queued conn), c', 2)" and lease: "7 \<in> set (open_leases c')"
    by (auto simp: stream_research_run_events_def parse_sse_cursor_def cap_bind_def cap_op_def Let_def
        try_acquire_process_def put_lease_def cap_on_error_def endpoint_body_def cap_await_def try_acquire_owned_def
        count_of_def is_finished_def ACTIVE_STATUSES_def has_attempt_started_def open_queued_def cap_return_def
        sample_endpoint_def sample_capacity_def)
  have "ep_lease sample_endpoint = 7" by (simp add: sample_endpoint_def)
  then have "\<forall>x c'' k'. serve_response sample_endpoint [] (c', 2) = (x, c'', k') \<longrightarrow> 7 \<notin> set (open_leases c'')"
    using endpoint_returns_its_lease [OF start others _ run] by (simp add: sample_endpoint_def sample_capacity_def)
  then show ?thesis using run lease by blast
qed

lemma endpoint_always_replies_witness:
  "\<exists>n. fst (stream_research_run_events sample_endpoint n (uuid_text 12) None 1 (sample_capacity, 0)) \<noteq> Inr Still_preparing"
proof -
  have increasing: "mono (env_clock (ep_sse sample_endpoint))" by (simp add: sample_endpoint_def mono_def)
  have unbounded: "\<forall>t. \<exists>k. t \<le> env_clock (ep_sse sample_endpoint) k"
  proof
    fix t show "\<exists>k. t \<le> env_clock (ep_sse sample_endpoint) k"
      by (rule exI [of _ "nat t"]) (simp add: sample_endpoint_def)
  qed
  have bounded: "\<forall>k e c result observed. env_read (ep_sse sample_endpoint) k e c = Value result
      \<and> observed_epoch result = Some observed \<longrightarrow> observed \<le> 0"
    by (simp add: sample_endpoint_def)
  show ?thesis using endpoint_always_replies [OF increasing unbounded bounded] by blast
qed

end
