(* ===== verification/Spec2Isabelle.thy ===== *)
theory Spec2Isabelle
  imports AnswerAssembly VisibleText RunGuarantees RelayProperties LiveReader SseProperties
    ResearchHandoff ThreadViews ExecutionProperties ApiProperties SseEndpoint
begin

text \<open>
  Verification of the research agent and of the outbox of Vector (\<^verbatim>\<open>src/backend/app\<close>).

  The program. A user asks a question in a thread. One transaction of the API admits it: it takes
  one of ten daily requests, adds the question and a queued run, and puts an event into the outbox
  (\<^verbatim>\<open>agent/running/creation.py\<close>). A relay leases events of the outbox table and sends
  them to SQS (\<^verbatim>\<open>outbox/relay/\<close>, \<^verbatim>\<open>aws/sqs/\<close>). A worker that
  receives the message starts an attempt of the run (\<^verbatim>\<open>agent/run_execution.py\<close>):
  it plans the research, collects and reviews evidence, streams an answer with citations, and
  completes the run (\<^verbatim>\<open>agent/answering_runner.py\<close>). Every change of a run is a
  decision on its locked row (\<^verbatim>\<open>agent/running/state.py\<close>,
  \<^verbatim>\<open>state_repository.py\<close>); sweeps finish the runs that have passed a deadline and
  give the quota of queued ones back. What happens in an attempt is published to a Redis stream,
  which the browser follows over SSE connections of bounded number
  (\<^verbatim>\<open>agent/live_updates/\<close>).

  Shared vocabulary. \<^theory_text>\<open>VectorPrelude\<close> has the types (instants and durations
  are integers of microseconds, Python exceptions are values), reachability, and the locales of a
  transition system with an invariant and with an order that its steps respect;
  \<^theory_text>\<open>PyText\<close> the string operations of Python on code points;
  \<^theory_text>\<open>PyJson\<close> the JSON text of \<^verbatim>\<open>json.dumps\<close> and
  \<^verbatim>\<open>json.loads\<close> with its round trip.

  Answers. \<^theory_text>\<open>AnswerContract\<close> (\<^verbatim>\<open>agent/contract.py\<close>) is
  the validated result. \<^theory_text>\<open>Citations\<close> models the citation markers and the
  integrity report, \<^theory_text>\<open>VisibleText\<close> the incremental filter of the live
  display; the filter equals the removal of the markers by the regular expression, for every
  chunking. \<^theory_text>\<open>Planning\<close> (\<^verbatim>\<open>planning/\<close>),
  \<^theory_text>\<open>Collection\<close> (\<^verbatim>\<open>evidence_collection/\<close>),
  \<^theory_text>\<open>EvidenceReview\<close> (\<^verbatim>\<open>evidence_review/\<close>) and
  \<^theory_text>\<open>AnswerAssembly\<close> (\<^verbatim>\<open>answering/\<close>) follow the phases of
  a run: the query budget, the hit pool, the numbered options and the restored evidence, the
  grounding of the answer and the assembled result, each total for every response of a model.
  \<^theory_text>\<open>ResearchHandoff\<close> (\<^verbatim>\<open>research_handoff/\<close>) is the memory
  that a thread keeps between runs, with its JSON; \<^theory_text>\<open>ThreadReads\<close> what a
  worker reads of the thread, \<^theory_text>\<open>ThreadViews\<close>
  (\<^verbatim>\<open>threads/\<close>) what the client sees of its threads, with the invariant
  that every question has its run.

  Runs. \<^theory_text>\<open>DailyQuota\<close>, \<^theory_text>\<open>RunState\<close>,
  \<^theory_text>\<open>RunStore\<close> and \<^theory_text>\<open>DeadlineSweep\<close> hold the rows of
  the tables with their constraints and one definition per transaction
  (\<^verbatim>\<open>agent/running/\<close>, \<^verbatim>\<open>models/agent_*.py\<close>).
  \<^theory_text>\<open>RunInvariants\<close> has the invariant of the tables and the order in which a
  row may change, \<^theory_text>\<open>RunSystem\<close> the step relation of all transactions in any
  order and at any time. \<^theory_text>\<open>RunProperties\<close> and
  \<^theory_text>\<open>RunGuarantees\<close> show consistency, finality, fencing of superseded
  attempts, the acceptance window of an answer, that no operation raises, and the quota at every
  finish, at creation and in a sweep.

  Attempts. \<^theory_text>\<open>RunWorker\<close> is the world of a worker: before each of its
  accesses any other transactions may have run, an access commits, fails, or commits although the
  worker sees an error. \<^theory_text>\<open>AnsweringRunner\<close> and
  \<^theory_text>\<open>RunExecution\<close> are the worker's program over this world.
  \<^theory_text>\<open>AttemptSteps\<close> proves what an operation in the turn of an attempt does and
  that other transactions respect the attempt; \<^theory_text>\<open>StorableAnswers\<close> that every
  result fits the tables; \<^theory_text>\<open>ExecutionProperties\<close> that an attempt settles its
  run, announces one end, and finishes when nothing disturbs it.

  Requests. \<^theory_text>\<open>ResearchApi\<close> has the handlers of
  \<^verbatim>\<open>agent/router.py\<close> that create, cancel, delete and read runs and threads, with the
  recovery that reading a thread starts, as programs over the same world, and
  \<^theory_text>\<open>ApiProperties\<close> that their replies tell what became of the run.
  \<^theory_text>\<open>SseEndpoint\<close> is the endpoint of the live events over the capacity that all
  connections share: it returns its lease on every path, and it always replies.

  Outbox. \<^theory_text>\<open>HttpFailure\<close>, \<^theory_text>\<open>SqsMessages\<close> and
  \<^theory_text>\<open>OutboxRetry\<close> classify failures and decide on another attempt, with the
  binary floating point of the delay. \<^theory_text>\<open>OutboxStore\<close> is the table and its
  statements, \<^theory_text>\<open>OutboxSystem\<close> and \<^theory_text>\<open>OutboxProperties\<close>
  the system of any number of relays with the exclusion of leases, \<^theory_text>\<open>OutboxRelay\<close>
  and \<^theory_text>\<open>RelayProperties\<close> one run of a relay with other transactions in
  between.

  Live updates. \<^theory_text>\<open>LiveStream\<close> (\<^verbatim>\<open>stream.py\<close>) has the
  events, the publisher and the reader, \<^theory_text>\<open>AnswerDelta\<close>
  (\<^verbatim>\<open>answer_delta.py\<close>) the reporter of the answer text,
  \<^theory_text>\<open>SseCapacity\<close> and \<^theory_text>\<open>SseConnection\<close>
  (\<^verbatim>\<open>sse.py\<close>) the leases and the connections. \<^theory_text>\<open>LiveReader\<close>
  and \<^theory_text>\<open>SseProperties\<close> follow an answer from its fragments to the reader and
  show that connections end, deliver and return their leases.

  Parameters. Third-party code is an argument of the definitions that use it: what a model or a
  provider returns in each attempt, the replies of Redis and of SQS, the server's clock, random
  identifiers and tokens, \<^verbatim>\<open>str.casefold\<close>, pydantic's conversion of instants and
  of URLs. Hypotheses state their documented behaviour: identifiers are fresh, a hit is an instance
  of its type with a \<^verbatim>\<open>WebUrl\<close>, other transactions are transactions of the
  program.

  Bounds. Loops over attempts run over the two attempt numbers of the source; the clause for an
  empty list of attempts stands for the unreachable end of the loop and is never taken. The loops
  of the connections and of their preparation take the number of polls as fuel, and
  the liveness theorems show that some number is enough; the reader reads a stream of at most 4096 entries, the length at which the
  publisher trims it. The other recursions are structural or have a measure.

  Not modelled. Recorders, spans, metrics and logs have no effect on a result, and the adapters of
  the model SDKs are parameters. Authentication and the parsing of a request come before the
  handlers, and the queries that build a detail of a thread read one snapshot. The cancellation of a worker or of a publication in progress, a database
  failure inside a relay run, failures when a runtime scope closes, NUL characters (which
  PostgreSQL refuses) and Python's limits on the digits of an integer and on recursion are left
  out; a time limit of a phase is an outcome of its model calls. The other applications of the
  repository (the collection of articles, their analysis, the infrastructure and its scripts, the
  front end) are separate programs that share the outbox and are not part of this development.
\<close>

end
